(* ===== verification/Nachos_Prelude.thy ===== *)
theory Nachos_Prelude
  imports Main "HOL-Library.Word" "HOL-Library.Signed_Division" "HOL-Library.Multiset"
begin

unbundle bit_operations_syntax

text \<open>
  What every component of the development shares: the outcome type of a C++ routine, the
  counting loops of the source, the \<^verbatim>\<open>ASSERT\<close>, \<^verbatim>\<open>divRoundUp\<close>, \<^verbatim>\<open>min\<close> and \<^verbatim>\<open>max\<close> macros, the
  byte encoding of a 32-bit little-endian host, and the generic lemmas on lists, sums and
  words the component proofs use. A routine that can fail returns \<open>fault + 'a\<close>:
  \<open>Inl f\<close> when the C++ program stops or leaves defined behaviour, \<open>Inr x\<close> when it returns.
\<close>

section \<open>Outcomes\<close>

datatype fault =
    AssertFailed      \<comment> \<open>ASSERT(c) with c false: message and Abort()\<close>
  | NullPointer       \<comment> \<open>a null pointer is dereferenced\<close>
  | OutOfBounds       \<comment> \<open>an array is indexed outside its bounds\<close>
  | Diverges          \<comment> \<open>a loop of the source never ends\<close>
  | HostTrap          \<comment> \<open>host arithmetic outside C's defined range (INT_MIN / -1)\<close>
  | Halted            \<comment> \<open>the simulator exits through Interrupt::Halt\<close>

type_synonym 'a outcome = "fault + 'a"
type_synonym u8 = "8 word"
type_synonym u16 = "16 word"
type_synonym u32 = "32 word"

named_theorems outcome_simps "unfolding rules of the outcome combinators"

definition bindR :: "'a outcome \<Rightarrow> ('a \<Rightarrow> 'b outcome) \<Rightarrow> 'b outcome" where
  "bindR m f = (case m of Inl e \<Rightarrow> Inl e | Inr x \<Rightarrow> f x)"

definition ASSERT :: "bool \<Rightarrow> unit outcome" where
  "ASSERT c = (if c then Inr () else Inl AssertFailed)"

fun forR :: "'i list \<Rightarrow> ('i \<Rightarrow> 's \<Rightarrow> 's outcome) \<Rightarrow> 's \<Rightarrow> 's outcome" where
  "forR [] f s = Inr s"
| "forR (i # is) f s = bindR (f i s) (forR is f)"

lemma bindR_simps [simp, outcome_simps]:
  "bindR (Inl e) f = Inl e"
  "bindR (Inr x) f = f x"
  by (simp_all add: bindR_def)

lemma bindR_eq_Inr: "bindR m f = Inr y \<longleftrightarrow> (\<exists>x. m = Inr x \<and> f x = Inr y)"
  by (cases m) auto

lemma bindR_eq_Inl: "bindR m f = Inl e \<longleftrightarrow> m = Inl e \<or> (\<exists>x. m = Inr x \<and> f x = Inl e)"
  by (cases m) auto

lemma bindR_assoc: "bindR (bindR m f) g = bindR m (\<lambda>x. bindR (f x) g)"
  by (cases m) auto

lemma bindR_cong [fundef_cong]:
  "m = n \<Longrightarrow> (\<And>x. n = Inr x \<Longrightarrow> f x = g x) \<Longrightarrow> bindR m f = bindR n g"
  by (cases n) auto

lemma ASSERT_simps [simp, outcome_simps]:
  "ASSERT True = Inr ()"
  "ASSERT False = Inl AssertFailed"
  by (simp_all add: ASSERT_def)

lemma ASSERT_eq [simp]:
  "ASSERT c = Inr u \<longleftrightarrow> c"
  "ASSERT c = Inl e \<longleftrightarrow> \<not> c \<and> e = AssertFailed"
  by (auto simp: ASSERT_def)

lemma forR_append: "forR (xs @ ys) f s = bindR (forR xs f s) (forR ys f)"
proof (induction xs arbitrary: s)
  case (Cons x xs)
  then show ?case by (cases "f x s") simp_all
qed simp

text \<open>
  The rule every counting loop is proved with: an invariant indexed by the iterations already
  done, kept by each iteration, which then cannot fail.
\<close>

lemma forR_invariant:
  assumes "I 0 s"
    and "\<And>k s. k < length xs \<Longrightarrow> I k s \<Longrightarrow> \<exists>s'. f (xs ! k) s = Inr s' \<and> I (Suc k) s'"
  shows "\<exists>s'. forR xs f s = Inr s' \<and> I (length xs) s'"
  using assms
proof (induction xs arbitrary: s I)
  case Nil
  then show ?case by simp
next
  case (Cons x xs)
  obtain s1 where s1: "f x s = Inr s1" "I (Suc 0) s1"
    using Cons.prems(2) [of 0 s] Cons.prems(1) by auto
  have "\<exists>s'. forR xs f s1 = Inr s' \<and> I (Suc (length xs)) s'"
    by (rule Cons.IH [where I = "\<lambda>k. I (Suc k)"]) (use s1 Cons.prems(2) in force)+
  with s1 show ?case by simp
qed

lemma forR_Inr_invariant:
  assumes "forR xs f s = Inr s'" and "I s"
    and "\<And>x s s'. x \<in> set xs \<Longrightarrow> I s \<Longrightarrow> f x s = Inr s' \<Longrightarrow> I s'"
  shows "I s'"
  using assms
proof (induction xs arbitrary: s)
  case (Cons x xs)
  from Cons.prems(1) obtain s1 where "f x s = Inr s1" "forR xs f s1 = Inr s'"
    by (auto simp: bindR_eq_Inr)
  with Cons.IH [of s1] Cons.prems(2,3) show ?case by auto
qed simp

text \<open>Total correctness: the routine returns, with a value that satisfies \<open>P\<close>.\<close>

definition returns :: "('a \<Rightarrow> bool) \<Rightarrow> 'a outcome \<Rightarrow> bool" where
  "returns P r \<longleftrightarrow> (case r of Inl _ \<Rightarrow> False | Inr x \<Rightarrow> P x)"

lemma returns_simps [simp]: "returns P (Inr x) \<longleftrightarrow> P x" "\<not> returns P (Inl e)"
  by (simp_all add: returns_def)

lemma returns_iff: "returns P r \<longleftrightarrow> (\<exists>x. r = Inr x \<and> P x)"
  by (cases r) simp_all

lemma returns_bind:
  "returns Q r \<Longrightarrow> (\<And>x. Q x \<Longrightarrow> returns P (f x)) \<Longrightarrow> returns P (bindR r f)"
  by (cases r) simp_all

lemma returns_mono: "returns Q r \<Longrightarrow> (\<And>x. Q x \<Longrightarrow> P x) \<Longrightarrow> returns P r"
  by (cases r) simp_all

text \<open>
  Refinement of outcomes: the concrete routine fails exactly as the abstract one does, and
  returns a related value where that returns.
\<close>

definition refines :: "('c \<Rightarrow> 'a \<Rightarrow> bool) \<Rightarrow> 'c outcome \<Rightarrow> 'a outcome \<Rightarrow> bool" where
  "refines R m n \<longleftrightarrow> (case n of Inl e \<Rightarrow> m = Inl e | Inr y \<Rightarrow> \<exists>x. m = Inr x \<and> R x y)"

lemma refines_simps [simp]:
  "refines R m (Inl e) \<longleftrightarrow> m = Inl e"
  "refines R m (Inr y) \<longleftrightarrow> (\<exists>x. m = Inr x \<and> R x y)"
  by (simp_all add: refines_def)

lemma refines_bind:
  assumes "refines R m n" and "\<And>x y. R x y \<Longrightarrow> refines S (f x) (g y)"
  shows "refines S (bindR m f) (bindR n g)"
  using assms by (cases n) auto

section \<open>Macros of \<^verbatim>\<open>lib/utility.h\<close>\<close>

text \<open>C's \<^verbatim>\<open>/\<close> and \<^verbatim>\<open>%\<close> truncate towards zero, which is \<open>sdiv\<close> and \<open>smod\<close>.\<close>

definition divRoundDown :: "int \<Rightarrow> int \<Rightarrow> int" where
  "divRoundDown n s = n sdiv s"

definition divRoundUp :: "int \<Rightarrow> int \<Rightarrow> int" where
  "divRoundUp n s = n sdiv s + (if n smod s > 0 then 1 else 0)"

lemma sdiv_nonneg: "0 \<le> a \<Longrightarrow> 0 < b \<Longrightarrow> a sdiv b = a div (b::int)"
  by (cases "a = 0") (simp_all add: signed_divide_int_def)

lemma smod_nonneg: "0 \<le> a \<Longrightarrow> 0 < b \<Longrightarrow> a smod b = a mod (b::int)"
  by (cases "a = 0") (simp_all add: signed_modulo_int_def)

lemma divRoundUp_nonneg:
  assumes "0 \<le> n" and "0 < s"
  shows "divRoundUp n s = (n + s - 1) div s"
proof (cases "n mod s = 0")
  case True
  then obtain q where q: "n = q * s" by (metis dvd_def mod_eq_0_iff_dvd mult.commute)
  have "(n + s - 1) div s = q + (s - 1) div s"
    using assms(2) q by (simp add: div_mult_self3 add_diff_eq [symmetric])
  then show ?thesis
    using assms q by (simp add: divRoundUp_def sdiv_nonneg smod_nonneg div_pos_pos_trivial)
next
  case False
  have r: "0 < n mod s" "n mod s < s"
    using False assms(2) pos_mod_sign [of s n] pos_mod_bound [of s n] by linarith+
  have e: "n + s - 1 = (n mod s - 1) + (n div s + 1) * s"
    using mult_div_mod_eq [of s n] by (simp add: algebra_simps)
  have "(n + s - 1) div s = n div s + 1 + (n mod s - 1) div s"
    unfolding e using assms(2) by (subst div_mult_self1) simp_all
  also have "(n mod s - 1) div s = 0" using r by (simp add: div_pos_pos_trivial)
  finally show ?thesis
    using assms r by (simp add: divRoundUp_def sdiv_nonneg smod_nonneg)
qed

lemma divRoundUp_bounds:
  assumes "0 \<le> n" and "0 < s"
  shows "n \<le> divRoundUp n s * s" and "divRoundUp n s * s < n + s" and "0 \<le> divRoundUp n s"
proof -
  have e: "divRoundUp n s * s = n + s - 1 - (n + s - 1) mod s"
    using assms by (simp add: divRoundUp_nonneg minus_mod_eq_div_mult)
  have m: "0 \<le> (n + s - 1) mod s" "(n + s - 1) mod s < s" using assms by simp_all
  from e m show "n \<le> divRoundUp n s * s" "divRoundUp n s * s < n + s" by linarith+
  show "0 \<le> divRoundUp n s"
    using assms by (simp add: divRoundUp_nonneg pos_imp_zdiv_nonneg_iff)
qed

section \<open>Lists\<close>

lemma list_update_swap_nth: "i < length xs \<Longrightarrow> xs[i := v] ! j = (if i = j then v else xs ! j)"
  by auto

lemma length_filter_upd_True:
  assumes "distinct xs" and "x \<in> set xs" and "\<not> P x"
  shows "length (filter (\<lambda>y. P y \<or> y = x) xs) = Suc (length (filter P xs))"
  using assms
proof (induction xs)
  case (Cons y ys)
  show ?case
  proof (cases "y = x")
    case True
    with Cons.prems have "filter (\<lambda>z. P z \<or> z = x) ys = filter P ys"
      by (intro filter_cong) auto
    with True Cons.prems show ?thesis by simp
  next
    case False
    with Cons show ?thesis by auto
  qed
qed simp

end
