(* ===== verification/Linked_List.thy ===== *)
theory Linked_List
  imports Nachos_Prelude
begin

text \<open>
  The templates \<^verbatim>\<open>List<T>\<close>, \<^verbatim>\<open>SortedList<T>\<close> and \<^verbatim>\<open>ListIterator<T>\<close> of \<^verbatim>\<open>code/lib/list.cc\<close> and
  \<^verbatim>\<open>list.h\<close>, at the level of pointers: a list object holds the addresses of its first and
  last \<^verbatim>\<open>ListElement\<close> and a count, and the elements live in an explicit store. \<open>new\<close> takes the
  next unused address and \<open>delete\<close> removes a cell, so a dangling access is a fault of the
  model. A traversal gets one unit of fuel more than there are addresses: a walk that long
  has met a cell twice, so running out means that the loop of the source never ends
  (\<open>Diverges\<close>). The relation \<open>list_rep\<close> says that the cells form the list of items; the
  lemmas show that every method refines the operation on that list, trips no assertion, and
  touches no cell of another list. The functions of the second part are the list operations the
  rest of the development uses.
\<close>

section \<open>State and operations\<close>

record 'a cell =
  item :: 'a
  nxt :: "nat option"

record 'a lst =
  cells :: "nat \<rightharpoonup> 'a cell"
  brk :: nat
  lfirst :: "nat option"
  llast :: "nat option"
  numInList :: int

definition List_new :: "(nat \<rightharpoonup> 'a cell) \<Rightarrow> nat \<Rightarrow> 'a lst" where
  "List_new hp b = \<lparr>cells = hp, brk = b, lfirst = None, llast = None, numInList = 0\<rparr>"

definition new_element :: "'a lst \<Rightarrow> 'a \<Rightarrow> 'a lst \<times> nat" where
  "new_element s itm =
     (s\<lparr>cells := (cells s)(brk s \<mapsto> \<lparr>item = itm, nxt = None\<rparr>), brk := Suc (brk s)\<rparr>, brk s)"

definition deref :: "'a lst \<Rightarrow> nat option \<Rightarrow> 'a cell outcome" where
  "deref s p = (case p of None \<Rightarrow> Inl NullPointer
     | Some a \<Rightarrow> (case cells s a of None \<Rightarrow> Inl NullPointer | Some c \<Rightarrow> Inr c))"

definition set_next :: "'a lst \<Rightarrow> nat option \<Rightarrow> nat option \<Rightarrow> 'a lst outcome" where
  "set_next s p q = bindR (deref s p) (\<lambda>c.
     Inr (s\<lparr>cells := (cells s)(the p \<mapsto> c\<lparr>nxt := q\<rparr>)\<rparr>))"

definition delete :: "'a lst \<Rightarrow> nat option \<Rightarrow> 'a lst outcome" where
  "delete s p = bindR (deref s p) (\<lambda>_. Inr (s\<lparr>cells := (cells s)(the p := None)\<rparr>))"

definition IsEmpty :: "'a lst \<Rightarrow> bool" where
  "IsEmpty s = (numInList s = 0)"

definition Front :: "'a lst \<Rightarrow> 'a outcome" where
  "Front s = bindR (deref s (lfirst s)) (\<lambda>c. Inr (item c))"

fun IsInList_from :: "nat \<Rightarrow> 'a lst \<Rightarrow> nat option \<Rightarrow> 'a \<Rightarrow> bool outcome" where
  "IsInList_from 0 s ptr x = Inl Diverges"
| "IsInList_from (Suc fuel) s ptr x =
     (if ptr \<noteq> None
      then bindR (deref s ptr) (\<lambda>c. if x = item c then Inr True else IsInList_from fuel s (nxt c) x)
      else Inr False)"

definition IsInList :: "'a lst \<Rightarrow> 'a \<Rightarrow> bool outcome" where
  "IsInList s x = IsInList_from (Suc (brk s)) s (lfirst s) x"

definition Append :: "'a lst \<Rightarrow> 'a \<Rightarrow> 'a lst outcome" where
  "Append s0 x =
     (let (s, element) = new_element s0 x in
      bindR (IsInList s x) (\<lambda>b. bindR (ASSERT (\<not> b)) (\<lambda>_.
      bindR (if IsEmpty s
             then Inr (s\<lparr>lfirst := Some element, llast := Some element\<rparr>)
             else bindR (set_next s (llast s) (Some element)) (\<lambda>s'. Inr (s'\<lparr>llast := Some element\<rparr>)))
      (\<lambda>s. let s = s\<lparr>numInList := numInList s + 1\<rparr> in
       bindR (IsInList s x) (\<lambda>b. bindR (ASSERT b) (\<lambda>_. Inr s))))))"

definition Prepend :: "'a lst \<Rightarrow> 'a \<Rightarrow> 'a lst outcome" where
  "Prepend s0 x =
     (let (s, element) = new_element s0 x in
      bindR (IsInList s x) (\<lambda>b. bindR (ASSERT (\<not> b)) (\<lambda>_.
      bindR (if IsEmpty s
             then Inr (s\<lparr>lfirst := Some element, llast := Some element\<rparr>)
             else bindR (set_next s (Some element) (lfirst s)) (\<lambda>s'. Inr (s'\<lparr>lfirst := Some element\<rparr>)))
      (\<lambda>s. let s = s\<lparr>numInList := numInList s + 1\<rparr> in
       bindR (IsInList s x) (\<lambda>b. bindR (ASSERT b) (\<lambda>_. Inr s))))))"

definition RemoveFront :: "'a lst \<Rightarrow> ('a lst \<times> 'a) outcome" where
  "RemoveFront s =
     (let element = lfirst s in
      bindR (ASSERT (\<not> IsEmpty s)) (\<lambda>_.
      bindR (deref s (lfirst s)) (\<lambda>c. let thing = item c in
      bindR (if lfirst s = llast s then Inr (s\<lparr>lfirst := None, llast := None\<rparr>)
             else bindR (deref s element) (\<lambda>c. Inr (s\<lparr>lfirst := nxt c\<rparr>)))
      (\<lambda>s. bindR (delete (s\<lparr>numInList := numInList s - 1\<rparr>) element) (\<lambda>s.
       Inr (s, thing))))))"

fun Remove_loop :: "nat \<Rightarrow> 'a lst \<Rightarrow> nat option \<Rightarrow> nat option \<Rightarrow> 'a \<Rightarrow> 'a lst outcome" where
  "Remove_loop 0 s prev ptr x = Inl Diverges"
| "Remove_loop (Suc fuel) s prev ptr x =
     (if ptr \<noteq> None
      then bindR (deref s ptr) (\<lambda>c.
        if x = item c
        then bindR (set_next s prev (nxt c)) (\<lambda>s.
             let s = (if nxt c = None then s\<lparr>llast := prev\<rparr> else s) in
             bindR (delete s ptr) (\<lambda>s. Inr (s\<lparr>numInList := numInList s - 1\<rparr>)))
        else Remove_loop fuel s ptr (nxt c) x)
      else Inl AssertFailed)" \<comment> \<open>the loop ends with ptr = NULL and ASSERT(ptr != NULL) fails\<close>

definition Remove :: "'a lst \<Rightarrow> 'a \<Rightarrow> 'a lst outcome" where
  "Remove s x =
     bindR (IsInList s x) (\<lambda>b. bindR (ASSERT b) (\<lambda>_.
     bindR (deref s (lfirst s)) (\<lambda>c.
     bindR (if x = item c
            then bindR (RemoveFront s) (\<lambda>(s', removed). bindR (ASSERT (x = removed)) (\<lambda>_. Inr s'))
            else Remove_loop (Suc (brk s)) s (lfirst s) (nxt c) x)
     (\<lambda>s. bindR (IsInList s x) (\<lambda>b. bindR (ASSERT (\<not> b)) (\<lambda>_. Inr s))))))"

text \<open>\<^verbatim>\<open>Apply\<close> calls a function on every item in order; the model returns the items it is called on.\<close>

fun Apply_from :: "nat \<Rightarrow> 'a lst \<Rightarrow> nat option \<Rightarrow> 'a list outcome" where
  "Apply_from 0 s ptr = Inl Diverges"
| "Apply_from (Suc fuel) s ptr =
     (if ptr \<noteq> None
      then bindR (deref s ptr) (\<lambda>c. bindR (Apply_from fuel s (nxt c)) (\<lambda>xs. Inr (item c # xs)))
      else Inr [])"

definition Apply :: "'a lst \<Rightarrow> 'a list outcome" where
  "Apply s = Apply_from (Suc (brk s)) s (lfirst s)"

text \<open>
  \<^verbatim>\<open>SortedList::Insert\<close>, for the comparison function the list was made with. The middle
  insertion returns inside the loop, without the closing assertion.
\<close>

fun Insert_loop :: "nat \<Rightarrow> ('a \<Rightarrow> 'a \<Rightarrow> int) \<Rightarrow> 'a lst \<Rightarrow> nat \<Rightarrow> nat option \<Rightarrow> 'a \<Rightarrow> 'a lst outcome" where
  "Insert_loop 0 compare s element ptr x = Inl Diverges"
| "Insert_loop (Suc fuel) compare s element ptr x =
     bindR (deref s ptr) (\<lambda>c.
     if nxt c \<noteq> None
     then bindR (deref s (nxt c)) (\<lambda>d.
       if compare x (item d) < 0
       then bindR (set_next s (Some element) (nxt c)) (\<lambda>s.
            bindR (set_next s ptr (Some element)) (\<lambda>s. Inr (s\<lparr>numInList := numInList s + 1\<rparr>)))
       else Insert_loop fuel compare s element (nxt c) x)
     else bindR (set_next s (llast s) (Some element)) (\<lambda>s.
          let s = s\<lparr>llast := Some element, numInList := numInList s + 1\<rparr> in
          bindR (IsInList s x) (\<lambda>b. bindR (ASSERT b) (\<lambda>_. Inr s))))"

definition Insert :: "('a \<Rightarrow> 'a \<Rightarrow> int) \<Rightarrow> 'a lst \<Rightarrow> 'a \<Rightarrow> 'a lst outcome" where
  "Insert compare s0 x =
     (let (s, element) = new_element s0 x in
      bindR (IsInList s x) (\<lambda>b. bindR (ASSERT (\<not> b)) (\<lambda>_.
      if IsEmpty s
      then let s = s\<lparr>lfirst := Some element, llast := Some element, numInList := numInList s + 1\<rparr> in
           bindR (IsInList s x) (\<lambda>b. bindR (ASSERT b) (\<lambda>_. Inr s))
      else bindR (deref s (lfirst s)) (\<lambda>c.
        if compare x (item c) < 0
        then bindR (set_next s (Some element) (lfirst s)) (\<lambda>s.
             let s = s\<lparr>lfirst := Some element, numInList := numInList s + 1\<rparr> in
             bindR (IsInList s x) (\<lambda>b. bindR (ASSERT b) (\<lambda>_. Inr s)))
        else Insert_loop (Suc (brk s)) compare s element (lfirst s) x))))"

fun SanityCheck_loop :: "nat \<Rightarrow> 'a lst \<Rightarrow> int \<Rightarrow> nat option \<Rightarrow> int outcome" where
  "SanityCheck_loop 0 s numFound ptr = Inl Diverges"
| "SanityCheck_loop (Suc fuel) s numFound ptr =
     (if ptr \<noteq> llast s
      then bindR (ASSERT (numFound + 1 \<le> numInList s)) (\<lambda>_.
           bindR (deref s ptr) (\<lambda>c. SanityCheck_loop fuel s (numFound + 1) (nxt c)))
      else Inr numFound)"

definition SanityCheck :: "'a lst \<Rightarrow> unit outcome" where
  "SanityCheck s =
     (if lfirst s = None then ASSERT (numInList s = 0 \<and> llast s = None)
      else if lfirst s = llast s
      then bindR (deref s (llast s)) (\<lambda>c. ASSERT (numInList s = 1 \<and> nxt c = None))
      else bindR (SanityCheck_loop (Suc (nat (numInList s))) s 1 (lfirst s)) (\<lambda>numFound.
           bindR (ASSERT (numFound = numInList s)) (\<lambda>_.
           bindR (deref s (llast s)) (\<lambda>c. ASSERT (nxt c = None)))))"

fun sorted_loop :: "nat \<Rightarrow> ('a \<Rightarrow> 'a \<Rightarrow> int) \<Rightarrow> 'a lst \<Rightarrow> nat option \<Rightarrow> nat option \<Rightarrow> unit outcome" where
  "sorted_loop 0 compare s prev ptr = Inl Diverges"
| "sorted_loop (Suc fuel) compare s prev ptr =
     (if ptr \<noteq> None
      then bindR (deref s prev) (\<lambda>c. bindR (deref s ptr) (\<lambda>d.
           bindR (ASSERT (compare (item c) (item d) \<le> 0)) (\<lambda>_.
           sorted_loop fuel compare s ptr (nxt d))))
      else Inr ())"

definition SortedList_SanityCheck :: "('a \<Rightarrow> 'a \<Rightarrow> int) \<Rightarrow> 'a lst \<Rightarrow> unit outcome" where
  "SortedList_SanityCheck compare s =
     bindR (SanityCheck s) (\<lambda>_.
     if lfirst s \<noteq> llast s
     then bindR (deref s (lfirst s)) (\<lambda>c. sorted_loop (Suc (brk s)) compare s (lfirst s) (nxt c))
     else Inr ())"

text \<open>\<^verbatim>\<open>ListIterator\<close>: the iterator is the address it points to.\<close>

definition ListIterator_new :: "'a lst \<Rightarrow> nat option" where
  "ListIterator_new s = lfirst s"

definition ListIterator_IsDone :: "nat option \<Rightarrow> bool" where
  "ListIterator_IsDone current = (current = None)"

definition ListIterator_Item :: "'a lst \<Rightarrow> nat option \<Rightarrow> 'a outcome" where
  "ListIterator_Item s current =
     bindR (ASSERT (\<not> ListIterator_IsDone current)) (\<lambda>_. bindR (deref s current) (\<lambda>c. Inr (item c)))"

definition ListIterator_Next :: "'a lst \<Rightarrow> nat option \<Rightarrow> nat option outcome" where
  "ListIterator_Next s current = bindR (deref s current) (\<lambda>c. Inr (nxt c))"

definition List_SelfTest :: "'a lst \<Rightarrow> 'a list \<Rightarrow> 'a lst outcome" where
  "List_SelfTest s p =
     bindR (SanityCheck s) (\<lambda>_.
     bindR (ASSERT (IsEmpty s \<and> lfirst s = None)) (\<lambda>_.
     bindR (ASSERT (ListIterator_IsDone (ListIterator_new s))) (\<lambda>_.
     bindR (forR p (\<lambda>x s. bindR (Append s x) (\<lambda>s. bindR (IsInList s x) (\<lambda>b.
        bindR (ASSERT b) (\<lambda>_. bindR (ASSERT (\<not> IsEmpty s)) (\<lambda>_. Inr s))))) s) (\<lambda>s.
     bindR (SanityCheck s) (\<lambda>_.
     bindR (forR p (\<lambda>x s. bindR (Remove s x) (\<lambda>s. bindR (IsInList s x) (\<lambda>b.
        bindR (ASSERT (\<not> b)) (\<lambda>_. Inr s)))) s) (\<lambda>s.
     bindR (ASSERT (IsEmpty s)) (\<lambda>_. bindR (SanityCheck s) (\<lambda>_. Inr s))))))))"

section \<open>What the cells represent\<close>

fun lseg :: "(nat \<rightharpoonup> 'a cell) \<Rightarrow> nat option \<Rightarrow> (nat \<times> 'a) list \<Rightarrow> nat option \<Rightarrow> bool" where
  "lseg h p [] q \<longleftrightarrow> p = q"
| "lseg h p ((a, x) # as) q \<longleftrightarrow> p = Some a \<and> (\<exists>n. h a = Some \<lparr>item = x, nxt = n\<rparr> \<and> lseg h n as q)"

definition list_rep :: "'a lst \<Rightarrow> (nat \<times> 'a) list \<Rightarrow> bool" where
  "list_rep s as \<longleftrightarrow> lseg (cells s) (lfirst s) as None \<and> distinct (map fst as)
     \<and> dom (cells s) \<subseteq> {..<brk s}
     \<and> llast s = (if as = [] then None else Some (fst (last as)))
     \<and> numInList s = int (length as)"

definition represents :: "'a lst \<Rightarrow> 'a list \<Rightarrow> bool" where
  "represents s xs \<longleftrightarrow> (\<exists>as. list_rep s as \<and> map snd as = xs)"

definition same_elsewhere :: "nat set \<Rightarrow> 'a lst \<Rightarrow> 'a lst \<Rightarrow> bool" where
  "same_elsewhere A s t \<longleftrightarrow> brk s \<le> brk t \<and> (\<forall>a. a \<notin> A \<longrightarrow> a < brk s \<longrightarrow> cells t a = cells s a)"

lemma lseg_upd [simp]: "a \<notin> fst ` set as \<Longrightarrow> lseg (h(a := v)) p as q = lseg h p as q"
  by (induction as arbitrary: p) auto

lemma lseg_append: "lseg h p (as @ bs) q \<longleftrightarrow> (\<exists>r. lseg h p as r \<and> lseg h r bs q)"
proof (induction as arbitrary: p)
  case (Cons a as)
  then show ?case by (cases a) auto
qed auto

lemma lseg_dom: "lseg h p as q \<Longrightarrow> fst ` set as \<subseteq> dom h"
  by (induction h p as q rule: lseg.induct) auto

lemma lseg_None [simp]: "lseg h None as None \<longleftrightarrow> as = []"
  by (cases as) auto

lemma lseg_SomeD: "lseg h (Some a) as None \<Longrightarrow> \<exists>x n as'. as = (a, x) # as' \<and> h a = Some \<lparr>item = x, nxt = n\<rparr> \<and> lseg h n as' None"
  by (cases as) auto

lemma deref_Some [simp]: "cells s a = Some c \<Longrightarrow> deref s (Some a) = Inr c"
  by (simp add: deref_def)

lemma list_rep_fuel:
  assumes "list_rep s as"
  shows "length as \<le> brk s"
proof -
  have "fst ` set as \<subseteq> {..<brk s}"
    using assms lseg_dom by (fastforce simp: list_rep_def)
  then have "card (fst ` set as) \<le> card {..<brk s}"
    by (intro card_mono) auto
  moreover have "card (fst ` set as) = length as"
    using assms distinct_card [of "map fst as"] by (simp add: list_rep_def)
  ultimately show ?thesis by simp
qed

lemma list_rep_unused:
  "list_rep s as \<Longrightarrow> brk s \<notin> fst ` set as"
  using lseg_dom by (fastforce simp: list_rep_def)

lemma list_rep_fresh: "list_rep s as \<Longrightarrow> cells s (brk s) = None"
  by (auto simp: list_rep_def)

lemma IsInList_from_eq:
  "lseg (cells s) p as None \<Longrightarrow> length as < fuel \<Longrightarrow>
   IsInList_from fuel s p x = Inr (x \<in> snd ` set as)"
proof (induction fuel arbitrary: p as)
  case (Suc fuel)
  then show ?case by (cases as) auto
qed simp

lemma Apply_from_eq:
  "lseg (cells s) p as None \<Longrightarrow> length as < fuel \<Longrightarrow> Apply_from fuel s p = Inr (map snd as)"
proof (induction fuel arbitrary: p as)
  case (Suc fuel)
  then show ?case by (cases as) auto
qed simp

lemma IsInList_eq: "list_rep s as \<Longrightarrow> IsInList s x = Inr (x \<in> snd ` set as)"
  unfolding IsInList_def
  by (rule IsInList_from_eq) (use list_rep_fuel in \<open>auto simp: list_rep_def less_Suc_eq_le\<close>)

lemma Apply_eq: "list_rep s as \<Longrightarrow> Apply s = Inr (map snd as)"
  unfolding Apply_def
  by (rule Apply_from_eq) (use list_rep_fuel in \<open>auto simp: list_rep_def less_Suc_eq_le\<close>)

lemma IsEmpty_eq: "list_rep s as \<Longrightarrow> IsEmpty s \<longleftrightarrow> as = []"
  by (simp add: IsEmpty_def list_rep_def)

section \<open>Refinement of the list methods\<close>

lemma list_rep_llast: "list_rep s (bs @ [(a, y)]) \<Longrightarrow>
   llast s = Some a \<and> lseg (cells s) (lfirst s) bs (Some a) \<and> cells s a = Some \<lparr>item = y, nxt = None\<rparr>"
  by (auto simp: list_rep_def lseg_append)

lemma new_element_rep:
  assumes "list_rep s as"
  shows "list_rep (fst (new_element s x)) as"
  using assms list_rep_unused [OF assms] by (auto simp: list_rep_def new_element_def)

lemma list_rep_singleton:
  assumes "list_rep s []"
  shows "list_rep ((fst (new_element s x))\<lparr>lfirst := Some (brk s), llast := Some (brk s),
       numInList := numInList s + 1\<rparr>) [(brk s, x)]"
  using assms by (auto simp: list_rep_def new_element_def)

lemma list_rep_snoc:
  assumes rep: "list_rep s (bs @ [(a, y)])"
  shows "list_rep ((fst (new_element s x))\<lparr>
       cells := (cells (fst (new_element s x)))(a \<mapsto> \<lparr>item = y, nxt = Some (brk s)\<rparr>),
       llast := Some (brk s), numInList := numInList s + 1\<rparr>) ((bs @ [(a, y)]) @ [(brk s, x)])"
proof -
  have "brk s \<noteq> a" "a < brk s" "brk s \<notin> fst ` set bs" "a \<notin> fst ` set bs"
    using rep list_rep_unused [OF rep] list_rep_llast [OF rep] by (auto simp: list_rep_def)
  with rep show ?thesis by (auto simp: list_rep_def new_element_def lseg_append)
qed

lemma Append_rep:
  assumes rep: "list_rep s as" and new: "x \<notin> snd ` set as"
  shows "\<exists>s'. Append s x = Inr s' \<and> list_rep s' (as @ [(brk s, x)])
     \<and> same_elsewhere (fst ` set as) s s'"
proof (cases as rule: rev_cases)
  case Nil
  define t where "t = (fst (new_element s x))\<lparr>lfirst := Some (brk s), llast := Some (brk s),
     numInList := numInList s + 1\<rparr>"
  have t: "list_rep t [(brk s, x)]" using list_rep_singleton [of s x] rep Nil by (simp add: t_def)
  have "Append s x = Inr t"
    using IsInList_eq [OF new_element_rep [OF rep], of x x] IsEmpty_eq [OF new_element_rep [OF rep], of x]
      IsInList_eq [OF t, of x] new Nil
    by (simp add: Append_def new_element_def t_def)
  moreover have "same_elsewhere (fst ` set as) s t"
    by (auto simp: same_elsewhere_def t_def new_element_def)
  ultimately show ?thesis using t Nil by auto
next
  case (snoc bs ay)
  obtain a y where ay: "ay = (a, y)" by fastforce
  define t where "t = (fst (new_element s x))\<lparr>
     cells := (cells (fst (new_element s x)))(a \<mapsto> \<lparr>item = y, nxt = Some (brk s)\<rparr>),
     llast := Some (brk s), numInList := numInList s + 1\<rparr>"
  have rep': "list_rep s (bs @ [(a, y)])" using rep snoc ay by simp
  have t: "list_rep t (as @ [(brk s, x)])"
    using list_rep_snoc [OF rep', of x] snoc ay unfolding t_def by simp
  have l: "llast (fst (new_element s x)) = Some a"
    "cells (fst (new_element s x)) a = Some \<lparr>item = y, nxt = None\<rparr>"
    using list_rep_llast [OF rep'] list_rep_llast [OF new_element_rep [OF rep']] by auto
  have "Append s x = Inr t"
    using IsInList_eq [OF new_element_rep [OF rep], of x x] IsEmpty_eq [OF new_element_rep [OF rep], of x]
      IsInList_eq [OF t, of x] new snoc l
    by (simp add: Append_def new_element_def t_def set_next_def)
  moreover have "same_elsewhere (fst ` set as) s t"
    using snoc ay by (auto simp: same_elsewhere_def t_def new_element_def)
  ultimately show ?thesis using t by auto
qed

lemma list_rep_cons:
  assumes rep: "list_rep s as" and ne: "as \<noteq> []"
  shows "list_rep ((fst (new_element s x))\<lparr>
       cells := (cells (fst (new_element s x)))(brk s \<mapsto> \<lparr>item = x, nxt = lfirst s\<rparr>),
       lfirst := Some (brk s), numInList := numInList s + 1\<rparr>) ((brk s, x) # as)"
  using assms list_rep_unused [OF rep] by (auto simp: list_rep_def new_element_def)

lemma Prepend_rep:
  assumes rep: "list_rep s as" and new: "x \<notin> snd ` set as"
  shows "\<exists>s'. Prepend s x = Inr s' \<and> list_rep s' ((brk s, x) # as)
     \<and> same_elsewhere (fst ` set as) s s'"
proof (cases "as = []")
  case True
  define t where "t = (fst (new_element s x))\<lparr>lfirst := Some (brk s), llast := Some (brk s),
     numInList := numInList s + 1\<rparr>"
  have t: "list_rep t [(brk s, x)]" using list_rep_singleton [of s x] rep True by (simp add: t_def)
  have "Prepend s x = Inr t"
    using IsInList_eq [OF new_element_rep [OF rep], of x x] IsEmpty_eq [OF new_element_rep [OF rep], of x]
      IsInList_eq [OF t, of x] new True
    by (simp add: Prepend_def new_element_def t_def)
  moreover have "same_elsewhere (fst ` set as) s t"
    by (auto simp: same_elsewhere_def t_def new_element_def)
  ultimately show ?thesis using t True by auto
next
  case False
  define t where "t = (fst (new_element s x))\<lparr>
     cells := (cells (fst (new_element s x)))(brk s \<mapsto> \<lparr>item = x, nxt = lfirst s\<rparr>),
     lfirst := Some (brk s), numInList := numInList s + 1\<rparr>"
  have t: "list_rep t ((brk s, x) # as)" using list_rep_cons [OF rep False, of x] by (simp add: t_def)
  have "Prepend s x = Inr t"
    using IsInList_eq [OF new_element_rep [OF rep], of x x] IsEmpty_eq [OF new_element_rep [OF rep], of x]
      IsInList_eq [OF t, of x] new False
    by (simp add: Prepend_def new_element_def t_def set_next_def)
  moreover have "same_elsewhere (fst ` set as) s t"
    by (auto simp: same_elsewhere_def t_def new_element_def)
  ultimately show ?thesis using t by auto
qed

lemma RemoveFront_rep:
  assumes rep: "list_rep s ((a, x) # as)"
  shows "\<exists>s'. RemoveFront s = Inr (s', x) \<and> list_rep s' as \<and> same_elsewhere {a} s s'"
proof -
  obtain n where a: "lfirst s = Some a" "cells s a = Some \<lparr>item = x, nxt = n\<rparr>"
    "lseg (cells s) n as None" "a \<notin> fst ` set as" "distinct (map fst as)"
    using rep by (auto simp: list_rep_def)
  have one: "lfirst s = llast s \<longleftrightarrow> as = []"
    using rep a(1,4) last_in_set [of as] by (force simp: list_rep_def split: if_splits)
  define t where "t = (if as = [] then s\<lparr>lfirst := None, llast := None, numInList := numInList s - 1,
       cells := (cells s)(a := None)\<rparr>
     else s\<lparr>lfirst := n, numInList := numInList s - 1, cells := (cells s)(a := None)\<rparr>)"
  have "RemoveFront s = Inr (t, x)"
    using a one IsEmpty_eq [OF rep] by (auto simp: RemoveFront_def t_def delete_def Let_def)
  moreover have "list_rep t as"
    using a rep by (auto simp: list_rep_def t_def)
  moreover have "same_elsewhere {a} s t" by (auto simp: same_elsewhere_def t_def)
  ultimately show ?thesis by blast
qed

lemma RemoveFront_empty: "list_rep s [] \<Longrightarrow> RemoveFront s = Inl AssertFailed"
  using IsEmpty_eq by (fastforce simp: RemoveFront_def ASSERT_def)

lemma list_rep_unlink:
  assumes rep: "list_rep s (pre @ (a, y) # (b, x) # post)"
  shows "\<exists>n. cells s a = Some \<lparr>item = y, nxt = Some b\<rparr> \<and> cells s b = Some \<lparr>item = x, nxt = n\<rparr>
     \<and> (n = None \<longleftrightarrow> post = []) \<and> a \<noteq> b
     \<and> list_rep ((if n = None then s\<lparr>llast := Some a\<rparr> else s)\<lparr>
          cells := (cells s)(a \<mapsto> \<lparr>item = y, nxt = n\<rparr>, b := None),
          numInList := numInList s - 1\<rparr>) (pre @ (a, y) # post)"
proof -
  obtain n where n: "lseg (cells s) (lfirst s) pre (Some a)" "cells s a = Some \<lparr>item = y, nxt = Some b\<rparr>"
    "cells s b = Some \<lparr>item = x, nxt = n\<rparr>" "lseg (cells s) n post None"
    using rep by (auto simp: list_rep_def lseg_append)
  have d: "a \<noteq> b" "a \<notin> fst ` set pre" "b \<notin> fst ` set pre" "a \<notin> fst ` set post" "b \<notin> fst ` set post"
    using rep by (auto simp: list_rep_def)
  have e: "n = None \<longleftrightarrow> post = []" using n(4) by (cases post) auto
  show ?thesis
    using rep n d e by (auto simp: list_rep_def lseg_append)
qed

lemma Remove_loop_rep:
  assumes "list_rep s (pre @ (a, y) # post)" "lseg (cells s) ptr post None"
    and "x \<in> snd ` set post" "length post < fuel"
  shows "\<exists>mid b post' s'. post = mid @ (b, x) # post' \<and> x \<notin> snd ` set mid
     \<and> Remove_loop fuel s (Some a) ptr x = Inr s' \<and> list_rep s' (pre @ (a, y) # mid @ post')
     \<and> same_elsewhere (fst ` set (pre @ (a, y) # post)) s s'"
  using assms
proof (induction fuel arbitrary: pre a y post ptr)
  case (Suc fuel)
  then obtain b z post' where post: "post = (b, z) # post'" by (cases post) auto
  obtain n where n: "ptr = Some b" "cells s b = Some \<lparr>item = z, nxt = n\<rparr>" "lseg (cells s) n post' None"
    using Suc.prems(2) post by auto
  show ?case
  proof (cases "z = x")
    case True
    have rep: "list_rep s (pre @ (a, y) # (b, x) # post')" using Suc.prems(1) post True by simp
    obtain m where m: "cells s a = Some \<lparr>item = y, nxt = Some b\<rparr>"
      "cells s b = Some \<lparr>item = x, nxt = m\<rparr>" "a \<noteq> b"
      "list_rep ((if m = None then s\<lparr>llast := Some a\<rparr> else s)\<lparr>
          cells := (cells s)(a \<mapsto> \<lparr>item = y, nxt = m\<rparr>, b := None),
          numInList := numInList s - 1\<rparr>) (pre @ (a, y) # post')" (is "list_rep ?t _")
      using list_rep_unlink [OF rep] by blast
    have "Remove_loop (Suc fuel) s (Some a) ptr x = Inr ?t"
      using n m by (auto simp: set_next_def delete_def Let_def)
    moreover have "same_elsewhere (fst ` set (pre @ (a, y) # post)) s ?t"
      using post by (auto simp: same_elsewhere_def)
    ultimately show ?thesis
      using m(4) post True by (intro exI [of _ "[]"]) auto
  next
    case False
    have "list_rep s ((pre @ [(a, y)]) @ (b, z) # post')" using Suc.prems(1) post by simp
    from Suc.IH [OF this n(3)] Suc.prems(3,4) post False
    obtain mid c post'' s' where r: "post' = mid @ (c, x) # post''" "x \<notin> snd ` set mid"
      "Remove_loop fuel s (Some b) n x = Inr s'"
      "list_rep s' ((pre @ [(a, y)]) @ (b, z) # mid @ post'')"
      "same_elsewhere (fst ` set ((pre @ [(a, y)]) @ (b, z) # post')) s s'" by auto
    with n post False show ?thesis
      by (intro exI [of _ "(b, z) # mid"] exI [of _ c] exI [of _ post''] exI [of _ s']) auto
  qed
qed simp

lemma Remove_rep:
  assumes rep: "list_rep s as" and inl: "x \<in> snd ` set as" and dist: "distinct (map snd as)"
  shows "\<exists>s' as1 b as2. as = as1 @ (b, x) # as2 \<and> Remove s x = Inr s' \<and> list_rep s' (as1 @ as2)
     \<and> same_elsewhere (fst ` set as) s s'"
proof -
  obtain a y as' where as: "as = (a, y) # as'" using inl by (cases as) auto
  obtain n where n: "lfirst s = Some a" "cells s a = Some \<lparr>item = y, nxt = n\<rparr>" "lseg (cells s) n as' None"
    using rep as by (auto simp: list_rep_def)
  have i: "IsInList s x = Inr True" using IsInList_eq [OF rep] inl by simp
  show ?thesis
  proof (cases "x = y")
    case True
    obtain s' where s': "RemoveFront s = Inr (s', y)" "list_rep s' as'" "same_elsewhere {a} s s'"
      using RemoveFront_rep [of s a y as'] rep as by auto
    have "IsInList s' x = Inr False" using IsInList_eq [OF s'(2), of x] dist as True by auto
    with s' i n True have "Remove s x = Inr s'" by (simp add: Remove_def)
    with s' as True show ?thesis
      by (intro exI [of _ s'] exI [of _ "[]"] exI [of _ a] exI [of _ as']) (auto simp: same_elsewhere_def)
  next
    case False
    have "length as' < Suc (brk s)" using list_rep_fuel [OF rep] as by simp
    with Remove_loop_rep [of s "[]" a y as' n x "Suc (brk s)"] rep as n inl False
    obtain mid b post s' where r: "as' = mid @ (b, x) # post" "x \<notin> snd ` set mid"
      "Remove_loop (Suc (brk s)) s (Some a) n x = Inr s'" "list_rep s' ((a, y) # mid @ post)"
      "same_elsewhere (fst ` set as) s s'" by auto
    have "IsInList s' x = Inr False" using IsInList_eq [OF r(4), of x] dist as r(1) False by auto
    with r i n False have "Remove s x = Inr s'" by (simp add: Remove_def)
    with r as show ?thesis
      by (intro exI [of _ s'] exI [of _ "(a, y) # mid"] exI [of _ b] exI [of _ post]) auto
  qed
qed

section \<open>Refinement of the sorted list\<close>

fun sorted_ins :: "('a \<Rightarrow> 'a \<Rightarrow> int) \<Rightarrow> 'a \<Rightarrow> 'a list \<Rightarrow> 'a list" where
  "sorted_ins compare x [] = [x]"
| "sorted_ins compare x (y # ys) =
     (if compare x y < 0 then x # y # ys else y # sorted_ins compare x ys)"

fun cell_ins :: "('a \<Rightarrow> 'a \<Rightarrow> int) \<Rightarrow> nat \<Rightarrow> 'a \<Rightarrow> (nat \<times> 'a) list \<Rightarrow> (nat \<times> 'a) list" where
  "cell_ins compare e x [] = [(e, x)]"
| "cell_ins compare e x ((a, y) # as) =
     (if compare x y < 0 then (e, x) # (a, y) # as else (a, y) # cell_ins compare e x as)"

lemma cell_ins_items: "map snd (cell_ins compare e x as) = sorted_ins compare x (map snd as)"
  by (induction compare e x as rule: cell_ins.induct) auto

lemma mset_sorted_ins [simp]: "mset (sorted_ins compare x xs) = add_mset x (mset xs)"
  by (induction xs) auto

lemma set_sorted_ins [simp]: "set (sorted_ins compare x xs) = insert x (set xs)"
  by (induction xs) auto

lemma set_cell_ins [simp]: "set (cell_ins compare e x as) = insert (e, x) (set as)"
  by (induction compare e x as rule: cell_ins.induct) auto

lemma list_rep_link:
  assumes rep: "list_rep s (pre @ (a, y) # post)" and e: "cells s e = Some \<lparr>item = x, nxt = None\<rparr>"
    "e \<notin> fst ` set (pre @ (a, y) # post)" and a: "cells s a = Some \<lparr>item = y, nxt = n\<rparr>"
  shows "list_rep (s\<lparr>cells := (cells s)(e \<mapsto> \<lparr>item = x, nxt = n\<rparr>, a \<mapsto> \<lparr>item = y, nxt = Some e\<rparr>),
       llast := (if post = [] then Some e else llast s), numInList := numInList s + 1\<rparr>)
     (pre @ (a, y) # (e, x) # post)"
  using assms by (auto simp: list_rep_def lseg_append image_Un)

lemma Insert_loop_rep:
  assumes "list_rep s (pre @ (a, y) # post)" "cells s e = Some \<lparr>item = x, nxt = None\<rparr>"
    and "e \<notin> fst ` set (pre @ (a, y) # post)" "length post < fuel"
  shows "\<exists>s'. Insert_loop fuel compare s e (Some a) x = Inr s'
     \<and> list_rep s' (pre @ (a, y) # cell_ins compare e x post)
     \<and> same_elsewhere (insert e (fst ` set (pre @ (a, y) # post))) s s'"
  using assms
proof (induction fuel arbitrary: pre a y post)
  case (Suc fuel)
  obtain n where a: "cells s a = Some \<lparr>item = y, nxt = n\<rparr>" "lseg (cells s) n post None"
    using Suc.prems(1) by (auto simp: list_rep_def lseg_append)
  have ea: "e \<noteq> a" using Suc.prems(3) by auto
  define t where "t = s\<lparr>cells := (cells s)(e \<mapsto> \<lparr>item = x, nxt = n\<rparr>, a \<mapsto> \<lparr>item = y, nxt = Some e\<rparr>),
       llast := (if post = [] then Some e else llast s), numInList := numInList s + 1\<rparr>"
  have t: "list_rep t (pre @ (a, y) # (e, x) # post)"
    using list_rep_link [OF Suc.prems(1,2,3) a(1)] unfolding t_def .
  have frame: "same_elsewhere (insert e (fst ` set (pre @ (a, y) # post))) s t"
    by (auto simp: same_elsewhere_def t_def)
  show ?case
  proof (cases post)
    case Nil
    then have n: "n = None" using a(2) by simp
    have "llast s = Some a" using Suc.prems(1) Nil by (simp add: list_rep_def)
    moreover have "IsInList t x = Inr True" using IsInList_eq [OF t, of x] by simp
    moreover have "(cells s)(e \<mapsto> \<lparr>item = x, nxt = None\<rparr>, a \<mapsto> \<lparr>item = y, nxt = Some e\<rparr>) =
        (cells s)(a \<mapsto> \<lparr>item = y, nxt = Some e\<rparr>)"
      using Suc.prems(2) ea by auto
    ultimately have "Insert_loop (Suc fuel) compare s e (Some a) x = Inr t"
      using a n Nil by (simp add: set_next_def Let_def t_def)
    with t frame Nil show ?thesis by auto
  next
    case (Cons bz post')
    obtain b z where bz: "bz = (b, z)" by fastforce
    obtain m where n: "n = Some b" "cells s b = Some \<lparr>item = z, nxt = m\<rparr>"
      using a(2) Cons bz by auto
    show ?thesis
    proof (cases "compare x z < 0")
      case True
      have "Insert_loop (Suc fuel) compare s e (Some a) x = Inr t"
        using a n ea True Suc.prems(2) Cons by (simp add: set_next_def t_def)
      with t frame Cons bz True show ?thesis by auto
    next
      case False
      have "list_rep s ((pre @ [(a, y)]) @ (b, z) # post')" using Suc.prems(1) Cons bz by simp
      from Suc.IH [OF this Suc.prems(2)] Suc.prems(3,4) Cons bz
      obtain s' where "Insert_loop fuel compare s e (Some b) x = Inr s'"
        "list_rep s' ((pre @ [(a, y)]) @ (b, z) # cell_ins compare e x post')"
        "same_elsewhere (insert e (fst ` set ((pre @ [(a, y)]) @ (b, z) # post'))) s s'"
        by auto
      with a n False Cons bz show ?thesis by auto
    qed
  qed
qed simp

lemma Insert_rep:
  assumes rep: "list_rep s as" and new: "x \<notin> snd ` set as"
  shows "\<exists>s'. Insert compare s x = Inr s' \<and> list_rep s' (cell_ins compare (brk s) x as)
     \<and> same_elsewhere (fst ` set as) s s'"
proof -
  define s1 where "s1 = fst (new_element s x)"
  have rep1: "list_rep s1 as" using new_element_rep [OF rep] unfolding s1_def .
  have s1: "new_element s x = (s1, brk s)" "cells s1 (brk s) = Some \<lparr>item = x, nxt = None\<rparr>"
    "lfirst s1 = lfirst s" "numInList s1 = numInList s" "brk s1 = Suc (brk s)"
    by (simp_all add: s1_def new_element_def)
  have i: "IsInList s1 x = Inr False" using IsInList_eq [OF rep1] new by simp
  have u: "brk s \<notin> fst ` set as" by (rule list_rep_unused [OF rep])
  have frame: "same_elsewhere (insert (brk s) A) s1 t \<Longrightarrow> same_elsewhere A s t" for A t
    using list_rep_fresh [OF rep]
    by (auto simp: same_elsewhere_def s1_def new_element_def)
  show ?thesis
  proof (cases as)
    case Nil
    define t where "t = s1\<lparr>lfirst := Some (brk s), llast := Some (brk s), numInList := numInList s + 1\<rparr>"
    have t: "list_rep t [(brk s, x)]" using list_rep_singleton [of s x] rep Nil by (simp add: t_def s1_def)
    have "Insert compare s x = Inr t"
      using s1 i IsEmpty_eq [OF rep1] Nil IsInList_eq [OF t, of x]
      by (simp add: Insert_def t_def Let_def)
    with t Nil show ?thesis by (auto simp: same_elsewhere_def t_def s1_def new_element_def)
  next
    case (Cons ay as')
    obtain a y where ay: "ay = (a, y)" by fastforce
    obtain n where n: "lfirst s = Some a" "cells s1 a = Some \<lparr>item = y, nxt = n\<rparr>"
      using rep1 s1 Cons ay by (auto simp: list_rep_def)
    show ?thesis
    proof (cases "compare x y < 0")
      case True
      define t where "t = s1\<lparr>cells := (cells s1)(brk s \<mapsto> \<lparr>item = x, nxt = lfirst s\<rparr>),
        lfirst := Some (brk s), numInList := numInList s + 1\<rparr>"
      have t: "list_rep t ((brk s, x) # as)"
        using list_rep_cons [OF rep, of x] Cons by (simp add: t_def s1_def)
      have "Insert compare s x = Inr t"
        using s1 i IsEmpty_eq [OF rep1] Cons ay n True IsInList_eq [OF t, of x]
        by (simp add: Insert_def t_def Let_def set_next_def)
      with t Cons ay True show ?thesis by (auto simp: same_elsewhere_def t_def s1_def new_element_def)
    next
      case False
      have "length as' < Suc (brk s1)" using list_rep_fuel [OF rep1] Cons by simp
      with Insert_loop_rep [of s1 "[]" a y as' "brk s" x "Suc (brk s1)" compare] rep1 s1 u Cons ay
      obtain s' where "Insert_loop (Suc (brk s1)) compare s1 (brk s) (Some a) x = Inr s'"
        "list_rep s' ((a, y) # cell_ins compare (brk s) x as')"
        "same_elsewhere (insert (brk s) (fst ` set as)) s1 s'" by auto
      with s1 i IsEmpty_eq [OF rep1] Cons ay n False show ?thesis
        by (auto simp: Insert_def frame)
    qed
  qed
qed

lemma SanityCheck_loop_rep:
  assumes "lseg (cells s) ptr post None" "post \<noteq> []" "llast s = Some (fst (last post))"
    and "distinct (map fst post)" "k + int (length post) = numInList s + 1" "length post \<le> fuel"
  shows "SanityCheck_loop fuel s k ptr = Inr (numInList s)"
  using assms
proof (induction fuel arbitrary: ptr post k)
  case (Suc fuel)
  obtain a x post' where post: "post = (a, x) # post'" using Suc.prems(2) by (cases post) auto
  obtain n where n: "ptr = Some a" "cells s a = Some \<lparr>item = x, nxt = n\<rparr>" "lseg (cells s) n post' None"
    using Suc.prems(1) post by auto
  show ?case
  proof (cases "post' = []")
    case True
    then show ?thesis using Suc.prems n post by simp
  next
    case False
    then have "ptr \<noteq> llast s"
      using Suc.prems(3,4) post n last_in_set [of post'] by force
    moreover have "int (length post') \<ge> 1" using False by (cases post') auto
    moreover have "SanityCheck_loop fuel s (k + 1) n = Inr (numInList s)"
      using Suc.IH [OF n(3) False] Suc.prems(3-6) False post by simp
    ultimately show ?thesis using n Suc.prems(5) post by simp
  qed
qed simp

lemma SanityCheck_rep:
  assumes rep: "list_rep s as"
  shows "SanityCheck s = Inr ()"
proof (cases as rule: rev_cases)
  case Nil
  then show ?thesis using rep by (simp add: SanityCheck_def list_rep_def)
next
  case (snoc bs ay)
  obtain a y where ay: "ay = (a, y)" by fastforce
  have l: "llast s = Some a" "lseg (cells s) (lfirst s) bs (Some a)"
    "cells s a = Some \<lparr>item = y, nxt = None\<rparr>"
    using list_rep_llast [of s bs a y] rep snoc ay by auto
  have f: "lfirst s \<noteq> None" using rep snoc by (auto simp: list_rep_def)
  show ?thesis
  proof (cases "bs = []")
    case True
    then show ?thesis using l f rep snoc by (simp add: SanityCheck_def list_rep_def)
  next
    case False
    have "SanityCheck_loop (Suc (nat (numInList s))) s 1 (lfirst s) = Inr (numInList s)"
      by (rule SanityCheck_loop_rep [of s "lfirst s" as]) (use rep snoc in \<open>auto simp: list_rep_def\<close>)
    moreover have "lfirst s \<noteq> llast s"
      using False l rep snoc ay by (cases bs) (auto simp: list_rep_def)
    ultimately show ?thesis using f l by (simp add: SanityCheck_def)
  qed
qed

section \<open>The list operations the clients use\<close>

text \<open>
  The same methods on the sequence of items: what a client of the template sees. Every method of
  the pointer level refines its counterpart (\<open>Append_refines\<close> and the following), failures
  included, so the other components use these.
\<close>

definition list_Append :: "'a list \<Rightarrow> 'a \<Rightarrow> 'a list outcome" where
  "list_Append xs x = bindR (ASSERT (x \<notin> set xs)) (\<lambda>_. Inr (xs @ [x]))"

definition list_Prepend :: "'a list \<Rightarrow> 'a \<Rightarrow> 'a list outcome" where
  "list_Prepend xs x = bindR (ASSERT (x \<notin> set xs)) (\<lambda>_. Inr (x # xs))"

definition list_RemoveFront :: "'a list \<Rightarrow> ('a list \<times> 'a) outcome" where
  "list_RemoveFront xs = (case xs of [] \<Rightarrow> Inl AssertFailed | x # xs' \<Rightarrow> Inr (xs', x))"

definition list_Remove :: "'a list \<Rightarrow> 'a \<Rightarrow> 'a list outcome" where
  "list_Remove xs x = bindR (ASSERT (x \<in> set xs)) (\<lambda>_. Inr (remove1 x xs))"

definition list_Insert :: "('a \<Rightarrow> 'a \<Rightarrow> int) \<Rightarrow> 'a list \<Rightarrow> 'a \<Rightarrow> 'a list outcome" where
  "list_Insert compare xs x = bindR (ASSERT (x \<notin> set xs)) (\<lambda>_. Inr (sorted_ins compare x xs))"

lemma dup_assert:
  assumes rep: "list_rep s as" and dup: "x \<in> snd ` set as"
  shows "Append s x = Inl AssertFailed" "Prepend s x = Inl AssertFailed"
    "Insert compare s x = Inl AssertFailed"
  using IsInList_eq [OF new_element_rep [OF rep], of x x] dup
  by (simp_all add: Append_def Prepend_def Insert_def new_element_def)

lemma Append_refines:
  assumes "represents s xs"
  shows "refines represents (Append s x) (list_Append xs x)"
proof -
  obtain as where as: "list_rep s as" "map snd as = xs" using assms by (auto simp: represents_def)
  show ?thesis
  proof (cases "x \<in> set xs")
    case True
    then show ?thesis using dup_assert(1) [OF as(1)] as(2) by (force simp: list_Append_def)
  next
    case False
    then have "x \<notin> snd ` set as" using as(2) by force
    from Append_rep [OF as(1) this] as(2) False show ?thesis
      by (fastforce simp: list_Append_def represents_def)
  qed
qed

lemma Prepend_refines:
  assumes "represents s xs"
  shows "refines represents (Prepend s x) (list_Prepend xs x)"
proof -
  obtain as where as: "list_rep s as" "map snd as = xs" using assms by (auto simp: represents_def)
  show ?thesis
  proof (cases "x \<in> set xs")
    case True
    then show ?thesis using dup_assert(2) [OF as(1)] as(2) by (force simp: list_Prepend_def)
  next
    case False
    then have "x \<notin> snd ` set as" using as(2) by force
    from Prepend_rep [OF as(1) this] as(2) False show ?thesis
      by (fastforce simp: list_Prepend_def represents_def)
  qed
qed

lemma RemoveFront_refines:
  assumes "represents s xs"
  shows "refines (\<lambda>(s', x) (xs', y). represents s' xs' \<and> x = y) (RemoveFront s) (list_RemoveFront xs)"
proof -
  obtain as where as: "list_rep s as" "map snd as = xs" using assms by (auto simp: represents_def)
  show ?thesis
  proof (cases as)
    case Nil
    then show ?thesis using as RemoveFront_empty by (auto simp: list_RemoveFront_def)
  next
    case (Cons ay as')
    then show ?thesis using as RemoveFront_rep [of s "fst ay" "snd ay" as']
      by (auto simp: list_RemoveFront_def represents_def)
  qed
qed

lemma Remove_refines:
  assumes "represents s xs" and "distinct xs"
  shows "refines represents (Remove s x) (list_Remove xs x)"
proof -
  obtain as where as: "list_rep s as" "map snd as = xs" using assms by (auto simp: represents_def)
  show ?thesis
  proof (cases "x \<in> set xs")
    case True
    then have "x \<in> snd ` set as" "distinct (map snd as)" using as(2) assms(2) by auto
    from Remove_rep [OF as(1) this] obtain s' as1 b as2 where r: "as = as1 @ (b, x) # as2"
      "Remove s x = Inr s'" "list_rep s' (as1 @ as2)" by auto
    have "remove1 x xs = map snd (as1 @ as2)"
      using r(1) as(2) assms(2) by (auto simp: remove1_append)
    with r True show ?thesis by (auto simp: list_Remove_def represents_def)
  next
    case False
    then have "x \<notin> snd ` set as" using as(2) by force
    then show ?thesis using False IsInList_eq [OF as(1)] by (simp add: Remove_def list_Remove_def)
  qed
qed

lemma Insert_refines:
  assumes "represents s xs"
  shows "refines represents (Insert compare s x) (list_Insert compare xs x)"
proof -
  obtain as where as: "list_rep s as" "map snd as = xs" using assms by (auto simp: represents_def)
  show ?thesis
  proof (cases "x \<in> set xs")
    case True
    then show ?thesis using dup_assert(3) [OF as(1)] as(2) by (force simp: list_Insert_def)
  next
    case False
    then have "x \<notin> snd ` set as" using as(2) by force
    from Insert_rep [OF as(1) this, of compare] as(2) False show ?thesis
      using cell_ins_items [of compare "brk s" x as] by (auto simp: list_Insert_def represents_def)
  qed
qed

lemma IsInList_represents: "represents s xs \<Longrightarrow> IsInList s x = Inr (x \<in> set xs)"
  using IsInList_eq by (fastforce simp: represents_def)

lemma IsEmpty_represents: "represents s xs \<Longrightarrow> IsEmpty s \<longleftrightarrow> xs = []"
  using IsEmpty_eq by (fastforce simp: represents_def)

lemma Apply_represents: "represents s xs \<Longrightarrow> Apply s = Inr xs"
  using Apply_eq by (fastforce simp: represents_def)

lemma SanityCheck_represents: "represents s xs \<Longrightarrow> SanityCheck s = Inr ()"
  using SanityCheck_rep by (fastforce simp: represents_def)

lemma represents_new: "dom hp \<subseteq> {..<b} \<Longrightarrow> represents (List_new hp b) []"
  by (auto simp: represents_def list_rep_def List_new_def)

lemma represents_first: "represents s xs \<Longrightarrow> lfirst s = None \<longleftrightarrow> xs = []"
  by (auto simp: represents_def list_rep_def)

lemmas represents_simps = IsInList_represents IsEmpty_represents Apply_represents
  SanityCheck_represents represents_first

section \<open>Interfaces\<close>

text \<open>What a sorted list asks of the comparison function it is made with (\<^verbatim>\<open>list.h\<close>, lines 78-83).\<close>

locale comparator =
  fixes compare :: "'a \<Rightarrow> 'a \<Rightarrow> int"
  assumes compare_flip: "compare x y < 0 \<longleftrightarrow> 0 < compare y x"
    and compare_trans: "compare x y \<le> 0 \<Longrightarrow> compare y z \<le> 0 \<Longrightarrow> compare x z \<le> 0"
begin

lemma compare_total: "\<not> compare x y < 0 \<Longrightarrow> compare y x \<le> 0"
  using compare_flip [of x y] by simp

lemma sorted_ins_sorted:
  "sorted_wrt (\<lambda>a b. compare a b \<le> 0) xs \<Longrightarrow>
   sorted_wrt (\<lambda>a b. compare a b \<le> 0) (sorted_ins compare x xs)"
proof (induction xs)
  case (Cons y ys)
  show ?case
  proof (cases "compare x y < 0")
    case True
    then show ?thesis using Cons.prems compare_trans [of x y] by (auto simp: less_imp_le)
  next
    case False
    then show ?thesis using Cons compare_total [OF False] by auto
  qed
qed simp

text \<open>An item goes behind every item it does not precede: equal items keep their arrival order.\<close>

lemma sorted_ins_split:
  "sorted_ins compare x xs =
     takeWhile (\<lambda>y. \<not> compare x y < 0) xs @ x # dropWhile (\<lambda>y. \<not> compare x y < 0) xs"
  by (induction xs) auto

lemma sorted_loop_rep:
  assumes "list_rep s (pre @ (a, x) # post)" "lseg (cells s) ptr post None"
    and "sorted_wrt (\<lambda>p q. compare (snd p) (snd q) \<le> 0) ((a, x) # post)" "length post < fuel"
  shows "sorted_loop fuel compare s (Some a) ptr = Inr ()"
  using assms
proof (induction fuel arbitrary: pre a x post ptr)
  case (Suc fuel)
  obtain n where a: "cells s a = Some \<lparr>item = x, nxt = n\<rparr>"
    using Suc.prems(1) by (auto simp: list_rep_def lseg_append)
  show ?case
  proof (cases post)
    case Nil
    then show ?thesis using Suc.prems(2) by simp
  next
    case (Cons bz post')
    obtain b y m where b: "bz = (b, y)" "ptr = Some b" "cells s b = Some \<lparr>item = y, nxt = m\<rparr>"
      "lseg (cells s) m post' None"
      using Suc.prems(2) Cons by (cases bz) auto
    have "sorted_loop fuel compare s (Some b) m = Inr ()"
      by (rule Suc.IH [of "pre @ [(a, x)]" b y post' m]) (use Suc.prems Cons b in auto)
    then show ?thesis using a b Suc.prems(3) Cons by simp
  qed
qed simp

end

text \<open>
  A first-in first-out list of distinct items: what the ready list, the semaphore queues and the
  mail boxes rely on.
\<close>

locale fifo_list =
  fixes invar :: "'q \<Rightarrow> bool"
    and items :: "'q \<Rightarrow> 'a list"
    and append :: "'q \<Rightarrow> 'a \<Rightarrow> 'q outcome"
    and remove_front :: "'q \<Rightarrow> ('q \<times> 'a) outcome"
  assumes append_new: "invar q \<Longrightarrow> x \<notin> set (items q) \<Longrightarrow>
      \<exists>q'. append q x = Inr q' \<and> invar q' \<and> items q' = items q @ [x]"
    and append_dup: "invar q \<Longrightarrow> x \<in> set (items q) \<Longrightarrow> append q x = Inl AssertFailed"
    and remove_empty: "invar q \<Longrightarrow> items q = [] \<Longrightarrow> remove_front q = Inl AssertFailed"
    and remove_first: "invar q \<Longrightarrow> items q = x # xs \<Longrightarrow>
      \<exists>q'. remove_front q = Inr (q', x) \<and> invar q' \<and> items q' = xs"
begin

lemma append_all:
  "invar q \<Longrightarrow> distinct xs \<Longrightarrow> set xs \<inter> set (items q) = {} \<Longrightarrow>
   \<exists>q'. forR xs (\<lambda>x q. append q x) q = Inr q' \<and> invar q' \<and> items q' = items q @ xs"
proof (induction xs arbitrary: q)
  case (Cons x xs)
  then obtain q1 where q1: "append q x = Inr q1" "invar q1" "items q1 = items q @ [x]"
    using append_new [of q x] by auto
  with Cons show ?case using Cons.IH [of q1] by auto
qed simp

lemma remove_all:
  "invar q \<Longrightarrow> items q = xs @ ys \<Longrightarrow>
   \<exists>q'. forR (replicate (length xs) ()) (\<lambda>_ (q, out). bindR (remove_front q) (\<lambda>(q', x). Inr (q', out @ [x])))
          (q, out) = Inr (q', out @ xs) \<and> invar q' \<and> items q' = ys"
proof (induction xs arbitrary: q out)
  case (Cons x xs)
  then obtain q1 where "remove_front q = Inr (q1, x)" "invar q1" "items q1 = xs @ ys"
    using remove_first [of q x "xs @ ys"] by auto
  with Cons.IH [of q1 "out @ [x]"] show ?case by auto
qed simp

end

definition contents :: "'a lst \<Rightarrow> 'a list" where
  "contents s = (case Apply s of Inl _ \<Rightarrow> [] | Inr xs \<Rightarrow> xs)"

definition list_invar :: "'a lst \<Rightarrow> bool" where
  "list_invar s \<longleftrightarrow> (\<exists>xs. represents s xs \<and> distinct xs)"

lemma represents_contents: "represents s xs \<Longrightarrow> contents s = xs"
  by (simp add: contents_def Apply_represents)

lemma list_invarI: "represents s xs \<Longrightarrow> distinct xs \<Longrightarrow> list_invar s \<and> contents s = xs"
  by (auto simp: list_invar_def represents_contents)

lemma list_invarD: "list_invar s \<Longrightarrow> represents s (contents s) \<and> distinct (contents s)"
  unfolding list_invar_def by (metis represents_contents)

lemma list_invar_new:
  assumes "dom hp \<subseteq> {..<b}"
  shows "list_invar (List_new hp b)" and "contents (List_new hp b) = []"
  using list_invarI [OF represents_new [OF assms]] by auto

interpretation ptr_list: fifo_list list_invar contents Append RemoveFront
proof
  fix s :: "'a lst" and x :: 'a and xs :: "'a list"
  assume i: "list_invar s"
  note rep = list_invarD [OF i]
  show "\<exists>q'. Append s x = Inr q' \<and> list_invar q' \<and> contents q' = contents s @ [x]" if new: "x \<notin> set (contents s)"
  proof -
    obtain t where t: "Append s x = Inr t" "represents t (contents s @ [x])"
      using Append_refines [of s "contents s" x] rep new by (auto simp: list_Append_def)
    moreover have "distinct (contents s @ [x])" using rep new by auto
    ultimately show ?thesis using list_invarI by blast
  qed
  show "Append s x = Inl AssertFailed" if "x \<in> set (contents s)"
    using Append_refines [of s "contents s" x] rep that by (auto simp: list_Append_def)
  show "RemoveFront s = Inl AssertFailed" if "contents s = []"
    using RemoveFront_refines [of s "contents s"] rep that by (auto simp: list_RemoveFront_def)
  show "\<exists>q'. RemoveFront s = Inr (q', x) \<and> list_invar q' \<and> contents q' = xs" if xs: "contents s = x # xs"
  proof -
    obtain t where t: "RemoveFront s = Inr (t, x)" "represents t xs"
      using RemoveFront_refines [of s "contents s"] rep xs by (auto simp: list_RemoveFront_def)
    moreover have "distinct xs" using rep xs by auto
    ultimately show ?thesis using list_invarI by blast
  qed
qed

interpretation seq_list: fifo_list distinct "\<lambda>xs. xs" list_Append list_RemoveFront
  by unfold_locales (auto simp: list_Append_def list_RemoveFront_def)

section \<open>The self tests\<close>

lemma SelfTest_append_loop:
  assumes "represents s xs" "distinct (xs @ p)"
  shows "\<exists>s'. forR p (\<lambda>x s. bindR (Append s x) (\<lambda>s. bindR (IsInList s x) (\<lambda>b.
        bindR (ASSERT b) (\<lambda>_. bindR (ASSERT (\<not> IsEmpty s)) (\<lambda>_. Inr s))))) s = Inr s'
     \<and> represents s' (xs @ p)"
  using assms
proof (induction p arbitrary: s xs)
  case (Cons x p)
  obtain t where t: "Append s x = Inr t" "represents t (xs @ [x])"
    using Append_refines [OF Cons.prems(1), of x] Cons.prems(2) by (auto simp: list_Append_def)
  with Cons.IH [OF t(2)] Cons.prems(2) show ?case by (auto simp: represents_simps)
qed simp

lemma SelfTest_remove_loop:
  assumes "represents s p" "distinct p"
  shows "\<exists>s'. forR p (\<lambda>x s. bindR (Remove s x) (\<lambda>s. bindR (IsInList s x) (\<lambda>b.
        bindR (ASSERT (\<not> b)) (\<lambda>_. Inr s)))) s = Inr s' \<and> represents s' []"
  using assms
proof (induction p arbitrary: s)
  case (Cons x p)
  obtain t where t: "Remove s x = Inr t" "represents t p"
    using Remove_refines [OF Cons.prems, of x] by (auto simp: list_Remove_def)
  with Cons show ?case by (auto simp: represents_simps)
qed simp

section \<open>Properties\<close>

text \<open>
  C18: on a list whose cells represent distinct items, every method of \<^verbatim>\<open>List\<close> and
  \<^verbatim>\<open>SortedList::Insert\<close> refines the operation on the sequence of items: the result represents the
  new sequence, and an \<^verbatim>\<open>ASSERT\<close> fails exactly when the item is already there (or missing, for
  \<^verbatim>\<open>Remove\<close>; or the list empty, for \<^verbatim>\<open>RemoveFront\<close>).
\<close>

theorem list_methods_refine:
  assumes "represents s xs" and "distinct xs"
  shows "refines represents (Append s x) (list_Append xs x)
    \<and> refines represents (Prepend s x) (list_Prepend xs x)
    \<and> refines (\<lambda>(s', y) (xs', z). represents s' xs' \<and> y = z) (RemoveFront s) (list_RemoveFront xs)
    \<and> refines represents (Remove s x) (list_Remove xs x)
    \<and> refines represents (Insert compare s x) (list_Insert compare xs x)
    \<and> IsInList s x = Inr (x \<in> set xs) \<and> IsEmpty s = (xs = []) \<and> Apply s = Inr xs
    \<and> SanityCheck s = Inr ()"
  using assms by (simp add: Append_refines Prepend_refines RemoveFront_refines Remove_refines
      Insert_refines represents_simps)

theorem list_methods_refine_witness:
  "represents (List_new Map.empty 0 :: nat lst) [] \<and> distinct ([] :: nat list)
   \<and> refines represents (Append (List_new Map.empty 0) (7::nat)) (list_Append [] 7)"
proof -
  have r: "represents (List_new Map.empty 0 :: nat lst) []" by (simp add: represents_new)
  show ?thesis using r list_methods_refine [OF r, of 7 undefined] by simp
qed

text \<open>
  A method changes no cell outside its own list: the cells of every other list allocated in the
  same store are left as they were.
\<close>

theorem list_methods_frame:
  assumes "list_rep s as" and "distinct (map snd as)" and "a < brk s" and "a \<notin> fst ` set as"
    and "t = Append s x \<or> t = Remove s x \<or> t = Insert compare s x" and "t = Inr s'"
  shows "cells s' a = cells s a"
proof -
  have app: ?thesis if r: "Append s x = Inr s'"
  proof -
    have "x \<notin> snd ` set as" using dup_assert(1) [OF assms(1), of x] r by auto
    from Append_rep [OF assms(1) this] r assms(3,4) show ?thesis by (auto simp: same_elsewhere_def)
  qed
  have rem: ?thesis if r: "Remove s x = Inr s'"
  proof -
    have "x \<in> snd ` set as" using IsInList_eq [OF assms(1), of x] r by (auto simp: Remove_def bindR_eq_Inr)
    from Remove_rep [OF assms(1) this assms(2)] r assms(3,4) show ?thesis by (auto simp: same_elsewhere_def)
  qed
  have ins: ?thesis if r: "Insert compare s x = Inr s'"
  proof -
    have "x \<notin> snd ` set as" using dup_assert(3) [OF assms(1), of x compare] r by auto
    from Insert_rep [OF assms(1) this, of compare] r assms(3,4) show ?thesis by (auto simp: same_elsewhere_def)
  qed
  from app rem ins assms(5,6) show ?thesis by auto
qed

theorem list_methods_frame_witness:
  "\<exists>s1. Append (List_new [0 \<mapsto> \<lparr>item = 5, nxt = None\<rparr>] 1) (7::nat) = Inr s1
     \<and> cells s1 0 = Some \<lparr>item = 5, nxt = None\<rparr>"
proof -
  let ?s = "List_new [0 \<mapsto> \<lparr>item = 5::nat, nxt = None\<rparr>] 1"
  have r: "list_rep ?s []" by (auto simp: list_rep_def List_new_def split: if_splits)
  obtain s1 where s1: "Append ?s 7 = Inr s1" using Append_rep [OF r, of 7] by auto
  have "cells s1 0 = cells ?s 0"
    using list_methods_frame [OF r, of 0 "Append ?s 7" 7 undefined s1] s1 by (simp add: List_new_def)
  with s1 show ?thesis by (simp add: List_new_def)
qed

text \<open>
  \<^verbatim>\<open>List::SelfTest\<close> runs to its end on an empty list for any vector of distinct items, and
  leaves the list empty.
\<close>

lemma List_SelfTest_passes:
  assumes "represents s []" and "distinct p"
  shows "\<exists>s'. List_SelfTest s p = Inr s' \<and> represents s' []"
proof -
  obtain s1 where s1: "forR p (\<lambda>x s. bindR (Append s x) (\<lambda>s. bindR (IsInList s x) (\<lambda>b.
        bindR (ASSERT b) (\<lambda>_. bindR (ASSERT (\<not> IsEmpty s)) (\<lambda>_. Inr s))))) s = Inr s1"
    "represents s1 p"
    using SelfTest_append_loop [OF assms(1), of p] assms(2) by auto
  obtain s2 where "forR p (\<lambda>x s. bindR (Remove s x) (\<lambda>s. bindR (IsInList s x) (\<lambda>b.
        bindR (ASSERT (\<not> b)) (\<lambda>_. Inr s)))) s1 = Inr s2" "represents s2 []"
    using SelfTest_remove_loop [OF s1(2) assms(2)] by auto
  with s1 assms show ?thesis
    by (simp add: List_SelfTest_def represents_simps ListIterator_IsDone_def ListIterator_new_def)
qed

text \<open>
  First in, first out at the level of pointers: appending a sequence of distinct new items and
  then calling \<^verbatim>\<open>RemoveFront\<close> as many times returns that sequence, in order, behind the items that
  were already there.
\<close>

theorem List_fifo:
  assumes "list_invar s" and "contents s = []" and "distinct xs"
  shows "\<exists>s1 s2. forR xs (\<lambda>x s. Append s x) s = Inr s1
     \<and> forR (replicate (length xs) ()) (\<lambda>_ (s, out). bindR (RemoveFront s) (\<lambda>(s', x). Inr (s', out @ [x])))
          (s1, []) = Inr (s2, xs) \<and> contents s2 = []"
proof -
  obtain s1 where s1: "forR xs (\<lambda>x s. Append s x) s = Inr s1" "list_invar s1" "contents s1 = xs"
    using ptr_list.append_all [OF assms(1,3)] assms(2) by auto
  with ptr_list.remove_all [of s1 xs "[]" "[]"] show ?thesis by auto
qed

theorem List_fifo_witness:
  "\<exists>s1 s2. forR [3, 1, 2 :: nat] (\<lambda>x s. Append s x) (List_new Map.empty 0) = Inr s1
     \<and> forR (replicate (length [3, 1, 2 :: nat]) ())
          (\<lambda>_ (s, out). bindR (RemoveFront s) (\<lambda>(s', x). Inr (s', out @ [x])))
          (s1, []) = Inr (s2, [3, 1, 2]) \<and> contents s2 = []"
  by (rule List_fifo) (simp_all add: list_invar_new)

end
