(* ===== verification/Hash_Table.thy ===== *)
theory Hash_Table
  imports Linked_List
begin

text \<open>
  The hash table template of \<^verbatim>\<open>code/lib/hash.cc\<close> and \<^verbatim>\<open>hash.h\<close>, with the iterator. A bucket is the
  sequence of items of its list, on which the list methods act by the operations of
  \<open>Linked_List\<close> (its theorem \<open>list_methods_refine\<close> relates them to the pointers); \<^verbatim>\<open>getKey\<close> and \<^verbatim>\<open>hash\<close>
  are arguments. The table refines a finite map from keys to items; an item whose key is
  present cannot be inserted, and rehashing changes neither the map nor the number of items.
\<close>

section \<open>Operations\<close>

definition InitialBuckets :: nat where "InitialBuckets = 4"
definition ResizeRatio :: int where "ResizeRatio = 3"
definition IncreaseSizeBy :: nat where "IncreaseSizeBy = 4"

record 'a hash_table =
  buckets :: "'a list list"
  numBuckets :: nat
  numItems :: int

definition InitBuckets :: "'a hash_table \<Rightarrow> nat \<Rightarrow> 'a hash_table" where
  "InitBuckets t sz = t\<lparr>numBuckets := sz, buckets := replicate sz []\<rparr>"

definition HashTable_new :: "'a hash_table" where
  "HashTable_new = InitBuckets \<lparr>buckets = [], numBuckets = 0, numItems = 0\<rparr> InitialBuckets"

definition HashTable_IsEmpty :: "'a hash_table \<Rightarrow> bool" where
  "HashTable_IsEmpty t = (numItems t = 0)"

definition HashTable_delete :: "'a hash_table \<Rightarrow> unit outcome" where
  "HashTable_delete t = ASSERT (HashTable_IsEmpty t)"

definition HashValue :: "('k \<Rightarrow> u32) \<Rightarrow> 'a hash_table \<Rightarrow> 'k \<Rightarrow> nat outcome" where
  "HashValue hash t key =
     (let result = unat (hash key) mod numBuckets t in
      bindR (ASSERT (result < numBuckets t)) (\<lambda>_. Inr result))"

fun FindInBucket :: "('a \<Rightarrow> 'k) \<Rightarrow> 'a list \<Rightarrow> 'k \<Rightarrow> 'a option" where
  "FindInBucket getKey [] key = None"
| "FindInBucket getKey (x # items) key =
     (if key = getKey x then Some x else FindInBucket getKey items key)"

definition Find :: "('a \<Rightarrow> 'k) \<Rightarrow> ('k \<Rightarrow> u32) \<Rightarrow> 'a hash_table \<Rightarrow> 'k \<Rightarrow> 'a option outcome" where
  "Find getKey hash t key =
     bindR (HashValue hash t key) (\<lambda>bucket. Inr (FindInBucket getKey (buckets t ! bucket) key))"

definition IsInTable :: "('a \<Rightarrow> 'k) \<Rightarrow> ('k \<Rightarrow> u32) \<Rightarrow> 'a hash_table \<Rightarrow> 'k \<Rightarrow> bool outcome" where
  "IsInTable getKey hash t key = bindR (Find getKey hash t key) (\<lambda>r. Inr (r \<noteq> None))"

definition bucket_check :: "('a \<Rightarrow> 'k) \<Rightarrow> ('k \<Rightarrow> u32) \<Rightarrow> 'a hash_table \<Rightarrow> nat \<Rightarrow> int \<Rightarrow> int outcome" where
  "bucket_check getKey hash t i numFound =
     forR (buckets t ! i)
       (\<lambda>x numFound. bindR (HashValue hash t (getKey x)) (\<lambda>v. bindR (ASSERT (i = v)) (\<lambda>_. Inr numFound)))
       (numFound + int (length (buckets t ! i)))"

definition HashTable_SanityCheck :: "('a \<Rightarrow> 'k) \<Rightarrow> ('k \<Rightarrow> u32) \<Rightarrow> 'a hash_table \<Rightarrow> unit outcome" where
  "HashTable_SanityCheck getKey hash t =
     bindR (forR [0..<numBuckets t] (bucket_check getKey hash t) 0) (\<lambda>numFound.
     ASSERT (numItems t = numFound))"

definition put :: "('a \<Rightarrow> 'k) \<Rightarrow> ('k \<Rightarrow> u32) \<Rightarrow> 'a \<Rightarrow> 'a hash_table \<Rightarrow> 'a hash_table outcome" where
  "put getKey hash x t =
     bindR (HashValue hash t (getKey x)) (\<lambda>b.
     bindR (list_Append (buckets t ! b) x) (\<lambda>xs.
     Inr (t\<lparr>buckets := (buckets t)[b := xs]\<rparr>)))"

text \<open>The \<^verbatim>\<open>while\<close> of \<^verbatim>\<open>ReHash\<close>: \<^verbatim>\<open>RemoveFront\<close> from the old bucket until it is empty.\<close>

fun drain :: "('a \<Rightarrow> 'k) \<Rightarrow> ('k \<Rightarrow> u32) \<Rightarrow> 'a list \<Rightarrow> 'a hash_table \<Rightarrow> 'a hash_table outcome" where
  "drain getKey hash [] t = Inr t"
| "drain getKey hash (x # rest) t = bindR (put getKey hash x t) (drain getKey hash rest)"

definition ReHash :: "('a \<Rightarrow> 'k) \<Rightarrow> ('k \<Rightarrow> u32) \<Rightarrow> 'a hash_table \<Rightarrow> 'a hash_table outcome" where
  "ReHash getKey hash t =
     (let oldTable = buckets t; oldSize = numBuckets t in
      bindR (HashTable_SanityCheck getKey hash t) (\<lambda>_.
      bindR (forR [0..<oldSize] (\<lambda>i. drain getKey hash (oldTable ! i))
               (InitBuckets t (numBuckets t * IncreaseSizeBy))) (\<lambda>t.
      bindR (HashTable_SanityCheck getKey hash t) (\<lambda>_. Inr t))))"

definition HashTable_Insert :: "('a \<Rightarrow> 'k) \<Rightarrow> ('k \<Rightarrow> u32) \<Rightarrow> 'a hash_table \<Rightarrow> 'a \<Rightarrow> 'a hash_table outcome" where
  "HashTable_Insert getKey hash t x =
     (let key = getKey x in
      bindR (IsInTable getKey hash t key) (\<lambda>found.
      bindR (ASSERT (\<not> found)) (\<lambda>_.
      bindR (if numItems t sdiv int (numBuckets t) \<ge> ResizeRatio then ReHash getKey hash t else Inr t) (\<lambda>t.
      bindR (put getKey hash x t) (\<lambda>t.
      let t = t\<lparr>numItems := numItems t + 1\<rparr> in
      bindR (IsInTable getKey hash t key) (\<lambda>found.
      bindR (ASSERT found) (\<lambda>_. Inr t)))))))"

definition HashTable_Remove :: "('a \<Rightarrow> 'k) \<Rightarrow> ('k \<Rightarrow> u32) \<Rightarrow> 'a hash_table \<Rightarrow> 'k \<Rightarrow> ('a hash_table \<times> 'a) outcome" where
  "HashTable_Remove getKey hash t key =
     bindR (HashValue hash t key) (\<lambda>bucket.
     case FindInBucket getKey (buckets t ! bucket) key of
       None \<Rightarrow> Inl AssertFailed
     | Some x \<Rightarrow>
         bindR (list_Remove (buckets t ! bucket) x) (\<lambda>xs.
         let t = t\<lparr>buckets := (buckets t)[bucket := xs], numItems := numItems t - 1\<rparr> in
         bindR (IsInTable getKey hash t key) (\<lambda>found.
         bindR (ASSERT (\<not> found)) (\<lambda>_. Inr (t, x)))))"

text \<open>\<^verbatim>\<open>Apply\<close>: the items the function is called on, in order.\<close>

definition HashTable_Apply :: "'a hash_table \<Rightarrow> 'a list" where
  "HashTable_Apply t = concat (map (\<lambda>bucket. buckets t ! bucket) [0..<numBuckets t])"

function FindNextFullBucket :: "'a hash_table \<Rightarrow> nat \<Rightarrow> nat" where
  "FindNextFullBucket t bucket =
     (if bucket < numBuckets t \<and> buckets t ! bucket = [] then FindNextFullBucket t (Suc bucket) else bucket)"
  by pat_completeness auto
termination by (relation "measure (\<lambda>(t, b). numBuckets t - b)") auto

declare FindNextFullBucket.simps [simp del]

text \<open>An iterator: the bucket index and, inside the bucket, the items from the current one on.\<close>

type_synonym 'a hash_iterator = "nat \<times> 'a list option"

definition enter_bucket :: "'a hash_table \<Rightarrow> nat \<Rightarrow> 'a hash_iterator" where
  "enter_bucket t bucket = (bucket, if bucket < numBuckets t then Some (buckets t ! bucket) else None)"

definition HashIterator_new :: "'a hash_table \<Rightarrow> 'a hash_iterator" where
  "HashIterator_new t = enter_bucket t (FindNextFullBucket t 0)"

definition HashIterator_IsDone :: "'a hash_table \<Rightarrow> 'a hash_iterator \<Rightarrow> bool" where
  "HashIterator_IsDone t it = (fst it = numBuckets t)"

definition HashIterator_Item :: "'a hash_table \<Rightarrow> 'a hash_iterator \<Rightarrow> 'a outcome" where
  "HashIterator_Item t it =
     bindR (ASSERT (\<not> HashIterator_IsDone t it)) (\<lambda>_.
     case snd it of Some (x # xs) \<Rightarrow> Inr x | _ \<Rightarrow> Inl NullPointer)"

definition HashIterator_Next :: "'a hash_table \<Rightarrow> 'a hash_iterator \<Rightarrow> 'a hash_iterator outcome" where
  "HashIterator_Next t it =
     (case snd it of
        Some (x # xs) \<Rightarrow>
          if xs = [] then Inr (enter_bucket t (FindNextFullBucket t (Suc (fst it))))
          else Inr (fst it, Some xs)
      | _ \<Rightarrow> Inl NullPointer)"

text \<open>The loop \<^verbatim>\<open>for (; !iter->IsDone(); iter->Next())\<close> of \<^verbatim>\<open>hash.h\<close>, collecting the items.\<close>

fun iterate :: "nat \<Rightarrow> 'a hash_table \<Rightarrow> 'a hash_iterator \<Rightarrow> 'a list outcome" where
  "iterate 0 t it = Inl Diverges"
| "iterate (Suc fuel) t it =
     (if HashIterator_IsDone t it then Inr []
      else bindR (HashIterator_Item t it) (\<lambda>x.
           bindR (HashIterator_Next t it) (\<lambda>it.
           bindR (iterate fuel t it) (\<lambda>xs. Inr (x # xs)))))"

definition HashTable_SelfTest :: "('a \<Rightarrow> 'k) \<Rightarrow> ('k \<Rightarrow> u32) \<Rightarrow> 'a hash_table \<Rightarrow> 'a list \<Rightarrow> 'a hash_table outcome" where
  "HashTable_SelfTest getKey hash t p =
     bindR (HashTable_SanityCheck getKey hash t) (\<lambda>_.
     bindR (ASSERT (HashTable_IsEmpty t)) (\<lambda>_.
     bindR (ASSERT (HashIterator_IsDone t (HashIterator_new t))) (\<lambda>_.
     bindR (forR p (\<lambda>x t.
              bindR (HashTable_Insert getKey hash t x) (\<lambda>t.
              bindR (IsInTable getKey hash t (getKey x)) (\<lambda>found.
              bindR (ASSERT found) (\<lambda>_.
              bindR (ASSERT (\<not> HashTable_IsEmpty t)) (\<lambda>_. Inr t))))) t) (\<lambda>t.
     bindR (forR p (\<lambda>x t.
              bindR (HashTable_Remove getKey hash t (getKey x)) (\<lambda>(t, r).
              bindR (ASSERT (r = x)) (\<lambda>_. Inr t))) t) (\<lambda>t.
     bindR (ASSERT (HashTable_IsEmpty t)) (\<lambda>_.
     bindR (HashTable_SanityCheck getKey hash t) (\<lambda>_. Inr t)))))))"

section \<open>The map a table stands for\<close>

definition hash_items :: "'a hash_table \<Rightarrow> 'a list" where
  "hash_items t = concat (buckets t)"

definition hash_shape :: "('a \<Rightarrow> 'k) \<Rightarrow> ('k \<Rightarrow> u32) \<Rightarrow> 'a hash_table \<Rightarrow> bool" where
  "hash_shape getKey hash t \<longleftrightarrow> 0 < numBuckets t \<and> length (buckets t) = numBuckets t \<and>
     (\<forall>i < numBuckets t. \<forall>x \<in> set (buckets t ! i). unat (hash (getKey x)) mod numBuckets t = i) \<and>
     distinct (map getKey (hash_items t))"

definition hash_invar :: "('a \<Rightarrow> 'k) \<Rightarrow> ('k \<Rightarrow> u32) \<Rightarrow> 'a hash_table \<Rightarrow> bool" where
  "hash_invar getKey hash t \<longleftrightarrow> hash_shape getKey hash t \<and> numItems t = int (length (hash_items t))"

definition entries :: "('a \<Rightarrow> 'k) \<Rightarrow> 'a hash_table \<Rightarrow> 'k \<rightharpoonup> 'a" where
  "entries getKey t = map_of (map (\<lambda>x. (getKey x, x)) (hash_items t))"

section \<open>Every operation refines the map\<close>

lemma HashValue_eq: "hash_shape g h t \<Longrightarrow> HashValue h t k = Inr (unat (h k) mod numBuckets t)"
  by (simp add: HashValue_def hash_shape_def)

lemma entries_iff:
  assumes "hash_shape g h t"
  shows "entries g t k = Some x \<longleftrightarrow> x \<in> set (hash_items t) \<and> g x = k"
proof -
  have "distinct (map fst (map (\<lambda>x. (g x, x)) (hash_items t)))"
    using assms by (simp add: hash_shape_def comp_def)
  from map_of_eq_Some_iff [OF this] show ?thesis unfolding entries_def by auto
qed

lemma entries_None: "entries g t k = None \<longleftrightarrow> k \<notin> g ` set (hash_items t)"
  by (force simp: entries_def map_of_eq_None_iff)

lemma FindInBucket_Some: "FindInBucket g xs k = Some x \<Longrightarrow> x \<in> set xs \<and> g x = k"
  by (induction xs) (auto split: if_splits)

lemma FindInBucket_None: "FindInBucket g xs k = None \<longleftrightarrow> k \<notin> g ` set xs"
  by (induction xs) auto

lemma bucket_items: "hash_shape g h t \<Longrightarrow> i < numBuckets t \<Longrightarrow> x \<in> set (buckets t ! i) \<Longrightarrow> x \<in> set (hash_items t)"
  by (auto simp: hash_items_def hash_shape_def intro!: bexI [of _ "buckets t ! i"])

lemma item_bucket:
  assumes "hash_shape g h t" and "x \<in> set (hash_items t)"
  shows "x \<in> set (buckets t ! (unat (h (g x)) mod numBuckets t))"
proof -
  obtain i where i: "i < length (buckets t)" "x \<in> set (buckets t ! i)"
    using assms(2) by (auto simp: hash_items_def in_set_conv_nth [of _ "buckets t"])
  with assms(1) have "unat (h (g x)) mod numBuckets t = i" by (auto simp: hash_shape_def)
  with i show ?thesis by simp
qed

lemma Find_eq:
  assumes "hash_shape g h t"
  shows "Find g h t k = Inr (entries g t k)"
proof -
  let ?b = "unat (h k) mod numBuckets t"
  have b: "?b < numBuckets t" using assms by (simp add: hash_shape_def)
  have "FindInBucket g (buckets t ! ?b) k = entries g t k"
  proof (cases "FindInBucket g (buckets t ! ?b) k")
    case None
    then have "k \<notin> g ` set (hash_items t)"
      using item_bucket [OF assms] by (auto simp: FindInBucket_None)
    with None show ?thesis using entries_None by metis
  next
    case (Some x)
    then have "x \<in> set (hash_items t)" "g x = k"
      using FindInBucket_Some bucket_items [OF assms b] by fast+
    then have "entries g t k = Some x" using entries_iff [OF assms] by blast
    with Some show ?thesis by simp
  qed
  then show ?thesis by (simp add: Find_def HashValue_eq [OF assms])
qed

lemma IsInTable_eq: "hash_shape g h t \<Longrightarrow> IsInTable g h t k = Inr (k \<in> dom (entries g t))"
  by (simp add: IsInTable_def Find_eq dom_def)

lemma distinct_keys_mset: "mset xs = mset ys \<Longrightarrow> distinct (map g xs) = distinct (map g ys)"
  by (metis mset_eq_imp_distinct_iff mset_map)

lemma mset_concat_update:
  "b < length bs \<Longrightarrow> mset (concat (bs[b := xs])) + mset (bs ! b) = mset (concat bs) + mset xs"
proof (induction bs arbitrary: b)
  case (Cons y bs)
  then show ?case by (cases b) (auto simp: ac_simps)
qed simp

lemma hash_shapeI:
  assumes "hash_shape g h t" and "b < numBuckets t" and "numBuckets t' = numBuckets t"
    and "buckets t' = (buckets t)[b := xs]"
    and "\<forall>x \<in> set xs. unat (h (g x)) mod numBuckets t = b" and "distinct (map g (hash_items t'))"
  shows "hash_shape g h t'"
  using assms by (auto simp: hash_shape_def nth_list_update)

lemma put_ok:
  assumes "hash_shape g h t" and "g x \<notin> g ` set (hash_items t)"
  shows "\<exists>t'. put g h x t = Inr t' \<and> hash_shape g h t' \<and> numItems t' = numItems t \<and>
    numBuckets t' = numBuckets t \<and> mset (hash_items t') = add_mset x (mset (hash_items t))"
proof -
  let ?b = "unat (h (g x)) mod numBuckets t"
  let ?t = "t\<lparr>buckets := (buckets t)[?b := buckets t ! ?b @ [x]]\<rparr>"
  have b: "?b < numBuckets t" "?b < length (buckets t)" using assms(1) by (simp_all add: hash_shape_def)
  have new: "x \<notin> set (buckets t ! ?b)" using assms(2) bucket_items [OF assms(1) b(1)] by auto
  have ms: "mset (hash_items ?t) = add_mset x (mset (hash_items t))"
    using mset_concat_update [OF b(2), of "buckets t ! ?b @ [x]"] by (simp add: hash_items_def)
  have "distinct (map g (x # hash_items t))" using assms by (auto simp: hash_shape_def)
  moreover have "mset (x # hash_items t) = mset (hash_items ?t)" by (simp only: ms mset.simps)
  ultimately have d: "distinct (map g (hash_items ?t))" by (metis distinct_keys_mset)
  have u: "\<forall>y \<in> set (buckets t ! ?b @ [x]). unat (h (g y)) mod numBuckets t = ?b"
    using assms(1) b(1) by (auto simp: hash_shape_def)
  have "hash_shape g h ?t" by (rule hash_shapeI [OF assms(1) b(1) _ _ u d]) simp_all
  then show ?thesis using ms new by (simp add: put_def HashValue_eq [OF assms(1)] list_Append_def)
qed

lemma drain_ok:
  "hash_shape g h t \<Longrightarrow> distinct (map g (xs @ hash_items t)) \<Longrightarrow>
   \<exists>t'. drain g h xs t = Inr t' \<and> hash_shape g h t' \<and> numItems t' = numItems t \<and>
     numBuckets t' = numBuckets t \<and> mset (hash_items t') = mset xs + mset (hash_items t)"
proof (induction xs arbitrary: t)
  case (Cons x xs)
  have "g x \<notin> g ` set (hash_items t)" using Cons.prems(2) by auto
  then obtain t1 where t1: "put g h x t = Inr t1" "hash_shape g h t1" "numItems t1 = numItems t"
      "numBuckets t1 = numBuckets t" "mset (hash_items t1) = add_mset x (mset (hash_items t))"
    using put_ok [OF Cons.prems(1)] by auto
  have "distinct (map g (xs @ hash_items t1))"
    using Cons.prems(2) distinct_keys_mset [of "xs @ hash_items t1" "(x # xs) @ hash_items t" g] t1(5) by simp
  with Cons.IH [OF t1(2)] t1 show ?case by auto
qed simp

lemma SanityCheck_ok:
  assumes "hash_shape g h t"
  shows "HashTable_SanityCheck g h t = ASSERT (numItems t = int (length (hash_items t)))"
proof -
  have one: "bucket_check g h t i n = Inr (n + int (length (buckets t ! i)))" if "i < numBuckets t" for i n
  proof -
    have "forR xs (\<lambda>x numFound. bindR (HashValue h t (g x)) (\<lambda>v. bindR (ASSERT (i = v)) (\<lambda>_. Inr numFound))) k = Inr k"
      if "\<forall>x \<in> set xs. unat (h (g x)) mod numBuckets t = i" for xs k
      using that by (induction xs) (auto simp: HashValue_eq [OF assms])
    moreover have "\<forall>x \<in> set (buckets t ! i). unat (h (g x)) mod numBuckets t = i"
      using assms that by (simp add: hash_shape_def)
    ultimately show ?thesis by (simp only: bucket_check_def)
  qed
  have all: "forR [i..<numBuckets t] (bucket_check g h t) n = Inr (n + int (length (concat (drop i (buckets t)))))"
    if "i \<le> numBuckets t" for i n
    using that
  proof (induction "numBuckets t - i" arbitrary: i n)
    case 0
    then show ?case using assms by (simp add: hash_shape_def)
  next
    case (Suc k)
    then have i: "i < numBuckets t" "i < length (buckets t)" using assms by (auto simp: hash_shape_def)
    then have "drop i (buckets t) = buckets t ! i # drop (Suc i) (buckets t)"
      by (simp add: Cons_nth_drop_Suc)
    with Suc(1) [of "Suc i"] Suc(2) i show ?case by (simp add: upt_conv_Cons one)
  qed
  show ?thesis using all [of 0 0] by (simp add: HashTable_SanityCheck_def hash_items_def)
qed

lemma shape_InitBuckets: "0 < n \<Longrightarrow> hash_shape g h (InitBuckets t n)" "hash_items (InitBuckets t n) = []"
  "numBuckets (InitBuckets t n) = n" "numItems (InitBuckets t n) = numItems t"
  by (auto simp: hash_shape_def InitBuckets_def hash_items_def)

lemma ReHash_ok:
  assumes "hash_invar g h t"
  shows "\<exists>t'. ReHash g h t = Inr t' \<and> hash_invar g h t' \<and> mset (hash_items t') = mset (hash_items t) \<and>
    numBuckets t' = numBuckets t * IncreaseSizeBy"
proof -
  let ?n = "numBuckets t * IncreaseSizeBy"
  let ?I = "\<lambda>k t'. hash_shape g h t' \<and> numItems t' = numItems t \<and> numBuckets t' = ?n \<and>
    mset (hash_items t') = mset (concat (take k (buckets t)))"
  have s: "hash_shape g h t" "numItems t = int (length (hash_items t))" using assms by (simp_all add: hash_invar_def)
  have n: "0 < ?n" using s(1) by (simp add: hash_shape_def IncreaseSizeBy_def)
  have len: "length (buckets t) = numBuckets t" using s(1) by (simp add: hash_shape_def)
  have "\<exists>t'. forR [0..<numBuckets t] (\<lambda>i. drain g h (buckets t ! i)) (InitBuckets t ?n) = Inr t' \<and> ?I (length [0..<numBuckets t]) t'"
  proof (rule forR_invariant)
    show "?I 0 (InitBuckets t ?n)" using n by (simp add: shape_InitBuckets)
  next
    fix k t1 assume k: "k < length [0..<numBuckets t]" and I: "?I k t1"
    have split: "take (Suc k) (buckets t) = take k (buckets t) @ [buckets t ! k]"
      using k len by (simp add: take_Suc_conv_app_nth)
    have "distinct (map g (concat (take (Suc k) (buckets t))))"
    proof -
      have "concat (buckets t) = concat (take (Suc k) (buckets t)) @ concat (drop (Suc k) (buckets t))"
        by (metis append_take_drop_id concat_append)
      then show ?thesis using s(1) by (simp add: hash_shape_def hash_items_def)
    qed
    moreover have "mset (buckets t ! k @ hash_items t1) = mset (concat (take (Suc k) (buckets t)))"
      using I split by simp
    ultimately have "distinct (map g (buckets t ! k @ hash_items t1))" by (metis distinct_keys_mset)
    from drain_ok [OF _ this] I obtain t2 where t2: "drain g h (buckets t ! k) t1 = Inr t2" "hash_shape g h t2"
        "numItems t2 = numItems t1" "numBuckets t2 = numBuckets t1"
        "mset (hash_items t2) = mset (buckets t ! k) + mset (hash_items t1)" by auto
    then show "\<exists>s'. drain g h (buckets t ! ([0..<numBuckets t] ! k)) t1 = Inr s' \<and> ?I (Suc k) s'"
      using I split k by auto
  qed
  then obtain t' where t': "forR [0..<numBuckets t] (\<lambda>i. drain g h (buckets t ! i)) (InitBuckets t ?n) = Inr t'"
      "hash_shape g h t'" "numItems t' = numItems t" "numBuckets t' = ?n" "mset (hash_items t') = mset (hash_items t)"
    using len by (auto simp: hash_items_def [of t])
  have sz: "length (hash_items t') = length (hash_items t)" by (rule mset_eq_length [OF t'(5)])
  show ?thesis
    using t' s sz
    by (simp add: ReHash_def Let_def SanityCheck_ok [OF s(1)] SanityCheck_ok [OF t'(2)] hash_invar_def)
qed

lemma entries_insert:
  assumes "hash_shape g h t" and "hash_shape g h t'" and "mset (hash_items t') = add_mset x (mset (hash_items t))"
  shows "entries g t' = (entries g t)(g x \<mapsto> x)"
proof
  fix k
  have set: "set (hash_items t') = insert x (set (hash_items t))"
    using assms(3) by (metis set_mset_add_mset_insert set_mset_mset)
  show "entries g t' k = ((entries g t)(g x \<mapsto> x)) k"
  proof (cases "entries g t' k")
    case None
    then have k: "k \<noteq> g x" "k \<notin> g ` set (hash_items t)"
      using set entries_None [of g t' k] by auto
    then have "entries g t k = None" using entries_None by metis
    with None k(1) show ?thesis by simp
  next
    case (Some y)
    then have y: "y \<in> set (hash_items t')" "g y = k" using entries_iff [OF assms(2), of k y] by simp_all
    show ?thesis
    proof (cases "g x = k")
      case True
      have "entries g t' k = Some x" using entries_iff [OF assms(2), of k x] set True by simp
      with True show ?thesis by simp
    next
      case False
      then have "entries g t k = Some y" using entries_iff [OF assms(1), of k y] y set by auto
      with False Some show ?thesis by simp
    qed
  qed
qed

lemma entries_cong:
  assumes "hash_shape g h t" and "hash_shape g h t'" and "mset (hash_items t') = mset (hash_items t)"
  shows "entries g t' = entries g t"
proof
  fix k
  have "set (hash_items t') = set (hash_items t)" by (rule mset_eq_setD [OF assms(3)])
  then show "entries g t' k = entries g t k"
    using entries_iff [OF assms(1), of k] entries_iff [OF assms(2), of k] by (metis option.exhaust)
qed

lemma Insert_new:
  assumes "hash_invar g h t" and "g x \<notin> dom (entries g t)"
  shows "\<exists>t'. HashTable_Insert g h t x = Inr t' \<and> hash_invar g h t' \<and> entries g t' = (entries g t)(g x \<mapsto> x)"
proof -
  have s: "hash_shape g h t" using assms(1) by (simp add: hash_invar_def)
  obtain t1 where t1: "(if numItems t sdiv int (numBuckets t) \<ge> ResizeRatio then ReHash g h t else Inr t) = Inr t1"
      "hash_invar g h t1" "mset (hash_items t1) = mset (hash_items t)"
  proof (cases "numItems t sdiv int (numBuckets t) \<ge> ResizeRatio")
    case True
    then show ?thesis using ReHash_ok [OF assms(1)] that by auto
  next
    case False
    then show ?thesis using assms(1) that [of t] by simp
  qed
  have s1: "hash_shape g h t1" using t1(2) by (simp add: hash_invar_def)
  have e1: "entries g t1 = entries g t" by (rule entries_cong [OF s s1 t1(3)])
  have "g x \<notin> g ` set (hash_items t1)" using assms(2) e1 entries_None [of g t1 "g x"] by (auto simp: domIff)
  then obtain t2 where t2: "put g h x t1 = Inr t2" "hash_shape g h t2" "numItems t2 = numItems t1"
      "mset (hash_items t2) = add_mset x (mset (hash_items t1))"
    using put_ok [OF s1] by blast
  let ?t = "t2\<lparr>numItems := numItems t2 + 1\<rparr>"
  have same: "hash_items ?t = hash_items t2" "hash_shape g h ?t = hash_shape g h t2"
    by (simp_all add: hash_items_def hash_shape_def)
  have e: "entries g ?t = (entries g t)(g x \<mapsto> x)"
    using entries_insert [OF s1, of ?t x] t2 same e1 by simp
  have "length (hash_items t2) = Suc (length (hash_items t1))"
    using arg_cong [OF t2(4), of size] by simp
  then have inv: "hash_invar g h ?t" using t1(2) t2(2,3) same by (simp add: hash_invar_def)
  then have "IsInTable g h ?t (g x) = Inr True" using e by (simp add: hash_invar_def IsInTable_eq)
  then have "HashTable_Insert g h t x = Inr ?t"
    using assms(2) t1(1) t2(1) by (simp add: HashTable_Insert_def Let_def IsInTable_eq [OF s])
  with e inv show ?thesis by blast
qed

lemma Insert_dup:
  assumes "hash_invar g h t" and "g x \<in> dom (entries g t)"
  shows "HashTable_Insert g h t x = Inl AssertFailed"
proof -
  have "hash_shape g h t" using assms(1) by (simp add: hash_invar_def)
  from IsInTable_eq [OF this] assms(2) show ?thesis by (simp add: HashTable_Insert_def Let_def)
qed

lemma Remove_present:
  assumes "hash_invar g h t" and "entries g t k = Some x"
  shows "\<exists>t'. HashTable_Remove g h t k = Inr (t', x) \<and> hash_invar g h t' \<and> entries g t' = (entries g t)(k := None)"
proof -
  let ?b = "unat (h k) mod numBuckets t"
  let ?t = "t\<lparr>buckets := (buckets t)[?b := remove1 x (buckets t ! ?b)], numItems := numItems t - 1\<rparr>"
  have s: "hash_shape g h t" using assms(1) by (simp add: hash_invar_def)
  have b: "?b < numBuckets t" "?b < length (buckets t)" using s by (simp_all add: hash_shape_def)
  have x: "x \<in> set (hash_items t)" "g x = k" using assms(2) entries_iff [OF s] by blast+
  then have xb: "x \<in> set (buckets t ! ?b)" using item_bucket [OF s] by blast
  have f: "FindInBucket g (buckets t ! ?b) k = Some x"
    using Find_eq [OF s, of k] assms(2) by (simp add: Find_def HashValue_eq [OF s])
  have ms: "mset (hash_items t) = add_mset x (mset (hash_items ?t))"
  proof -
    define D where "D = mset (remove1 x (buckets t ! ?b))"
    have "mset (buckets t ! ?b) = add_mset x D" using xb by (simp add: D_def)
    then have "mset (hash_items ?t) + add_mset x D = mset (hash_items t) + D"
      using mset_concat_update [OF b(2), of "remove1 x (buckets t ! ?b)"] by (simp only: D_def) (simp add: hash_items_def)
    then have "add_mset x (mset (hash_items ?t)) + D = mset (hash_items t) + D" by simp
    then show ?thesis by (simp only: add_right_cancel)
  qed
  have dk: "distinct (map g (x # hash_items ?t))"
  proof -
    have "mset (x # hash_items ?t) = mset (hash_items t)" by (simp only: ms mset.simps)
    then show ?thesis using s by (metis distinct_keys_mset hash_shape_def)
  qed
  then have d: "distinct (map g (hash_items ?t))" by simp
  have u: "\<forall>y \<in> set (remove1 x (buckets t ! ?b)). unat (h (g y)) mod numBuckets t = ?b"
    using s b(1) notin_set_remove1 by (fastforce simp: hash_shape_def)
  have s': "hash_shape g h ?t" by (rule hash_shapeI [OF s b(1) _ _ u d]) simp_all
  have gone: "entries g ?t k = None" using dk x(2) entries_None [of g ?t k] by auto
  have e: "entries g t = (entries g ?t)(g x \<mapsto> x)" by (rule entries_insert [OF s' s ms])
  have "length (hash_items t) = Suc (length (hash_items ?t))" using arg_cong [OF ms, of size] by simp
  then have inv: "hash_invar g h ?t" using assms(1) s' by (simp add: hash_invar_def)
  have "HashTable_Remove g h t k = Inr (?t, x)"
    using f xb gone IsInTable_eq [OF s', of k]
    by (simp add: HashTable_Remove_def HashValue_eq [OF s] list_Remove_def Let_def domIff)
  moreover have "entries g ?t = (entries g t)(k := None)" using e gone x(2) by (auto simp: fun_eq_iff)
  ultimately show ?thesis using inv by blast
qed

lemma Remove_absent:
  assumes "hash_invar g h t" and "entries g t k = None"
  shows "HashTable_Remove g h t k = Inl AssertFailed"
proof -
  have s: "hash_shape g h t" using assms(1) by (simp add: hash_invar_def)
  have "FindInBucket g (buckets t ! (unat (h k) mod numBuckets t)) k = None"
    using Find_eq [OF s, of k] assms(2) by (simp add: Find_def HashValue_eq [OF s])
  then show ?thesis by (simp add: HashTable_Remove_def HashValue_eq [OF s])
qed

section \<open>The dictionary interface\<close>

text \<open>What a client of the table relies on, and what follows for loading and unloading it.\<close>

locale dictionary =
  fixes invar :: "'t \<Rightarrow> bool"
    and lookup :: "'t \<Rightarrow> 'k \<rightharpoonup> 'v"
    and key_of :: "'v \<Rightarrow> 'k"
    and insert_item :: "'t \<Rightarrow> 'v \<Rightarrow> 't outcome"
    and remove_key :: "'t \<Rightarrow> 'k \<Rightarrow> ('t \<times> 'v) outcome"
  assumes insert_new: "invar t \<Longrightarrow> key_of x \<notin> dom (lookup t) \<Longrightarrow>
      \<exists>t'. insert_item t x = Inr t' \<and> invar t' \<and> lookup t' = (lookup t)(key_of x \<mapsto> x)"
    and insert_dup: "invar t \<Longrightarrow> key_of x \<in> dom (lookup t) \<Longrightarrow> insert_item t x = Inl AssertFailed"
    and remove_present: "invar t \<Longrightarrow> lookup t k = Some x \<Longrightarrow>
      \<exists>t'. remove_key t k = Inr (t', x) \<and> invar t' \<and> lookup t' = (lookup t)(k := None)"
    and remove_absent: "invar t \<Longrightarrow> lookup t k = None \<Longrightarrow> remove_key t k = Inl AssertFailed"
begin

lemma insert_then_remove:
  assumes "invar t" and "key_of x \<notin> dom (lookup t)"
  shows "\<exists>t1 t2. insert_item t x = Inr t1 \<and> remove_key t1 (key_of x) = Inr (t2, x) \<and> invar t2 \<and> lookup t2 = lookup t"
proof -
  obtain t1 where t1: "insert_item t x = Inr t1" "invar t1" "lookup t1 = (lookup t)(key_of x \<mapsto> x)"
    using insert_new [OF assms] by blast
  obtain t2 where t2: "remove_key t1 (key_of x) = Inr (t2, x)" "invar t2" "lookup t2 = (lookup t1)(key_of x := None)"
    using remove_present [OF t1(2), of "key_of x" x] t1(3) by auto
  have "lookup t2 = lookup t" using t1(3) t2(3) assms(2) by (auto simp: fun_eq_iff domIff)
  with t1 t2 show ?thesis by blast
qed

lemma load:
  assumes "invar t" and "distinct (map key_of xs)" and "key_of ` set xs \<inter> dom (lookup t) = {}"
    and body: "\<And>x t t'. insert_item t x = Inr t' \<Longrightarrow> invar t' \<Longrightarrow> lookup t' (key_of x) = Some x \<Longrightarrow> body x t = Inr t'"
  shows "\<exists>t'. forR xs body t = Inr t' \<and> invar t' \<and>
    (\<forall>k v. lookup t' k = Some v \<longleftrightarrow> lookup t k = Some v \<or> v \<in> set xs \<and> key_of v = k)"
  using assms(1-3)
proof (induction xs arbitrary: t)
  case (Cons x xs)
  obtain t1 where t1: "insert_item t x = Inr t1" "invar t1" "lookup t1 = (lookup t)(key_of x \<mapsto> x)"
    using insert_new [of t x] Cons.prems by auto
  then have "body x t = Inr t1" by (intro body) simp_all
  moreover have "key_of ` set xs \<inter> dom (lookup t1) = {}" using Cons.prems t1(3) by auto
  ultimately obtain t' where t': "forR (x # xs) body t = Inr t'" "invar t'"
      "\<And>k v. lookup t' k = Some v \<longleftrightarrow> lookup t1 k = Some v \<or> v \<in> set xs \<and> key_of v = k"
    using Cons.IH [OF t1(2)] Cons.prems(2) by auto
  have "lookup t1 k = Some v \<longleftrightarrow> lookup t k = Some v \<or> v = x \<and> key_of v = k" for k v
    using t1(3) Cons.prems(3) by (auto simp: domIff)
  then have "lookup t' k = Some v \<longleftrightarrow> lookup t k = Some v \<or> v \<in> set (x # xs) \<and> key_of v = k" for k v
    using t'(3) by auto
  with t' show ?case by blast
qed simp

lemma unload:
  assumes "invar t" and "distinct (map key_of xs)"
    and "\<forall>k v. lookup t k = Some v \<longleftrightarrow> v \<in> set xs \<and> key_of v = k"
    and body: "\<And>x t t'. remove_key t (key_of x) = Inr (t', x) \<Longrightarrow> body x t = Inr t'"
  shows "\<exists>t'. forR xs body t = Inr t' \<and> invar t' \<and> lookup t' = Map.empty"
  using assms(1-3)
proof (induction xs arbitrary: t)
  case Nil
  then have "lookup t = Map.empty" by (auto simp: fun_eq_iff)
  with Nil show ?case by simp
next
  case (Cons x xs)
  have "lookup t (key_of x) = Some x" using Cons.prems(3) by simp
  then obtain t1 where t1: "remove_key t (key_of x) = Inr (t1, x)" "invar t1" "lookup t1 = (lookup t)(key_of x := None)"
    using remove_present [OF Cons.prems(1)] by blast
  have "\<forall>k v. lookup t1 k = Some v \<longleftrightarrow> v \<in> set xs \<and> key_of v = k"
  proof (intro allI)
    fix k v
    have "v \<in> set xs \<Longrightarrow> key_of v \<noteq> key_of x" using Cons.prems(2) by (metis distinct.simps(2) image_eqI list.simps(9) set_map)
    then show "lookup t1 k = Some v \<longleftrightarrow> v \<in> set xs \<and> key_of v = k"
      using t1(3) Cons.prems(3) by auto
  qed
  with Cons.IH [OF t1(2)] Cons.prems(2) body [OF t1(1)] show ?case by auto
qed

end

interpretation hash: dictionary "hash_invar getKey hash" "entries getKey" getKey
    "HashTable_Insert getKey hash" "HashTable_Remove getKey hash"
  for getKey :: "'a \<Rightarrow> 'k" and hash
  by unfold_locales (blast intro: Insert_new Insert_dup Remove_present Remove_absent)+

section \<open>Iteration\<close>

lemma FindNextFullBucket_spec:
  assumes "b \<le> numBuckets t"
  shows "b \<le> FindNextFullBucket t b \<and> FindNextFullBucket t b \<le> numBuckets t \<and>
    (\<forall>i. b \<le> i \<and> i < FindNextFullBucket t b \<longrightarrow> buckets t ! i = []) \<and>
    (FindNextFullBucket t b < numBuckets t \<longrightarrow> buckets t ! FindNextFullBucket t b \<noteq> [])"
  using assms
proof (induction t b rule: FindNextFullBucket.induct)
  case (1 t b)
  show ?case
  proof (cases "b < numBuckets t \<and> buckets t ! b = []")
    case True
    then have e: "FindNextFullBucket t b = FindNextFullBucket t (Suc b)" by (subst FindNextFullBucket.simps) simp
    have "i = b \<or> Suc b \<le> i" if "b \<le> i" for i using that by auto
    with 1(1) [OF True] True show ?thesis unfolding e by auto
  next
    case False
    then have "FindNextFullBucket t b = b" by (subst FindNextFullBucket.simps) auto
    with False 1(2) show ?thesis by auto
  qed
qed

lemma concat_drop_empty:
  assumes "b \<le> r" and "r \<le> length bs" and "\<forall>i. b \<le> i \<and> i < r \<longrightarrow> bs ! i = []"
  shows "concat (drop b bs) = concat (drop r bs)"
  using assms
proof (induction "r - b" arbitrary: b)
  case (Suc k)
  then have "b < length bs" by simp
  then have "drop b bs = bs ! b # drop (Suc b) bs" by (rule Cons_nth_drop_Suc [symmetric])
  moreover have "bs ! b = []" using Suc by auto
  ultimately show ?case using Suc(1) [of "Suc b"] Suc.prems Suc(2) by auto
qed simp

lemma iterate_eq:
  assumes "length (buckets t) = numBuckets t"
  shows "b \<le> numBuckets t \<Longrightarrow> length (concat (drop b (buckets t))) < fuel \<Longrightarrow>
      iterate fuel t (enter_bucket t (FindNextFullBucket t b)) = Inr (concat (drop b (buckets t)))"
    and "xs \<noteq> [] \<Longrightarrow> c < numBuckets t \<Longrightarrow> length (xs @ concat (drop (Suc c) (buckets t))) < fuel \<Longrightarrow>
      iterate fuel t (c, Some xs) = Inr (xs @ concat (drop (Suc c) (buckets t)))"
proof (induction fuel arbitrary: b c xs)
  case (Suc fuel)
  have within: "iterate (Suc fuel) t (c, Some ys) = Inr (ys @ concat (drop (Suc c) (buckets t)))"
    if ys: "ys \<noteq> []" "c < numBuckets t" "length (ys @ concat (drop (Suc c) (buckets t))) < Suc fuel" for c ys
  proof -
    obtain z zs where z: "ys = z # zs" using ys(1) by (cases ys) auto
    show ?thesis
    proof (cases "zs = []")
      case True
      with Suc.IH(1) [of "Suc c"] ys z show ?thesis
        by (simp add: HashIterator_IsDone_def HashIterator_Item_def HashIterator_Next_def)
    next
      case False
      with Suc.IH(2) [of zs c] ys z show ?thesis
        by (simp add: HashIterator_IsDone_def HashIterator_Item_def HashIterator_Next_def)
    qed
  qed
  { case 1
    let ?r = "FindNextFullBucket t b"
    note r = FindNextFullBucket_spec [OF 1(1)]
    then have e: "concat (drop b (buckets t)) = concat (drop ?r (buckets t))"
      by (intro concat_drop_empty) (auto simp: assms)
    show ?case
    proof (cases "?r < numBuckets t")
      case True
      then have "drop ?r (buckets t) = buckets t ! ?r # drop (Suc ?r) (buckets t)"
        by (simp add: assms Cons_nth_drop_Suc)
      with within [of "buckets t ! ?r" ?r] r True 1(2) e show ?thesis by (simp add: enter_bucket_def)
    next
      case False
      then have "?r = numBuckets t" using r by auto
      then show ?thesis using e assms by (simp add: enter_bucket_def HashIterator_IsDone_def)
    qed
  next
    case 2
    then show ?case by (rule within)
  }
qed simp_all


section \<open>Properties\<close>

lemma hash_invar_new: "hash_invar g h HashTable_new" "entries g HashTable_new = Map.empty"
  by (simp_all add: hash_invar_def HashTable_new_def shape_InitBuckets InitialBuckets_def entries_def)

text \<open>
  C38: The hash table is a finite map from keys to items. From any well-formed table, \<^verbatim>\<open>Find\<close> is
  lookup; \<^verbatim>\<open>Insert\<close> of a new key adds the item, growing and rehashing the table when it is three
  times as full as it has buckets, and fails its assertion on a key that is present; \<^verbatim>\<open>Remove\<close> returns and removes
  the item of a present key and fails its assertion on an absent one; each keeps the table well formed and passes
  every \<^verbatim>\<open>SanityCheck\<close>.
\<close>

theorem HashTable_refines_map:
  assumes "hash_invar getKey hash t"
  shows "Find getKey hash t k = Inr (entries getKey t k) \<and>
    HashTable_SanityCheck getKey hash t = Inr () \<and>
    (case HashTable_Insert getKey hash t x of
       Inl f \<Rightarrow> f = AssertFailed \<and> getKey x \<in> dom (entries getKey t)
     | Inr t' \<Rightarrow> getKey x \<notin> dom (entries getKey t) \<and> hash_invar getKey hash t' \<and>
         entries getKey t' = (entries getKey t)(getKey x \<mapsto> x)) \<and>
    (case HashTable_Remove getKey hash t k of
       Inl f \<Rightarrow> f = AssertFailed \<and> k \<notin> dom (entries getKey t)
     | Inr (t', y) \<Rightarrow> entries getKey t k = Some y \<and> hash_invar getKey hash t' \<and>
         entries getKey t' = (entries getKey t)(k := None))"
proof -
  have s: "hash_shape getKey hash t" "numItems t = int (length (hash_items t))"
    using assms by (simp_all add: hash_invar_def)
  have ins: "(case HashTable_Insert getKey hash t x of
       Inl f \<Rightarrow> f = AssertFailed \<and> getKey x \<in> dom (entries getKey t)
     | Inr t' \<Rightarrow> getKey x \<notin> dom (entries getKey t) \<and> hash_invar getKey hash t' \<and>
         entries getKey t' = (entries getKey t)(getKey x \<mapsto> x))"
    using hash.insert_new [OF assms, of x] hash.insert_dup [OF assms, of x]
    by (cases "getKey x \<in> dom (entries getKey t)") auto
  have rem: "(case HashTable_Remove getKey hash t k of
       Inl f \<Rightarrow> f = AssertFailed \<and> k \<notin> dom (entries getKey t)
     | Inr (t', y) \<Rightarrow> entries getKey t k = Some y \<and> hash_invar getKey hash t' \<and>
         entries getKey t' = (entries getKey t)(k := None))"
  proof (cases "entries getKey t k")
    case None
    with hash.remove_absent [OF assms None] show ?thesis by (simp add: domIff)
  next
    case (Some y)
    with hash.remove_present [OF assms Some] show ?thesis by auto
  qed
  show ?thesis using Find_eq [OF s(1)] SanityCheck_ok [OF s(1)] s(2) ins rem by simp
qed

theorem HashTable_refines_map_witness:
  "\<exists>t. HashTable_Insert (\<lambda>x::nat. x) of_nat HashTable_new 7 = Inr t \<and> hash_invar (\<lambda>x. x) of_nat t \<and>
     entries (\<lambda>x. x) t = [7 \<mapsto> 7]"
proof -
  have "\<exists>t. HashTable_Insert (\<lambda>x::nat. x) of_nat HashTable_new 7 = Inr t"
    using hash.insert_new [OF hash_invar_new(1), of "\<lambda>x::nat. x" 7] by (auto simp: hash_invar_new)
  with HashTable_refines_map [OF hash_invar_new(1), of "\<lambda>x::nat. x" of_nat 7 7] show ?thesis
    by (auto simp: hash_invar_new)
qed

text \<open>
  Stepping an iterator over a well-formed table visits every item exactly once, in the order
  of the buckets, which is also the order of \<^verbatim>\<open>Apply\<close>, and then is done (it never runs off a
  bucket); the loop needs no more steps than there are items.
\<close>

theorem HashIterator_visits_all:
  assumes "hash_invar getKey hash t"
  shows "iterate (Suc (nat (numItems t))) t (HashIterator_new t) = Inr (HashTable_Apply t) \<and>
    distinct (HashTable_Apply t) \<and>
    (\<forall>x. x \<in> set (HashTable_Apply t) \<longleftrightarrow> entries getKey t (getKey x) = Some x)"
proof -
  have s: "hash_shape getKey hash t" and n: "numItems t = int (length (hash_items t))"
    using assms by (simp_all add: hash_invar_def)
  have len: "length (buckets t) = numBuckets t" using s by (simp add: hash_shape_def)
  have a: "HashTable_Apply t = hash_items t"
    using map_nth [of "buckets t"] by (simp add: HashTable_Apply_def hash_items_def len)
  have "distinct (hash_items t)" using s distinct_map by (auto simp: hash_shape_def)
  moreover have "iterate (Suc (nat (numItems t))) t (HashIterator_new t) = Inr (hash_items t)"
    using iterate_eq(1) [OF len, of 0 "Suc (nat (numItems t))"] n by (simp add: HashIterator_new_def hash_items_def del: iterate.simps)
  ultimately show ?thesis using entries_iff [OF s] by (auto simp: a)
qed

theorem HashIterator_visits_all_witness:
  "iterate 1 (HashTable_new :: nat hash_table) (HashIterator_new HashTable_new) = Inr []"
  using HashIterator_visits_all [OF hash_invar_new(1) [of "\<lambda>x::nat. x" "of_nat :: nat \<Rightarrow> u32"]]
  by (simp add: HashTable_new_def InitBuckets_def HashTable_Apply_def InitialBuckets_def)

text \<open>
  \<^verbatim>\<open>SelfTest\<close> runs to its end, with no assertion failing, on a new table and any vector of items
  with distinct keys, however often the table is rehashed, and leaves the table empty.
\<close>

lemma HashTable_SelfTest_passes:
  fixes getKey :: "'a \<Rightarrow> 'k"
  assumes "distinct (map getKey p)"
  shows "\<exists>t. HashTable_SelfTest getKey hash HashTable_new p = Inr t \<and> hash_invar getKey hash t \<and> entries getKey t = Map.empty"
proof -
  let ?ins = "\<lambda>x t. bindR (HashTable_Insert getKey hash t x) (\<lambda>t.
              bindR (IsInTable getKey hash t (getKey x)) (\<lambda>found.
              bindR (ASSERT found) (\<lambda>_.
              bindR (ASSERT (\<not> HashTable_IsEmpty t)) (\<lambda>_. Inr t))))"
  let ?rem = "\<lambda>x t. bindR (HashTable_Remove getKey hash t (getKey x)) (\<lambda>(t, r).
              bindR (ASSERT (r = x)) (\<lambda>_. Inr t))"
  have ins: "?ins x t = Inr t'"
    if "HashTable_Insert getKey hash t x = Inr t'" "hash_invar getKey hash t'" "entries getKey t' (getKey x) = Some x" for x t t'
  proof -
    have s: "hash_shape getKey hash t'" "numItems t' = int (length (hash_items t'))"
      using that(2) by (simp_all add: hash_invar_def)
    have "x \<in> set (hash_items t')" using entries_iff [OF s(1), of "getKey x" x] that(3) by simp
    then have "hash_items t' \<noteq> []" by auto
    then show ?thesis
      using that s by (simp add: IsInTable_eq HashTable_IsEmpty_def domIff)
  qed
  obtain t1 where t1: "forR p ?ins HashTable_new = Inr t1" "hash_invar getKey hash t1"
      "\<forall>k v. entries getKey t1 k = Some v \<longleftrightarrow> v \<in> set p \<and> getKey v = k"
    using hash.load [OF hash_invar_new(1) assms, of hash ?ins] ins by (auto simp: hash_invar_new)
  obtain t2 where t2: "forR p ?rem t1 = Inr t2" "hash_invar getKey hash t2" "entries getKey t2 = Map.empty"
    using hash.unload [OF t1(2) assms t1(3), of ?rem] by auto
  have s2: "hash_shape getKey hash t2" "numItems t2 = int (length (hash_items t2))"
    using t2(2) by (simp_all add: hash_invar_def)
  have e2: "hash_items t2 = []"
      proof (rule ccontr)
    assume "hash_items t2 \<noteq> []"
    then obtain y where "y \<in> set (hash_items t2)" by (meson list.set_sel(1))
    then show False using entries_None [of getKey t2 "getKey y"] t2(3) by auto
  qed
  have new: "HashTable_SanityCheck getKey hash (HashTable_new :: 'a hash_table) = Inr ()"
      "HashTable_IsEmpty (HashTable_new :: 'a hash_table)"
      "HashIterator_IsDone HashTable_new (HashIterator_new (HashTable_new :: 'a hash_table))"
  proof -
    note i = hash_invar_new(1) [of getKey hash, unfolded hash_invar_def]
    show "HashTable_SanityCheck getKey hash (HashTable_new :: 'a hash_table) = Inr ()"
      using SanityCheck_ok [of getKey hash HashTable_new] i by simp
    show "HashTable_IsEmpty (HashTable_new :: 'a hash_table)"
      by (simp add: HashTable_IsEmpty_def HashTable_new_def InitBuckets_def)
    show "HashIterator_IsDone HashTable_new (HashIterator_new (HashTable_new :: 'a hash_table))"
      using FindNextFullBucket_spec [of 0 "HashTable_new :: 'a hash_table"]
      by (fastforce simp: HashIterator_IsDone_def HashIterator_new_def enter_bucket_def HashTable_new_def InitBuckets_def)
  qed
  show ?thesis
    using new t1(1) t2 s2 e2 SanityCheck_ok [OF s2(1)]
    by (simp add: HashTable_SelfTest_def HashTable_IsEmpty_def)
qed
end
