(* ===== verification/Bitmap.thy ===== *)
theory Bitmap
  imports Nachos_Prelude
begin

text \<open>
  The class \<^verbatim>\<open>Bitmap\<close> of \<^verbatim>\<open>code/lib/bitmap.cc\<close>: an array of bits packed into 32-bit words.
  The record keeps the three fields of the class, each method is one definition with its
  \<^verbatim>\<open>ASSERT\<close>s, and \<open>marked\<close> abstracts a bitmap to the set of its marked bits. The lemmas
  show that every method keeps the representation invariant \<open>bitmap_wf\<close> and refines the
  operation on the set, so that \<open>FindAndSet\<close> is a first-fit allocator. The locale
  \<open>allocator\<close> states that contract for the clients (the file system's free map).
\<close>

section \<open>State and operations\<close>

definition BitsInByte :: int where "BitsInByte = 8"
definition BitsInWord :: int where "BitsInWord = 4 * BitsInByte"

record bitmap =
  numBits :: int
  numWords :: int
  bmap :: "u32 list"

definition bit_mask :: "int \<Rightarrow> u32" where
  "bit_mask which = push_bit (nat (which mod BitsInWord)) 1"

definition word_index :: "int \<Rightarrow> nat" where
  "word_index which = nat (which div BitsInWord)"

definition Test :: "bitmap \<Rightarrow> int \<Rightarrow> bool outcome" where
  "Test b which =
     bindR (ASSERT (which \<ge> 0 \<and> which < numBits b)) (\<lambda>_.
     if (bmap b ! word_index which) AND bit_mask which \<noteq> 0 then Inr True else Inr False)"

definition Mark :: "bitmap \<Rightarrow> int \<Rightarrow> bitmap outcome" where
  "Mark b which =
     bindR (ASSERT (which \<ge> 0 \<and> which < numBits b)) (\<lambda>_.
     let w = word_index which;
         b' = b\<lparr>bmap := (bmap b)[w := (bmap b ! w) OR bit_mask which]\<rparr> in
     bindR (Test b' which) (\<lambda>t. bindR (ASSERT t) (\<lambda>_. Inr b')))"

definition Clear :: "bitmap \<Rightarrow> int \<Rightarrow> bitmap outcome" where
  "Clear b which =
     bindR (ASSERT (which \<ge> 0 \<and> which < numBits b)) (\<lambda>_.
     let w = word_index which;
         b' = b\<lparr>bmap := (bmap b)[w := (bmap b ! w) AND NOT (bit_mask which)]\<rparr> in
     bindR (Test b' which) (\<lambda>t. bindR (ASSERT (\<not> t)) (\<lambda>_. Inr b')))"

definition indices :: "bitmap \<Rightarrow> int list" where
  "indices b = map int [0..<nat (numBits b)]"

definition Bitmap_new :: "int \<Rightarrow> bitmap outcome" where
  "Bitmap_new numItems =
     bindR (ASSERT (numItems > 0)) (\<lambda>_.
     let nw = divRoundUp numItems BitsInWord;
         b = \<lparr>numBits = numItems, numWords = nw, bmap = replicate (nat nw) 0\<rparr> in
     forR (indices b) (\<lambda>i b. Clear b i) b)"

fun FindAndSet_from :: "int list \<Rightarrow> bitmap \<Rightarrow> (bitmap \<times> int) outcome" where
  "FindAndSet_from [] b = Inr (b, - 1)"
| "FindAndSet_from (i # is) b =
     bindR (Test b i) (\<lambda>t.
     if \<not> t then bindR (Mark b i) (\<lambda>b'. Inr (b', i)) else FindAndSet_from is b)"

definition FindAndSet :: "bitmap \<Rightarrow> (bitmap \<times> int) outcome" where
  "FindAndSet b = FindAndSet_from (indices b) b"

definition NumClear :: "bitmap \<Rightarrow> int outcome" where
  "NumClear b =
     forR (indices b)
       (\<lambda>i count. bindR (Test b i) (\<lambda>t. if \<not> t then Inr (count + 1) else Inr count)) 0"

text \<open>\<^verbatim>\<open>Print\<close> writes the numbers of the bits that are set; the model returns them.\<close>

definition Bitmap_Print :: "bitmap \<Rightarrow> int list outcome" where
  "Bitmap_Print b =
     forR (indices b)
       (\<lambda>i out. bindR (Test b i) (\<lambda>t. if t then Inr (out @ [i]) else Inr out)) []"

definition Bitmap_SelfTest :: "bitmap \<Rightarrow> bitmap outcome" where
  "Bitmap_SelfTest b0 =
     bindR (ASSERT (numBits b0 \<ge> BitsInWord)) (\<lambda>_.
     bindR (NumClear b0) (\<lambda>n. bindR (ASSERT (n = numBits b0)) (\<lambda>_.
     bindR (FindAndSet b0) (\<lambda>(b1, i). bindR (ASSERT (i = 0)) (\<lambda>_.
     bindR (Mark b1 31) (\<lambda>b2.
     bindR (Test b2 0) (\<lambda>t0. bindR (Test b2 31) (\<lambda>t31. bindR (ASSERT (t0 \<and> t31)) (\<lambda>_.
     bindR (FindAndSet b2) (\<lambda>(b3, j). bindR (ASSERT (j = 1)) (\<lambda>_.
     bindR (Clear b3 0) (\<lambda>b4. bindR (Clear b4 1) (\<lambda>b5. bindR (Clear b5 31) (\<lambda>b6.
     bindR (forR (indices b6) (\<lambda>i b. Mark b i) b6) (\<lambda>b7.
     bindR (FindAndSet b7) (\<lambda>(b8, k). bindR (ASSERT (k = - 1)) (\<lambda>_.
     forR (indices b8) (\<lambda>i b. Clear b i) b8)))))))))))))))))"

section \<open>Invariant and abstraction\<close>

definition bitmap_wf :: "bitmap \<Rightarrow> bool" where
  "bitmap_wf b \<longleftrightarrow> numBits b > 0 \<and> numWords b = divRoundUp (numBits b) BitsInWord
     \<and> int (length (bmap b)) = numWords b"

definition bit_at :: "bitmap \<Rightarrow> int \<Rightarrow> bool" where
  "bit_at b i = bit (bmap b ! word_index i) (nat (i mod BitsInWord))"

definition marked :: "bitmap \<Rightarrow> int set" where
  "marked b = {i. 0 \<le> i \<and> i < numBits b \<and> bit_at b i}"

lemma BitsInWord_eq [simp]: "BitsInWord = 32"
  by (simp add: BitsInWord_def BitsInByte_def)

lemma and_bit_mask: "(w AND bit_mask i \<noteq> 0) = bit w (nat (i mod 32))"
  by (simp add: bit_mask_def bit_iff_and_push_bit_not_eq_0)

lemma bit_or_mask:
  "n < 32 \<Longrightarrow> bit (w OR bit_mask i) n = (bit w n \<or> n = nat (i mod 32))"
  by (auto simp: bit_mask_def bit_simps)

lemma bit_and_not_mask:
  "n < 32 \<Longrightarrow> bit (w AND NOT (bit_mask i)) n = (bit w n \<and> n \<noteq> nat (i mod 32))"
  by (auto simp: bit_mask_def bit_simps)

lemma word_index_bound:
  assumes "bitmap_wf b" "0 \<le> i" "i < numBits b"
  shows "word_index i < length (bmap b)"
proof -
  have n: "numBits b \<le> divRoundUp (numBits b) 32 * 32"
    using assms divRoundUp_bounds(1) [of "numBits b" 32] by (simp add: bitmap_wf_def)
  have "i div 32 < divRoundUp (numBits b) 32"
    using assms(3) n by linarith
  then show ?thesis
    using assms by (simp add: word_index_def bitmap_wf_def nat_less_iff pos_imp_zdiv_nonneg_iff)
qed

lemma same_bit_iff:
  assumes "0 \<le> i" "0 \<le> j"
  shows "word_index i = word_index j \<and> nat (i mod 32) = nat (j mod 32) \<longleftrightarrow> i = j"
proof -
  have "word_index i = word_index j \<longleftrightarrow> i div 32 = j div 32"
    using assms by (simp add: word_index_def eq_nat_nat_iff pos_imp_zdiv_nonneg_iff)
  moreover have "nat (i mod 32) = nat (j mod 32) \<longleftrightarrow> i mod 32 = j mod 32"
    by (simp add: eq_nat_nat_iff)
  ultimately show ?thesis by (metis mult_div_mod_eq)
qed

lemma mod32_nat_less [simp]: "nat (i mod 32) < 32"
  by (simp add: nat_less_iff)

lemma Test_eq:
  "0 \<le> i \<Longrightarrow> i < numBits b \<Longrightarrow> Test b i = Inr (i \<in> marked b)"
  by (simp add: Test_def and_bit_mask marked_def bit_at_def)

lemma Test_assert: "\<not> (0 \<le> i \<and> i < numBits b) \<Longrightarrow> Test b i = Inl AssertFailed"
  by (auto simp: Test_def ASSERT_def)

lemma Mark_spec:
  assumes "bitmap_wf b" "0 \<le> i" "i < numBits b"
  shows "\<exists>b'. Mark b i = Inr b' \<and> bitmap_wf b' \<and> marked b' = insert i (marked b)
           \<and> numBits b' = numBits b"
proof -
  let ?b = "b\<lparr>bmap := (bmap b)[word_index i := (bmap b ! word_index i) OR bit_mask i]\<rparr>"
  have at: "bit_at ?b j = (bit_at b j \<or> j = i)" if "0 \<le> j" "j < numBits b" for j
    using that word_index_bound [OF assms] assms same_bit_iff [of i j]
    by (auto simp: bit_or_mask bit_at_def list_update_swap_nth)
  have "marked ?b = insert i (marked b)"
    using at assms by (auto simp: marked_def)
  moreover have "bitmap_wf ?b" using assms(1) by (simp add: bitmap_wf_def)
  moreover have "Mark b i = Inr ?b"
    using assms at by (simp add: Mark_def Test_eq Let_def marked_def)
  ultimately show ?thesis by simp
qed

lemma Clear_spec:
  assumes "bitmap_wf b" "0 \<le> i" "i < numBits b"
  shows "\<exists>b'. Clear b i = Inr b' \<and> bitmap_wf b' \<and> marked b' = marked b - {i}
           \<and> numBits b' = numBits b"
proof -
  let ?b = "b\<lparr>bmap := (bmap b)[word_index i := (bmap b ! word_index i) AND NOT (bit_mask i)]\<rparr>"
  have at: "bit_at ?b j = (bit_at b j \<and> j \<noteq> i)" if "0 \<le> j" "j < numBits b" for j
    using that word_index_bound [OF assms] assms same_bit_iff [of i j]
    by (auto simp: bit_and_not_mask bit_at_def list_update_swap_nth)
  have "marked ?b = marked b - {i}"
    using at assms by (auto simp: marked_def)
  moreover have "bitmap_wf ?b" using assms(1) by (simp add: bitmap_wf_def)
  moreover have "Clear b i = Inr ?b"
    using assms at by (simp add: Clear_def Test_eq Let_def marked_def)
  ultimately show ?thesis by simp
qed

lemma marked_bounds: "i \<in> marked b \<Longrightarrow> 0 \<le> i \<and> i < numBits b"
  by (simp add: marked_def)

lemma finite_marked [simp]: "finite (marked b)"
  by (rule finite_subset [of _ "{0..numBits b}"]) (auto simp: marked_def)

lemma set_indices: "set (indices b) = {i. 0 \<le> i \<and> i < numBits b}"
proof -
  have "i \<in> int ` {0..<nat (numBits b)}" if "0 \<le> i" "i < numBits b" for i
    using that by (intro image_eqI [of _ _ "nat i"]) auto
  then show ?thesis by (auto simp: indices_def)
qed

lemma indices_nth: "k < nat (numBits b) \<Longrightarrow> indices b ! k = int k"
  by (simp add: indices_def)

lemma length_indices [simp]: "length (indices b) = nat (numBits b)"
  by (simp add: indices_def)

lemma distinct_indices [simp]: "distinct (indices b)"
  by (simp add: indices_def distinct_map)

lemma sorted_indices [simp]: "sorted (indices b)"
  unfolding indices_def sorted_map by (simp add: sorted_wrt_iff_nth_less)

section \<open>Allocation and counting\<close>

lemma FindAndSet_from_eq:
  "set is \<subseteq> {i. 0 \<le> i \<and> i < numBits b} \<Longrightarrow>
   FindAndSet_from is b =
     (case dropWhile (\<lambda>i. i \<in> marked b) is of
        [] \<Rightarrow> Inr (b, - 1)
      | i # _ \<Rightarrow> bindR (Mark b i) (\<lambda>b'. Inr (b', i)))"
  by (induction "is") (auto simp: Test_eq)

lemma FindAndSet_full:
  assumes "\<And>i. 0 \<le> i \<Longrightarrow> i < numBits b \<Longrightarrow> i \<in> marked b"
  shows "FindAndSet b = Inr (b, - 1)"
proof -
  have d: "dropWhile (\<lambda>i. i \<in> marked b) (indices b) = []"
    using assms by (simp add: dropWhile_eq_Nil_conv set_indices)
  show ?thesis
    by (simp add: FindAndSet_def FindAndSet_from_eq set_indices d)
qed

lemma FindAndSet_free:
  assumes wf: "bitmap_wf b" and free: "0 \<le> j" "j < numBits b" "j \<notin> marked b"
  shows "\<exists>b' i. FindAndSet b = Inr (b', i) \<and> bitmap_wf b' \<and> numBits b' = numBits b
     \<and> 0 \<le> i \<and> i \<le> j \<and> i \<notin> marked b \<and> (\<forall>k. 0 \<le> k \<and> k < i \<longrightarrow> k \<in> marked b)
     \<and> marked b' = insert i (marked b)"
proof -
  let ?P = "\<lambda>i. i \<in> marked b"
  have split: "takeWhile ?P (indices b) @ dropWhile ?P (indices b) = indices b" by simp
  obtain i rest where d: "dropWhile ?P (indices b) = i # rest"
    using free by (cases "dropWhile ?P (indices b)") (auto simp: dropWhile_eq_Nil_conv set_indices)
  have i: "0 \<le> i" "i < numBits b" "i \<notin> marked b"
    using d hd_dropWhile [of ?P "indices b"] set_dropWhileD [of i ?P "indices b"]
    by (auto simp: set_indices)
  have srt: "sorted (takeWhile ?P (indices b) @ i # rest)"
    using split d by (metis sorted_indices)
  have below: "k \<in> marked b" if k: "0 \<le> k" "k < i" for k
  proof -
    have "k \<in> set (takeWhile ?P (indices b) @ i # rest)"
      using k i(2) split d by (metis (no_types, lifting) mem_Collect_eq order_less_trans set_indices)
    then have "k \<in> set (takeWhile ?P (indices b))"
      using srt k by (auto simp: sorted_append)
    then show ?thesis by (rule set_takeWhileD [THEN conjunct2])
  qed
  have "i \<le> j" using below [of j] free by force
  moreover have "FindAndSet b = bindR (Mark b i) (\<lambda>b'. Inr (b', i))"
    by (simp add: FindAndSet_def FindAndSet_from_eq set_indices d)
  ultimately show ?thesis using Mark_spec [OF wf i(1,2)] i below by auto
qed

lemma NumClear_eq: "NumClear b = Inr (numBits b - int (card (marked b)))" if "0 \<le> numBits b"
proof -
  have loop: "forR xs (\<lambda>i count. bindR (Test b i)
        (\<lambda>t. if \<not> t then Inr (count + 1) else Inr count)) c =
      Inr (c + int (length (filter (\<lambda>i. i \<notin> marked b) xs)))"
    if "set xs \<subseteq> {i. 0 \<le> i \<and> i < numBits b}" for xs c
    using that by (induction xs arbitrary: c) (auto simp: Test_eq)
  have "length (filter (\<lambda>i. i \<notin> marked b) (indices b)) = card ({i. 0 \<le> i \<and> i < numBits b} - marked b)"
    using distinct_card [of "filter (\<lambda>i. i \<notin> marked b) (indices b)"]
    by (simp add: set_indices set_diff_eq)
  also have "\<dots> = card {i. 0 \<le> i \<and> i < numBits b} - card (marked b)"
    by (intro card_Diff_subset finite_marked) (auto dest: marked_bounds)
  also have "card {i. 0 \<le> i \<and> i < numBits b} = nat (numBits b)"
    using distinct_card [of "indices b"] by (simp add: set_indices)
  finally have len: "length (filter (\<lambda>i. i \<notin> marked b) (indices b)) = nat (numBits b) - card (marked b)" .
  have "card (marked b) \<le> nat (numBits b)"
    using card_mono [of "set (indices b)" "marked b"] distinct_card [of "indices b"]
    by (auto simp: set_indices marked_def)
  with len loop [of "indices b" 0] that show ?thesis
    by (simp add: NumClear_def set_indices)
qed

lemma Print_eq: "Bitmap_Print b = Inr (filter (\<lambda>i. i \<in> marked b) (indices b))"
proof -
  have "forR xs (\<lambda>i out. bindR (Test b i) (\<lambda>t. if t then Inr (out @ [i]) else Inr out)) o0 =
      Inr (o0 @ filter (\<lambda>i. i \<in> marked b) xs)"
    if "set xs \<subseteq> {i. 0 \<le> i \<and> i < numBits b}" for xs o0
    using that by (induction xs arbitrary: o0) (auto simp: Test_eq)
  then show ?thesis by (simp add: Bitmap_Print_def set_indices)
qed

text \<open>The two loops over all bits: marking, or clearing, every bit.\<close>

lemma mark_all:
  assumes "bitmap_wf b"
  shows "\<exists>b'. forR (indices b) (\<lambda>i b. Mark b i) b = Inr b' \<and> bitmap_wf b'
     \<and> numBits b' = numBits b \<and> marked b' = {i. 0 \<le> i \<and> i < numBits b}"
proof -
  let ?I = "\<lambda>k b'. bitmap_wf b' \<and> numBits b' = numBits b
      \<and> {i. 0 \<le> i \<and> i < int k} \<subseteq> marked b'"
  have "\<exists>b'. forR (indices b) (\<lambda>i b. Mark b i) b = Inr b' \<and> ?I (length (indices b)) b'"
  proof (rule forR_invariant)
    fix k c assume k: "k < length (indices b)" and I: "?I k c"
    then have "indices b ! k = int k" "int k < numBits c" by (simp_all add: indices_nth)
    then show "\<exists>c'. Mark c (indices b ! k) = Inr c' \<and> ?I (Suc k) c'"
      using Mark_spec [of c "int k"] I by force
  qed (use assms in auto)
  then obtain b' where b': "forR (indices b) (\<lambda>i b. Mark b i) b = Inr b'"
    "?I (length (indices b)) b'" by blast
  then have "marked b' = {i. 0 \<le> i \<and> i < numBits b}"
    using assms by (auto simp: marked_def bitmap_wf_def)
  with b' show ?thesis by blast
qed

lemma clear_all:
  assumes "bitmap_wf b"
  shows "\<exists>b'. forR (indices b) (\<lambda>i b. Clear b i) b = Inr b' \<and> bitmap_wf b'
     \<and> numBits b' = numBits b \<and> marked b' = {}"
proof -
  let ?I = "\<lambda>k b'. bitmap_wf b' \<and> numBits b' = numBits b \<and> marked b' \<inter> {i. i < int k} = {}"
  have "\<exists>b'. forR (indices b) (\<lambda>i b. Clear b i) b = Inr b' \<and> ?I (length (indices b)) b'"
  proof (rule forR_invariant)
    show "?I 0 b" using assms by (auto simp: marked_def)
    fix k c assume k: "k < length (indices b)" and I: "?I k c"
    then have "indices b ! k = int k" "int k < numBits c" by (simp_all add: indices_nth)
    then show "\<exists>c'. Clear c (indices b ! k) = Inr c' \<and> ?I (Suc k) c'"
      using Clear_spec [of c "int k"] I by (auto simp: disjoint_iff) force
  qed
  then obtain b' where b': "forR (indices b) (\<lambda>i b. Clear b i) b = Inr b'"
    "?I (length (indices b)) b'" by blast
  then have "marked b' = {}"
    using assms by (auto simp: marked_def bitmap_wf_def disjoint_iff)
  with b' show ?thesis by blast
qed

lemma Bitmap_new_spec:
  assumes "0 < n"
  shows "\<exists>b. Bitmap_new n = Inr b \<and> bitmap_wf b \<and> numBits b = n \<and> marked b = {}"
proof -
  let ?b = "\<lparr>numBits = n, numWords = divRoundUp n 32, bmap = replicate (nat (divRoundUp n 32)) 0\<rparr>"
  have "bitmap_wf ?b"
    using assms divRoundUp_bounds(3) [of n 32] by (simp add: bitmap_wf_def)
  from clear_all [OF this] assms show ?thesis by (auto simp: Bitmap_new_def Let_def)
qed

text \<open>The module's own self test never trips an assertion on a fresh bitmap.\<close>

lemma SelfTest_passes:
  assumes wf: "bitmap_wf b" and empty: "marked b = {}" and big: "32 \<le> numBits b"
  shows "\<exists>b'. Bitmap_SelfTest b = Inr b' \<and> bitmap_wf b' \<and> numBits b' = numBits b \<and> marked b' = {}"
proof -
  obtain b1 where b1: "FindAndSet b = Inr (b1, 0)" "bitmap_wf b1" "numBits b1 = numBits b" "marked b1 = {0}"
    using FindAndSet_free [OF wf, of 0] empty big by force
  obtain b2 where b2: "Mark b1 31 = Inr b2" "bitmap_wf b2" "numBits b2 = numBits b" "marked b2 = {31, 0}"
    using Mark_spec [of b1 31] b1 big by auto
  obtain b3 where b3: "FindAndSet b2 = Inr (b3, 1)" "bitmap_wf b3" "numBits b3 = numBits b"
    "marked b3 = insert 1 {31, 0}"
  proof -
    from FindAndSet_free [OF b2(2), of 1] b2 big obtain b' i where i: "FindAndSet b2 = Inr (b', i)"
      "bitmap_wf b'" "numBits b' = numBits b" "0 \<le> i" "i \<le> 1" "i \<notin> {31, 0}"
      "marked b' = insert i {31, 0}" by auto
    then have "i = 1" by auto
    with i that show ?thesis by simp
  qed
  obtain b4 where b4: "Clear b3 0 = Inr b4" "bitmap_wf b4" "numBits b4 = numBits b" "marked b4 = {1, 31}"
    using Clear_spec [of b3 0] b3 big by (auto simp: insert_Diff_if)
  obtain b5 where b5: "Clear b4 1 = Inr b5" "bitmap_wf b5" "numBits b5 = numBits b" "marked b5 = {31}"
    using Clear_spec [of b4 1] b4 big by auto
  obtain b6 where b6: "Clear b5 31 = Inr b6" "bitmap_wf b6" "numBits b6 = numBits b" "marked b6 = {}"
    using Clear_spec [of b5 31] b5 big by auto
  obtain b7 where b7: "forR (indices b6) (\<lambda>i b. Mark b i) b6 = Inr b7" "bitmap_wf b7"
    "numBits b7 = numBits b" "marked b7 = {i. 0 \<le> i \<and> i < numBits b}"
    using mark_all [OF b6(2)] b6 by auto
  have "FindAndSet b7 = Inr (b7, - 1)" using b7 by (intro FindAndSet_full) simp
  moreover obtain b9 where "forR (indices b7) (\<lambda>i b. Clear b i) b7 = Inr b9" "bitmap_wf b9"
    "numBits b9 = numBits b" "marked b9 = {}"
    using clear_all [OF b7(2)] b7 by auto
  ultimately show ?thesis
    using b1 b2 b3 b4 b5 b6 b7 big empty
    by (simp add: Bitmap_SelfTest_def NumClear_eq Test_eq)
qed

section \<open>The allocator interface\<close>

text \<open>
  What a client of the bitmap relies on: a finite pool of numbers, of which \<open>used\<close> are taken;
  allocation takes the first free one, release gives one back, and the count of free ones is
  exact. The free map of the file system is such a client.
\<close>

locale allocator =
  fixes invar :: "'m \<Rightarrow> bool"
    and capacity :: "'m \<Rightarrow> int"
    and used :: "'m \<Rightarrow> int set"
    and alloc :: "'m \<Rightarrow> ('m \<times> int) outcome"
    and test :: "'m \<Rightarrow> int \<Rightarrow> bool outcome"
    and release :: "'m \<Rightarrow> int \<Rightarrow> 'm outcome"
    and num_free :: "'m \<Rightarrow> int outcome"
  assumes used_finite: "finite (used m)"
    and used_bounds: "i \<in> used m \<Longrightarrow> 0 \<le> i \<and> i < capacity m"
    and num_free_spec: "invar m \<Longrightarrow> num_free m = Inr (capacity m - int (card (used m)))"
    and alloc_spec: "invar m \<Longrightarrow> int (card (used m)) < capacity m \<Longrightarrow>
      \<exists>m' i. alloc m = Inr (m', i) \<and> invar m' \<and> capacity m' = capacity m \<and> 0 \<le> i
        \<and> i < capacity m \<and> i \<notin> used m \<and> used m' = insert i (used m)"
    and test_spec: "invar m \<Longrightarrow> 0 \<le> i \<Longrightarrow> i < capacity m \<Longrightarrow> test m i = Inr (i \<in> used m)"
    and release_spec: "invar m \<Longrightarrow> 0 \<le> i \<Longrightarrow> i < capacity m \<Longrightarrow>
      \<exists>m'. release m i = Inr m' \<and> invar m' \<and> capacity m' = capacity m \<and> used m' = used m - {i}"

lemma not_full_witness:
  assumes "int (card (marked b)) < numBits b"
  obtains j where "0 \<le> j" "j < numBits b" "j \<notin> marked b"
proof -
  have "card (set (indices b)) = nat (numBits b)"
    by (simp add: distinct_card)
  moreover have "card (marked b) < nat (numBits b)" using assms by simp
  ultimately have "\<not> set (indices b) \<subseteq> marked b"
    using card_mono [OF finite_marked, of "set (indices b)" b] by auto
  then show ?thesis using that by (auto simp: set_indices)
qed

interpretation bitmap: allocator bitmap_wf numBits marked FindAndSet Test Clear NumClear
proof
  fix m assume wf: "bitmap_wf m" and room: "int (card (marked m)) < numBits m"
  from room obtain j where "0 \<le> j" "j < numBits m" "j \<notin> marked m"
    by (rule not_full_witness)
  from FindAndSet_free [OF wf this] \<open>j < numBits m\<close>
  show "\<exists>m' i. FindAndSet m = Inr (m', i) \<and> bitmap_wf m' \<and> numBits m' = numBits m \<and> 0 \<le> i
      \<and> i < numBits m \<and> i \<notin> marked m \<and> marked m' = insert i (marked m)"
    by force
next
  fix m i assume "bitmap_wf m" "0 \<le> i" "i < numBits m"
  then show "\<exists>m'. Clear m i = Inr m' \<and> bitmap_wf m' \<and> numBits m' = numBits m \<and> marked m' = marked m - {i}"
    using Clear_spec by blast
qed (auto simp: Test_eq NumClear_eq bitmap_wf_def dest: marked_bounds)

section \<open>Properties\<close>

text \<open>
  C17: on a well-formed bitmap with a clear bit, \<^verbatim>\<open>FindAndSet\<close> returns the lowest clear bit and
  marks exactly that bit; when every bit is set it returns -1 and changes nothing.
\<close>

theorem FindAndSet_first_fit:
  assumes "bitmap_wf b"
  shows "\<exists>b' i. FindAndSet b = Inr (b', i) \<and> bitmap_wf b' \<and>
    (if \<exists>j. 0 \<le> j \<and> j < numBits b \<and> j \<notin> marked b
     then 0 \<le> i \<and> i < numBits b \<and> i \<notin> marked b \<and> (\<forall>k. 0 \<le> k \<and> k < i \<longrightarrow> k \<in> marked b)
       \<and> marked b' = insert i (marked b)
     else i = - 1 \<and> b' = b)"
proof (cases "\<exists>j. 0 \<le> j \<and> j < numBits b \<and> j \<notin> marked b")
  case True
  then obtain j where j: "0 \<le> j" "j < numBits b" "j \<notin> marked b" by blast
  from FindAndSet_free [OF assms j] j(2) True show ?thesis by force
next
  case False
  then have "FindAndSet b = Inr (b, - 1)" by (intro FindAndSet_full) blast
  with assms False show ?thesis by simp
qed

theorem FindAndSet_first_fit_witness:
  "bitmap_wf \<lparr>numBits = 40, numWords = 2, bmap = [7, 0]\<rparr> \<and>
   (\<exists>b' i. FindAndSet \<lparr>numBits = 40, numWords = 2, bmap = [7, 0]\<rparr> = Inr (b', i) \<and> bitmap_wf b')"
proof -
  have wf: "bitmap_wf \<lparr>numBits = 40, numWords = 2, bmap = [7, 0]\<rparr>"
    by (simp add: bitmap_wf_def divRoundUp_nonneg)
  show ?thesis using wf FindAndSet_first_fit [OF wf] by blast
qed

end
