(* ===== verification/Lib_Test.thy ===== *)
theory Lib_Test
  imports Hash_Table Bitmap
begin

text \<open>
  The library's test driver \<^verbatim>\<open>code/lib/libtest.cc\<close>, with \<^verbatim>\<open>SortedList::SelfTest\<close>: the comparison
  and hash functions it uses, its test vectors and \<^verbatim>\<open>LibSelfTest\<close>, which runs the self tests of all
  four containers. Every assertion in them holds.
\<close>

section \<open>The driver\<close>

definition SortedList_SelfTest :: "('a \<Rightarrow> 'a \<Rightarrow> int) \<Rightarrow> 'a lst \<Rightarrow> 'a list \<Rightarrow> 'a lst outcome" where
  "SortedList_SelfTest compare s p =
     bindR (List_SelfTest s p) (\<lambda>s.
     bindR (forR p (\<lambda>x s. bindR (Insert compare s x) (\<lambda>s.
              bindR (IsInList s x) (\<lambda>b. bindR (ASSERT b) (\<lambda>_. Inr s)))) s) (\<lambda>s.
     bindR (SortedList_SanityCheck compare s) (\<lambda>_.
     bindR (forR [0..<length p] (\<lambda>i (s, q). bindR (RemoveFront s) (\<lambda>(s, x).
              bindR (IsInList s x) (\<lambda>b. bindR (ASSERT (\<not> b)) (\<lambda>_. Inr (s, q @ [x]))))) (s, [])) (\<lambda>(s, q).
     bindR (ASSERT (IsEmpty s)) (\<lambda>_.
     bindR (forR [0..<length p - 1] (\<lambda>i u. ASSERT (compare (q ! i) (q ! Suc i) \<le> 0)) ()) (\<lambda>_.
     bindR (SortedList_SanityCheck compare s) (\<lambda>_. Inr s)))))))"

definition IntCompare :: "int \<Rightarrow> int \<Rightarrow> int" where
  "IntCompare x y = (if x < y then - 1 else if x = y then 0 else 1)"

definition HashInt :: "int \<Rightarrow> u32" where
  "HashInt key = word_of_int key"

text \<open>C's \<^verbatim>\<open>atoi\<close>: white space, an optional sign, then digits.\<close>

fun atoi_digits :: "string \<Rightarrow> int \<Rightarrow> int" where
  "atoi_digits [] acc = acc"
| "atoi_digits (c # cs) acc =
     (if 48 \<le> (of_char c :: nat) \<and> (of_char c :: nat) \<le> 57
      then atoi_digits cs (10 * acc + int (of_char c - 48)) else acc)"

definition atoi :: "string \<Rightarrow> int" where
  "atoi str =
     (let s = dropWhile (\<lambda>c. (of_char c :: nat) = 32 \<or> 9 \<le> (of_char c :: nat) \<and> (of_char c :: nat) \<le> 13) str in
      case s of [] \<Rightarrow> 0
      | c # cs \<Rightarrow> if c = CHR ''-'' then - atoi_digits cs 0
                 else if c = CHR ''+'' then atoi_digits cs 0 else atoi_digits s 0)"

definition HashKey :: "string \<Rightarrow> int" where
  "HashKey str = atoi str"

definition listTestVector :: "int list" where
  "listTestVector = [9, 5, 7]"

definition hashTestVector :: "string list" where
  "hashTestVector = [''0'', ''1'', ''2'', ''3'', ''4'', ''5'', ''6'', ''7'', ''8'', ''9'',
     ''10'', ''11'', ''12'', ''13'', ''14'']"

definition LibSelfTest :: "unit outcome" where
  "LibSelfTest =
     bindR (bindR (Bitmap_new 200) Bitmap_SelfTest) (\<lambda>_.
     bindR (List_SelfTest (List_new Map.empty 0) listTestVector) (\<lambda>_.
     bindR (SortedList_SelfTest IntCompare (List_new Map.empty 0) listTestVector) (\<lambda>_.
     bindR (HashTable_SelfTest HashKey HashInt HashTable_new hashTestVector) (\<lambda>t.
     HashTable_delete t))))"

section \<open>Sorted lists\<close>

interpretation int_compare: comparator IntCompare
  by unfold_locales (auto simp: IntCompare_def split: if_splits)

context comparator
begin

lemma SanityCheck_sorted:
  assumes "represents s xs" and "sorted_wrt (\<lambda>a b. compare a b \<le> 0) xs"
  shows "SortedList_SanityCheck compare s = Inr ()"
proof -
  obtain as where as: "list_rep s as" "map snd as = xs" using assms(1) by (auto simp: represents_def)
  show ?thesis
  proof (cases as)
    case Nil
    then show ?thesis
      using as assms(1) by (simp add: SortedList_SanityCheck_def represents_simps list_rep_def)
  next
    case (Cons ax post)
    obtain a x where ax: "ax = (a, x)" by (cases ax)
    obtain n where n: "lfirst s = Some a" "cells s a = Some \<lparr>item = x, nxt = n\<rparr>" "lseg (cells s) n post None"
      using as(1) Cons ax by (auto simp: list_rep_def)
    have "length as \<le> brk s" using as(1) by (rule list_rep_fuel)
    then have "sorted_loop (Suc (brk s)) compare s (Some a) n = Inr ()"
      using as assms(2) Cons ax n
      by (intro sorted_loop_rep [of s "[]" a x post n]) (force simp: sorted_wrt_map)+
    then show ?thesis
      using n represents_simps(4) [OF assms(1)] by (simp add: SortedList_SanityCheck_def del: sorted_loop.simps)
  qed
qed

lemma insert_loop:
  assumes "represents s xs" and "sorted_wrt (\<lambda>a b. compare a b \<le> 0) xs" and "distinct (xs @ p)"
  shows "\<exists>s' ys. forR p (\<lambda>x s. bindR (Insert compare s x) (\<lambda>s.
              bindR (IsInList s x) (\<lambda>b. bindR (ASSERT b) (\<lambda>_. Inr s)))) s = Inr s' \<and> represents s' ys \<and>
     sorted_wrt (\<lambda>a b. compare a b \<le> 0) ys \<and> mset ys = mset (xs @ p)"
  using assms
proof (induction p arbitrary: s xs)
  case (Cons x p)
  obtain t where t: "Insert compare s x = Inr t" "represents t (sorted_ins compare x xs)"
    using Insert_refines [OF Cons.prems(1), of compare x] Cons.prems(3) by (auto simp: list_Insert_def)
  have m: "mset (sorted_ins compare x xs @ p) = mset (xs @ x # p)" by simp
  then have "distinct (sorted_ins compare x xs @ p)"
    using Cons.prems(3) mset_eq_imp_distinct_iff by metis
  from Cons.IH [OF t(2) sorted_ins_sorted [OF Cons.prems(2)] this] obtain s' ys where
    "forR p (\<lambda>x s. bindR (Insert compare s x) (\<lambda>s.
              bindR (IsInList s x) (\<lambda>b. bindR (ASSERT b) (\<lambda>_. Inr s)))) t = Inr s'"
    "represents s' ys" "sorted_wrt (\<lambda>a b. compare a b \<le> 0) ys" "mset ys = mset (xs @ x # p)"
    using m by auto
  moreover have "IsInList t x = Inr True" using t(2) by (simp add: represents_simps)
  ultimately show ?case using t(1) by auto
qed auto

lemma remove_loop:
  assumes "represents s ys" and "distinct ys" and "length is = length ys"
  shows "\<exists>s'. forR is (\<lambda>i (s, q). bindR (RemoveFront s) (\<lambda>(s, x).
              bindR (IsInList s x) (\<lambda>b. bindR (ASSERT (\<not> b)) (\<lambda>_. Inr (s, q @ [x]))))) (s, q) =
     Inr (s', q @ ys) \<and> represents s' []"
  using assms
proof (induction ys arbitrary: s q "is")
  case (Cons y ys)
  then obtain i js where js: "is = i # js" "length js = length ys" by (cases "is") auto
  obtain t where t: "RemoveFront s = Inr (t, y)" "represents t ys"
    using RemoveFront_refines [OF Cons.prems(1)] by (auto simp: list_RemoveFront_def)
  from Cons.IH [OF t(2) _ js(2), of "q @ [y]"] Cons.prems(2) t js(1) show ?case
    by (auto simp: represents_simps)
qed simp

lemma SortedList_SelfTest_passes:
  assumes "represents s []" and "distinct p"
  shows "\<exists>s'. SortedList_SelfTest compare s p = Inr s' \<and> represents s' []"
proof -
  obtain s1 where s1: "List_SelfTest s p = Inr s1" "represents s1 []"
    using List_SelfTest_passes [OF assms] by blast
  obtain s2 ys where s2: "forR p (\<lambda>x s. bindR (Insert compare s x) (\<lambda>s.
              bindR (IsInList s x) (\<lambda>b. bindR (ASSERT b) (\<lambda>_. Inr s)))) s1 = Inr s2"
      "represents s2 ys" "sorted_wrt (\<lambda>a b. compare a b \<le> 0) ys" "mset ys = mset p"
    using insert_loop [OF s1(2), of p] assms(2) by auto
  have ys: "distinct ys" "length ys = length p"
    using s2(4) assms(2) mset_eq_imp_distinct_iff mset_eq_length by metis+
  obtain s3 where s3: "forR [0..<length p] (\<lambda>i (s, q). bindR (RemoveFront s) (\<lambda>(s, x).
              bindR (IsInList s x) (\<lambda>b. bindR (ASSERT (\<not> b)) (\<lambda>_. Inr (s, q @ [x]))))) (s2, []) =
     Inr (s3, ys)" "represents s3 []"
    using remove_loop [OF s2(2) ys(1), of "[0..<length p]" "[]"] ys(2) by auto
  have "forR is (\<lambda>i u. ASSERT (compare (ys ! i) (ys ! Suc i) \<le> 0)) () = Inr ()"
    if "set is \<subseteq> {0..<length p - 1}" for "is"
    using that
  proof (induction "is")
    case (Cons i js)
    then have "Suc i < length ys" using ys(2) by auto
    then have "compare (ys ! i) (ys ! Suc i) \<le> 0" using s2(3) by (simp add: sorted_wrt_iff_nth_less)
    with Cons show ?case by simp
  qed simp
  then have "forR [0..<length p - 1] (\<lambda>i u. ASSERT (compare (ys ! i) (ys ! Suc i) \<le> 0)) () = Inr ()" by simp
  then show ?thesis
    using s1(1) s2(1) s3 SanityCheck_sorted [OF s2(2,3)] SanityCheck_sorted [OF s3(2)]
    by (simp add: SortedList_SelfTest_def represents_simps)
qed

end

section \<open>Properties\<close>

lemma HashKey_numerals: "map HashKey hashTestVector = [0, 1, 2, 3, 4, 5, 6, 7, 8, 9, 10, 11, 12, 13, 14]"
  by (simp add: hashTestVector_def HashKey_def atoi_def)

text \<open>
  \<^verbatim>\<open>LibSelfTest\<close> passes: the self tests of the bitmap, the list, the sorted list and the hash
  table run to their end on the driver's vectors, which force the table to rehash, with no
  assertion failing, and the emptied table can be deleted. \<^verbatim>\<open>SortedList::SelfTest\<close> passes for every vector
  of distinct integers.
\<close>

theorem LibSelfTest_passes:
  "LibSelfTest = Inr () \<and>
   (\<forall>p. distinct p \<longrightarrow> (\<exists>s. SortedList_SelfTest IntCompare (List_new Map.empty 0) p = Inr s \<and> represents s []))"
proof -
  have empty: "represents (List_new Map.empty 0 :: int lst) []" by (rule represents_new) simp
  have d: "distinct listTestVector" "distinct (map HashKey hashTestVector)"
    by (simp_all add: listTestVector_def HashKey_numerals)
  obtain b0 where b0: "Bitmap_new 200 = Inr b0" "bitmap_wf b0" "numBits b0 = 200" "marked b0 = {}"
    using Bitmap_new_spec [of 200] by auto
  obtain b where b: "bindR (Bitmap_new 200) Bitmap_SelfTest = Inr b"
    using SelfTest_passes [OF b0(2,4)] b0(1,3) by auto
  obtain t where t: "HashTable_SelfTest HashKey HashInt HashTable_new hashTestVector = Inr t"
      "hash_invar HashKey HashInt t" "entries HashKey t = Map.empty"
    using HashTable_SelfTest_passes [OF d(2), of HashInt] by blast
  have "hash_items t = []"
  proof (rule ccontr)
    assume "hash_items t \<noteq> []"
    then obtain y where "y \<in> set (hash_items t)" by (meson list.set_sel(1))
    then show False using entries_None [of HashKey t "HashKey y"] t(3) by auto
  qed
  then have "HashTable_delete t = Inr ()"
    using t(2) by (simp add: HashTable_delete_def HashTable_IsEmpty_def hash_invar_def)
  with b t(1) List_SelfTest_passes [OF empty d(1)] int_compare.SortedList_SelfTest_passes [OF empty d(1)]
  have "LibSelfTest = Inr ()" by (auto simp: LibSelfTest_def)
  with int_compare.SortedList_SelfTest_passes [OF empty] show ?thesis by blast
qed

theorem LibSelfTest_passes_witness:
  "LibSelfTest = Inr () \<and>
   (\<exists>s. SortedList_SelfTest IntCompare (List_new Map.empty 0) [4, - 3, 8] = Inr s \<and> represents s [])"
  using LibSelfTest_passes by auto

end
