(* ===== verification/Machine.thy ===== *)
theory Machine
  imports Nachos_Prelude
begin

text \<open>
  The simulated workstation of \<^verbatim>\<open>code/machine/machine.cc\<close> and \<^verbatim>\<open>translate.cc\<close>: the register file,
  main memory, the page table or TLB, address translation, and memory access. An \<^verbatim>\<open>int\<close> of
  the simulated CPU is a \<open>32 word\<close>, main memory is a list of bytes. The record also holds
  the \<^verbatim>\<open>status\<close> of the interrupt object, which \<^verbatim>\<open>RaiseException\<close> sets, and the compile-time
  switch \<^verbatim>\<open>HOST_IS_BIG_ENDIAN\<close>. The kernel's \<^verbatim>\<open>ExceptionHandler\<close> is an argument \<open>H\<close> of the
  routines that can trap (the theory \<open>User_Programs\<close> supplies the one of \<^verbatim>\<open>exception.cc\<close>).
\<close>

section \<open>State\<close>

definition PageSize :: nat where "PageSize = 128"
definition NumPhysPages :: nat where "NumPhysPages = 128"
definition MemorySize :: nat where "MemorySize = NumPhysPages * PageSize"
definition TLBSize :: nat where "TLBSize = 4"

datatype ExceptionType = NoException | SyscallException | PageFaultException | ReadOnlyException
  | BusErrorException | AddressErrorException | OverflowException | IllegalInstrException
  | NumExceptionTypes

datatype MachineStatus = IdleMode | SystemMode | UserMode

definition StackReg :: nat where "StackReg = 29"
definition RetAddrReg :: nat where "RetAddrReg = 31"
definition NumGPRegs :: nat where "NumGPRegs = 32"
definition HiReg :: nat where "HiReg = 32"
definition LoReg :: nat where "LoReg = 33"
definition PCReg :: nat where "PCReg = 34"
definition NextPCReg :: nat where "NextPCReg = 35"
definition PrevPCReg :: nat where "PrevPCReg = 36"
definition LoadReg :: nat where "LoadReg = 37"
definition LoadValueReg :: nat where "LoadValueReg = 38"
definition BadVAddrReg :: nat where "BadVAddrReg = 39"
definition NumTotalRegs :: nat where "NumTotalRegs = 40"

lemmas reg_numbers [simp] = StackReg_def RetAddrReg_def NumGPRegs_def HiReg_def LoReg_def PCReg_def
  NextPCReg_def PrevPCReg_def LoadReg_def LoadValueReg_def BadVAddrReg_def NumTotalRegs_def

lemmas memory_sizes [simp] = PageSize_def NumPhysPages_def MemorySize_def TLBSize_def

record TranslationEntry =
  virtualPage :: u32
  physicalPage :: u32
  valid :: bool
  readOnly :: bool
  used :: bool      \<comment> \<open>the field \<^verbatim>\<open>use\<close>\<close>
  dirty :: bool

record machine =
  registers :: "u32 list"
  mainMemory :: "u8 list"
  tlb :: "TranslationEntry list option"
  pageTable :: "TranslationEntry list option"
  pageTableSize :: u32
  singleStep :: bool
  status :: MachineStatus
  hostBigEndian :: bool

type_synonym handler = "ExceptionType \<Rightarrow> machine \<Rightarrow> machine outcome"

definition reg :: "machine \<Rightarrow> nat \<Rightarrow> u32" where
  "reg m i = registers m ! i"

definition set_reg :: "machine \<Rightarrow> nat \<Rightarrow> u32 \<Rightarrow> machine" where
  "set_reg m i v = m\<lparr>registers := (registers m)[i := v]\<rparr>"

section \<open>Byte order\<close>

definition WordToHost :: "bool \<Rightarrow> u32 \<Rightarrow> u32" where
  "WordToHost big word =
     (if big then
        (drop_bit 24 word AND 0x000000ff) OR (drop_bit 8 word AND 0x0000ff00)
        OR (push_bit 8 word AND 0x00ff0000) OR (push_bit 24 word AND 0xff000000)
      else word)"

definition ShortToHost :: "bool \<Rightarrow> u16 \<Rightarrow> u16" where
  "ShortToHost big shortword =
     (if big then (push_bit 8 shortword AND 0xff00) OR (drop_bit 8 shortword AND 0x00ff) else shortword)"

definition WordToMachine :: "bool \<Rightarrow> u32 \<Rightarrow> u32" where
  "WordToMachine big word = WordToHost big word"

definition ShortToMachine :: "bool \<Rightarrow> u16 \<Rightarrow> u16" where
  "ShortToMachine big shortword = ShortToHost big shortword"

text \<open>How the host reads and writes an \<^verbatim>\<open>unsigned int\<close> or \<^verbatim>\<open>unsigned short\<close> at a byte address.\<close>

definition le32 :: "u8 \<Rightarrow> u8 \<Rightarrow> u8 \<Rightarrow> u8 \<Rightarrow> u32" where
  "le32 b0 b1 b2 b3 = ucast b0 OR push_bit 8 (ucast b1) OR push_bit 16 (ucast b2) OR push_bit 24 (ucast b3)"

definition le16 :: "u8 \<Rightarrow> u8 \<Rightarrow> u16" where
  "le16 b0 b1 = ucast b0 OR push_bit 8 (ucast b1)"

definition host_load32 :: "bool \<Rightarrow> u8 list \<Rightarrow> nat \<Rightarrow> u32" where
  "host_load32 big mem a =
     (if big then le32 (mem ! (a + 3)) (mem ! (a + 2)) (mem ! (a + 1)) (mem ! a)
      else le32 (mem ! a) (mem ! (a + 1)) (mem ! (a + 2)) (mem ! (a + 3)))"

definition host_load16 :: "bool \<Rightarrow> u8 list \<Rightarrow> nat \<Rightarrow> u16" where
  "host_load16 big mem a =
     (if big then le16 (mem ! (a + 1)) (mem ! a) else le16 (mem ! a) (mem ! (a + 1)))"

definition byte_of :: "nat \<Rightarrow> 'a::len word \<Rightarrow> u8" where
  "byte_of k w = ucast (drop_bit (8 * k) w)"

definition host_store32 :: "bool \<Rightarrow> u8 list \<Rightarrow> nat \<Rightarrow> u32 \<Rightarrow> u8 list" where
  "host_store32 big mem a w =
     (if big then mem[a := byte_of 3 w, a + 1 := byte_of 2 w, a + 2 := byte_of 1 w, a + 3 := byte_of 0 w]
      else mem[a := byte_of 0 w, a + 1 := byte_of 1 w, a + 2 := byte_of 2 w, a + 3 := byte_of 3 w])"

definition host_store16 :: "bool \<Rightarrow> u8 list \<Rightarrow> nat \<Rightarrow> u16 \<Rightarrow> u8 list" where
  "host_store16 big mem a w =
     (if big then mem[a := byte_of 1 w, a + 1 := byte_of 0 w]
      else mem[a := byte_of 0 w, a + 1 := byte_of 1 w])"

section \<open>Operations\<close>

definition CheckEndian :: "bool \<Rightarrow> unit outcome" where
  "CheckEndian big =
     (let intword = host_load32 big [1, 2, 3, 4] 0 in
      if big then ASSERT (intword = 0x01020304) else ASSERT (intword = 0x04030201))"

definition Machine_new :: "bool \<Rightarrow> bool \<Rightarrow> bool \<Rightarrow> machine outcome" where
  "Machine_new use_tlb big debug =
     (let m = \<lparr>registers = replicate NumTotalRegs 0, mainMemory = replicate MemorySize 0,
         tlb = (if use_tlb
                then Some (replicate TLBSize \<lparr>virtualPage = 0, physicalPage = 0, valid = False,
                       readOnly = False, used = False, dirty = False\<rparr>)
                else None),
         pageTable = None, pageTableSize = 0, singleStep = debug,
         status = SystemMode, hostBigEndian = big\<rparr> in
      bindR (CheckEndian big) (\<lambda>_. Inr m))"

definition ReadRegister :: "machine \<Rightarrow> int \<Rightarrow> u32 outcome" where
  "ReadRegister m num =
     bindR (ASSERT (num \<ge> 0 \<and> num < int NumTotalRegs)) (\<lambda>_. Inr (reg m (nat num)))"

definition WriteRegister :: "machine \<Rightarrow> int \<Rightarrow> u32 \<Rightarrow> machine outcome" where
  "WriteRegister m num value =
     bindR (ASSERT (num \<ge> 0 \<and> num < int NumTotalRegs)) (\<lambda>_. Inr (set_reg m (nat num) value))"

definition DelayedLoad :: "machine \<Rightarrow> nat \<Rightarrow> u32 \<Rightarrow> machine outcome" where
  "DelayedLoad m nextReg nextValue =
     (let target = unat (reg m LoadReg) in
      if target < NumTotalRegs
      then let m1 = set_reg m target (reg m LoadValueReg);
               m2 = set_reg m1 LoadReg (of_nat nextReg);
               m3 = set_reg m2 LoadValueReg nextValue in
           Inr (set_reg m3 0 0)
      else Inl OutOfBounds)"

definition RaiseException :: "handler \<Rightarrow> ExceptionType \<Rightarrow> u32 \<Rightarrow> machine \<Rightarrow> machine outcome" where
  "RaiseException H which badVAddr m =
     bindR (DelayedLoad (set_reg m BadVAddrReg badVAddr) 0 0) (\<lambda>m.
     bindR (H which (m\<lparr>status := SystemMode\<rparr>)) (\<lambda>m.
     Inr (m\<lparr>status := UserMode\<rparr>)))"

text \<open>The TLB search: the index of the first valid entry for the page.\<close>

fun tlb_find :: "TranslationEntry list \<Rightarrow> u32 \<Rightarrow> nat \<Rightarrow> nat option" where
  "tlb_find [] vpn i = None"
| "tlb_find (e # es) vpn i =
     (if valid e \<and> virtualPage e = vpn then Some i else tlb_find es vpn (Suc i))"

text \<open>
  \<^verbatim>\<open>Translate\<close> returns the exception code, or the physical address together with the machine
  whose translation entry has its use and dirty bits set.
\<close>

definition mark_entry :: "bool \<Rightarrow> TranslationEntry \<Rightarrow> TranslationEntry" where
  "mark_entry writing e =
     (let e = e\<lparr>used := True\<rparr> in if writing then e\<lparr>dirty := True\<rparr> else e)"

definition check_entry :: "TranslationEntry \<Rightarrow> u32 \<Rightarrow> nat \<Rightarrow> bool \<Rightarrow> machine \<Rightarrow> machine \<Rightarrow>
    (machine \<times> (ExceptionType + nat)) outcome" where
  "check_entry entry offset sz writing m m' =
     (if readOnly entry \<and> writing then Inr (m, Inl ReadOnlyException)
      else let pageFrame = physicalPage entry in
      if unat pageFrame \<ge> NumPhysPages then Inr (m, Inl BusErrorException)
      else let physAddr = unat pageFrame * PageSize + unat offset in
      bindR (ASSERT (physAddr + sz \<le> MemorySize)) (\<lambda>_. Inr (m', Inr physAddr)))"

definition Translate :: "machine \<Rightarrow> u32 \<Rightarrow> nat \<Rightarrow> bool \<Rightarrow> (machine \<times> (ExceptionType + nat)) outcome" where
  "Translate m virtAddr sz writing =
     (if (sz = 4 \<and> virtAddr AND 3 \<noteq> 0) \<or> (sz = 2 \<and> virtAddr AND 1 \<noteq> 0)
      then Inr (m, Inl AddressErrorException)
      else bindR (ASSERT (tlb m = None \<or> pageTable m = None)) (\<lambda>_.
      bindR (ASSERT (tlb m \<noteq> None \<or> pageTable m \<noteq> None)) (\<lambda>_.
      let vpn = virtAddr div of_nat PageSize; offset = virtAddr mod of_nat PageSize in
      case tlb m of
        None \<Rightarrow>
          let table = the (pageTable m) in
          if vpn \<ge> pageTableSize m then Inr (m, Inl AddressErrorException)
          else if unat vpn \<ge> length table then Inl OutOfBounds
          else let entry = table ! unat vpn in
          if \<not> valid entry then Inr (m, Inl PageFaultException)
          else check_entry entry offset sz writing m
                 (m\<lparr>pageTable := Some (table[unat vpn := mark_entry writing entry])\<rparr>)
      | Some t \<Rightarrow>
          (case tlb_find t vpn 0 of
             None \<Rightarrow> Inr (m, Inl PageFaultException)
           | Some i \<Rightarrow> check_entry (t ! i) offset sz writing m
                 (m\<lparr>tlb := Some (t[i := mark_entry writing (t ! i)])\<rparr>)))))"

text \<open>
  \<^verbatim>\<open>ReadMem\<close> returns the value read, or \<open>None\<close> when the translation failed and the exception
  was raised (\<^verbatim>\<open>FALSE\<close>). A single byte is read as a \<^verbatim>\<open>char\<close>, which is signed.
\<close>

definition ReadMem :: "handler \<Rightarrow> machine \<Rightarrow> u32 \<Rightarrow> nat \<Rightarrow> (machine \<times> u32 option) outcome" where
  "ReadMem H m addr sz =
     bindR (Translate m addr sz False) (\<lambda>(m, r).
     case r of
       Inl exception \<Rightarrow> bindR (RaiseException H exception addr m) (\<lambda>m. Inr (m, None))
     | Inr physicalAddress \<Rightarrow>
         if sz = 1 then Inr (m, Some (scast (mainMemory m ! physicalAddress)))
         else if sz = 2 then Inr (m, Some (ucast (ShortToHost (hostBigEndian m)
                  (host_load16 (hostBigEndian m) (mainMemory m) physicalAddress))))
         else if sz = 4 then Inr (m, Some (WordToHost (hostBigEndian m)
                  (host_load32 (hostBigEndian m) (mainMemory m) physicalAddress)))
         else Inl AssertFailed)"

definition WriteMem :: "handler \<Rightarrow> machine \<Rightarrow> u32 \<Rightarrow> nat \<Rightarrow> u32 \<Rightarrow> (machine \<times> bool) outcome" where
  "WriteMem H m addr sz value =
     bindR (Translate m addr sz True) (\<lambda>(m, r).
     case r of
       Inl exception \<Rightarrow> bindR (RaiseException H exception addr m) (\<lambda>m. Inr (m, False))
     | Inr physicalAddress \<Rightarrow>
         if sz = 1 then Inr (m\<lparr>mainMemory := (mainMemory m)[physicalAddress := ucast (value AND 0xff)]\<rparr>, True)
         else if sz = 2 then Inr (m\<lparr>mainMemory := host_store16 (hostBigEndian m) (mainMemory m) physicalAddress
                  (ShortToMachine (hostBigEndian m) (ucast (value AND 0xffff)))\<rparr>, True)
         else if sz = 4 then Inr (m\<lparr>mainMemory := host_store32 (hostBigEndian m) (mainMemory m) physicalAddress
                  (WordToMachine (hostBigEndian m) value)\<rparr>, True)
         else Inl AssertFailed)"

section \<open>Register lemmas\<close>

lemma reg_set_reg: "i < length (registers m) \<Longrightarrow> reg (set_reg m i v) j = (if i = j then v else reg m j)"
  by (simp add: reg_def set_reg_def list_update_swap_nth)

lemma length_set_reg [simp]: "length (registers (set_reg m i v)) = length (registers m)"
  by (simp add: set_reg_def)

lemma set_reg_other [simp]:
  "mainMemory (set_reg m i v) = mainMemory m" "tlb (set_reg m i v) = tlb m"
  "pageTable (set_reg m i v) = pageTable m" "pageTableSize (set_reg m i v) = pageTableSize m"
  "status (set_reg m i v) = status m" "hostBigEndian (set_reg m i v) = hostBigEndian m"
  "singleStep (set_reg m i v) = singleStep m"
  by (simp_all add: set_reg_def)

lemma reg_other_fields [simp]:
  "reg (m\<lparr>mainMemory := x\<rparr>) i = reg m i" "reg (m\<lparr>tlb := t\<rparr>) i = reg m i"
  "reg (m\<lparr>pageTable := p\<rparr>) i = reg m i" "reg (m\<lparr>status := st\<rparr>) i = reg m i"
  by (simp_all add: reg_def)

section \<open>Byte order lemmas\<close>

lemma bit_u8 [simp]: "8 \<le> n \<Longrightarrow> \<not> bit (b::u8) n"
  using bit_imp_le_length [of b n] by auto

lemma bit_le32: "bit (le32 b0 b1 b2 b3) n \<longleftrightarrow>
    (if n < 8 then bit b0 n else if n < 16 then bit b1 (n - 8) else if n < 24 then bit b2 (n - 16)
     else n < 32 \<and> bit b3 (n - 24))"
  by (auto simp: le32_def bit_simps)

lemma bit_le16: "bit (le16 b0 b1) n \<longleftrightarrow> (if n < 8 then bit b0 n else n < 16 \<and> bit b1 (n - 8))"
  by (auto simp: le16_def bit_simps)

lemma bit_byte_of: "bit (byte_of k w) n \<longleftrightarrow> n < 8 \<and> bit w (8 * k + n)"
  by (auto simp: byte_of_def bit_simps)

lemma byte_of_le32 [simp]:
  "byte_of 0 (le32 b0 b1 b2 b3) = b0" "byte_of (Suc 0) (le32 b0 b1 b2 b3) = b1"
  "byte_of 2 (le32 b0 b1 b2 b3) = b2" "byte_of 3 (le32 b0 b1 b2 b3) = b3"
  by (rule bit_word_eqI; simp add: bit_byte_of bit_le32)+

lemma le32_byte_of [simp]: "le32 (byte_of 0 w) (byte_of (Suc 0) w) (byte_of 2 w) (byte_of 3 w) = w"
  by (rule bit_word_eqI) (auto simp: bit_le32 bit_byte_of)

lemma byte_of_le16 [simp]: "byte_of 0 (le16 b0 b1) = b0" "byte_of (Suc 0) (le16 b0 b1) = b1"
  by (rule bit_word_eqI; simp add: bit_byte_of bit_le16)+

lemma le16_byte_of [simp]: "le16 (byte_of 0 w) (byte_of (Suc 0) w) = w"
  by (rule bit_word_eqI) (auto simp: bit_le16 bit_byte_of)

lemma byte_masks:
  "(0x000000ff::u32) = mask 8" "(0x0000ff00::u32) = push_bit 8 (mask 8)"
  "(0x00ff0000::u32) = push_bit 16 (mask 8)" "(0xff000000::u32) = push_bit 24 (mask 8)"
  "(0x0000ffff::u32) = mask 16" "(0xffff0000::u32) = push_bit 16 (mask 16)"
  "(0x00ffffff::u32) = mask 24" "(0xffffff00::u32) = push_bit 8 (mask 24)"
  by (simp_all add: mask_eq_exp_minus_1 push_bit_eq_mult)

lemma word32_bytes_eqI:
  "byte_of 0 v = byte_of 0 w \<Longrightarrow> byte_of (Suc 0) v = byte_of (Suc 0) w \<Longrightarrow> byte_of 2 v = byte_of 2 w \<Longrightarrow>
   byte_of 3 v = byte_of 3 w \<Longrightarrow> v = (w::u32)"
  by (metis le32_byte_of)

lemma word16_bytes_eqI: "byte_of 0 v = byte_of 0 w \<Longrightarrow> byte_of (Suc 0) v = byte_of (Suc 0) w \<Longrightarrow> v = (w::u16)"
  by (metis le16_byte_of)

lemma WordToHost_bytes:
  "WordToHost big w =
     (if big then le32 (byte_of 3 w) (byte_of 2 w) (byte_of 1 w) (byte_of 0 w) else w)"
proof (cases big)
  case True
  have "WordToHost True w = le32 (byte_of 3 w) (byte_of 2 w) (byte_of 1 w) (byte_of 0 w)"
    unfolding WordToHost_def byte_masks
    by (rule word32_bytes_eqI; rule bit_word_eqI; simp add: bit_byte_of bit_simps)
  with True show ?thesis by simp
qed (simp add: WordToHost_def)

lemma short_masks: "(0x00ff::u16) = mask 8" "(0xff00::u16) = push_bit 8 (mask 8)"
  by (simp_all add: mask_eq_exp_minus_1 push_bit_eq_mult)

lemma ShortToHost_bytes:
  "ShortToHost big w = (if big then le16 (byte_of 1 w) (byte_of 0 w) else w)"
proof (cases big)
  case True
  have "ShortToHost True w = le16 (byte_of 1 w) (byte_of 0 w)"
    unfolding ShortToHost_def short_masks
    by (rule word16_bytes_eqI; rule bit_word_eqI; simp add: bit_byte_of bit_simps)
  with True show ?thesis by simp
qed (simp add: ShortToHost_def)

text \<open>The simulated memory is little-endian whatever the host is.\<close>

lemma load32_le: "WordToHost big (host_load32 big mem a) =
    le32 (mem ! a) (mem ! (a + 1)) (mem ! (a + 2)) (mem ! (a + 3))"
  by (simp add: WordToHost_bytes host_load32_def)

lemma load16_le: "ShortToHost big (host_load16 big mem a) = le16 (mem ! a) (mem ! (a + 1))"
  by (simp add: ShortToHost_bytes host_load16_def)

lemma store32_le: "host_store32 big mem a (WordToMachine big w) =
    mem[a := byte_of 0 w, a + 1 := byte_of 1 w, a + 2 := byte_of 2 w, a + 3 := byte_of 3 w]"
  by (simp add: WordToMachine_def WordToHost_bytes host_store32_def)

lemma store16_le: "host_store16 big mem a (ShortToMachine big w) =
    mem[a := byte_of 0 w, a + 1 := byte_of 1 w]"
  by (simp add: ShortToMachine_def ShortToHost_bytes host_store16_def)

section \<open>Specification of the memory system\<close>

text \<open>
  \<open>mapped\<close> is the translation the page table or TLB defines, \<open>touch\<close> the update of the use and
  dirty bits, \<open>bytes_at\<close> and \<open>poke\<close> the little-endian memory accesses.
\<close>

definition misaligned :: "u32 \<Rightarrow> nat \<Rightarrow> bool" where
  "misaligned va sz \<longleftrightarrow> unat va mod sz \<noteq> 0"

definition access_size :: "nat \<Rightarrow> bool" where
  "access_size sz \<longleftrightarrow> sz = 1 \<or> sz = 2 \<or> sz = 4"

definition vpn_of :: "u32 \<Rightarrow> u32" where "vpn_of va = va div 128"

definition translation_ok :: "machine \<Rightarrow> bool" where
  "translation_ok m \<longleftrightarrow>
     (case (tlb m, pageTable m) of
        (Some t, None) \<Rightarrow> length t = TLBSize
      | (None, Some p) \<Rightarrow> unat (pageTableSize m) \<le> length p
      | _ \<Rightarrow> False)"

definition mapped :: "machine \<Rightarrow> u32 \<Rightarrow> ExceptionType + TranslationEntry" where
  "mapped m vpn =
     (case tlb m of
        None \<Rightarrow> if vpn \<ge> pageTableSize m then Inl AddressErrorException
                else let e = the (pageTable m) ! unat vpn in
                     if valid e then Inr e else Inl PageFaultException
      | Some t \<Rightarrow> (case find (\<lambda>e. valid e \<and> virtualPage e = vpn) t of
                    None \<Rightarrow> Inl PageFaultException | Some e \<Rightarrow> Inr e))"

definition touch :: "bool \<Rightarrow> u32 \<Rightarrow> machine \<Rightarrow> machine" where
  "touch writing vpn m =
     (case tlb m of
        None \<Rightarrow> m\<lparr>pageTable := map_option (\<lambda>p. p[unat vpn := mark_entry writing (p ! unat vpn)]) (pageTable m)\<rparr>
      | Some t \<Rightarrow> (case tlb_find t vpn 0 of None \<Rightarrow> m
                   | Some i \<Rightarrow> m\<lparr>tlb := Some (t[i := mark_entry writing (t ! i)])\<rparr>))"

definition physical :: "TranslationEntry \<Rightarrow> u32 \<Rightarrow> nat" where
  "physical e va = unat (physicalPage e) * PageSize + unat va mod PageSize"

definition bytes_at :: "u8 list \<Rightarrow> nat \<Rightarrow> nat \<Rightarrow> u32" where
  "bytes_at mem a sz =
     (if sz = 1 then scast (mem ! a) else if sz = 2 then ucast (le16 (mem ! a) (mem ! (a + 1)))
      else le32 (mem ! a) (mem ! (a + 1)) (mem ! (a + 2)) (mem ! (a + 3)))"

definition narrowed :: "nat \<Rightarrow> u32 \<Rightarrow> u32" where
  "narrowed sz v = (if sz = 1 then scast (ucast v :: u8) else if sz = 2 then ucast (ucast v :: u16) else v)"

definition poke :: "u8 list \<Rightarrow> nat \<Rightarrow> nat \<Rightarrow> u32 \<Rightarrow> u8 list" where
  "poke mem a sz v =
     (if sz = 1 then mem[a := byte_of 0 v] else if sz = 2 then mem[a := byte_of 0 v, a + 1 := byte_of 1 v]
      else mem[a := byte_of 0 v, a + 1 := byte_of 1 v, a + 2 := byte_of 2 v, a + 3 := byte_of 3 v])"

definition demo_entry :: TranslationEntry where
  "demo_entry = \<lparr>virtualPage = 0, physicalPage = 5, valid = True, readOnly = False, used = False, dirty = False\<rparr>"

definition demo_machine :: machine where
  "demo_machine = \<lparr>registers = replicate 40 0, mainMemory = replicate 16384 0, tlb = None,
     pageTable = Some [demo_entry], pageTableSize = 1, singleStep = False, status = UserMode,
     hostBigEndian = False\<rparr>"

section \<open>Address translation and memory access\<close>

lemma and_3_eq_0: "(va::u32) AND 3 = 0 \<longleftrightarrow> unat va mod 4 = 0"
proof -
  have "va AND 3 = take_bit 2 va" by (simp add: take_bit_eq_mask mask_eq_exp_minus_1)
  moreover have "unat (take_bit 2 va) = unat va mod 4" by (simp add: take_bit_eq_mod unat_mod_distrib)
  ultimately show ?thesis by (metis unsigned_0 unsigned_word_eqI)
qed

lemma and_1_eq_0: "(va::u32) AND 1 = 0 \<longleftrightarrow> unat va mod 2 = 0"
proof -
  have "va AND 1 = take_bit 1 va" by (simp add: take_bit_eq_mask mask_eq_exp_minus_1)
  moreover have "unat (take_bit 1 va) = unat va mod 2" by (simp add: take_bit_eq_mod unat_mod_distrib)
  ultimately show ?thesis by (metis unsigned_0 unsigned_word_eqI)
qed

lemma tlb_find_None: "tlb_find t vpn k = None \<longleftrightarrow> find (\<lambda>e. valid e \<and> virtualPage e = vpn) t = None"
  by (induction t vpn k rule: tlb_find.induct) auto

lemma tlb_find_Some: "tlb_find t vpn k = Some i \<Longrightarrow>
    k \<le> i \<and> i - k < length t \<and> find (\<lambda>e. valid e \<and> virtualPage e = vpn) t = Some (t ! (i - k))"
proof (induction t vpn k rule: tlb_find.induct)
  case (2 e es vpn k)
  then show ?case by (auto split: if_splits simp: Suc_diff_le Suc_le_eq nth_Cons')
qed simp

lemma translation_size:
  assumes "access_size sz" and "\<not> misaligned va sz"
  shows "unat va mod 128 + sz \<le> 128"
  proof -
  have "sz dvd unat va mod 128" "sz dvd 128"
    using assms by (auto simp: access_size_def misaligned_def dvd_mod_iff mod_eq_0_iff_dvd)
  then have "sz dvd 128 - unat va mod 128" by (rule dvd_diff_nat [rotated])
  moreover have "0 < 128 - unat va mod 128" by simp
  ultimately have "sz \<le> 128 - unat va mod 128" by (rule dvd_imp_le)
  then show ?thesis by simp
qed

lemma Translate_eq:
  assumes "translation_ok m" and "access_size sz"
  shows "Translate m va sz writing =
    (if misaligned va sz then Inr (m, Inl AddressErrorException)
     else case mapped m (vpn_of va) of
       Inl e \<Rightarrow> Inr (m, Inl e)
     | Inr e \<Rightarrow> if readOnly e \<and> writing then Inr (m, Inl ReadOnlyException)
         else if unat (physicalPage e) \<ge> NumPhysPages then Inr (m, Inl BusErrorException)
         else Inr (touch writing (vpn_of va) m, Inr (physical e va)))"
proof (cases "misaligned va sz")
  case True
  with assms(2) show ?thesis
    by (auto simp: Translate_def and_3_eq_0 and_1_eq_0 misaligned_def access_size_def)
next
  case False
  have al: "\<not> ((sz = 4 \<and> va AND 3 \<noteq> 0) \<or> (sz = 2 \<and> va AND 1 \<noteq> 0))"
    using False by (auto simp: and_3_eq_0 and_1_eq_0 misaligned_def)
  have vpn: "va div 128 = vpn_of va" by (simp add: vpn_of_def)
  have ce: "check_entry e (va mod 128) sz writing m m' =
      (if readOnly e \<and> writing then Inr (m, Inl ReadOnlyException)
       else if unat (physicalPage e) \<ge> NumPhysPages then Inr (m, Inl BusErrorException)
       else Inr (m', Inr (physical e va)))" for e m m'
  proof (cases "unat (physicalPage e) < NumPhysPages")
    case True
    then have "unat (physicalPage e) * 128 + unat va mod 128 + sz \<le> 16384"
      using translation_size [OF assms(2) False] by simp
    with True show ?thesis by (simp add: check_entry_def physical_def Let_def unat_mod_distrib)
  qed (simp add: check_entry_def)
  show ?thesis
  proof (cases "tlb m")
    case None
    with assms(1) obtain p where p: "pageTable m = Some p" "unat (pageTableSize m) \<le> length p"
      by (auto simp: translation_ok_def split: option.splits)
    then have "length p \<le> unat vpn \<Longrightarrow> pageTableSize m \<le> vpn" for vpn
      by (simp add: word_le_nat_alt)
    with None p False show ?thesis
      unfolding Translate_def if_not_P [OF al]
      by (simp add: mapped_def touch_def Let_def vpn ce)
  next
    case (Some t)
    with assms(1) have p: "pageTable m = None"
      by (auto simp: translation_ok_def split: option.splits)
    show ?thesis
    proof (cases "tlb_find t (vpn_of va) 0")
      case None
      then have "find (\<lambda>e. valid e \<and> virtualPage e = vpn_of va) t = None" by (simp only: tlb_find_None)
      with None Some p False show ?thesis
        unfolding Translate_def if_not_P [OF al] by (simp add: mapped_def vpn)
    next
      case (Some i)
      with tlb_find_Some [OF Some] \<open>tlb m = Some t\<close> p False show ?thesis
        unfolding Translate_def if_not_P [OF al] by (simp add: mapped_def touch_def vpn ce)
    qed
  qed
qed

lemma mark_entry_fields [simp]:
  "virtualPage (mark_entry w e) = virtualPage e" "physicalPage (mark_entry w e) = physicalPage e"
  "valid (mark_entry w e) = valid e" "readOnly (mark_entry w e) = readOnly e"
  "used (mark_entry w e)" "dirty (mark_entry w e) \<longleftrightarrow> w \<or> dirty e"
  by (simp_all add: mark_entry_def Let_def)

lemma touch_fields [simp]:
  "registers (touch w vpn m) = registers m" "mainMemory (touch w vpn m) = mainMemory m"
  "pageTableSize (touch w vpn m) = pageTableSize m" "status (touch w vpn m) = status m"
  "hostBigEndian (touch w vpn m) = hostBigEndian m" "singleStep (touch w vpn m) = singleStep m"
  by (simp_all add: touch_def split: option.split)

lemma translation_ok_touch [simp]: "translation_ok m \<Longrightarrow> translation_ok (touch w vpn m)"
  by (auto simp: translation_ok_def touch_def split: option.splits)

lemma find_update_mark:
  assumes "i < length t" and "find (\<lambda>e. valid e \<and> virtualPage e = vpn) t = Some (t ! i)"
    and "tlb_find t vpn k = Some (i + k)"
  shows "find (\<lambda>e. valid e \<and> virtualPage e = v) (t[i := mark_entry w (t ! i)]) =
    (if v = vpn then Some (mark_entry w (t ! i)) else find (\<lambda>e. valid e \<and> virtualPage e = v) t)"
  using assms
proof (induction t vpn k arbitrary: i rule: tlb_find.induct)
  case (2 e es vpn k)
  show ?case
  proof (cases "valid e \<and> virtualPage e = vpn")
    case True
    with 2 show ?thesis by auto
  next
    case False
    then have f: "tlb_find es vpn (Suc k) = Some (i + k)"
      using "2.prems"(3) by (auto split: if_splits)
    from tlb_find_Some [OF f] obtain j where j: "i = Suc j" by (cases i) auto
    with 2 False f show ?thesis by auto
  qed
qed simp

lemma mapped_touch:
  assumes "translation_ok m" and "mapped m vpn = Inr e"
  shows "mapped (touch w vpn m) v = (if v = vpn then Inr (mark_entry w e) else mapped m v)"
proof (cases "tlb m")
  case None
  with assms(1) obtain p where p: "pageTable m = Some p" "unat (pageTableSize m) \<le> length p"
    by (auto simp: translation_ok_def split: option.splits)
  have e: "vpn < pageTableSize m" "valid (p ! unat vpn)" "e = p ! unat vpn"
    using None p assms(2) by (simp_all add: mapped_def Let_def split: if_splits)
  then have len: "unat vpn < length p" using p(2) by (simp add: word_less_nat_alt)
  show ?thesis
  proof (cases "v = vpn")
    case False
    then have "unat v \<noteq> unat vpn" by (metis unsigned_word_eqI)
    with False None p show ?thesis by (simp add: mapped_def touch_def Let_def)
  next
    case True
    with None p e len show ?thesis by (simp add: mapped_def touch_def Let_def)
  qed
next
  case (Some t)
  show ?thesis
  proof (cases "tlb_find t vpn 0")
    case None
    with assms(2) Some show ?thesis by (simp add: mapped_def tlb_find_None)
  next
    case (Some i)
    note i = tlb_find_Some [OF Some]
    show ?thesis
      using assms(2) \<open>tlb m = Some t\<close> Some i find_update_mark [of i t vpn 0 v w]
      by (simp add: mapped_def touch_def)
  qed
qed

text \<open>
  C1: address translation, for a machine with a page table or a TLB and an access of 1, 2 or 4
  bytes. \<^verbatim>\<open>Translate\<close> never fails an assertion. When it raises an exception the machine is
  unchanged. When it returns a physical address, the whole access lies in physical memory, at
  the same offset of the page frame that a valid entry for the virtual page names, no
  read-only page is written, and exactly that entry gets its use bit (and its dirty bit when
  writing) set.
\<close>

theorem Translate_correct:
  assumes "translation_ok m" and "access_size sz"
  shows "\<exists>m' r. Translate m va sz writing = Inr (m', r) \<and>
    (case r of
       Inl e \<Rightarrow> m' = m \<and> e \<in> {AddressErrorException, PageFaultException, ReadOnlyException, BusErrorException}
     | Inr pa \<Rightarrow> pa + sz \<le> MemorySize \<and> pa mod PageSize = unat va mod PageSize \<and>
         (\<exists>e. mapped m (vpn_of va) = Inr e \<and> valid e \<and> (writing \<longrightarrow> \<not> readOnly e) \<and>
              pa div PageSize = unat (physicalPage e) \<and>
              (\<forall>v. mapped m' v = (if v = vpn_of va then Inr (mark_entry writing e) else mapped m v))) \<and>
         registers m' = registers m \<and> mainMemory m' = mainMemory m)"
proof (cases "misaligned va sz")
  case False
  note size = translation_size [OF assms(2) this]
  show ?thesis
  proof (cases "mapped m (vpn_of va)")
    case (Inl x)
    then have "x \<in> {AddressErrorException, PageFaultException}"
      by (auto simp: mapped_def Let_def split: option.splits if_splits)
    with Inl False show ?thesis by (auto simp: Translate_eq [OF assms])
  next
    case (Inr e)
    have "valid e"
      using Inr by (auto simp: mapped_def Let_def find_Some_iff split: option.splits if_splits)
    moreover have "unat (physicalPage e) < 128 \<Longrightarrow> physical e va + sz \<le> 16384"
      using size by (simp add: physical_def)
    moreover have "physical e va div 128 = unat (physicalPage e)" "physical e va mod 128 = unat va mod 128"
      by (simp_all add: physical_def)
    ultimately show ?thesis
      using Inr False mapped_touch [OF assms(1) Inr] by (auto simp: Translate_eq [OF assms])
  qed
qed (simp add: Translate_eq [OF assms])

theorem Translate_correct_witness:
  "\<exists>m' r. Translate demo_machine 12 4 True = Inr (m', r) \<and> (\<exists>pa. r = Inr pa \<and> pa + 4 \<le> MemorySize)"
proof -
  have ok: "translation_ok demo_machine" by (simp add: translation_ok_def demo_machine_def)
  have sz: "access_size 4" by (simp add: access_size_def)
  have "Translate demo_machine 12 4 True = Inr (touch True 0 demo_machine, Inr 652)"
    unfolding Translate_eq [OF ok sz]
    by (simp add: misaligned_def mapped_def vpn_of_def demo_machine_def demo_entry_def physical_def)
  then show ?thesis
    using Translate_correct [OF ok sz, of 12 True] by auto
qed


lemma ucast8_and_mask: "ucast (v AND 0xff) = byte_of 0 (v::u32)"
  unfolding byte_masks by (rule bit_word_eqI) (simp add: bit_byte_of bit_simps)

lemma ucast16_and_mask: "ucast (v AND 0xffff) = (ucast (v::u32) :: u16)"
  unfolding byte_masks by (rule bit_word_eqI) (simp add: bit_simps)

lemma byte_of_ucast16 [simp]: "byte_of 0 (ucast (v::u32) :: u16) = byte_of 0 v"
  "byte_of (Suc 0) (ucast (v::u32) :: u16) = byte_of (Suc 0) v"
  by (rule bit_word_eqI; simp add: bit_byte_of bit_simps)+

lemma byte_0_eq: "(ucast (w::u32) :: u8) = byte_of 0 w"
  by (simp add: byte_of_def)

lemma le16_low [simp]: "le16 (byte_of 0 (v::u32)) (byte_of (Suc 0) v) = ucast v"
  by (rule word16_bytes_eqI) simp_all

lemma ReadMem_eq:
  assumes "access_size sz"
  shows "ReadMem H m va sz =
     bindR (Translate m va sz False) (\<lambda>(m, r).
       case r of Inl e \<Rightarrow> bindR (RaiseException H e va m) (\<lambda>m. Inr (m, None))
       | Inr pa \<Rightarrow> Inr (m, Some (bytes_at (mainMemory m) pa sz)))"
  using assms unfolding ReadMem_def access_size_def
  by (elim disjE) (simp_all add: load16_le load32_le bytes_at_def cong: sum.case_cong)

lemma WriteMem_eq:
  assumes "access_size sz"
  shows "WriteMem H m va sz v =
     bindR (Translate m va sz True) (\<lambda>(m, r).
       case r of Inl e \<Rightarrow> bindR (RaiseException H e va m) (\<lambda>m. Inr (m, False))
       | Inr pa \<Rightarrow> Inr (m\<lparr>mainMemory := poke (mainMemory m) pa sz v\<rparr>, True))"
  using assms unfolding WriteMem_def access_size_def
  by (elim disjE) (simp_all add: store16_le store32_le poke_def ucast8_and_mask ucast16_and_mask cong: sum.case_cong)

lemma length_poke [simp]: "length (poke mem a sz v) = length mem"
  by (simp add: poke_def)

lemma nth_poke: "access_size sz \<Longrightarrow> a + sz \<le> length mem \<Longrightarrow>
    poke mem a sz v ! i = (if a \<le> i \<and> i < a + sz then byte_of (i - a) v else mem ! i)"
  unfolding access_size_def
  by (elim disjE)
    (auto simp: poke_def list_update_swap_nth Suc_diff_le le_Suc_eq less_Suc_eq numeral_2_eq_2)

lemma bytes_at_poke:
  assumes "access_size sz" and "a + sz \<le> length mem"
  shows "bytes_at (poke mem a sz v) a sz = narrowed sz v"
  using assms unfolding access_size_def
  by (elim disjE) (simp_all add: bytes_at_def poke_def narrowed_def list_update_swap_nth byte_0_eq)

lemma translation_fields [simp]:
  "translation_ok (m\<lparr>mainMemory := x\<rparr>) = translation_ok m" "mapped (m\<lparr>mainMemory := x\<rparr>) = mapped m"
  by (simp_all add: translation_ok_def mapped_def Let_def fun_eq_iff split: option.split)

lemma WriteMem_True:
  assumes "translation_ok m" and "access_size sz" and "WriteMem H m va sz v = Inr (m', True)"
  obtains e where "\<not> misaligned va sz" "mapped m (vpn_of va) = Inr e" "\<not> readOnly e"
    "unat (physicalPage e) < NumPhysPages"
    "m' = (touch True (vpn_of va) m)\<lparr>mainMemory := poke (mainMemory m) (physical e va) sz v\<rparr>"
  using assms(3) that
  unfolding WriteMem_eq [OF assms(2)] Translate_eq [OF assms(1,2)]
  by (auto simp: bindR_eq_Inr split: if_splits sum.splits)

text \<open>
  C14: a write that succeeds stores the bytes of the value in little-endian order, whatever the
  host's byte order, at one block of physical memory and changes no other byte; reading the
  same virtual address with the same size then succeeds and returns the value, truncated to
  the access size (a byte comes back sign-extended, a half word zero-extended).
\<close>

theorem ReadMem_WriteMem:
  assumes "translation_ok m" and "access_size sz" and "length (mainMemory m) = MemorySize"
    and "WriteMem H m va sz v = Inr (m', True)"
  shows "\<exists>m'' pa. ReadMem H m' va sz = Inr (m'', Some (narrowed sz v)) \<and>
     mainMemory m'' = mainMemory m' \<and> pa + sz \<le> MemorySize \<and>
     (\<forall>i. mainMemory m' ! i = (if pa \<le> i \<and> i < pa + sz then byte_of (i - pa) v else mainMemory m ! i))"
proof -
  obtain e where e: "\<not> misaligned va sz" "mapped m (vpn_of va) = Inr e" "\<not> readOnly e"
      "unat (physicalPage e) < NumPhysPages"
      "m' = (touch True (vpn_of va) m)\<lparr>mainMemory := poke (mainMemory m) (physical e va) sz v\<rparr>"
    by (rule WriteMem_True [OF assms(1,2,4)])
  have ok': "translation_ok m'" using e(5) assms(1) by simp
  have map': "mapped m' (vpn_of va) = Inr (mark_entry True e)"
    using e(5) mapped_touch [OF assms(1) e(2)] by simp
  have pa: "physical e va + sz \<le> MemorySize"
    using translation_size [OF assms(2) e(1)] e(4) by (simp add: physical_def)
  have ph: "physical (mark_entry True e) va = physical e va" by (simp add: physical_def)
  have "ReadMem H m' va sz = Inr (touch False (vpn_of va) m', Some (narrowed sz v))"
    using e(1,3,4) pa assms(3) unfolding ReadMem_eq [OF assms(2)] Translate_eq [OF ok' assms(2)] map'
    by (simp add: ph) (simp add: e(5) bytes_at_poke [OF assms(2)])
  moreover have "mainMemory m' ! i =
      (if physical e va \<le> i \<and> i < physical e va + sz then byte_of (i - physical e va) v else mainMemory m ! i)" for i
    using e(5) pa assms(3) nth_poke [OF assms(2), of "physical e va" "mainMemory m" v i] by simp
  ultimately show ?thesis using pa by (intro exI [of _ "touch False (vpn_of va) m'"] exI [of _ "physical e va"]) simp
qed

theorem ReadMem_WriteMem_witness:
  "\<exists>m' m''. WriteMem (\<lambda>_ m. Inr m) demo_machine 12 4 0xdeadbeef = Inr (m', True) \<and>
     ReadMem (\<lambda>_ m. Inr m) m' 12 4 = Inr (m'', Some 0xdeadbeef)"
proof -
  have ok: "translation_ok demo_machine" by (simp add: translation_ok_def demo_machine_def)
  have sz: "access_size 4" by (simp add: access_size_def)
  have len: "length (mainMemory demo_machine) = MemorySize" by (simp add: demo_machine_def)
  have "\<exists>m'. WriteMem (\<lambda>_ m. Inr m) demo_machine 12 4 0xdeadbeef = Inr (m', True)"
    unfolding WriteMem_eq [OF sz] Translate_eq [OF ok sz]
    by (simp add: misaligned_def mapped_def vpn_of_def demo_machine_def demo_entry_def)
  with ReadMem_WriteMem [OF ok sz len, of "\<lambda>_ m. Inr m" 12 "0xdeadbeef"] show ?thesis
    by (fastforce simp: narrowed_def)
qed

end
