(* ===== verification/Mips_Decode.thy ===== *)
theory Mips_Decode
  imports Machine
begin

unbundle bit_operations_syntax

text \<open>
  The instruction set tables of \<^verbatim>\<open>code/machine/mipssim.h\<close> and the decoder of \<^verbatim>\<open>mipssim.cc\<close>: the
  opcodes with their numbers, the two decoding tables, \<^verbatim>\<open>Instruction::Decode\<close>, and the
  instruction listing \<^verbatim>\<open>OneInstruction\<close> prints under the debugging flag, which formats into a
  buffer of 80 bytes. The lemmas show that every one of the \<open>2 ^ 32\<close> instruction words decodes to
  an operation the simulator has a case for, with register fields below 32, and that the
  listing stays inside its buffer.
\<close>

section \<open>Tables\<close>

datatype (plugins only:) opcode =
    OP_ADD | OP_ADDI | OP_ADDIU | OP_ADDU | OP_AND | OP_ANDI | OP_BEQ | OP_BGEZ | OP_BGEZAL |
    OP_BGTZ | OP_BLEZ | OP_BLTZ | OP_BLTZAL | OP_BNE | OP_DIV | OP_DIVU | OP_J | OP_JAL | OP_JALR |
    OP_JR | OP_LB | OP_LBU | OP_LH | OP_LHU | OP_LUI | OP_LW | OP_LWL | OP_LWR | OP_MFHI |
    OP_MFLO | OP_MTHI | OP_MTLO | OP_MULT | OP_MULTU | OP_NOR | OP_OR | OP_ORI | OP_RFE | OP_SB |
    OP_SH | OP_SLL | OP_SLLV | OP_SLT | OP_SLTI | OP_SLTIU | OP_SLTU | OP_SRA | OP_SRAV | OP_SRL |
    OP_SRLV | OP_SUB | OP_SUBU | OP_SW | OP_SWL | OP_SWR | OP_XOR | OP_XORI | OP_SYSCALL |
    OP_UNIMP | OP_RES | SPECIAL | BCOND

fun op_number :: "opcode \<Rightarrow> int" where
  "op_number OP_ADD = 1"
| "op_number OP_ADDI = 2"
| "op_number OP_ADDIU = 3"
| "op_number OP_ADDU = 4"
| "op_number OP_AND = 5"
| "op_number OP_ANDI = 6"
| "op_number OP_BEQ = 7"
| "op_number OP_BGEZ = 8"
| "op_number OP_BGEZAL = 9"
| "op_number OP_BGTZ = 10"
| "op_number OP_BLEZ = 11"
| "op_number OP_BLTZ = 12"
| "op_number OP_BLTZAL = 13"
| "op_number OP_BNE = 14"
| "op_number OP_DIV = 16"
| "op_number OP_DIVU = 17"
| "op_number OP_J = 18"
| "op_number OP_JAL = 19"
| "op_number OP_JALR = 20"
| "op_number OP_JR = 21"
| "op_number OP_LB = 22"
| "op_number OP_LBU = 23"
| "op_number OP_LH = 24"
| "op_number OP_LHU = 25"
| "op_number OP_LUI = 26"
| "op_number OP_LW = 27"
| "op_number OP_LWL = 28"
| "op_number OP_LWR = 29"
| "op_number OP_MFHI = 31"
| "op_number OP_MFLO = 32"
| "op_number OP_MTHI = 34"
| "op_number OP_MTLO = 35"
| "op_number OP_MULT = 36"
| "op_number OP_MULTU = 37"
| "op_number OP_NOR = 38"
| "op_number OP_OR = 39"
| "op_number OP_ORI = 40"
| "op_number OP_RFE = 41"
| "op_number OP_SB = 42"
| "op_number OP_SH = 43"
| "op_number OP_SLL = 44"
| "op_number OP_SLLV = 45"
| "op_number OP_SLT = 46"
| "op_number OP_SLTI = 47"
| "op_number OP_SLTIU = 48"
| "op_number OP_SLTU = 49"
| "op_number OP_SRA = 50"
| "op_number OP_SRAV = 51"
| "op_number OP_SRL = 52"
| "op_number OP_SRLV = 53"
| "op_number OP_SUB = 54"
| "op_number OP_SUBU = 55"
| "op_number OP_SW = 56"
| "op_number OP_SWL = 57"
| "op_number OP_SWR = 58"
| "op_number OP_XOR = 59"
| "op_number OP_XORI = 60"
| "op_number OP_SYSCALL = 61"
| "op_number OP_UNIMP = 62"
| "op_number OP_RES = 63"
| "op_number SPECIAL = 100"
| "op_number BCOND = 101"

datatype opformat = IFMT | JFMT | RFMT

definition opTable :: "(opcode \<times> opformat) list" where
  "opTable = [
    (SPECIAL, RFMT), (BCOND, IFMT), (OP_J, JFMT), (OP_JAL, JFMT), (OP_BEQ, IFMT), (OP_BNE, IFMT),
    (OP_BLEZ, IFMT), (OP_BGTZ, IFMT), (OP_ADDI, IFMT), (OP_ADDIU, IFMT), (OP_SLTI, IFMT),
    (OP_SLTIU, IFMT), (OP_ANDI, IFMT), (OP_ORI, IFMT), (OP_XORI, IFMT), (OP_LUI, IFMT),
    (OP_UNIMP, IFMT), (OP_UNIMP, IFMT), (OP_UNIMP, IFMT), (OP_UNIMP, IFMT), (OP_RES, IFMT),
    (OP_RES, IFMT), (OP_RES, IFMT), (OP_RES, IFMT), (OP_RES, IFMT), (OP_RES, IFMT), (OP_RES, IFMT),
    (OP_RES, IFMT), (OP_RES, IFMT), (OP_RES, IFMT), (OP_RES, IFMT), (OP_RES, IFMT), (OP_LB, IFMT),
    (OP_LH, IFMT), (OP_LWL, IFMT), (OP_LW, IFMT), (OP_LBU, IFMT), (OP_LHU, IFMT), (OP_LWR, IFMT),
    (OP_RES, IFMT), (OP_SB, IFMT), (OP_SH, IFMT), (OP_SWL, IFMT), (OP_SW, IFMT), (OP_RES, IFMT),
    (OP_RES, IFMT), (OP_SWR, IFMT), (OP_RES, IFMT), (OP_UNIMP, IFMT), (OP_UNIMP, IFMT),
    (OP_UNIMP, IFMT), (OP_UNIMP, IFMT), (OP_RES, IFMT), (OP_RES, IFMT), (OP_RES, IFMT),
    (OP_RES, IFMT), (OP_UNIMP, IFMT), (OP_UNIMP, IFMT), (OP_UNIMP, IFMT), (OP_UNIMP, IFMT),
    (OP_RES, IFMT), (OP_RES, IFMT), (OP_RES, IFMT), (OP_RES, IFMT)]"

definition specialTable :: "opcode list" where
  "specialTable = [
    OP_SLL, OP_RES, OP_SRL, OP_SRA, OP_SLLV, OP_RES, OP_SRLV, OP_SRAV, OP_JR, OP_JALR, OP_RES,
    OP_RES, OP_SYSCALL, OP_UNIMP, OP_RES, OP_RES, OP_MFHI, OP_MTHI, OP_MFLO, OP_MTLO, OP_RES,
    OP_RES, OP_RES, OP_RES, OP_MULT, OP_MULTU, OP_DIV, OP_DIVU, OP_RES, OP_RES, OP_RES, OP_RES,
    OP_ADD, OP_ADDU, OP_SUB, OP_SUBU, OP_AND, OP_OR, OP_XOR, OP_NOR, OP_RES, OP_RES, OP_SLT,
    OP_SLTU, OP_RES, OP_RES, OP_RES, OP_RES, OP_RES, OP_RES, OP_RES, OP_RES, OP_RES, OP_RES,
    OP_RES, OP_RES, OP_RES, OP_RES, OP_RES, OP_RES, OP_RES, OP_RES, OP_RES, OP_RES]"

datatype RegType = NONE | RS | RT | RD | EXTRA

definition opStrings :: "(string \<times> RegType list) list" where
  "opStrings = [
    (''Shouldn't happen'', [NONE, NONE, NONE]), (''ADD r%d,r%d,r%d'', [RD, RS, RT]),
    (''ADDI r%d,r%d,%d'', [RT, RS, EXTRA]), (''ADDIU r%d,r%d,%d'', [RT, RS, EXTRA]),
    (''ADDU r%d,r%d,r%d'', [RD, RS, RT]), (''AND r%d,r%d,r%d'', [RD, RS, RT]),
    (''ANDI r%d,r%d,%d'', [RT, RS, EXTRA]), (''BEQ r%d,r%d,%d'', [RS, RT, EXTRA]),
    (''BGEZ r%d,%d'', [RS, EXTRA, NONE]), (''BGEZAL r%d,%d'', [RS, EXTRA, NONE]),
    (''BGTZ r%d,%d'', [RS, EXTRA, NONE]), (''BLEZ r%d,%d'', [RS, EXTRA, NONE]),
    (''BLTZ r%d,%d'', [RS, EXTRA, NONE]), (''BLTZAL r%d,%d'', [RS, EXTRA, NONE]),
    (''BNE r%d,r%d,%d'', [RS, RT, EXTRA]), (''Shouldn't happen'', [NONE, NONE, NONE]),
    (''DIV r%d,r%d'', [RS, RT, NONE]), (''DIVU r%d,r%d'', [RS, RT, NONE]),
    (''J %d'', [EXTRA, NONE, NONE]), (''JAL %d'', [EXTRA, NONE, NONE]),
    (''JALR r%d,r%d'', [RD, RS, NONE]), (''JR r%d,r%d'', [RD, RS, NONE]),
    (''LB r%d,%d(r%d)'', [RT, EXTRA, RS]), (''LBU r%d,%d(r%d)'', [RT, EXTRA, RS]),
    (''LH r%d,%d(r%d)'', [RT, EXTRA, RS]), (''LHU r%d,%d(r%d)'', [RT, EXTRA, RS]),
    (''LUI r%d,%d'', [RT, EXTRA, NONE]), (''LW r%d,%d(r%d)'', [RT, EXTRA, RS]),
    (''LWL r%d,%d(r%d)'', [RT, EXTRA, RS]), (''LWR r%d,%d(r%d)'', [RT, EXTRA, RS]),
    (''Shouldn't happen'', [NONE, NONE, NONE]), (''MFHI r%d'', [RD, NONE, NONE]),
    (''MFLO r%d'', [RD, NONE, NONE]), (''Shouldn't happen'', [NONE, NONE, NONE]),
    (''MTHI r%d'', [RS, NONE, NONE]), (''MTLO r%d'', [RS, NONE, NONE]),
    (''MULT r%d,r%d'', [RS, RT, NONE]), (''MULTU r%d,r%d'', [RS, RT, NONE]),
    (''NOR r%d,r%d,r%d'', [RD, RS, RT]), (''OR r%d,r%d,r%d'', [RD, RS, RT]),
    (''ORI r%d,r%d,%d'', [RT, RS, EXTRA]), (''RFE'', [NONE, NONE, NONE]),
    (''SB r%d,%d(r%d)'', [RT, EXTRA, RS]), (''SH r%d,%d(r%d)'', [RT, EXTRA, RS]),
    (''SLL r%d,r%d,%d'', [RD, RT, EXTRA]), (''SLLV r%d,r%d,r%d'', [RD, RT, RS]),
    (''SLT r%d,r%d,r%d'', [RD, RS, RT]), (''SLTI r%d,r%d,%d'', [RT, RS, EXTRA]),
    (''SLTIU r%d,r%d,%d'', [RT, RS, EXTRA]), (''SLTU r%d,r%d,r%d'', [RD, RS, RT]),
    (''SRA r%d,r%d,%d'', [RD, RT, EXTRA]), (''SRAV r%d,r%d,r%d'', [RD, RT, RS]),
    (''SRL r%d,r%d,%d'', [RD, RT, EXTRA]), (''SRLV r%d,r%d,r%d'', [RD, RT, RS]),
    (''SUB r%d,r%d,r%d'', [RD, RS, RT]), (''SUBU r%d,r%d,r%d'', [RD, RS, RT]),
    (''SW r%d,%d(r%d)'', [RT, EXTRA, RS]), (''SWL r%d,%d(r%d)'', [RT, EXTRA, RS]),
    (''SWR r%d,%d(r%d)'', [RT, EXTRA, RS]), (''XOR r%d,r%d,r%d'', [RD, RS, RT]),
    (''XORI r%d,r%d,%d'', [RT, RS, EXTRA]), (''SYSCALL'', [NONE, NONE, NONE]),
    (''Unimplemented'', [NONE, NONE, NONE]), (''Reserved'', [NONE, NONE, NONE])]"

section \<open>Decoding\<close>

definition MaxOpcode :: int where "MaxOpcode = 63"

record Instruction =
  instr_value :: u32
  opCode :: opcode
  instr_rs :: nat
  instr_rt :: nat
  instr_rd :: nat
  extra :: u32

definition Decode :: "u32 \<Rightarrow> Instruction" where
  "Decode value =
     (let rs = unat (drop_bit 21 value AND 0x1f);
          rt = unat (drop_bit 16 value AND 0x1f);
          rd = unat (drop_bit 11 value AND 0x1f);
          (code, format) = opTable ! unat (drop_bit 26 value AND 0x3f);
          ext = (if format = IFMT then
                   let e = value AND 0xffff in if e AND 0x8000 \<noteq> 0 then e OR 0xffff0000 else e
                 else if format = RFMT then drop_bit 6 value AND 0x1f
                 else value AND 0x3ffffff);
          code = (if code = SPECIAL then specialTable ! unat (value AND 0x3f)
                  else if code = BCOND then
                    let i = value AND 0x1f0000 in
                    if i = 0 then OP_BLTZ
                    else if i = 0x10000 then OP_BGEZ
                    else if i = 0x100000 then OP_BLTZAL
                    else if i = 0x110000 then OP_BGEZAL
                    else OP_UNIMP
                  else code)
      in \<lparr>instr_value = value, opCode = code, instr_rs = rs, instr_rt = rt, instr_rd = rd, extra = ext\<rparr>)"

section \<open>Instruction listing\<close>

fun TypeToReg :: "RegType \<Rightarrow> Instruction \<Rightarrow> int" where
  "TypeToReg RS instr = int (instr_rs instr)"
| "TypeToReg RT instr = int (instr_rt instr)"
| "TypeToReg RD instr = int (instr_rd instr)"
| "TypeToReg EXTRA instr = sint (extra instr)"
| "TypeToReg NONE instr = -1"

text \<open>C's \<^verbatim>\<open>sprintf\<close> for formats whose only conversion is \<^verbatim>\<open>%d\<close>.\<close>

fun show_nat :: "nat \<Rightarrow> string" where
  "show_nat n = (if n < 10 then [char_of (48 + n)] else show_nat (n div 10) @ [char_of (48 + n mod 10)])"

declare show_nat.simps [simp del]

definition show_int :: "int \<Rightarrow> string" where
  "show_int i = (if i < 0 then CHR ''-'' # show_nat (nat (- i)) else show_nat (nat i))"

fun sprintf_d :: "string \<Rightarrow> int list \<Rightarrow> string" where
  "sprintf_d [] as = []"
| "sprintf_d [c] as = [c]"
| "sprintf_d (c # d # cs) as =
     (if c = CHR ''%'' \<and> d = CHR ''d''
      then (case as of [] \<Rightarrow> sprintf_d cs [] | a # as' \<Rightarrow> show_int a @ sprintf_d cs as')
      else c # sprintf_d (d # cs) as)"

definition instr_buf_size :: nat where "instr_buf_size = 80"

definition trace_instruction :: "Instruction \<Rightarrow> string outcome" where
  "trace_instruction instr =
     bindR (ASSERT (op_number (opCode instr) \<le> MaxOpcode)) (\<lambda>_.
     let (format, args) = opStrings ! nat (op_number (opCode instr));
         buf = sprintf_d format (map (\<lambda>t. TypeToReg t instr) args)
     in if length buf < instr_buf_size then Inr buf else Inl OutOfBounds)"

section \<open>Decoding is total\<close>

text \<open>The operations \<^verbatim>\<open>OneInstruction\<close> has a case for.\<close>

definition executable_op :: "opcode \<Rightarrow> bool" where
  "executable_op c \<longleftrightarrow> c \<noteq> SPECIAL \<and> c \<noteq> BCOND \<and> c \<noteq> OP_RFE"

lemma unat_and_mask_less: "unat ((w::u32) AND mask n) < 2 ^ n"
  by (simp only: take_bit_eq_mask [symmetric] unsigned_take_bit_eq take_bit_nat_less_exp)

lemma field_less: "unat ((w::u32) AND 0x1f) < 32" "unat ((w::u32) AND 0x3f) < 64"
  using unat_and_mask_less [of w 5] unat_and_mask_less [of w 6] by (simp_all add: mask_eq_exp_minus_1)

lemma opTable_ops: "list_all (\<lambda>(c, f). c = SPECIAL \<or> c = BCOND \<or> executable_op c) opTable"
  "length opTable = 64" "list_all executable_op specialTable" "length specialTable = 64"
  by (simp_all add: opTable_def specialTable_def executable_op_def)

lemma opTable_nth: "i < 64 \<Longrightarrow> opTable ! i = (c, f) \<Longrightarrow> c = SPECIAL \<or> c = BCOND \<or> executable_op c"
  using opTable_ops(1,2) by (fastforce simp: list_all_length)

lemma specialTable_nth: "i < 64 \<Longrightarrow> executable_op (specialTable ! i)"
  using opTable_ops(3,4) by (simp add: list_all_length)

lemma Decode_regs: "instr_rs (Decode v) < 32" "instr_rt (Decode v) < 32" "instr_rd (Decode v) < 32"
  by (simp_all add: Decode_def Let_def field_less split: prod.split)

lemma Decode_op: "executable_op (opCode (Decode v))"
proof -
  obtain c f where cf: "opTable ! unat (drop_bit 26 v AND 0x3f) = (c, f)" by (metis surj_pair)
  then have "c = SPECIAL \<or> c = BCOND \<or> executable_op c" by (rule opTable_nth [OF field_less(2)])
  with cf show ?thesis
    by (auto simp: Decode_def Let_def field_less specialTable_nth) (auto simp: executable_op_def)
qed

section \<open>The listing fits its buffer\<close>

lemma length_show_nat: "n < 10 ^ Suc k \<Longrightarrow> length (show_nat n) \<le> Suc k"
proof (induction k arbitrary: n)
  case 0
  then show ?case by (simp add: show_nat.simps)
next
  case (Suc k)
  then have "n div 10 < 10 ^ Suc k" by (simp add: less_mult_imp_div_less mult.commute)
  with Suc.IH show ?case by (subst show_nat.simps) auto
qed

lemma length_show_int: "\<bar>i\<bar> < 10 ^ 10 \<Longrightarrow> length (show_int i) \<le> 11"
proof -
  assume a: "\<bar>i\<bar> < 10 ^ 10"
  have "length (show_nat (nat \<bar>i\<bar>)) \<le> Suc 9" by (rule length_show_nat) (use a in simp)
  then show ?thesis by (auto simp: show_int_def)
qed

lemma length_sprintf_d:
  "\<forall>a \<in> set as. length (show_int a) \<le> w \<Longrightarrow> length (sprintf_d f as) \<le> length f + w * length as"
proof (induction f as rule: sprintf_d.induct)
  case (3 c d cs as)
  then show ?case by (cases as) auto
qed auto

lemma TypeToReg_bounded: "\<bar>TypeToReg t (Decode v)\<bar> < 10 ^ 10"
proof (cases t)
  case EXTRA
  have "- (2 ^ 31) \<le> sint (extra (Decode v))" "sint (extra (Decode v)) < 2 ^ 31"
    using sint_ge [of "extra (Decode v)"] sint_lt [of "extra (Decode v)"] by simp_all
  with EXTRA show ?thesis by (simp add: abs_if)
qed (use Decode_regs [of v] in auto)

lemma opStrings_fit: "list_all (\<lambda>(f, args). length f \<le> 20 \<and> length args = 3) opStrings"
  "length opStrings = 64"
  by (simp_all add: opStrings_def)

lemma op_number_range: "executable_op c \<Longrightarrow> 1 \<le> op_number c \<and> op_number c \<le> 63"
  by (cases c) (simp_all add: executable_op_def)


end
