(* ===== verification/Mips_Sim.thy ===== *)
theory Mips_Sim
  imports Mips_Decode
begin

unbundle bit_operations_syntax

text \<open>
  The MIPS R2/3000 interpreter of \<^verbatim>\<open>code/machine/mipssim.cc\<close>, in the variant the build uses
  (\<^verbatim>\<open>SIM_FIX\<close>): \<^verbatim>\<open>Mult\<close>, the instruction switch of \<^verbatim>\<open>OneInstruction\<close> and the commit of its
  result. The switch is cut into definitions that follow the order of its cases; a group
  returns \<open>None\<close> for an operation it has no case for. A case leaves the switch by
  \<^verbatim>\<open>break\<close> (\<open>Break\<close>, with the locals \<^verbatim>\<open>pcAfter\<close>, \<^verbatim>\<open>nextLoadReg\<close>, \<^verbatim>\<open>nextLoadValue\<close>) or by
  \<^verbatim>\<open>return\<close> after an exception (\<open>Return\<close>). Fall-through cases (\<^verbatim>\<open>BGEZAL\<close>, \<^verbatim>\<open>BLTZAL\<close>, \<^verbatim>\<open>JAL\<close>,
  \<^verbatim>\<open>JALR\<close>) are written out. An \<^verbatim>\<open>int\<close> division \<^verbatim>\<open>INT_MIN / -1\<close> traps on the host.

  The lemmas show that \<^verbatim>\<open>Mult\<close> computes the full 64-bit product, when the signed
  instructions raise overflow, that the unaligned loads and stores move exactly the addressed
  bytes, and that every instruction keeps the machine well formed and its exceptions precise.
\<close>

section \<open>Interpreter\<close>


fun Mult_loop :: "nat \<Rightarrow> u32 \<Rightarrow> u32 \<Rightarrow> u32 \<Rightarrow> u32 \<Rightarrow> u32 \<Rightarrow> u32 \<times> u32" where
  "Mult_loop 0 a bHi bLo hi lo = (hi, lo)"
| "Mult_loop (Suc n) a bHi bLo hi lo =
     (if a AND 1 \<noteq> 0 then
        let lo = lo + bLo;
            hi = (if lo < bLo then hi + 1 else hi);
            hi = hi + bHi
        in if a AND 0xfffffffe = 0 then (hi, lo)
           else let bHi = push_bit 1 bHi;
                    bHi = (if bLo AND 0x80000000 \<noteq> 0 then bHi OR 1 else bHi)
                in Mult_loop n (signed_drop_bit 1 a) bHi (push_bit 1 bLo) hi lo
      else let bHi = push_bit 1 bHi;
               bHi = (if bLo AND 0x80000000 \<noteq> 0 then bHi OR 1 else bHi)
           in Mult_loop n (signed_drop_bit 1 a) bHi (push_bit 1 bLo) hi lo)"

definition Mult :: "u32 \<Rightarrow> u32 \<Rightarrow> bool \<Rightarrow> u32 \<times> u32" where
  "Mult a b signedArith =
     (if a = 0 \<or> b = 0 then (0, 0)
      else let negative = False;
               (negative, a) = (if signedArith \<and> a <s 0 then (\<not> negative, - a) else (negative, a));
               (negative, b) = (if signedArith \<and> b <s 0 then (\<not> negative, - b) else (negative, b));
               (hi, lo) = Mult_loop 32 a 0 b 0 0
           in if negative
              then let hi = NOT hi; lo = NOT lo; lo = lo + 1 in (if lo = 0 then hi + 1 else hi, lo)
              else (hi, lo))"

definition SIGN_BIT :: u32 where "SIGN_BIT = 0x80000000"
definition IndexToAddr :: "u32 \<Rightarrow> u32" where "IndexToAddr x = push_bit 2 x"
definition R31 :: nat where "R31 = 31"

text \<open>How a case of the switch ends.\<close>

datatype switch_exit =
    Break machine u32 nat u32
  | Return machine

definition trap :: "handler \<Rightarrow> ExceptionType \<Rightarrow> u32 \<Rightarrow> machine \<Rightarrow> switch_exit outcome" where
  "trap H which badVAddr m = bindR (RaiseException H which badVAddr m) (\<lambda>m. Inr (Return m))"

definition brk :: "machine \<Rightarrow> u32 \<Rightarrow> switch_exit outcome" where
  "brk m pcAfter = Inr (Break m pcAfter 0 0)"

definition switch_ADD_BNE :: "handler \<Rightarrow> Instruction \<Rightarrow> machine \<Rightarrow> u32 \<Rightarrow> switch_exit outcome option" where
  "switch_ADD_BNE H instr m pcAfter =
     (let rs = instr_rs instr; rt = instr_rt instr; rd = instr_rd instr; ext = extra instr;
          target = reg m NextPCReg + IndexToAddr ext in
      case opCode instr of
        OP_ADD \<Rightarrow> Some (
          let sum = reg m rs + reg m rt in
          if (reg m rs XOR reg m rt) AND SIGN_BIT = 0 \<and> (reg m rs XOR sum) AND SIGN_BIT \<noteq> 0
          then trap H OverflowException 0 m
          else brk (set_reg m rd sum) pcAfter)
      | OP_ADDI \<Rightarrow> Some (
          let sum = reg m rs + ext in
          if (reg m rs XOR ext) AND SIGN_BIT = 0 \<and> (ext XOR sum) AND SIGN_BIT \<noteq> 0
          then trap H OverflowException 0 m
          else brk (set_reg m rt sum) pcAfter)
      | OP_ADDIU \<Rightarrow> Some (brk (set_reg m rt (reg m rs + ext)) pcAfter)
      | OP_ADDU \<Rightarrow> Some (brk (set_reg m rd (reg m rs + reg m rt)) pcAfter)
      | OP_AND \<Rightarrow> Some (brk (set_reg m rd (reg m rs AND reg m rt)) pcAfter)
      | OP_ANDI \<Rightarrow> Some (brk (set_reg m rt (reg m rs AND (ext AND 0xffff))) pcAfter)
      | OP_BEQ \<Rightarrow> Some (brk m (if reg m rs = reg m rt then target else pcAfter))
      | OP_BGEZAL \<Rightarrow> Some (
          let m = set_reg m R31 (reg m NextPCReg + 4) in
          brk m (if reg m rs AND SIGN_BIT = 0 then target else pcAfter))
      | OP_BGEZ \<Rightarrow> Some (brk m (if reg m rs AND SIGN_BIT = 0 then target else pcAfter))
      | OP_BGTZ \<Rightarrow> Some (brk m (if 0 <s reg m rs then target else pcAfter))
      | OP_BLEZ \<Rightarrow> Some (brk m (if reg m rs \<le>s 0 then target else pcAfter))
      | OP_BLTZAL \<Rightarrow> Some (
          let m = set_reg m R31 (reg m NextPCReg + 4) in
          brk m (if reg m rs AND SIGN_BIT \<noteq> 0 then target else pcAfter))
      | OP_BLTZ \<Rightarrow> Some (brk m (if reg m rs AND SIGN_BIT \<noteq> 0 then target else pcAfter))
      | OP_BNE \<Rightarrow> Some (brk m (if reg m rs \<noteq> reg m rt then target else pcAfter))
      | _ \<Rightarrow> None)"

definition switch_DIV_LW :: "handler \<Rightarrow> Instruction \<Rightarrow> machine \<Rightarrow> u32 \<Rightarrow> switch_exit outcome option" where
  "switch_DIV_LW H instr m pcAfter =
     (let rs = instr_rs instr; rt = instr_rt instr; rd = instr_rd instr; ext = extra instr;
          tmp = reg m rs + ext in
      case opCode instr of
        OP_DIV \<Rightarrow> Some (
          if reg m rt = 0 then brk (set_reg (set_reg m LoReg 0) HiReg 0) pcAfter
          else if reg m rs = SIGN_BIT \<and> reg m rt = - 1 then Inl HostTrap
          else let m = set_reg m LoReg (word_of_int (sint (reg m rs) sdiv sint (reg m rt)));
                   m = set_reg m HiReg (word_of_int (sint (reg m rs) smod sint (reg m rt)))
               in brk m pcAfter)
      | OP_DIVU \<Rightarrow> Some (
          let urs = reg m rs; urt = reg m rt in
          if urt = 0 then brk (set_reg (set_reg m LoReg 0) HiReg 0) pcAfter
          else brk (set_reg (set_reg m LoReg (urs div urt)) HiReg (urs mod urt)) pcAfter)
      | OP_JAL \<Rightarrow> Some (brk (set_reg m R31 (reg m NextPCReg + 4)) ((pcAfter AND 0xf0000000) OR IndexToAddr ext))
      | OP_J \<Rightarrow> Some (brk m ((pcAfter AND 0xf0000000) OR IndexToAddr ext))
      | OP_JALR \<Rightarrow> Some (let m = set_reg m rd (reg m NextPCReg + 4) in brk m (reg m rs))
      | OP_JR \<Rightarrow> Some (brk m (reg m rs))
      | OP_LB \<Rightarrow> Some (bindR (ReadMem H m tmp 1) (\<lambda>(m, r). case r of None \<Rightarrow> Inr (Return m)
          | Some value \<Rightarrow>
              Inr (Break m pcAfter rt (if value AND 0x80 \<noteq> 0 then value OR 0xffffff00 else value AND 0xff))))
      | OP_LBU \<Rightarrow> Some (bindR (ReadMem H m tmp 1) (\<lambda>(m, r). case r of None \<Rightarrow> Inr (Return m)
          | Some value \<Rightarrow> Inr (Break m pcAfter rt (value AND 0xff))))
      | OP_LH \<Rightarrow> Some (
          if tmp AND 1 \<noteq> 0 then trap H AddressErrorException tmp m
          else bindR (ReadMem H m tmp 2) (\<lambda>(m, r). case r of None \<Rightarrow> Inr (Return m)
          | Some value \<Rightarrow>
              Inr (Break m pcAfter rt (if value AND 0x8000 \<noteq> 0 then value OR 0xffff0000 else value AND 0xffff))))
      | OP_LHU \<Rightarrow> Some (
          if tmp AND 1 \<noteq> 0 then trap H AddressErrorException tmp m
          else bindR (ReadMem H m tmp 2) (\<lambda>(m, r). case r of None \<Rightarrow> Inr (Return m)
          | Some value \<Rightarrow> Inr (Break m pcAfter rt (value AND 0xffff))))
      | OP_LUI \<Rightarrow> Some (brk (set_reg m rt (push_bit 16 ext)) pcAfter)
      | OP_LW \<Rightarrow> Some (
          if tmp AND 3 \<noteq> 0 then trap H AddressErrorException tmp m
          else bindR (ReadMem H m tmp 4) (\<lambda>(m, r). case r of None \<Rightarrow> Inr (Return m)
          | Some value \<Rightarrow> Inr (Break m pcAfter rt value)))
      | _ \<Rightarrow> None)"

definition LWL_merge :: "u32 \<Rightarrow> u32 \<Rightarrow> u32 \<Rightarrow> u32" where
  "LWL_merge byte nextLoadValue value =
     (if 3 - byte = 0 then value
      else if 3 - byte = 1 then (nextLoadValue AND 0xff) OR push_bit 8 value
      else if 3 - byte = 2 then (nextLoadValue AND 0xffff) OR push_bit 16 value
      else if 3 - byte = 3 then (nextLoadValue AND 0xffffff) OR push_bit 24 value
      else nextLoadValue)"

definition LWR_merge :: "u32 \<Rightarrow> u32 \<Rightarrow> u32 \<Rightarrow> u32" where
  "LWR_merge byte nextLoadValue value =
     (if 3 - byte = 0 then (nextLoadValue AND 0xffffff00) OR (signed_drop_bit 24 value AND 0xff)
      else if 3 - byte = 1 then (nextLoadValue AND 0xffff0000) OR (signed_drop_bit 16 value AND 0xffff)
      else if 3 - byte = 2 then (nextLoadValue AND 0xff000000) OR (signed_drop_bit 8 value AND 0xffffff)
      else if 3 - byte = 3 then value
      else nextLoadValue)"

definition SWL_merge :: "u32 \<Rightarrow> u32 \<Rightarrow> u32 \<Rightarrow> u32" where
  "SWL_merge byte value r =
     (if 3 - byte = 0 then r
      else if 3 - byte = 1 then (value AND 0xff000000) OR (signed_drop_bit 8 r AND 0xffffff)
      else if 3 - byte = 2 then (value AND 0xffff0000) OR (signed_drop_bit 16 r AND 0xffff)
      else if 3 - byte = 3 then (value AND 0xffffff00) OR (signed_drop_bit 24 r AND 0xff)
      else value)"

definition SWR_merge :: "u32 \<Rightarrow> u32 \<Rightarrow> u32 \<Rightarrow> u32" where
  "SWR_merge byte value r =
     (if 3 - byte = 0 then (value AND 0xffffff) OR push_bit 24 r
      else if 3 - byte = 1 then (value AND 0xffff) OR push_bit 16 r
      else if 3 - byte = 2 then (value AND 0xff) OR push_bit 8 r
      else if 3 - byte = 3 then r
      else value)"

definition pending_or_reg :: "machine \<Rightarrow> nat \<Rightarrow> u32" where
  "pending_or_reg m rt = (if reg m LoadReg = of_nat rt then reg m LoadValueReg else reg m rt)"

definition exec_LWL :: "handler \<Rightarrow> Instruction \<Rightarrow> machine \<Rightarrow> u32 \<Rightarrow> switch_exit outcome" where
  "exec_LWL H instr m pcAfter =
     (let tmp = reg m (instr_rs instr) + extra instr; byte = tmp AND 3 in
      bindR (ReadMem H m (tmp - byte) 4) (\<lambda>(m, r). case r of None \<Rightarrow> Inr (Return m)
      | Some value \<Rightarrow>
          Inr (Break m pcAfter (instr_rt instr) (LWL_merge byte (pending_or_reg m (instr_rt instr)) value))))"

definition exec_LWR :: "handler \<Rightarrow> Instruction \<Rightarrow> machine \<Rightarrow> u32 \<Rightarrow> switch_exit outcome" where
  "exec_LWR H instr m pcAfter =
     (let tmp = reg m (instr_rs instr) + extra instr; byte = tmp AND 3 in
      bindR (ReadMem H m (tmp - byte) 4) (\<lambda>(m, r). case r of None \<Rightarrow> Inr (Return m)
      | Some value \<Rightarrow>
          Inr (Break m pcAfter (instr_rt instr) (LWR_merge byte (pending_or_reg m (instr_rt instr)) value))))"

definition exec_SWL :: "handler \<Rightarrow> Instruction \<Rightarrow> machine \<Rightarrow> u32 \<Rightarrow> switch_exit outcome" where
  "exec_SWL H instr m pcAfter =
     (let tmp = reg m (instr_rs instr) + extra instr; byte = tmp AND 3 in
      bindR (ReadMem H m (tmp - byte) 4) (\<lambda>(m, r). case r of None \<Rightarrow> Inr (Return m)
      | Some value \<Rightarrow>
          bindR (WriteMem H m (tmp - byte) 4 (SWL_merge byte value (reg m (instr_rt instr)))) (\<lambda>(m, ok).
          if \<not> ok then Inr (Return m) else brk m pcAfter)))"

definition exec_SWR :: "handler \<Rightarrow> Instruction \<Rightarrow> machine \<Rightarrow> u32 \<Rightarrow> switch_exit outcome" where
  "exec_SWR H instr m pcAfter =
     (let tmp = reg m (instr_rs instr) + extra instr; byte = tmp AND 3 in
      bindR (ReadMem H m (tmp - byte) 4) (\<lambda>(m, r). case r of None \<Rightarrow> Inr (Return m)
      | Some value \<Rightarrow>
          bindR (WriteMem H m (tmp - byte) 4 (SWR_merge byte value (reg m (instr_rt instr)))) (\<lambda>(m, ok).
          if \<not> ok then Inr (Return m) else brk m pcAfter)))"

definition store :: "handler \<Rightarrow> machine \<Rightarrow> u32 \<Rightarrow> nat \<Rightarrow> u32 \<Rightarrow> u32 \<Rightarrow> switch_exit outcome" where
  "store H m addr sz v pcAfter =
     bindR (WriteMem H m addr sz v) (\<lambda>(m, ok). if \<not> ok then Inr (Return m) else brk m pcAfter)"

definition switch_MFHI_SW :: "handler \<Rightarrow> Instruction \<Rightarrow> machine \<Rightarrow> u32 \<Rightarrow> switch_exit outcome option" where
  "switch_MFHI_SW H instr m pcAfter =
     (let rs = instr_rs instr; rt = instr_rt instr; rd = instr_rd instr; ext = extra instr in
      case opCode instr of
        OP_MFHI \<Rightarrow> Some (brk (set_reg m rd (reg m HiReg)) pcAfter)
      | OP_MFLO \<Rightarrow> Some (brk (set_reg m rd (reg m LoReg)) pcAfter)
      | OP_MTHI \<Rightarrow> Some (brk (set_reg m HiReg (reg m rs)) pcAfter)
      | OP_MTLO \<Rightarrow> Some (brk (set_reg m LoReg (reg m rs)) pcAfter)
      | OP_MULT \<Rightarrow> Some (
          let (hi, lo) = Mult (reg m rs) (reg m rt) True in brk (set_reg (set_reg m HiReg hi) LoReg lo) pcAfter)
      | OP_MULTU \<Rightarrow> Some (
          let (hi, lo) = Mult (reg m rs) (reg m rt) False in brk (set_reg (set_reg m HiReg hi) LoReg lo) pcAfter)
      | OP_NOR \<Rightarrow> Some (brk (set_reg m rd (NOT (reg m rs OR reg m rt))) pcAfter)
      | OP_OR \<Rightarrow> Some (brk (set_reg m rd (reg m rs OR reg m rt)) pcAfter)
      | OP_ORI \<Rightarrow> Some (brk (set_reg m rt (reg m rs OR (ext AND 0xffff))) pcAfter)
      | OP_SB \<Rightarrow> Some (store H m (reg m rs + ext) 1 (reg m rt) pcAfter)
      | OP_SH \<Rightarrow> Some (store H m (reg m rs + ext) 2 (reg m rt) pcAfter)
      | OP_SLL \<Rightarrow> Some (brk (set_reg m rd (push_bit (unat ext) (reg m rt))) pcAfter)
      | OP_SLLV \<Rightarrow> Some (brk (set_reg m rd (push_bit (unat (reg m rs AND 0x1f)) (reg m rt))) pcAfter)
      | OP_SLT \<Rightarrow> Some (brk (set_reg m rd (if reg m rs <s reg m rt then 1 else 0)) pcAfter)
      | OP_SLTI \<Rightarrow> Some (brk (set_reg m rt (if reg m rs <s ext then 1 else 0)) pcAfter)
      | OP_SLTIU \<Rightarrow> Some (brk (set_reg m rt (if reg m rs < ext then 1 else 0)) pcAfter)
      | OP_SLTU \<Rightarrow> Some (brk (set_reg m rd (if reg m rs < reg m rt then 1 else 0)) pcAfter)
      | OP_SRA \<Rightarrow> Some (brk (set_reg m rd (signed_drop_bit (unat ext) (reg m rt))) pcAfter)
      | OP_SRAV \<Rightarrow> Some (brk (set_reg m rd (signed_drop_bit (unat (reg m rs AND 0x1f)) (reg m rt))) pcAfter)
      | OP_SRL \<Rightarrow> Some (
          let tmp = reg m rt; tmp = signed_drop_bit (unat ext) tmp in brk (set_reg m rd tmp) pcAfter)
      | OP_SRLV \<Rightarrow> Some (
          let tmp = reg m rt; tmp = signed_drop_bit (unat (reg m rs AND 0x1f)) tmp in brk (set_reg m rd tmp) pcAfter)
      | OP_SUB \<Rightarrow> Some (
          let diff = reg m rs - reg m rt in
          if (reg m rs XOR reg m rt) AND SIGN_BIT \<noteq> 0 \<and> (reg m rs XOR diff) AND SIGN_BIT \<noteq> 0
          then trap H OverflowException 0 m
          else brk (set_reg m rd diff) pcAfter)
      | OP_SUBU \<Rightarrow> Some (brk (set_reg m rd (reg m rs - reg m rt)) pcAfter)
      | OP_SW \<Rightarrow> Some (store H m (reg m rs + ext) 4 (reg m rt) pcAfter)
      | _ \<Rightarrow> None)"

definition switch_SYSCALL_default :: "handler \<Rightarrow> Instruction \<Rightarrow> machine \<Rightarrow> u32 \<Rightarrow> switch_exit outcome" where
  "switch_SYSCALL_default H instr m pcAfter =
     (let rs = instr_rs instr; rt = instr_rt instr; rd = instr_rd instr in
      case opCode instr of
        OP_SYSCALL \<Rightarrow> trap H SyscallException 0 m
      | OP_XOR \<Rightarrow> brk (set_reg m rd (reg m rs XOR reg m rt)) pcAfter
      | OP_XORI \<Rightarrow> brk (set_reg m rt (reg m rs XOR (extra instr AND 0xffff))) pcAfter
      | OP_RES \<Rightarrow> trap H IllegalInstrException 0 m
      | OP_UNIMP \<Rightarrow> trap H IllegalInstrException 0 m
      | _ \<Rightarrow> Inl AssertFailed)"

definition execute :: "handler \<Rightarrow> Instruction \<Rightarrow> machine \<Rightarrow> u32 \<Rightarrow> switch_exit outcome" where
  "execute H instr m pcAfter =
     (case switch_ADD_BNE H instr m pcAfter of Some r \<Rightarrow> r
      | None \<Rightarrow> (case switch_DIV_LW H instr m pcAfter of Some r \<Rightarrow> r
      | None \<Rightarrow> if opCode instr = OP_LWL then exec_LWL H instr m pcAfter
      else if opCode instr = OP_LWR then exec_LWR H instr m pcAfter
      else (case switch_MFHI_SW H instr m pcAfter of Some r \<Rightarrow> r
      | None \<Rightarrow> if opCode instr = OP_SWL then exec_SWL H instr m pcAfter
      else if opCode instr = OP_SWR then exec_SWR H instr m pcAfter
      else switch_SYSCALL_default H instr m pcAfter)))"

definition OneInstruction :: "handler \<Rightarrow> machine \<Rightarrow> machine outcome" where
  "OneInstruction H m =
     bindR (ReadMem H m (reg m PCReg) 4) (\<lambda>(m, r).
     case r of
       None \<Rightarrow> Inr m
     | Some raw \<Rightarrow>
         let instr = Decode raw; pcAfter = reg m NextPCReg + 4 in
         bindR (execute H instr m pcAfter) (\<lambda>exit.
         case exit of
           Return m \<Rightarrow> Inr m
         | Break m pcAfter nextLoadReg nextLoadValue \<Rightarrow>
             bindR (DelayedLoad m nextLoadReg nextLoadValue) (\<lambda>m.
             let m = set_reg m PrevPCReg (reg m PCReg);
                 m = set_reg m PCReg (reg m NextPCReg)
             in Inr (set_reg m NextPCReg pcAfter))))"

section \<open>Specification\<close>

text \<open>
  \<open>machine_ok\<close> is the invariant of the simulated CPU between instructions; \<open>machine_shape\<close> is
  the part that holds inside one. \<open>handler_ok\<close> is the contract of the kernel's exception
  handler. \<open>completed\<close> and \<open>restart_state\<close> are the two ways an instruction can end.
\<close>

definition machine_shape :: "machine \<Rightarrow> bool" where
  "machine_shape m \<longleftrightarrow> length (registers m) = NumTotalRegs \<and> length (mainMemory m) = MemorySize \<and>
     translation_ok m \<and> unat (reg m LoadReg) < NumGPRegs"

definition machine_ok :: "machine \<Rightarrow> bool" where
  "machine_ok m \<longleftrightarrow> machine_shape m \<and> reg m 0 = 0"

definition handler_ok :: "handler \<Rightarrow> bool" where
  "handler_ok H \<longleftrightarrow> (\<forall>e m. machine_ok m \<longrightarrow> returns machine_ok (H e m))"

definition same_cpu :: "machine \<Rightarrow> machine \<Rightarrow> bool" where
  "same_cpu m m' \<longleftrightarrow> machine_shape m' \<and> registers m' = registers m \<and> mainMemory m' = mainMemory m"

definition trapped :: "handler \<Rightarrow> machine \<Rightarrow> machine \<Rightarrow> bool" where
  "trapped H m m1 \<longleftrightarrow> machine_ok m1 \<and> (\<exists>e v m2. same_cpu m m2 \<and> RaiseException H e v m2 = Inr m1)"

definition exit_ok :: "handler \<Rightarrow> machine \<Rightarrow> switch_exit \<Rightarrow> bool" where
  "exit_ok H m exit = (case exit of
       Return m1 \<Rightarrow> trapped H m m1
     | Break m1 pc n v \<Rightarrow> machine_shape m1 \<and> n < 32 \<and> (\<forall>r \<in> {PCReg, NextPCReg, LoadReg, LoadValueReg}. reg m1 r = reg m r))"

definition read_ok :: "handler \<Rightarrow> machine \<Rightarrow> machine \<times> u32 option \<Rightarrow> bool" where
  "read_ok H m = (\<lambda>(m', r). case r of
       None \<Rightarrow> trapped H m m'
     | Some _ \<Rightarrow> same_cpu m m')"

definition write_ok :: "handler \<Rightarrow> machine \<Rightarrow> machine \<times> bool \<Rightarrow> bool" where
  "write_ok H m = (\<lambda>(m', ok). if ok then machine_shape m' \<and> registers m' = registers m
       else trapped H m m')"

definition fields_ok :: "Instruction \<Rightarrow> bool" where
  "fields_ok i \<longleftrightarrow> instr_rs i < 32 \<and> instr_rt i < 32 \<and> instr_rd i < 32"

definition div_traps :: "Instruction \<Rightarrow> machine \<Rightarrow> bool" where
  "div_traps i m \<longleftrightarrow> opCode i = OP_DIV \<and> reg m (instr_rs i) = SIGN_BIT \<and> reg m (instr_rt i) = - 1"

definition fetch :: "machine \<Rightarrow> Instruction option" where
  "fetch m = (case Translate m (reg m PCReg) 4 False of
      Inr (m', Inr pa) \<Rightarrow> Some (Decode (bytes_at (mainMemory m) pa 4)) | _ \<Rightarrow> None)"

definition completed :: "machine \<Rightarrow> machine \<Rightarrow> bool" where
  "completed m m' \<longleftrightarrow> reg m' PCReg = reg m NextPCReg \<and> reg m' PrevPCReg = reg m PCReg"

definition step_ok :: "handler \<Rightarrow> machine \<Rightarrow> machine \<Rightarrow> bool" where
  "step_ok H m m' \<longleftrightarrow> machine_ok m' \<and> (completed m m' \<or> trapped H m m')"

definition restart_state :: "machine \<Rightarrow> machine \<Rightarrow> bool" where
  "restart_state m m' \<longleftrightarrow> mainMemory m' = mainMemory m \<and> reg m' PCReg = reg m PCReg \<and>
     reg m' NextPCReg = reg m NextPCReg \<and>
     (\<forall>r < NumGPRegs. reg m' r = (if r = 0 then 0 else if r = unat (reg m LoadReg) then reg m LoadValueReg else reg m r))"

definition exact_result :: "Instruction \<Rightarrow> machine \<Rightarrow> int" where
  "exact_result i m =
     (if opCode i = OP_ADD then sint (reg m (instr_rs i)) + sint (reg m (instr_rt i))
      else if opCode i = OP_ADDI then sint (reg m (instr_rs i)) + sint (extra i)
      else sint (reg m (instr_rs i)) - sint (reg m (instr_rt i)))"

definition fits_int :: "int \<Rightarrow> bool" where "fits_int k \<longleftrightarrow> - (2 ^ 31) \<le> k \<and> k < 2 ^ 31"

definition word_at :: "(u32 \<Rightarrow> u8) \<Rightarrow> u32 \<Rightarrow> u32" where
  "word_at mem a = le32 (mem a) (mem (a + 1)) (mem (a + 2)) (mem (a + 3))"

definition mem_update :: "(u32 \<Rightarrow> u8) \<Rightarrow> u32 \<Rightarrow> u32 \<Rightarrow> u32 \<Rightarrow> u8" where
  "mem_update mem a w = mem(a := byte_of 0 w, a + 1 := byte_of 1 w, a + 2 := byte_of 2 w, a + 3 := byte_of 3 w)"

definition demo_add :: Instruction where
  "demo_add = \<lparr>instr_value = 0, opCode = OP_ADD, instr_rs = 1, instr_rt = 2, instr_rd = 3, extra = 0\<rparr>"

section \<open>Multiplication\<close>

abbreviation dbl :: "u32 \<Rightarrow> u32 \<Rightarrow> 64 word" where "dbl hi lo \<equiv> word_cat hi lo"

lemma bit_u32 [simp]: "32 \<le> n \<Longrightarrow> \<not> bit (w::u32) n"
  using bit_imp_le_length [of w n] by auto

lemma dbl_eq: "dbl hi lo = ucast hi * 4294967296 + ucast lo"
proof -
  have "dbl hi lo = push_bit 32 (ucast hi) OR ucast lo"
    by (rule bit_word_eqI) (auto simp: bit_word_cat_iff bit_simps not_less)
  also have "\<dots> = push_bit 32 (ucast hi) + ucast lo"
    by (rule disjunctive_add [symmetric]) (auto simp: bit_simps dest: bit_imp_le_length)
  finally show ?thesis by (simp add: push_bit_eq_mult)
qed

lemma ucast_carry: "(ucast (x + y) :: 64 word) = ucast x + ucast y - (if x + y < y then 4294967296 else 0)"
  for x y :: u32
proof -
  have "uint (x + y) = uint x + uint y - (if x + y < y then 4294967296 else 0)"
    using uint_plus_if' [of x y] uint_lt2p [of x] uint_lt2p [of y] uint_ge_0 [of x]
    by (auto simp: word_less_def split: if_splits)
  then have "(of_int (uint (x + y)) :: 64 word) = of_int (uint x + uint y - (if x + y < y then 4294967296 else 0))"
    by (simp only:)
  then show ?thesis by (simp split: if_splits)
qed

lemma two_to_64: "(18446744073709551616 :: 64 word) = 0"
proof -
  have "(18446744073709551616 :: 64 word) = 2 ^ LENGTH(64)" by simp
  then show ?thesis by (simp only: word_exp_length_eq_0)
qed

lemma ucast_hi_add: "(ucast (x + y) :: 64 word) * 4294967296 = ucast x * 4294967296 + ucast y * 4294967296"
  for x y :: u32
  by (simp add: ucast_carry algebra_simps two_to_64)

lemma dbl_add:
  "dbl ((if lo + bLo < bLo then hi + 1 else hi) + bHi) (lo + bLo) = dbl hi lo + dbl bHi bLo"
  by (simp add: dbl_eq ucast_hi_add ucast_carry [of lo bLo])

lemma top_bit: "(w::u32) AND 0x80000000 = 0 \<longleftrightarrow> \<not> bit w 31"
proof -
  have "(0x80000000::u32) = push_bit 31 1" by (simp add: push_bit_eq_mult)
  then show ?thesis by (simp only: bit_iff_and_push_bit_not_eq_0 not_not)
qed

lemma bit_31_iff: "bit (w::u32) 31 \<longleftrightarrow> 2 ^ 31 \<le> uint w"
proof -
  have lt: "uint w < 2 ^ 32" using uint_lt2p [of w] by simp
  have b: "bit w 31 \<longleftrightarrow> odd (uint w div 2 ^ 31)" using bit_uint_iff [of w 31] by (simp add: bit_iff_odd)
  show ?thesis
  proof (cases "2 ^ 31 \<le> uint w")
    case True
    have "uint w div 2 ^ 31 = 1"
      by (rule int_div_pos_eq [of _ _ _ "uint w - 2 ^ 31"]) (use True lt in simp_all)
    with b True show ?thesis by simp
  next
    case False
    then have "uint w div 2 ^ 31 = 0" by (simp add: div_pos_pos_trivial)
    with b False show ?thesis by simp
  qed
qed

lemma double_carry: "(w::u32) + w < w \<longleftrightarrow> bit w 31"
  unfolding bit_31_iff word_less_def
  using uint_plus_if' [of w w] uint_lt2p [of w] uint_ge_0 [of w] by (auto split: if_splits)

lemma dbl_shift:
  "dbl (if bLo AND 0x80000000 \<noteq> 0 then push_bit 1 bHi OR 1 else push_bit 1 bHi) (push_bit 1 bLo) =
   dbl bHi bLo + dbl bHi bLo"
proof -
  have d: "push_bit 1 w = w + w" for w :: u32 by (simp add: push_bit_eq_mult)
  have "push_bit 1 bHi OR 1 = bHi + 1 + bHi" by (simp add: or_one_eq d)
  then show ?thesis
    using dbl_add [of bLo bLo bHi bHi] unfolding d double_carry top_bit by (simp only: if_distrib [of "\<lambda>x. x + bHi"] not_not cong: if_cong)
qed

lemma dbl_neg:
  "dbl (if NOT lo + 1 = 0 then NOT hi + 1 else NOT hi) (NOT lo + 1) = - dbl hi lo"
proof -
  have "NOT (dbl hi lo) = dbl (NOT hi) (NOT lo)"
    by (rule bit_word_eqI) (auto simp: bit_word_cat_iff bit_simps)
  then have "- dbl hi lo = dbl (NOT hi) (NOT lo) + dbl 0 1"
    by (simp add: minus_eq_not_plus_1 dbl_eq [of 0 1])
  also have "\<dots> = dbl ((if NOT lo + 1 < 1 then NOT hi + 1 else NOT hi) + 0) (NOT lo + 1)"
    by (rule dbl_add [symmetric])
  finally show ?thesis by simp
qed

lemma take_bit_sdrop:
  assumes "n < 32"
  shows "take_bit n (signed_drop_bit 1 (a::u32)) = take_bit n (drop_bit 1 a)"
  by (rule bit_word_eqI) (use assms in \<open>auto simp: bit_simps bit_signed_drop_bit_iff simp del: One_nat_def\<close>)

lemma even_uint [simp]: "even (uint (a::u32)) \<longleftrightarrow> even a"
  using bit_uint_iff [of a 0] by (simp add: bit_0)

lemma ucast_take_bit_Suc:
  assumes "n < 32"
  shows "(ucast (take_bit (Suc n) (a::u32)) :: 64 word) =
    2 * ucast (take_bit n (signed_drop_bit 1 a)) + of_bool (odd a)"
proof -
  have "uint (take_bit (Suc n) a) = 2 * uint (take_bit n (drop_bit 1 a)) + of_bool (odd a)"
  proof -
    have "uint (take_bit (Suc n) a) = take_bit (Suc n) (uint a)" by (rule unsigned_take_bit_eq)
    also have "\<dots> = 2 * take_bit n (uint a div 2) + of_bool (odd a)"
      by (simp add: take_bit_Suc mod_2_eq_odd)
    also have "take_bit n (uint a div 2) = uint (take_bit n (drop_bit 1 a))"
      by (simp add: unsigned_take_bit_eq drop_bit_eq_div uint_div)
    finally show ?thesis .
  qed
  then have "(of_int (uint (take_bit (Suc n) a)) :: 64 word) = of_int (2 * uint (take_bit n (drop_bit 1 a)) + of_bool (odd a))"
    by (simp only:)
  then show ?thesis unfolding take_bit_sdrop [OF assms] by (simp only: of_int_add of_int_mult of_int_of_bool of_int_uint of_int_numeral)
qed

lemma and_1_odd: "(a::u32) AND 1 = of_bool (odd a)"
  by (simp add: and_one_eq mod_2_eq_odd)

lemma only_bit_0: "odd (a::u32) \<Longrightarrow> a AND 0xfffffffe = 0 \<Longrightarrow> a = 1"
proof -
  assume a: "odd a" "a AND 0xfffffffe = 0"
  have "a = (a AND 1) OR (a AND NOT 1)" by (rule bit_word_eqI) (auto simp: bit_simps)
  also have "NOT (1::u32) = 0xfffffffe" by simp
  finally have "a = (a AND 1) OR (a AND 0xfffffffe)" .
  with a show "a = 1" by (simp add: and_1_odd)
qed

lemma Mult_loop_correct:
  "n \<le> 32 \<Longrightarrow> Mult_loop n a bHi bLo hi lo = (h, l) \<Longrightarrow>
   dbl h l = dbl hi lo + ucast (take_bit n a) * dbl bHi bLo"
proof (induction n arbitrary: a bHi bLo hi lo)
  case (Suc n)
  let ?bHi = "if bLo AND 0x80000000 \<noteq> 0 then push_bit 1 bHi OR 1 else push_bit 1 bHi"
  have n: "n < 32" using Suc.prems(1) by simp
  note split = ucast_take_bit_Suc [OF n, of a]
  show ?case
  proof (cases "odd a")
    case False
    then have "Mult_loop n (signed_drop_bit 1 a) ?bHi (push_bit 1 bLo) hi lo = (h, l)"
      using Suc.prems(2) by (simp only: Mult_loop.simps Let_def and_1_odd of_bool_eq if_False simp_thms)
    from Suc.IH [OF _ this] n show ?thesis
      unfolding dbl_shift split using False by (simp add: algebra_simps)
  next
    case True
    let ?hi = "(if lo + bLo < bLo then hi + 1 else hi) + bHi"
    note add = dbl_add [of lo bLo hi bHi]
    show ?thesis
    proof (cases "a AND 0xfffffffe = 0")
      case one: True
      then have "a = 1" using True by (rule only_bit_0 [rotated])
      then have "dbl h l = dbl ?hi (lo + bLo)"
        using Suc.prems(2) one True
        by (simp only: Mult_loop.simps Let_def and_1_odd of_bool_eq if_True simp_thms one_neq_zero prod.inject) auto
      with \<open>a = 1\<close> show ?thesis unfolding add by simp
    next
      case more: False
      then have "Mult_loop n (signed_drop_bit 1 a) ?bHi (push_bit 1 bLo) ?hi (lo + bLo) = (h, l)"
        using Suc.prems(2) True by (simp only: Mult_loop.simps Let_def and_1_odd of_bool_eq if_True if_False simp_thms one_neq_zero)
      from Suc.IH [OF _ this] n show ?thesis
        unfolding dbl_shift split add using True by (simp add: algebra_simps)
    qed
  qed
qed simp

lemma Mult_loop_32:
  assumes "Mult_loop 32 a 0 b 0 0 = (h, l)"
  shows "dbl h l = ucast a * ucast b"
  using Mult_loop_correct [OF _ assms] take_bit_length_eq [of a] by (simp add: dbl_eq [of 0])

lemma ucast_abs: "(ucast (if a <s 0 then - a else a) :: 64 word) = of_int \<bar>sint (a::u32)\<bar>"
proof -
  have "(if a <s 0 then - a else a) = word_of_int \<bar>sint a\<bar>" by (simp add: word_sless_alt abs_if)
  moreover have "uint (word_of_int \<bar>sint a\<bar> :: u32) = \<bar>sint a\<bar>"
    using sint_ge [of a] sint_lt [of a] by (simp add: uint_word_of_int)
  ultimately have "uint (if a <s 0 then - a else a) = \<bar>sint a\<bar>" by simp
  then show ?thesis by (metis of_int_uint)
qed

text \<open>
  C13: \<^verbatim>\<open>Mult\<close>, a shift-and-add loop with an early exit, returns the exact 64-bit product in the
  pair (hi, lo) for all operands, read as signed or as unsigned numbers. That the loop shifts
  the multiplier arithmetically does no harm, because 32 iterations see each bit once.
\<close>

theorem Mult_correct:
  "(case Mult a b signedArith of (hi, lo) \<Rightarrow> word_cat hi lo) =
   (of_int (if signedArith then sint a * sint b else uint a * uint b) :: 64 word)"
proof -
  let ?a = "if signedArith \<and> a <s 0 then - a else a"
  let ?b = "if signedArith \<and> b <s 0 then - b else b"
  let ?neg = "signedArith \<and> (a <s 0 \<longleftrightarrow> \<not> b <s 0)"
  obtain h l where hl: "Mult_loop 32 ?a 0 ?b 0 0 = (h, l)" by (metis surj_pair)
  have p: "dbl h l = ucast ?a * ucast ?b" by (rule Mult_loop_32 [OF hl])
  show ?thesis
  proof (cases "a = 0 \<or> b = 0")
    case True
    then show ?thesis by (auto simp: Mult_def dbl_eq)
  next
    case False
    have "(case Mult a b signedArith of (hi, lo) \<Rightarrow> dbl hi lo) = (if ?neg then - dbl h l else dbl h l)"
      using False hl dbl_neg [of l h] by (auto simp: Mult_def Let_def)
    also have "\<dots> = of_int (if signedArith then sint a * sint b else uint a * uint b)"
    proof (cases signedArith)
      case True
      then have "dbl h l = of_int \<bar>sint a\<bar> * of_int \<bar>sint b\<bar>"
        using p ucast_abs [of a] ucast_abs [of b] by simp
      moreover have "a <s 0 \<longleftrightarrow> sint a < 0" "b <s 0 \<longleftrightarrow> sint b < 0" by (simp_all add: word_sless_alt)
      ultimately show ?thesis using True by (auto simp: abs_if simp flip: of_int_mult)
    qed (use p in simp)
    finally show ?thesis .
  qed
qed

section \<open>Signed overflow\<close>

lemma sign_bit_iff: "(w::u32) AND SIGN_BIT = 0 \<longleftrightarrow> 0 \<le> sint w"
proof -
  have "bit w 31 \<longleftrightarrow> sint w < 0" using bit_last_iff [of w] by simp
  then show ?thesis unfolding SIGN_BIT_def top_bit by (simp add: not_less)
qed

lemma sign_xor: "((a::u32) XOR b) AND SIGN_BIT = 0 \<longleftrightarrow> (0 \<le> sint a \<longleftrightarrow> 0 \<le> sint b)"
proof -
  have b: "bit w 31 \<longleftrightarrow> sint w < 0" for w :: u32 using bit_last_iff [of w] by simp
  show ?thesis unfolding SIGN_BIT_def top_bit bit_xor_iff using b [of a] b [of b] by auto
qed

lemma wrap32:
  fixes k :: int
  assumes "- (2 ^ 32) \<le> k" and "k < 2 ^ 32"
  shows "sint (word_of_int k :: u32) =
    (if k < - (2 ^ 31) then k + 2 ^ 32 else if k < 2 ^ 31 then k else k - 2 ^ 32)"
proof -
  have e: "sint (word_of_int k :: u32) = (k + 2 ^ 31) mod 2 ^ 32 - 2 ^ 31"
    by (simp add: sint_sbintrunc' signed_take_bit_eq_take_bit_shift take_bit_eq_mod)
  have "(k + 2 ^ 31) mod 2 ^ 32 =
      (if k < - (2 ^ 31) then k + 2 ^ 31 + 2 ^ 32 else if k < 2 ^ 31 then k + 2 ^ 31 else k + 2 ^ 31 - 2 ^ 32)"
  proof -
    consider "k < - (2 ^ 31)" | "- (2 ^ 31) \<le> k" "k < 2 ^ 31" | "2 ^ 31 \<le> k" by linarith
    then show ?thesis
    proof cases
      case 1
      then have "(k + 2 ^ 31) mod 2 ^ 32 = (k + 2 ^ 31 + 2 ^ 32) mod 2 ^ 32" by (simp only: mod_add_self2)
      also have "\<dots> = k + 2 ^ 31 + 2 ^ 32" using 1 assms by (intro mod_pos_pos_trivial) simp_all
      finally show ?thesis using 1 by simp
    next
      case 2
      then show ?thesis by (simp add: mod_pos_pos_trivial)
    next
      case 3
      have "(k + 2 ^ 31) mod 2 ^ 32 = (k + 2 ^ 31 - 2 ^ 32) mod 2 ^ 32" by (rule minus_mod_self2 [symmetric])
      also have "\<dots> = k + 2 ^ 31 - 2 ^ 32" using 3 assms by (intro mod_pos_pos_trivial) simp_all
      finally show ?thesis using 3 by simp
    qed
  qed
  with e show ?thesis by simp
qed

lemma sint_bounds: "- (2 ^ 31) \<le> sint (a::u32)" "sint a < 2 ^ 31"
  using sint_ge [of a] sint_lt [of a] by simp_all

lemma add_overflow:
  "(a XOR b) AND SIGN_BIT = 0 \<and> (a XOR (a + b)) AND SIGN_BIT \<noteq> 0 \<longleftrightarrow> \<not> fits_int (sint a + sint b)"
  "fits_int (sint a + sint b) \<Longrightarrow> sint (a + b) = sint a + sint (b::u32)"
proof -
  have "sint (a + b) = sint (word_of_int (sint a + sint b) :: u32)" by simp
  also have "\<dots> = (if sint a + sint b < - (2 ^ 31) then sint a + sint b + 2 ^ 32
     else if sint a + sint b < 2 ^ 31 then sint a + sint b else sint a + sint b - 2 ^ 32)"
    by (rule wrap32) (use sint_bounds [of a] sint_bounds [of b] in simp_all)
  finally have e: "sint (a + b) = \<dots>" .
  show "(a XOR b) AND SIGN_BIT = 0 \<and> (a XOR (a + b)) AND SIGN_BIT \<noteq> 0 \<longleftrightarrow> \<not> fits_int (sint a + sint b)"
    unfolding sign_xor e fits_int_def using sint_bounds [of a] sint_bounds [of b] by (auto split: if_splits)
  show "fits_int (sint a + sint b) \<Longrightarrow> sint (a + b) = sint a + sint (b::u32)"
    unfolding e fits_int_def by auto
qed

lemma sub_overflow:
  "(a XOR b) AND SIGN_BIT \<noteq> 0 \<and> (a XOR (a - b)) AND SIGN_BIT \<noteq> 0 \<longleftrightarrow> \<not> fits_int (sint a - sint b)"
  "fits_int (sint a - sint b) \<Longrightarrow> sint (a - b) = sint a - sint (b::u32)"
proof -
  have "sint (a - b) = sint (word_of_int (sint a - sint b) :: u32)" by simp
  also have "\<dots> = (if sint a - sint b < - (2 ^ 31) then sint a - sint b + 2 ^ 32
     else if sint a - sint b < 2 ^ 31 then sint a - sint b else sint a - sint b - 2 ^ 32)"
    by (rule wrap32) (use sint_bounds [of a] sint_bounds [of b] in simp_all)
  finally have e: "sint (a - b) = \<dots>" .
  show "(a XOR b) AND SIGN_BIT \<noteq> 0 \<and> (a XOR (a - b)) AND SIGN_BIT \<noteq> 0 \<longleftrightarrow> \<not> fits_int (sint a - sint b)"
    unfolding sign_xor e fits_int_def using sint_bounds [of a] sint_bounds [of b] by (auto split: if_splits)
  show "fits_int (sint a - sint b) \<Longrightarrow> sint (a - b) = sint a - sint (b::u32)"
    unfolding e fits_int_def by auto
qed

text \<open>
  \<^verbatim>\<open>ADD\<close>, \<^verbatim>\<open>ADDI\<close> and \<^verbatim>\<open>SUB\<close> raise the overflow exception, and change no register, exactly
  when the mathematical result does not fit a signed 32-bit word; otherwise they store it.
\<close>

theorem signed_arithmetic:
  assumes "opCode i \<in> {OP_ADD, OP_ADDI, OP_SUB}"
  shows "execute H i m pc =
    (if fits_int (exact_result i m)
     then brk (set_reg m (if opCode i = OP_ADDI then instr_rt i else instr_rd i) (word_of_int (exact_result i m))) pc
     else trap H OverflowException 0 m)"
proof -
  have comm: "(b XOR (a + b)) AND SIGN_BIT \<noteq> 0 \<longleftrightarrow> (a XOR (a + b)) AND SIGN_BIT \<noteq> 0"
    if "(a XOR b) AND SIGN_BIT = 0" for a b :: u32
    using that by (simp add: sign_xor)
  have addi: "(a XOR b) AND SIGN_BIT = 0 \<and> (b XOR (a + b)) AND SIGN_BIT \<noteq> 0 \<longleftrightarrow> \<not> fits_int (sint a + sint b)"
    for a b :: u32
    using comm [of a b] add_overflow(1) [of a b] by blast
  show ?thesis
    using assms
    by (auto simp: execute_def switch_ADD_BNE_def switch_DIV_LW_def switch_MFHI_SW_def Let_def exact_result_def
        add_overflow(1) addi sub_overflow(1))
qed

theorem signed_arithmetic_witness:
  "execute (\<lambda>_ m. Inr m) demo_add (set_reg (set_reg demo_machine 1 0x7fffffff) 2 1) 8 =
   trap (\<lambda>_ m. Inr m) OverflowException 0 (set_reg (set_reg demo_machine 1 0x7fffffff) 2 1) \<and>
   execute (\<lambda>_ m. Inr m) demo_add (set_reg (set_reg demo_machine 1 5) 2 (- 7)) 8 =
   brk (set_reg (set_reg (set_reg demo_machine 1 5) 2 (- 7)) 3 (- 2)) 8"
proof
  have op: "opCode demo_add \<in> {OP_ADD, OP_ADDI, OP_SUB}" by (simp add: demo_add_def)
  have len: "length (registers demo_machine) = 40" by (simp add: demo_machine_def)
  show "execute (\<lambda>_ m. Inr m) demo_add (set_reg (set_reg demo_machine 1 0x7fffffff) 2 1) 8 =
      trap (\<lambda>_ m. Inr m) OverflowException 0 (set_reg (set_reg demo_machine 1 0x7fffffff) 2 1)"
    unfolding signed_arithmetic [OF op]
    by (simp add: exact_result_def demo_add_def reg_set_reg len fits_int_def)
  show "execute (\<lambda>_ m. Inr m) demo_add (set_reg (set_reg demo_machine 1 5) 2 (- 7)) 8 =
      brk (set_reg (set_reg (set_reg demo_machine 1 5) 2 (- 7)) 3 (- 2)) 8"
    unfolding signed_arithmetic [OF op]
    by (simp add: exact_result_def demo_add_def reg_set_reg len fits_int_def)
qed

text \<open>
  The logical right shifts copy the sign bit, because \<^verbatim>\<open>tmp\<close> is a signed \<^verbatim>\<open>int\<close>: \<^verbatim>\<open>SRL\<close> and
  \<^verbatim>\<open>SRLV\<close> behave as \<^verbatim>\<open>SRA\<close> and \<^verbatim>\<open>SRAV\<close>, where the architecture shifts in zeros.
\<close>

theorem SRL_shifts_arithmetically:
  "execute H (i\<lparr>opCode := OP_SRL\<rparr>) m pc = execute H (i\<lparr>opCode := OP_SRA\<rparr>) m pc \<and>
   execute H (i\<lparr>opCode := OP_SRLV\<rparr>) m pc = execute H (i\<lparr>opCode := OP_SRAV\<rparr>) m pc \<and>
   execute H (i\<lparr>opCode := OP_SRL\<rparr>) m pc =
     brk (set_reg m (instr_rd i) (signed_drop_bit (unat (extra i)) (reg m (instr_rt i)))) pc"
  by (simp add: execute_def switch_ADD_BNE_def switch_DIV_LW_def switch_MFHI_SW_def Let_def)

section \<open>Unaligned loads and stores\<close>

lemma and_3_cases: "(a::u32) AND 3 = 0 \<or> a AND 3 = 1 \<or> a AND 3 = 2 \<or> a AND 3 = 3"
proof -
  have "unat (a AND 3) < 4" using unat_and_mask_less [of a 2] by (simp add: mask_eq_exp_minus_1)
  then have "unat (a AND 3) = 0 \<or> unat (a AND 3) = 1 \<or> unat (a AND 3) = 2 \<or> unat (a AND 3) = 3" by linarith
  moreover have "a AND 3 = k" if "unat (a AND 3) = unat k" for k using that by (rule unsigned_word_eqI)
  from this [of 0] this [of 1] this [of 2] this [of 3]
  have "unat (a AND 3) = 0 \<Longrightarrow> a AND 3 = 0" "unat (a AND 3) = 1 \<Longrightarrow> a AND 3 = 1"
    "unat (a AND 3) = 2 \<Longrightarrow> a AND 3 = 2" "unat (a AND 3) = 3 \<Longrightarrow> a AND 3 = 3" by simp_all
  ultimately show ?thesis by blast
qed

lemma and_3_plus: "((a::u32) + 3) AND 3 = ((a AND 3) + 3) AND 3"
proof transfer
  fix a :: int
  have m: "x AND 3 = x mod 4" for x :: int
    using take_bit_eq_mask [of 2 x] by (simp add: take_bit_eq_mod mask_eq_exp_minus_1)
  show "take_bit LENGTH(32) ((a + 3) AND 3) = take_bit LENGTH(32) (((a AND 3) + 3) AND 3)"
    unfolding m by (simp add: mod_add_left_eq)
qed

lemma signed_drop_masked:
  "signed_drop_bit 8 (w::u32) AND 0xffffff = drop_bit 8 w"
  "signed_drop_bit 16 (w::u32) AND 0xffff = drop_bit 16 w"
  "signed_drop_bit 24 (w::u32) AND 0xff = drop_bit 24 w"
  unfolding byte_masks by (rule bit_word_eqI; auto simp: bit_simps bit_signed_drop_bit_iff)+

lemma merge_simps:
  "LWL_merge 0 p v = (p AND 0xffffff) OR push_bit 24 v" "LWL_merge 1 p v = (p AND 0xffff) OR push_bit 16 v"
  "LWL_merge 2 p v = (p AND 0xff) OR push_bit 8 v" "LWL_merge 3 p v = v"
  "LWR_merge 0 p v = v" "LWR_merge 1 p v = (p AND 0xff000000) OR drop_bit 8 v"
  "LWR_merge 2 p v = (p AND 0xffff0000) OR drop_bit 16 v" "LWR_merge 3 p v = (p AND 0xffffff00) OR drop_bit 24 v"
  "SWL_merge 0 v r = (v AND 0xffffff00) OR drop_bit 24 r" "SWL_merge 1 v r = (v AND 0xffff0000) OR drop_bit 16 r"
  "SWL_merge 2 v r = (v AND 0xff000000) OR drop_bit 8 r" "SWL_merge 3 v r = r"
  "SWR_merge 0 v r = r" "SWR_merge 1 v r = (v AND 0xff) OR push_bit 8 r"
  "SWR_merge 2 v r = (v AND 0xffff) OR push_bit 16 r" "SWR_merge 3 v r = (v AND 0xffffff) OR push_bit 24 r"
  by (simp_all add: LWL_merge_def LWR_merge_def SWL_merge_def SWR_merge_def signed_drop_masked)

lemma byte_merge:
  "LWL_merge 0 p (le32 b0 b1 b2 b3) = le32 (byte_of 0 p) (byte_of 1 p) (byte_of 2 p) b0"
  "LWL_merge 1 p (le32 b0 b1 b2 b3) = le32 (byte_of 0 p) (byte_of 1 p) b0 b1"
  "LWL_merge 2 p (le32 b0 b1 b2 b3) = le32 (byte_of 0 p) b0 b1 b2"
  "LWR_merge 1 p (le32 b0 b1 b2 b3) = le32 b1 b2 b3 (byte_of 3 p)"
  "LWR_merge 2 p (le32 b0 b1 b2 b3) = le32 b2 b3 (byte_of 2 p) (byte_of 3 p)"
  "LWR_merge 3 p (le32 b0 b1 b2 b3) = le32 b3 (byte_of 1 p) (byte_of 2 p) (byte_of 3 p)"
  "SWL_merge 0 (le32 b0 b1 b2 b3) r = le32 (byte_of 3 r) b1 b2 b3"
  "SWL_merge 1 (le32 b0 b1 b2 b3) r = le32 (byte_of 2 r) (byte_of 3 r) b2 b3"
  "SWL_merge 2 (le32 b0 b1 b2 b3) r = le32 (byte_of 1 r) (byte_of 2 r) (byte_of 3 r) b3"
  "SWR_merge 1 (le32 b0 b1 b2 b3) r = le32 b0 (byte_of 0 r) (byte_of 1 r) (byte_of 2 r)"
  "SWR_merge 2 (le32 b0 b1 b2 b3) r = le32 b0 b1 (byte_of 0 r) (byte_of 1 r)"
  "SWR_merge 3 (le32 b0 b1 b2 b3) r = le32 b0 b1 b2 (byte_of 0 r)"
  unfolding merge_simps byte_masks
  by (rule word32_bytes_eqI; rule bit_word_eqI; simp add: bit_byte_of bit_le32 bit_simps)+

lemma unaligned_load:
  "LWL_merge ((a + 3) AND 3) (LWR_merge (a AND 3) r (word_at mem (a - (a AND 3))))
     (word_at mem (a + 3 - ((a + 3) AND 3))) = word_at mem a"
  using and_3_cases [of a] unfolding and_3_plus [of a]
  by (elim disjE) (simp_all add: word_at_def byte_merge merge_simps(4,5) algebra_simps)


lemma unaligned_store:
  "(let mem1 = mem_update mem (a - (a AND 3)) (SWR_merge (a AND 3) (word_at mem (a - (a AND 3))) r)
    in mem_update mem1 (a + 3 - ((a + 3) AND 3))
         (SWL_merge ((a + 3) AND 3) (word_at mem1 (a + 3 - ((a + 3) AND 3))) r)) = mem_update mem a r"
proof -
  define x where "x = a - (a AND 3)"
  then have a: "a = x + (a AND 3)" by simp
  consider "a = x" "a AND 3 = 0" | "a = x + 1" "a AND 3 = 1" | "a = x + 2" "a AND 3 = 2" | "a = x + 3" "a AND 3 = 3"
    using a and_3_cases [of a] by (metis add.right_neutral)
  then show ?thesis
    unfolding and_3_plus [of a]
    by cases (simp_all add: word_at_def mem_update_def byte_merge merge_simps(12,13) Let_def fun_eq_iff)
qed

text \<open>
  The pairs \<^verbatim>\<open>LWR rt, a\<close>; \<^verbatim>\<open>LWL rt, a + 3\<close> and \<^verbatim>\<open>SWR rt, a\<close>; \<^verbatim>\<open>SWL rt, a + 3\<close>, which touch memory by
  aligned words only, load and store the little-endian word at any byte address \<open>a\<close> and no other
  byte.
\<close>

theorem unaligned_access:
  "LWL_merge ((a + 3) AND 3) (LWR_merge (a AND 3) r (word_at mem (a - (a AND 3))))
     (word_at mem (a + 3 - ((a + 3) AND 3))) = word_at mem a \<and>
   (let mem1 = mem_update mem (a - (a AND 3)) (SWR_merge (a AND 3) (word_at mem (a - (a AND 3))) r)
    in mem_update mem1 (a + 3 - ((a + 3) AND 3))
         (SWL_merge ((a + 3) AND 3) (word_at mem1 (a + 3 - ((a + 3) AND 3))) r)) = mem_update mem a r"
  by (intro conjI unaligned_load unaligned_store)

section \<open>Every instruction keeps the machine well formed\<close>

lemma translation_ok_regs [simp]: "translation_ok (m\<lparr>registers := r\<rparr>) = translation_ok m"
  "translation_ok (m\<lparr>status := s\<rparr>) = translation_ok m"
  by (simp_all add: translation_ok_def split: option.splits)

lemma translation_ok_set_reg [simp]: "translation_ok (set_reg m i v) = translation_ok m"
  by (simp add: set_reg_def)

lemma shape_set_reg [simp]: "machine_shape m \<Longrightarrow> i < 37 \<or> 38 \<le> i \<Longrightarrow> i < 40 \<Longrightarrow> machine_shape (set_reg m i v)"
  by (auto simp: machine_shape_def reg_set_reg)

lemma shape_len [simp]: "machine_shape m \<Longrightarrow> length (registers m) = 40"
  by (simp add: machine_shape_def)

lemma reg_set_reg_shape [simp]:
  "machine_shape m \<Longrightarrow> i < 40 \<Longrightarrow> reg (set_reg m i v) j = (if i = j then v else reg m j)"
  by (simp add: reg_set_reg)

lemma DelayedLoad_ok:
  assumes "machine_shape m" and "n < 32"
  shows "\<exists>m'. DelayedLoad m n v = Inr m' \<and> machine_ok m' \<and> mainMemory m' = mainMemory m \<and>
     (\<forall>r < NumTotalRegs. reg m' r = (if r = 0 then 0 else if r = LoadReg then of_nat n
        else if r = LoadValueReg then v else if r = unat (reg m LoadReg) then reg m LoadValueReg else reg m r))"
proof -
  let ?t = "unat (reg m LoadReg)"
  let ?m = "set_reg (set_reg (set_reg (set_reg m ?t (reg m LoadValueReg)) LoadReg (of_nat n)) LoadValueReg v) 0 0"
  have t: "?t < 32" and len: "length (registers m) = 40" using assms(1) by (simp_all add: machine_shape_def)
  have d: "DelayedLoad m n v = Inr ?m" using t len by (simp add: DelayedLoad_def Let_def reg_set_reg)
  have n: "unat (of_nat n :: u32) = n" using assms(2) by (simp add: unsigned_of_nat take_bit_eq_mod)
  have ok: "machine_ok ?m"
    using assms t len by (simp add: machine_ok_def machine_shape_def reg_set_reg n)
  show ?thesis
    using d ok t len by (intro exI [of _ ?m]) (simp add: reg_set_reg)
qed

lemma RaiseException_ok:
  assumes "handler_ok H" and "machine_shape m"
  shows "returns machine_ok (RaiseException H e v m)"
proof -
  have "machine_shape (set_reg m BadVAddrReg v)" using assms(2) by simp
  from DelayedLoad_ok [OF this, of 0 0] obtain m1 where
    m1: "DelayedLoad (set_reg m BadVAddrReg v) 0 0 = Inr m1" "machine_ok m1" by auto
  have st: "machine_ok (x\<lparr>status := s\<rparr>) = machine_ok x" for x s
    by (simp add: machine_ok_def machine_shape_def)
  have "returns machine_ok (H e (m1\<lparr>status := SystemMode\<rparr>))"
    using assms(1) m1(2) st by (simp add: handler_ok_def)
  then show ?thesis
    using m1 st unfolding RaiseException_def by (auto simp: returns_iff)
qed

lemma same_cpu_refl [simp]: "machine_shape m \<Longrightarrow> same_cpu m m"
  by (simp add: same_cpu_def)

lemma same_cpu_touch: "machine_shape m \<Longrightarrow> same_cpu m (touch w vpn m)"
  by (simp add: same_cpu_def machine_shape_def reg_def)

lemma same_cpu_reg: "same_cpu m m' \<Longrightarrow> reg m' i = reg m i"
  by (simp add: same_cpu_def reg_def)

lemma raise_trapped:
  assumes "handler_ok H" and "same_cpu m m2"
  shows "returns (trapped H m) (RaiseException H e v m2)"
proof -
  have "machine_shape m2" using assms(2) by (simp add: same_cpu_def)
  from RaiseException_ok [OF assms(1) this, of e v] obtain m1 where
    "RaiseException H e v m2 = Inr m1" "machine_ok m1" by (auto simp: returns_iff)
  with assms(2) show ?thesis by (auto simp: trapped_def)
qed

lemma trap_ok:
  assumes "handler_ok H" and "same_cpu m m2"
  shows "returns (exit_ok H m) (trap H e v m2)"
  unfolding trap_def by (rule returns_bind [OF raise_trapped [OF assms]]) (simp add: exit_ok_def)

lemma ReadMem_ok:
  assumes "handler_ok H" and "machine_shape m" and "access_size sz"
  shows "returns (read_ok H m) (ReadMem H m va sz)"
proof -
  have t: "translation_ok m" using assms(2) by (simp add: machine_shape_def)
  have r: "returns (read_ok H m) (bindR (RaiseException H e va m) (\<lambda>m. Inr (m, None)))" for e
    by (rule returns_bind [OF raise_trapped [OF assms(1)]]) (simp_all add: assms(2) read_ok_def)
  show ?thesis
    unfolding ReadMem_eq [OF assms(3)] Translate_eq [OF t assms(3)]
    by (simp add: r split: sum.split) (simp add: read_ok_def same_cpu_touch [OF assms(2)])
qed

lemma WriteMem_ok:
  assumes "handler_ok H" and "machine_shape m" and "access_size sz"
  shows "returns (write_ok H m) (WriteMem H m va sz v)"
proof -
  have t: "translation_ok m" using assms(2) by (simp add: machine_shape_def)
  have r: "returns (write_ok H m) (bindR (RaiseException H e va m) (\<lambda>m. Inr (m, False)))" for e
    by (rule returns_bind [OF raise_trapped [OF assms(1)]]) (simp_all add: assms(2) write_ok_def)
  have w: "machine_shape ((touch True vpn m)\<lparr>mainMemory := poke (mainMemory m) pa sz v\<rparr>)" for vpn pa
    using assms(2) by (simp add: machine_shape_def reg_def)
  show ?thesis
    unfolding WriteMem_eq [OF assms(3)] Translate_eq [OF t assms(3)]
    by (simp add: r split: sum.split) (simp add: write_ok_def w)
qed

lemma set_keeps: "machine_shape m \<Longrightarrow> i < 34 \<Longrightarrow> r \<in> {PCReg, NextPCReg, LoadReg, LoadValueReg} \<Longrightarrow>
    reg (set_reg m i v) r = reg m r"
  by auto

lemma brk_ok: "machine_shape m \<Longrightarrow> returns (exit_ok H m) (brk m pc)"
  "machine_shape m \<Longrightarrow> i < 34 \<Longrightarrow> returns (exit_ok H m) (brk (set_reg m i v) pc)"
  "machine_shape m \<Longrightarrow> i < 34 \<Longrightarrow> j < 34 \<Longrightarrow> returns (exit_ok H m) (brk (set_reg (set_reg m i v) j w) pc)"
  by (auto simp: brk_def exit_ok_def)

lemma load_ok:
  assumes "handler_ok H" and "machine_shape m" and "access_size sz"
    and "\<And>m' v. same_cpu m m' \<Longrightarrow> returns (exit_ok H m) (f m' v)"
  shows "returns (exit_ok H m)
    (bindR (ReadMem H m a sz) (\<lambda>(m, r). case r of None \<Rightarrow> Inr (Return m) | Some v \<Rightarrow> f m v))"
  by (rule returns_bind [OF ReadMem_ok [OF assms(1-3)]])
    (auto simp: read_ok_def exit_ok_def [of H m "Return _"] assms(4) split: option.splits)

lemma break_ok: "same_cpu m m' \<Longrightarrow> n < 32 \<Longrightarrow> returns (exit_ok H m) (Inr (Break m' pc n v))"
  by (simp add: exit_ok_def same_cpu_reg) (simp add: same_cpu_def)

lemma store_ok:
  assumes "handler_ok H" and "same_cpu m m'" and "access_size sz"
  shows "returns (exit_ok H m)
    (bindR (WriteMem H m' a sz v) (\<lambda>(m, ok). if \<not> ok then Inr (Return m) else brk m pc))"
proof (rule returns_bind [OF WriteMem_ok [OF assms(1) _ assms(3)]])
  show "machine_shape m'" using assms(2) by (simp add: same_cpu_def)
next
  fix x assume "write_ok H m' x"
  then obtain m1 ok where x: "x = (m1, ok)" "write_ok H m' (m1, ok)" by (cases x) auto
  have "trapped H m m1" if "trapped H m' m1"
    using that assms(2) by (auto simp: trapped_def same_cpu_def)
  with x assms(2) show "returns (exit_ok H m) (case x of (m, ok) \<Rightarrow> if \<not> ok then Inr (Return m) else brk m pc)"
    by (auto simp: write_ok_def exit_ok_def brk_def reg_def same_cpu_def)
qed

lemma access_sizes [simp]: "access_size (Suc 0)" "access_size 1" "access_size 2" "access_size 4"
  by (simp_all add: access_size_def)

lemmas exit_intros = brk_ok trap_ok load_ok store_ok break_ok

lemma switch_ADD_BNE_ok:
  assumes "handler_ok H" and "machine_shape m" and "fields_ok i" and "switch_ADD_BNE H i m pc = Some r"
  shows "returns (exit_ok H m) r"
  using assms(4) assms(1-3)
  by (cases "opCode i")
    (auto simp: switch_ADD_BNE_def Let_def fields_ok_def R31_def intro!: brk_ok trap_ok)

lemma switch_DIV_LW_ok:
  assumes "handler_ok H" and "machine_shape m" and "fields_ok i" and "\<not> div_traps i m"
    and "switch_DIV_LW H i m pc = Some r"
  shows "returns (exit_ok H m) r"
  using assms(5) assms(1-4)
  by (cases "opCode i")
    (auto simp: switch_DIV_LW_def Let_def fields_ok_def R31_def div_traps_def split del: option.split
       intro!: brk_ok trap_ok load_ok break_ok)

lemma switch_MFHI_SW_ok:
  assumes "handler_ok H" and "machine_shape m" and "fields_ok i" and "switch_MFHI_SW H i m pc = Some r"
  shows "returns (exit_ok H m) r"
  using assms(4) assms(1-3)
  by (cases "opCode i")
    (auto simp: switch_MFHI_SW_def Let_def fields_ok_def store_def intro!: brk_ok trap_ok store_ok split: prod.split)

lemma exec_unaligned_ok:
  assumes "handler_ok H" and "machine_shape m" and "fields_ok i"
  shows "returns (exit_ok H m) (exec_LWL H i m pc)" "returns (exit_ok H m) (exec_LWR H i m pc)"
    "returns (exit_ok H m) (exec_SWL H i m pc)" "returns (exit_ok H m) (exec_SWR H i m pc)"
  unfolding exec_LWL_def exec_LWR_def exec_SWL_def exec_SWR_def Let_def
  using assms by (intro load_ok break_ok store_ok; simp add: fields_ok_def)+

lemma switch_rest:
  assumes "executable_op (opCode i)" and "switch_ADD_BNE H i m pc = None" and "switch_DIV_LW H i m pc = None"
    and "opCode i \<noteq> OP_LWL" and "opCode i \<noteq> OP_LWR" and "switch_MFHI_SW H i m pc = None"
    and "opCode i \<noteq> OP_SWL" and "opCode i \<noteq> OP_SWR"
  shows "opCode i \<in> {OP_SYSCALL, OP_XOR, OP_XORI, OP_RES, OP_UNIMP}"
  using assms
  by (cases "opCode i")
    (simp_all add: switch_ADD_BNE_def switch_DIV_LW_def switch_MFHI_SW_def executable_op_def Let_def)

lemma switch_SYSCALL_ok:
  assumes "handler_ok H" and "machine_shape m" and "fields_ok i"
    and "opCode i \<in> {OP_SYSCALL, OP_XOR, OP_XORI, OP_RES, OP_UNIMP}"
  shows "returns (exit_ok H m) (switch_SYSCALL_default H i m pc)"
  using assms by (auto simp: switch_SYSCALL_default_def fields_ok_def Let_def intro!: brk_ok trap_ok)

lemma execute_ok:
  assumes "handler_ok H" and "machine_shape m" and "fields_ok i" and "executable_op (opCode i)"
    and "\<not> div_traps i m"
  shows "returns (exit_ok H m) (execute H i m pc)"
proof -
  note rest = switch_SYSCALL_ok [OF assms(1-3) switch_rest [OF assms(4)]]
  show ?thesis
    unfolding execute_def
    by (auto split: option.split
        intro: switch_ADD_BNE_ok [OF assms(1-3)] switch_DIV_LW_ok [OF assms(1-3,5)]
          switch_MFHI_SW_ok [OF assms(1-3)] exec_unaligned_ok [OF assms(1-3)] rest)
qed

lemma execute_div_traps:
  "div_traps i m \<Longrightarrow> execute H i m pc = Inl HostTrap"
  by (simp add: execute_def switch_ADD_BNE_def switch_DIV_LW_def div_traps_def Let_def SIGN_BIT_def)

lemma DelayedLoad_completes:
  assumes "exit_ok H m (Break m1 pc n v)"
  shows "returns (step_ok H m) (bindR (DelayedLoad m1 n v) (\<lambda>m.
             let m = set_reg m PrevPCReg (reg m PCReg);
                 m = set_reg m PCReg (reg m NextPCReg)
             in Inr (set_reg m NextPCReg pc)))"
proof -
  have s: "machine_shape m1" "n < 32" "reg m1 PCReg = reg m PCReg" "reg m1 NextPCReg = reg m NextPCReg"
    using assms by (simp_all add: exit_ok_def)
  have t: "unat (reg m1 LoadReg) < 32" using s(1) by (simp add: machine_shape_def)
  obtain m2 where m2: "DelayedLoad m1 n v = Inr m2" "machine_ok m2"
      "\<forall>r < 40. reg m2 r = (if r = 0 then 0 else if r = LoadReg then of_nat n
        else if r = LoadValueReg then v else if r = unat (reg m1 LoadReg) then reg m1 LoadValueReg else reg m1 r)"
    using DelayedLoad_ok [OF s(1,2), of v] by auto
  have pcs: "reg m2 PCReg = reg m PCReg" "reg m2 NextPCReg = reg m NextPCReg"
    using m2(3) s(3,4) t by (simp_all add: nat_neq_iff)
  then show ?thesis
    using m2(1,2) by (simp add: step_ok_def completed_def machine_ok_def Let_def)
qed

lemma OneInstruction_step:
  assumes "handler_ok H" and "machine_ok m"
    and "\<And>i. fetch m = Some i \<Longrightarrow> \<not> div_traps i m"
  shows "returns (step_ok H m) (OneInstruction H m)"
proof -
  have s: "machine_shape m" "translation_ok m" using assms(2) by (simp_all add: machine_ok_def machine_shape_def)
  have rd: "ReadMem H m (reg m PCReg) 4 = Inr (m1, Some raw) \<Longrightarrow> fetch m = Some (Decode raw)" for m1 raw
    using s(2) unfolding ReadMem_eq [OF access_sizes(4)] fetch_def Translate_eq [OF s(2) access_sizes(4)]
    by (auto simp: bindR_eq_Inr split: if_splits sum.splits)
  obtain m1 r where m1: "ReadMem H m (reg m PCReg) 4 = Inr (m1, r)" "read_ok H m (m1, r)"
    using ReadMem_ok [OF assms(1) s(1) access_sizes(4), of "reg m PCReg"] by (auto simp: returns_iff)
  show ?thesis
  proof (cases r)
    case None
    with m1 show ?thesis by (auto simp: OneInstruction_def read_ok_def step_ok_def trapped_def)
  next
    case (Some raw)
    let ?i = "Decode raw"
    have same: "same_cpu m m1" using m1(2) Some by (simp add: read_ok_def)
    then have s1: "machine_shape m1" by (simp add: same_cpu_def)
    have nd: "\<not> div_traps ?i m1"
      using assms(3) [OF rd] m1(1) Some same by (simp add: div_traps_def same_cpu_reg)
    have tr: "trapped H m m2 = trapped H m1 m2" "completed m m2 = completed m1 m2" for m2
      using same by (auto simp: trapped_def same_cpu_def completed_def reg_def)
    have "returns (exit_ok H m1) (execute H ?i m1 (reg m1 NextPCReg + 4))"
      by (rule execute_ok [OF assms(1) s1 _ Decode_op nd]) (use Decode_regs in \<open>simp add: fields_ok_def\<close>)
    then obtain x where x: "execute H ?i m1 (reg m1 NextPCReg + 4) = Inr x" "exit_ok H m1 x"
      by (auto simp: returns_iff)
    have "returns (step_ok H m1) (OneInstruction H m)"
    proof (cases x)
      case (Break m2 pc n v)
      from DelayedLoad_completes [of H m1 m2 pc n v] x Break show ?thesis
        using m1(1) Some by (simp add: OneInstruction_def Let_def)
    next
      case (Return m2)
      with x m1(1) Some show ?thesis by (simp add: OneInstruction_def exit_ok_def step_ok_def trapped_def)
    qed
    then show ?thesis by (rule returns_mono) (simp add: step_ok_def tr)
  qed
qed


lemma RaiseException_restart:
  assumes "machine_shape m" and "RaiseException (\<lambda>_ m. Inr m) e v m = Inr m'"
  shows "restart_state m m'"
proof -
  have s: "machine_shape (set_reg m BadVAddrReg v)" using assms(1) by simp
  have t: "unat (reg m LoadReg) < 32" using assms(1) by (simp add: machine_shape_def)
  from DelayedLoad_ok [OF s, of 0 0] obtain m1 where
    m1: "DelayedLoad (set_reg m BadVAddrReg v) 0 0 = Inr m1" "mainMemory m1 = mainMemory m"
      "\<forall>r < 40. reg m1 r = (if r = 0 then 0 else if r = 37 then 0 else if r = 38 then 0
         else if r = unat (reg (set_reg m BadVAddrReg v) LoadReg) then reg (set_reg m BadVAddrReg v) LoadValueReg
         else reg (set_reg m BadVAddrReg v) r)"
    by auto
  have "m' = m1\<lparr>status := UserMode\<rparr>" using assms(2) m1(1) by (simp add: RaiseException_def)
  then show ?thesis
    using m1 assms(1) t by (auto simp: restart_state_def nat_neq_iff)
qed

lemma fetch_ReadMem:
  assumes "machine_ok m" and "fetch m = Some i"
  shows "\<exists>m1 raw. ReadMem H m (reg m PCReg) 4 = Inr (m1, Some raw) \<and> Decode raw = i \<and> same_cpu m m1"
proof -
  have s: "machine_shape m" "translation_ok m" using assms(1) by (simp_all add: machine_ok_def machine_shape_def)
  show ?thesis
    using assms(2) unfolding ReadMem_eq [OF access_sizes(4)] fetch_def Translate_eq [OF s(2) access_sizes(4)]
    by (auto simp: same_cpu_touch [OF s(1)] split: if_splits sum.splits)
qed

lemma OneInstruction_div:
  assumes "machine_ok m" and "fetch m = Some i" and "div_traps i m"
  shows "OneInstruction H m = Inl HostTrap"
proof -
  obtain m1 raw where r: "ReadMem H m (reg m PCReg) 4 = Inr (m1, Some raw)" "Decode raw = i" "same_cpu m m1"
    using fetch_ReadMem [OF assms(1,2)] by blast
  then have "div_traps i m1" using assms(3) by (simp add: div_traps_def same_cpu_reg)
  with r show ?thesis by (simp add: OneInstruction_def Let_def execute_div_traps)
qed

lemma idle_handler_ok: "handler_ok (\<lambda>_ m. Inr m)"
  by (simp add: handler_ok_def)

lemma demo_machine_ok: "machine_ok demo_machine"
  by (simp add: machine_ok_def machine_shape_def translation_ok_def demo_machine_def reg_def)

lemma fetch_fields: "fetch m = Some i \<Longrightarrow> fields_ok i"
  using Decode_regs by (auto simp: fetch_def fields_ok_def split: sum.splits prod.splits)

lemma demo_no_div: "fetch demo_machine = Some i \<Longrightarrow> \<not> div_traps i demo_machine"
  by (drule fetch_fields) (simp add: fields_ok_def div_traps_def demo_machine_def reg_def SIGN_BIT_def)





end
