(* ===== verification/Interrupt.thy ===== *)
theory Interrupt
  imports Linked_List Mips_Sim
begin

text \<open>
  The simulated clock and interrupt hardware: \<^verbatim>\<open>code/machine/interrupt.cc\<close>, \<^verbatim>\<open>stats.cc\<close>, and the
  timer device and its software handler, \<^verbatim>\<open>timer.cc\<close> and \<^verbatim>\<open>code/threads/alarm.cc\<close>. The state is an extensible
  record, \<open>statistics\<close> and then \<open>interrupt\<close>, which the kernel theories extend with their own
  fields; every operation here is polymorphic in that extension. A pending interrupt carries
  its address, since \<^verbatim>\<open>SortedList::Insert\<close> compares pointers, and names the callback object; the
  virtual \<^verbatim>\<open>CallBack()\<close> of that object is the argument \<open>call\<close>, and \<^verbatim>\<open>Thread::Yield\<close> the argument
  \<open>yield\<close>. The locale \<open>interrupt_handlers\<close> states what the simulation relies on: a handler schedules
  only future interrupts. Times are mathematical integers (the C++ code uses \<^verbatim>\<open>int\<close>).
\<close>

section \<open>State\<close>

datatype IntStatus = IntOff | IntOn

datatype IntType = TimerInt | DiskInt | ConsoleWriteInt | ConsoleReadInt | NetworkSendInt | NetworkRecvInt

text \<open>The callback objects of the system (\<^verbatim>\<open>callback.h\<close>): one per device that can interrupt.\<close>

datatype callback = TimerCall | DiskCall | ConsoleInputCall | ConsoleOutputCall | NetworkInputCall | NetworkOutputCall

record statistics =
  totalTicks :: int
  idleTicks :: int
  systemTicks :: int
  userTicks :: int
  numDiskReads :: int
  numDiskWrites :: int
  numConsoleCharsRead :: int
  numConsoleCharsWritten :: int
  numPageFaults :: int
  numPacketsSent :: int
  numPacketsRecvd :: int

definition UserTick :: int where "UserTick = 1"
definition SystemTick :: int where "SystemTick = 10"
definition TimerTicks :: int where "TimerTicks = 100"

record PendingInterrupt =
  address :: nat
  callOnInterrupt :: callback
  whenDue :: int   \<comment> \<open>the field \<^verbatim>\<open>when\<close>\<close>
  itype :: IntType

record interrupt = statistics +
  level :: IntStatus
  pending :: "PendingInterrupt list"
  inHandler :: bool
  yieldOnReturn :: bool
  istatus :: MachineStatus
  nextAddress :: nat
  kmachine :: "machine option"

text \<open>The fields of \<^verbatim>\<open>Statistics\<close> and of \<^verbatim>\<open>Interrupt\<close> right after their constructors.\<close>

definition Statistics_new :: statistics where
  "Statistics_new = \<lparr>totalTicks = 0, idleTicks = 0, systemTicks = 0, userTicks = 0, numDiskReads = 0,
     numDiskWrites = 0, numConsoleCharsRead = 0, numConsoleCharsWritten = 0, numPageFaults = 0,
     numPacketsSent = 0, numPacketsRecvd = 0\<rparr>"

definition Interrupt_new :: "'w interrupt_scheme \<Rightarrow> 'w interrupt_scheme" where
  "Interrupt_new s = s\<lparr>level := IntOff, pending := [], inHandler := False, yieldOnReturn := False,
     istatus := SystemMode\<rparr>"

section \<open>Operations\<close>

definition PendingInterrupt_new :: "nat \<Rightarrow> callback \<Rightarrow> int \<Rightarrow> IntType \<Rightarrow> PendingInterrupt" where
  "PendingInterrupt_new a callOnInt time kind =
     \<lparr>address = a, callOnInterrupt = callOnInt, whenDue = time, itype = kind\<rparr>"

definition PendingCompare :: "PendingInterrupt \<Rightarrow> PendingInterrupt \<Rightarrow> int" where
  "PendingCompare x y = (if whenDue x < whenDue y then - 1 else if whenDue x > whenDue y then 1 else 0)"

definition ChangeLevel :: "IntStatus \<Rightarrow> IntStatus \<Rightarrow> 'w interrupt_scheme \<Rightarrow> 'w interrupt_scheme" where
  "ChangeLevel old now s = s\<lparr>level := now\<rparr>"

definition YieldOnReturn :: "'w interrupt_scheme \<Rightarrow> 'w interrupt_scheme outcome" where
  "YieldOnReturn s = bindR (ASSERT (inHandler s)) (\<lambda>_. Inr (s\<lparr>yieldOnReturn := True\<rparr>))"

definition Schedule :: "callback \<Rightarrow> int \<Rightarrow> IntType \<Rightarrow> 'w interrupt_scheme \<Rightarrow> 'w interrupt_scheme outcome" where
  "Schedule toCall fromNow type s =
     (let toOccur = PendingInterrupt_new (nextAddress s) toCall (totalTicks s + fromNow) type;
          s = s\<lparr>nextAddress := Suc (nextAddress s)\<rparr> in
      bindR (ASSERT (fromNow > 0)) (\<lambda>_.
      bindR (list_Insert PendingCompare (pending s) toOccur) (\<lambda>xs.
      Inr (s\<lparr>pending := xs\<rparr>))))"

text \<open>
  The \<^verbatim>\<open>do ... while\<close> of \<^verbatim>\<open>CheckIfDue\<close>. It calls arbitrary handlers, so it is given fuel; the number of
  interrupts pending at its start is enough when handlers schedule only future interrupts.
\<close>

fun fire_loop :: "nat \<Rightarrow> (callback \<Rightarrow> 'w interrupt_scheme \<Rightarrow> 'w interrupt_scheme outcome) \<Rightarrow>
    'w interrupt_scheme \<Rightarrow> 'w interrupt_scheme outcome" where
  "fire_loop 0 call s = Inl Diverges"
| "fire_loop (Suc fuel) call s =
     bindR (list_RemoveFront (pending s)) (\<lambda>(rest, next).
     bindR (call (callOnInterrupt next) (s\<lparr>pending := rest\<rparr>)) (\<lambda>s.
     if pending s \<noteq> [] \<and> whenDue (hd (pending s)) \<le> totalTicks s
     then fire_loop fuel call s else Inr s))"

definition machine_DelayedLoad :: "'w interrupt_scheme \<Rightarrow> 'w interrupt_scheme outcome" where
  "machine_DelayedLoad s =
     (case kmachine s of
        None \<Rightarrow> Inr s
      | Some m \<Rightarrow> bindR (DelayedLoad m 0 0) (\<lambda>m. Inr (s\<lparr>kmachine := Some m\<rparr>)))"

definition CheckIfDue :: "(callback \<Rightarrow> 'w interrupt_scheme \<Rightarrow> 'w interrupt_scheme outcome) \<Rightarrow>
    bool \<Rightarrow> 'w interrupt_scheme \<Rightarrow> ('w interrupt_scheme \<times> bool) outcome" where
  "CheckIfDue call advanceClock s =
     bindR (ASSERT (level s = IntOff)) (\<lambda>_.
     case pending s of
       [] \<Rightarrow> Inr (s, False)
     | next # _ \<Rightarrow>
         if whenDue next > totalTicks s \<and> \<not> advanceClock then Inr (s, False)
         else let s = (if whenDue next > totalTicks s
                       then s\<lparr>idleTicks := idleTicks s + (whenDue next - totalTicks s), totalTicks := whenDue next\<rparr>
                       else s) in
           bindR (machine_DelayedLoad s) (\<lambda>s.
           bindR (fire_loop (length (pending s)) call (s\<lparr>inHandler := True\<rparr>)) (\<lambda>s.
           Inr (s\<lparr>inHandler := False\<rparr>, True))))"

definition OneTick :: "(callback \<Rightarrow> 'w interrupt_scheme \<Rightarrow> 'w interrupt_scheme outcome) \<Rightarrow>
    ('w interrupt_scheme \<Rightarrow> 'w interrupt_scheme outcome) \<Rightarrow> 'w interrupt_scheme \<Rightarrow> 'w interrupt_scheme outcome" where
  "OneTick call yield s =
     (let oldStatus = istatus s;
          s = (if istatus s = SystemMode
               then s\<lparr>totalTicks := totalTicks s + SystemTick, systemTicks := systemTicks s + SystemTick\<rparr>
               else s\<lparr>totalTicks := totalTicks s + UserTick, userTicks := userTicks s + UserTick\<rparr>);
          s = ChangeLevel IntOn IntOff s in
      bindR (CheckIfDue call False s) (\<lambda>(s, _).
      let s = ChangeLevel IntOff IntOn s in
      if yieldOnReturn s
      then bindR (yield (s\<lparr>yieldOnReturn := False, istatus := SystemMode\<rparr>)) (\<lambda>s.
           Inr (s\<lparr>istatus := oldStatus\<rparr>))
      else Inr s))"

definition SetLevel :: "(callback \<Rightarrow> 'w interrupt_scheme \<Rightarrow> 'w interrupt_scheme outcome) \<Rightarrow>
    ('w interrupt_scheme \<Rightarrow> 'w interrupt_scheme outcome) \<Rightarrow> IntStatus \<Rightarrow> 'w interrupt_scheme \<Rightarrow>
    ('w interrupt_scheme \<times> IntStatus) outcome" where
  "SetLevel call yield now s =
     (let old = level s in
      bindR (ASSERT (now = IntOff \<or> \<not> inHandler s)) (\<lambda>_.
      let s = ChangeLevel old now s in
      if now = IntOn \<and> old = IntOff
      then bindR (OneTick call yield s) (\<lambda>s. Inr (s, old))
      else Inr (s, old)))"

definition Enable :: "(callback \<Rightarrow> 'w interrupt_scheme \<Rightarrow> 'w interrupt_scheme outcome) \<Rightarrow>
    ('w interrupt_scheme \<Rightarrow> 'w interrupt_scheme outcome) \<Rightarrow> 'w interrupt_scheme \<Rightarrow> 'w interrupt_scheme outcome" where
  "Enable call yield s = bindR (SetLevel call yield IntOn s) (\<lambda>(s, _). Inr s)"

definition Halt :: "'w interrupt_scheme \<Rightarrow> 'w interrupt_scheme outcome" where
  "Halt s = Inl Halted"

definition Idle :: "(callback \<Rightarrow> 'w interrupt_scheme \<Rightarrow> 'w interrupt_scheme outcome) \<Rightarrow>
    'w interrupt_scheme \<Rightarrow> 'w interrupt_scheme outcome" where
  "Idle call s =
     bindR (CheckIfDue call True (s\<lparr>istatus := IdleMode\<rparr>)) (\<lambda>(s, fired).
     if fired then Inr (s\<lparr>istatus := SystemMode\<rparr>) else Halt s)"

section \<open>The timer and the alarm\<close>

record alarm = interrupt +
  randomize :: bool
  disable :: bool
  randomValue :: "nat \<Rightarrow> nat"   \<comment> \<open>the values \<^verbatim>\<open>RandomNumber()\<close> will return\<close>
  randomCount :: nat

definition RandomNumber :: "'w alarm_scheme \<Rightarrow> 'w alarm_scheme \<times> int" where
  "RandomNumber s = (s\<lparr>randomCount := Suc (randomCount s)\<rparr>, int (randomValue s (randomCount s)))"

definition SetInterrupt :: "'w alarm_scheme \<Rightarrow> 'w alarm_scheme outcome" where
  "SetInterrupt s =
     (if \<not> disable s then
        let (s, delay) = (if randomize s
                          then let (s, r) = RandomNumber s in (s, 1 + r smod (TimerTicks * 2))
                          else (s, TimerTicks))
        in Schedule TimerCall delay TimerInt s
      else Inr s)"

definition Timer_new :: "bool \<Rightarrow> 'w alarm_scheme \<Rightarrow> 'w alarm_scheme outcome" where
  "Timer_new doRandom s = SetInterrupt (s\<lparr>randomize := doRandom, disable := False\<rparr>)"

definition Timer_Disable :: "'w alarm_scheme \<Rightarrow> 'w alarm_scheme" where
  "Timer_Disable s = s\<lparr>disable := True\<rparr>"

definition Alarm_CallBack :: "'w alarm_scheme \<Rightarrow> 'w alarm_scheme outcome" where
  "Alarm_CallBack s =
     (let status = istatus s in
      if status \<noteq> IdleMode then YieldOnReturn s else Inr s)"

definition Timer_CallBack :: "'w alarm_scheme \<Rightarrow> 'w alarm_scheme outcome" where
  "Timer_CallBack s = bindR (Alarm_CallBack s) SetInterrupt"

definition Alarm_new :: "bool \<Rightarrow> 'w alarm_scheme \<Rightarrow> 'w alarm_scheme outcome" where
  "Alarm_new doRandom s = Timer_new doRandom s"

section \<open>Invariants and the handler interface\<close>

definition pending_ok :: "'w interrupt_scheme \<Rightarrow> bool" where
  "pending_ok s \<longleftrightarrow> sorted_wrt (\<lambda>p q. PendingCompare p q \<le> 0) (pending s) \<and>
     distinct (pending s) \<and> (\<forall>p \<in> set (pending s). address p < nextAddress s)"

definition ticks_ok :: "'w interrupt_scheme \<Rightarrow> bool" where
  "ticks_ok s \<longleftrightarrow> totalTicks s = idleTicks s + systemTicks s + userTicks s"

definition intr_ok :: "'w interrupt_scheme \<Rightarrow> bool" where
  "intr_ok s \<longleftrightarrow> pending_ok s \<and> ticks_ok s \<and> (\<forall>m. kmachine s = Some m \<longrightarrow> machine_ok m)"

definition in_handler :: "'w interrupt_scheme \<Rightarrow> bool" where
  "in_handler s \<longleftrightarrow> intr_ok s \<and> level s = IntOff \<and> inHandler s"

definition due :: "'w interrupt_scheme \<Rightarrow> PendingInterrupt list" where
  "due s = filter (\<lambda>p. whenDue p \<le> totalTicks s) (pending s)"

definition same_clock :: "'w interrupt_scheme \<Rightarrow> 'w interrupt_scheme \<Rightarrow> bool" where
  "same_clock s s' \<longleftrightarrow> totalTicks s' = totalTicks s \<and> idleTicks s' = idleTicks s \<and>
     systemTicks s' = systemTicks s \<and> userTicks s' = userTicks s"

definition adds_future :: "PendingInterrupt multiset \<Rightarrow> 'w interrupt_scheme \<Rightarrow> bool" where
  "adds_future old s' \<longleftrightarrow> (\<exists>new. mset (pending s') = old + mset new \<and> (\<forall>p \<in> set new. totalTicks s' < whenDue p))"

interpretation pending_order: comparator PendingCompare
  by unfold_locales (auto simp: PendingCompare_def split: if_splits)

lemma PendingCompare_le: "PendingCompare p q \<le> 0 \<longleftrightarrow> whenDue p \<le> whenDue q"
  by (auto simp: PendingCompare_def)

lemma Schedule_ok:
  assumes "intr_ok s" and "0 < fromNow"
  shows "\<exists>p. Schedule toCall fromNow ty s = Inr (s\<lparr>nextAddress := Suc (nextAddress s),
       pending := sorted_ins PendingCompare p (pending s)\<rparr>) \<and>
     whenDue p = totalTicks s + fromNow \<and> callOnInterrupt p = toCall \<and> itype p = ty \<and>
     intr_ok (s\<lparr>nextAddress := Suc (nextAddress s), pending := sorted_ins PendingCompare p (pending s)\<rparr>)"
proof -
  let ?p = "PendingInterrupt_new (nextAddress s) toCall (totalTicks s + fromNow) ty"
  have po: "pending_ok s" using assms(1) by (simp add: intr_ok_def)
  have new: "?p \<notin> set (pending s)" using po by (auto simp: pending_ok_def PendingInterrupt_new_def)
  have d: "distinct (sorted_ins PendingCompare ?p (pending s))"
  proof -
    have "mset (sorted_ins PendingCompare ?p (pending s)) = mset (?p # pending s)" by simp
    then show ?thesis using po new by (metis distinct.simps(2) mset_eq_imp_distinct_iff pending_ok_def)
  qed
  have "pending_ok (s\<lparr>nextAddress := Suc (nextAddress s), pending := sorted_ins PendingCompare ?p (pending s)\<rparr>)"
    using po d pending_order.sorted_ins_sorted [of "pending s" ?p]
    by (auto simp: pending_ok_def PendingInterrupt_new_def less_SucI)
  then have "intr_ok (s\<lparr>nextAddress := Suc (nextAddress s), pending := sorted_ins PendingCompare ?p (pending s)\<rparr>)"
    using assms(1) by (simp add: intr_ok_def ticks_ok_def)
  then show ?thesis
    using assms(2) new by (intro exI [of _ ?p]) (simp add: Schedule_def Let_def list_Insert_def PendingInterrupt_new_def)
qed

lemma pending_ok_tl:
  "pending_ok s \<Longrightarrow> pending s = p # rest \<Longrightarrow> pending_ok (s\<lparr>pending := rest\<rparr>)"
  by (auto simp: pending_ok_def)

lemma intr_ok_tl: "intr_ok s \<Longrightarrow> pending s = p # rest \<Longrightarrow> intr_ok (s\<lparr>pending := rest\<rparr>)"
  using pending_ok_tl by (auto simp: intr_ok_def ticks_ok_def)

lemma due_Nil:
  assumes "pending_ok s" and "pending s = [] \<or> totalTicks s < whenDue (hd (pending s))"
  shows "due s = []"
proof (cases "pending s")
  case (Cons p rest)
  then have "whenDue p \<le> whenDue q" if "q \<in> set rest" for q
    using assms(1) that by (auto simp: pending_ok_def PendingCompare_le)
  with Cons assms(2) show ?thesis by (force simp: due_def filter_empty_conv)
qed (simp add: due_def)

lemma due_count:
  assumes "adds_future (mset rest) s'" and "totalTicks s' = t"
  shows "mset (due s') = filter_mset (\<lambda>p. whenDue p \<le> t) (mset rest)"
proof -
  obtain new where n: "mset (pending s') = mset rest + mset new" "\<forall>p \<in> set new. totalTicks s' < whenDue p"
    using assms(1) by (auto simp: adds_future_def)
  have "filter_mset (\<lambda>p. whenDue p \<le> t) (mset new) = {#}" using n(2) assms(2) by (auto simp: filter_mset_eq_mempty_iff)
  then show ?thesis using n(1) assms(2) by (simp add: due_def)
qed

text \<open>
  What the interrupt simulation asks of the devices: run as a handler, a callback returns, keeps
  the state well formed, does not touch the clock, and adds only interrupts in the future. \<open>ready\<close>
  is the devices' own invariant; it may depend on the pending interrupts and on the fields that
  extend the record.
\<close>

locale interrupt_handlers =
  fixes call :: "callback \<Rightarrow> 'w interrupt_scheme \<Rightarrow> 'w interrupt_scheme outcome"
    and ready :: "'w interrupt_scheme \<Rightarrow> bool"
  assumes handler: "in_handler s \<Longrightarrow> ready s \<Longrightarrow> pending s = p # rest \<Longrightarrow> whenDue p \<le> totalTicks s \<Longrightarrow>
      returns (\<lambda>s'. in_handler s' \<and> ready s' \<and> same_clock s s' \<and> adds_future (mset rest) s')
        (call (callOnInterrupt p) (s\<lparr>pending := rest\<rparr>))"
    and ready_frame: "ready s \<Longrightarrow> pending s' = pending s \<Longrightarrow> interrupt.more s' = interrupt.more s \<Longrightarrow> ready s'"
begin

lemma fire_loop_ok:
  assumes "in_handler s" and "ready s" and "pending s = p # rest" and "whenDue p \<le> totalTicks s"
    and "length (due s) \<le> fuel"
  shows "returns (\<lambda>s'. in_handler s' \<and> ready s' \<and> same_clock s s' \<and> due s' = [] \<and>
      adds_future (filter_mset (\<lambda>p. totalTicks s < whenDue p) (mset (pending s))) s') (fire_loop fuel call s)"
  using assms
proof (induction fuel arbitrary: s p rest)
  case 0
  then have "p \<in> set (due s)" by (simp add: due_def)
  with 0 show ?case by simp
next
  case (Suc fuel)
  obtain s1 where s1: "call (callOnInterrupt p) (s\<lparr>pending := rest\<rparr>) = Inr s1" "in_handler s1" "ready s1"
      "same_clock s s1" "adds_future (mset rest) s1"
    using handler [OF Suc.prems(1-4)] by (auto simp: returns_iff)
  have t: "totalTicks s1 = totalTicks s" using s1(4) by (simp add: same_clock_def)
  have po: "pending_ok s1" using s1(2) by (simp add: in_handler_def intr_ok_def)
  have dm: "mset (due s1) = filter_mset (\<lambda>p. whenDue p \<le> totalTicks s) (mset rest)"
    by (rule due_count [OF s1(5) t])
  have "size (mset (due s1)) = length (filter (\<lambda>p. whenDue p \<le> totalTicks s) rest)"
    unfolding dm by (metis mset_filter size_mset)
  then have "length (due s1) = length (filter (\<lambda>p. whenDue p \<le> totalTicks s) rest)" by simp
  then have len: "length (due s1) \<le> fuel" using Suc.prems(3-5) by (simp add: due_def)
  obtain new where n: "mset (pending s1) = mset rest + mset new" "\<forall>p \<in> set new. totalTicks s1 < whenDue p"
    using s1(5) by (auto simp: adds_future_def)
  have keep: "filter_mset (\<lambda>p. totalTicks s < whenDue p) (mset (pending s1)) =
      filter_mset (\<lambda>p. totalTicks s < whenDue p) (mset (pending s)) + mset new"
  proof -
    have "filter_mset (\<lambda>p. totalTicks s < whenDue p) (mset new) = mset new"
      using n(2) t by (simp add: filter_mset_eq_conv)
    then show ?thesis using n(1) Suc.prems(3,4) by simp
  qed
  have step: "fire_loop (Suc fuel) call s =
      (if pending s1 \<noteq> [] \<and> whenDue (hd (pending s1)) \<le> totalTicks s1 then fire_loop fuel call s1 else Inr s1)"
    using Suc.prems(3) s1(1) by (simp add: list_RemoveFront_def)
  show ?case
  proof (cases "pending s1 \<noteq> [] \<and> whenDue (hd (pending s1)) \<le> totalTicks s1")
    case True
    then obtain q qs where q: "pending s1 = q # qs" "whenDue q \<le> totalTicks s1" by (cases "pending s1") auto
    from Suc.IH [OF s1(2,3) q len] obtain s2 where s2: "fire_loop fuel call s1 = Inr s2" "in_handler s2" "ready s2"
        "same_clock s1 s2" "due s2 = []" "adds_future (filter_mset (\<lambda>p. totalTicks s1 < whenDue p) (mset (pending s1))) s2"
      by (auto simp: returns_iff)
    have "adds_future (filter_mset (\<lambda>p. totalTicks s < whenDue p) (mset (pending s))) s2"
    proof -
      obtain new2 where n2: "mset (pending s2) = filter_mset (\<lambda>p. totalTicks s1 < whenDue p) (mset (pending s1)) + mset new2"
          "\<forall>p \<in> set new2. totalTicks s2 < whenDue p"
        using s2(6) by (auto simp: adds_future_def)
      have "totalTicks s2 = totalTicks s1" using s2(4) by (simp add: same_clock_def)
      then show ?thesis
        using n n2 keep t unfolding adds_future_def by (intro exI [of _ "new @ new2"]) auto
    qed
    moreover have "same_clock s s2" using s1(4) s2(4) by (simp add: same_clock_def)
    ultimately show ?thesis unfolding step using s2 True by simp
  next
    case False
    then have d: "due s1 = []" by (intro due_Nil [OF po]) auto
    have "filter_mset (\<lambda>p. totalTicks s < whenDue p) (mset (pending s1)) = mset (pending s1)"
      using d t by (auto simp: filter_mset_eq_conv due_def filter_empty_conv)
    then have "adds_future (filter_mset (\<lambda>p. totalTicks s < whenDue p) (mset (pending s))) s1"
      using keep n(2) unfolding adds_future_def by (intro exI [of _ new]) auto
    with d s1 show ?thesis unfolding step if_not_P [OF False] by simp
  qed
qed

end

section \<open>Checking for interrupts\<close>

lemma intr_ok_clock:
  "intr_ok s \<Longrightarrow> totalTicks s < t \<Longrightarrow> intr_ok (s\<lparr>idleTicks := idleTicks s + (t - totalTicks s), totalTicks := t\<rparr>)"
  by (simp add: intr_ok_def ticks_ok_def pending_ok_def)

lemma intr_ok_fields [simp]:
  "intr_ok (s\<lparr>inHandler := b\<rparr>) = intr_ok s" "intr_ok (s\<lparr>level := l\<rparr>) = intr_ok s"
  "intr_ok (s\<lparr>istatus := st\<rparr>) = intr_ok s" "intr_ok (s\<lparr>yieldOnReturn := b\<rparr>) = intr_ok s"
  by (simp_all add: intr_ok_def ticks_ok_def pending_ok_def)

lemma machine_DelayedLoad_ok:
  assumes "intr_ok s"
  shows "\<exists>m. machine_DelayedLoad s = Inr (s\<lparr>kmachine := m\<rparr>) \<and> intr_ok (s\<lparr>kmachine := m\<rparr>)"
proof (cases "kmachine s")
  case None
  then have "s\<lparr>kmachine := None\<rparr> = s" by simp
  with None assms show ?thesis by (intro exI [of _ None]) (simp add: machine_DelayedLoad_def intr_ok_def ticks_ok_def pending_ok_def)
next
  case (Some m)
  then have "machine_shape m" using assms by (simp add: intr_ok_def machine_ok_def)
  then obtain m' where "DelayedLoad m 0 0 = Inr m'" "machine_ok m'" using DelayedLoad_ok [of m 0 0] by auto
  with Some assms show ?thesis
    by (intro exI [of _ "Some m'"]) (simp add: machine_DelayedLoad_def intr_ok_def ticks_ok_def pending_ok_def)
qed

lemma length_due: "length (due s) \<le> length (pending s)"
  by (simp add: due_def)

context interrupt_handlers
begin

definition next_time :: "bool \<Rightarrow> 'w interrupt_scheme \<Rightarrow> int" where
  "next_time advance s = (if advance \<and> pending s \<noteq> [] then max (totalTicks s) (whenDue (hd (pending s))) else totalTicks s)"

lemma CheckIfDue_ok:
  assumes "intr_ok s" and "ready s" and "level s = IntOff" and "\<not> inHandler s"
  shows "returns (\<lambda>(s', fired). intr_ok s' \<and> ready s' \<and> level s' = IntOff \<and> \<not> inHandler s' \<and>
      totalTicks s' = next_time advance s \<and>
      idleTicks s' = idleTicks s + (next_time advance s - totalTicks s) \<and>
      systemTicks s' = systemTicks s \<and> userTicks s' = userTicks s \<and>
      due s' = [] \<and> (fired \<longleftrightarrow> pending s \<noteq> [] \<and> whenDue (hd (pending s)) \<le> next_time advance s) \<and>
      adds_future (filter_mset (\<lambda>p. next_time advance s < whenDue p) (mset (pending s))) s')
    (CheckIfDue call advance s)"
proof -
  have po: "pending_ok s" using assms(1) by (simp add: intr_ok_def)
  show ?thesis
  proof (cases "pending s = [] \<or> (totalTicks s < whenDue (hd (pending s)) \<and> \<not> advance)")
    case True
    then have d: "due s = []" by (intro due_Nil [OF po]) auto
    have c: "CheckIfDue call advance s = Inr (s, False)"
      using True assms(3) by (cases "pending s") (auto simp: CheckIfDue_def)
    have nt: "next_time advance s = totalTicks s" using True by (auto simp: next_time_def)
    have "filter_mset (\<lambda>p. totalTicks s < whenDue p) (mset (pending s)) = mset (pending s)"
      using d by (auto simp: due_def filter_mset_eq_conv filter_empty_conv)
    then show ?thesis
      using True assms d nt unfolding c by (auto simp: adds_future_def intro!: exI [of _ "[]"])
  next
    case False
    then obtain p rest where p: "pending s = p # rest" "whenDue p \<le> totalTicks s \<or> advance"
      by (cases "pending s") auto
    let ?s = "if totalTicks s < whenDue p
      then s\<lparr>idleTicks := idleTicks s + (whenDue p - totalTicks s), totalTicks := whenDue p\<rparr> else s"
    have nt: "totalTicks ?s = next_time advance s" "whenDue p \<le> totalTicks ?s"
        "idleTicks ?s = idleTicks s + (next_time advance s - totalTicks s)"
      using p by (auto simp: next_time_def)
    have i: "intr_ok ?s" using assms(1) intr_ok_clock [of s "whenDue p"] by simp
    obtain m where m: "machine_DelayedLoad ?s = Inr (?s\<lparr>kmachine := m\<rparr>)" "intr_ok (?s\<lparr>kmachine := m\<rparr>)"
      using machine_DelayedLoad_ok [OF i] by blast
    let ?t = "?s\<lparr>kmachine := m, inHandler := True\<rparr>"
    have t: "in_handler ?t" "ready ?t" "pending ?t = p # rest" "whenDue p \<le> totalTicks ?t" "pending ?t = pending s"
        "totalTicks ?t = totalTicks ?s"
      using m(2) assms(3) p nt ready_frame [OF assms(2), of ?t] by (simp_all add: in_handler_def split: if_splits)
    have f: "length (due ?t) \<le> length (pending ?t)" by (rule length_due)
    obtain s1 where s1: "fire_loop (length (pending ?t)) call ?t = Inr s1" "in_handler s1" "ready s1" "same_clock ?t s1"
        "due s1 = []" "adds_future (filter_mset (\<lambda>p. totalTicks ?t < whenDue p) (mset (pending ?t))) s1"
      using fire_loop_ok [OF t(1-4) f] by (auto simp: returns_iff)
    have c: "CheckIfDue call advance s = Inr (s1\<lparr>inHandler := False\<rparr>, True)"
      using assms(3) p m(1) s1(1) by (auto simp: CheckIfDue_def Let_def simp del: fire_loop.simps)
    have "idleTicks s1 = idleTicks ?s" "systemTicks s1 = systemTicks s" "userTicks s1 = userTicks s" "totalTicks s1 = totalTicks ?s"
      using s1(4) by (simp_all add: same_clock_def)
    with s1 nt t(5,6) p show ?thesis
      unfolding c using ready_frame [OF s1(3), of "s1\<lparr>inHandler := False\<rparr>"]
      by (simp add: in_handler_def due_def adds_future_def)
  qed
qed

lemma Idle_ok:
  assumes "intr_ok s" and "ready s" and "level s = IntOff" and "\<not> inHandler s"
  shows "if pending s = [] then Idle call s = Inl Halted
    else returns (\<lambda>s'. intr_ok s' \<and> ready s' \<and> level s' = IntOff \<and> \<not> inHandler s' \<and> istatus s' = SystemMode \<and>
       totalTicks s' = max (totalTicks s) (whenDue (hd (pending s))) \<and> due s' = []) (Idle call s)"
proof -
  let ?s = "s\<lparr>istatus := IdleMode\<rparr>"
  have r: "ready ?s" using ready_frame [OF assms(2)] by simp
  have "returns (\<lambda>(s', fired). intr_ok s' \<and> ready s' \<and> level s' = IntOff \<and> \<not> inHandler s' \<and>
      totalTicks s' = next_time True ?s \<and> due s' = [] \<and>
      (fired \<longleftrightarrow> pending s \<noteq> [] \<and> whenDue (hd (pending s)) \<le> next_time True ?s)) (CheckIfDue call True ?s)"
    using CheckIfDue_ok [OF _ r, of True] assms by (auto intro: returns_mono)
  then obtain s1 fired where c: "CheckIfDue call True ?s = Inr (s1, fired)"
      "intr_ok s1" "ready s1" "level s1 = IntOff" "\<not> inHandler s1" "totalTicks s1 = next_time True ?s" "due s1 = []"
      "fired \<longleftrightarrow> pending s \<noteq> [] \<and> whenDue (hd (pending s)) \<le> next_time True ?s"
    by (auto simp: returns_iff)
  show ?thesis
    using c ready_frame [OF c(3), of "s1\<lparr>istatus := SystemMode\<rparr>"]
    by (auto simp: Idle_def Halt_def next_time_def due_def)
qed

lemma OneTick_ok:
  assumes "intr_ok s" and "ready s" and "\<not> inHandler s"
  shows "\<exists>s1. OneTick call yield s =
      (if yieldOnReturn s1
       then bindR (yield (s1\<lparr>yieldOnReturn := False, istatus := SystemMode\<rparr>)) (\<lambda>s'. Inr (s'\<lparr>istatus := istatus s\<rparr>))
       else Inr s1) \<and>
    intr_ok s1 \<and> ready s1 \<and> level s1 = IntOn \<and> \<not> inHandler s1 \<and> due s1 = [] \<and>
    totalTicks s1 = totalTicks s + (if istatus s = SystemMode then SystemTick else UserTick)"
proof -
  let ?s = "ChangeLevel IntOn IntOff (if istatus s = SystemMode
               then s\<lparr>totalTicks := totalTicks s + SystemTick, systemTicks := systemTicks s + SystemTick\<rparr>
               else s\<lparr>totalTicks := totalTicks s + UserTick, userTicks := userTicks s + UserTick\<rparr>)"
  have s: "intr_ok ?s" "ready ?s" "level ?s = IntOff" "\<not> inHandler ?s"
    using assms ready_frame [OF assms(2)] by (auto simp: ChangeLevel_def intr_ok_def ticks_ok_def pending_ok_def)
  obtain s1 fired where c: "CheckIfDue call False ?s = Inr (s1, fired)" "intr_ok s1" "ready s1" "\<not> inHandler s1"
      "due s1 = []" "totalTicks s1 = totalTicks ?s"
    using CheckIfDue_ok [OF s, of False] by (auto simp: returns_iff next_time_def)
  let ?t = "s1\<lparr>level := IntOn\<rparr>"
  have "OneTick call yield s =
      (if yieldOnReturn ?t
       then bindR (yield (?t\<lparr>yieldOnReturn := False, istatus := SystemMode\<rparr>)) (\<lambda>s'. Inr (s'\<lparr>istatus := istatus s\<rparr>))
       else Inr ?t)"
    unfolding OneTick_def Let_def c(1) by (simp add: ChangeLevel_def)
  moreover have "intr_ok ?t \<and> ready ?t \<and> level ?t = IntOn \<and> \<not> inHandler ?t \<and> due ?t = [] \<and>
    totalTicks ?t = totalTicks s + (if istatus s = SystemMode then SystemTick else UserTick)"
    using c ready_frame [OF c(3), of ?t] by (simp add: due_def ChangeLevel_def)
  ultimately show ?thesis by blast
qed

end

section \<open>The timer keeps the machine ticking\<close>

definition alarm_call :: "callback \<Rightarrow> 'w alarm_scheme \<Rightarrow> 'w alarm_scheme outcome" where
  "alarm_call c s = (case c of TimerCall \<Rightarrow> Timer_CallBack s | _ \<Rightarrow> Inl NullPointer)"

definition timer_only :: "'w alarm_scheme \<Rightarrow> bool" where
  "timer_only s \<longleftrightarrow> (\<forall>p \<in> set (pending s). callOnInterrupt p = TimerCall) \<and> (pending s \<noteq> [] \<or> disable s)"

lemma smod_200: "0 \<le> r \<Longrightarrow> 0 \<le> r smod 200 \<and> r smod 200 < (200 :: int)"
  by (simp add: smod_nonneg)

definition timer_set :: "'w alarm_scheme \<Rightarrow> 'w alarm_scheme \<Rightarrow> bool" where
  "timer_set s s' \<longleftrightarrow> intr_ok s' \<and> same_clock s s' \<and> level s' = level s \<and> inHandler s' = inHandler s \<and>
     disable s' = disable s \<and>
     (\<exists>p. pending s' = sorted_ins PendingCompare p (pending s) \<and> callOnInterrupt p = TimerCall \<and>
        totalTicks s < whenDue p \<and> whenDue p \<le> totalTicks s + 2 * TimerTicks)"

lemma Schedule_timer:
  assumes "intr_ok s" and "0 < d" and "d \<le> 200"
  shows "returns (timer_set s) (Schedule TimerCall d TimerInt s)"
proof -
  obtain p where p: "Schedule TimerCall d TimerInt s = Inr (s\<lparr>nextAddress := Suc (nextAddress s),
       pending := sorted_ins PendingCompare p (pending s)\<rparr>)" "whenDue p = totalTicks s + d"
     "callOnInterrupt p = TimerCall"
     "intr_ok (s\<lparr>nextAddress := Suc (nextAddress s), pending := sorted_ins PendingCompare p (pending s)\<rparr>)"
    using Schedule_ok [OF assms(1,2), of TimerCall TimerInt] by blast
  then show ?thesis
    using assms(2,3) by (auto simp: timer_set_def same_clock_def TimerTicks_def intro!: exI [of _ p])
qed

lemma SetInterrupt_ok:
  assumes "intr_ok s" and "\<not> disable s"
  shows "returns (timer_set s) (SetInterrupt s)"
proof (cases "randomize s")
  case True
  let ?s = "s\<lparr>randomCount := Suc (randomCount s)\<rparr>"
  let ?d = "1 + int (randomValue s (randomCount s)) smod 200"
  have d: "0 < ?d" "?d \<le> 200" using smod_200 [of "int (randomValue s (randomCount s))"] by auto
  have "intr_ok ?s" using assms(1) by (simp add: intr_ok_def ticks_ok_def pending_ok_def)
  from Schedule_timer [OF this d] have "returns (timer_set s) (Schedule TimerCall ?d TimerInt ?s)"
    by (rule returns_mono) (simp add: timer_set_def same_clock_def)
  with True assms(2) show ?thesis by (simp add: SetInterrupt_def RandomNumber_def TimerTicks_def Let_def)
next
  case False
  with Schedule_timer [OF assms(1), of 100] assms(2) show ?thesis
    by (simp add: SetInterrupt_def TimerTicks_def)
qed

lemma Timer_CallBack_ok:
  assumes "in_handler s" and "\<forall>p \<in> set (pending s). callOnInterrupt p = TimerCall"
  shows "returns (\<lambda>s'. in_handler s' \<and> timer_only s' \<and> same_clock s s' \<and> adds_future (mset (pending s)) s')
    (Timer_CallBack s)"
proof -
  have "\<exists>b. Alarm_CallBack s = Inr (s\<lparr>yieldOnReturn := b\<rparr>)"
  proof (cases "istatus s = IdleMode")
    case True
    then show ?thesis by (intro exI [of _ "yieldOnReturn s"]) (simp add: Alarm_CallBack_def Let_def)
  next
    case False
    then show ?thesis
      using assms(1) by (intro exI [of _ True]) (simp add: Alarm_CallBack_def YieldOnReturn_def in_handler_def Let_def)
  qed
  then obtain b where b: "Alarm_CallBack s = Inr (s\<lparr>yieldOnReturn := b\<rparr>)" ..
  let ?s = "s\<lparr>yieldOnReturn := b\<rparr>"
  have i: "intr_ok ?s" using assms(1) by (simp add: in_handler_def)
  show ?thesis
  proof (cases "disable s")
    case True
    then have "SetInterrupt ?s = Inr ?s" by (simp add: SetInterrupt_def)
    with b True assms show ?thesis
      by (auto simp: Timer_CallBack_def timer_only_def in_handler_def same_clock_def adds_future_def intro!: exI [of _ "[]"])
  next
    case False
    then have "returns (timer_set ?s) (SetInterrupt ?s)" using SetInterrupt_ok [OF i] by simp
    then have "returns (timer_set ?s) (Timer_CallBack s)" by (simp add: Timer_CallBack_def b)
    then show ?thesis
    proof (rule returns_mono)
      fix s' assume t: "timer_set ?s s'"
      then obtain p where p: "pending s' = sorted_ins PendingCompare p (pending s)" "callOnInterrupt p = TimerCall"
          "totalTicks s < whenDue p" and c: "same_clock s s'"
        by (auto simp: timer_set_def same_clock_def)
      have "adds_future (mset (pending s)) s'"
        using p c by (auto simp: adds_future_def same_clock_def intro!: exI [of _ "[p]"])
      moreover have "pending s' \<noteq> []" using p(1) by (metis list.set(1) insert_not_empty set_sorted_ins)
      ultimately show "in_handler s' \<and> timer_only s' \<and> same_clock s s' \<and> adds_future (mset (pending s)) s'"
        using t p c assms by (auto simp: timer_set_def in_handler_def timer_only_def)
    qed
  qed
qed

interpretation clock: interrupt_handlers alarm_call timer_only
proof
  fix s :: "'a alarm_scheme" and p rest
  assume a: "in_handler s" "timer_only s" "pending s = p # rest"
  let ?s = "s\<lparr>pending := rest\<rparr>"
  have "in_handler ?s" using a(1) intr_ok_tl [OF _ a(3)] by (simp add: in_handler_def)
  moreover have "\<forall>p \<in> set (pending ?s). callOnInterrupt p = TimerCall" "callOnInterrupt p = TimerCall"
    using a(2,3) by (simp_all add: timer_only_def)
  ultimately have "returns (\<lambda>s'. in_handler s' \<and> timer_only s' \<and> same_clock ?s s' \<and>
      adds_future (mset (pending ?s)) s') (alarm_call (callOnInterrupt p) ?s)"
    using Timer_CallBack_ok [of ?s] by (simp add: alarm_call_def)
  then show "returns (\<lambda>s'. in_handler s' \<and> timer_only s' \<and> same_clock s s' \<and> adds_future (mset rest) s')
      (alarm_call (callOnInterrupt p) ?s)"
    by (rule returns_mono) (simp add: same_clock_def)
next
  fix s s' :: "'a alarm_scheme"
  assume "timer_only s" "pending s' = pending s" "interrupt.more s' = interrupt.more s"
  moreover from this(3) have "disable s' = disable s" by (cases s; cases s') simp
  ultimately show "timer_only s'" by (simp add: timer_only_def)
qed

section \<open>Properties\<close>

definition demo_clock :: alarm where
  "demo_clock = \<lparr>totalTicks = 0, idleTicks = 0, systemTicks = 0, userTicks = 0, numDiskReads = 0,
     numDiskWrites = 0, numConsoleCharsRead = 0, numConsoleCharsWritten = 0, numPageFaults = 0,
     numPacketsSent = 0, numPacketsRecvd = 0, level = IntOff,
     pending = [\<lparr>address = 0, callOnInterrupt = TimerCall, whenDue = 100, itype = TimerInt\<rparr>],
     inHandler = False, yieldOnReturn = False, istatus = SystemMode, nextAddress = 1, kmachine = None,
     randomize = False, disable = False, randomValue = (\<lambda>_. 0), randomCount = 0\<rparr>"

lemma demo_clock_ok: "intr_ok demo_clock" "timer_only demo_clock"
  "level demo_clock = IntOff" "\<not> inHandler demo_clock"
  by (simp_all add: demo_clock_def intr_ok_def pending_ok_def ticks_ok_def timer_only_def)



text \<open>
  The machine never halts by itself while the timer runs. From a state in which a timer
  interrupt is pending or the timer is disabled, \<^verbatim>\<open>Idle\<close> advances the clock to the next interrupt, runs
  its handler and returns in system mode to such a state again; it halts only when nothing is pending, which
  needs the timer to be disabled.
\<close>

theorem Idle_timer:
  assumes "intr_ok s" and "timer_only s" and "level s = IntOff" and "\<not> inHandler s"
  shows "if pending s = [] then disable s \<and> Idle alarm_call s = Inl Halted
    else \<exists>s'. Idle alarm_call s = Inr s' \<and> totalTicks s' = max (totalTicks s) (whenDue (hd (pending s))) \<and>
      istatus s' = SystemMode \<and> level s' = IntOff \<and> \<not> inHandler s' \<and> intr_ok s' \<and> timer_only s' \<and>
      (\<forall>p \<in> set (pending s'). totalTicks s' < whenDue p)"
proof -
  show ?thesis
    using clock.Idle_ok [OF assms] assms(2)
    by (auto simp: timer_only_def [of s] returns_iff due_def filter_empty_conv not_le split: if_splits)
qed

theorem Idle_timer_witness:
  "\<exists>s'. Idle alarm_call demo_clock = Inr s' \<and> totalTicks s' = 100"
  using Idle_timer [OF demo_clock_ok] by (auto simp: demo_clock_def)

text \<open>
  \<^verbatim>\<open>OneTick\<close> charges one user tick, or ten system ticks, to the clock and to the matching
  account, fires exactly the interrupts that are then due with interrupts off, leaves them enabled, and calls
  \<^verbatim>\<open>Yield\<close>, in system mode and with the request cleared, just when a handler has asked for a context switch.
\<close>

theorem OneTick_timer:
  assumes "intr_ok s" and "timer_only s" and "\<not> inHandler s"
  shows "\<exists>s1. OneTick alarm_call yield s =
      (if yieldOnReturn s1
       then bindR (yield (s1\<lparr>yieldOnReturn := False, istatus := SystemMode\<rparr>)) (\<lambda>s'. Inr (s'\<lparr>istatus := istatus s\<rparr>))
       else Inr s1) \<and>
    totalTicks s1 = totalTicks s + (if istatus s = SystemMode then 10 else 1) \<and>
    totalTicks s1 = idleTicks s1 + systemTicks s1 + userTicks s1 \<and>
    intr_ok s1 \<and> level s1 = IntOn \<and> \<not> inHandler s1 \<and> (\<forall>p \<in> set (pending s1). totalTicks s1 < whenDue p)"
proof -
  show ?thesis
    using clock.OneTick_ok [OF assms, of yield]
    by (auto simp: due_def filter_empty_conv not_le SystemTick_def UserTick_def intr_ok_def ticks_ok_def)
qed

theorem OneTick_timer_witness:
  "\<exists>s1. totalTicks s1 = 10 \<and> OneTick alarm_call (\<lambda>s. Inr s) demo_clock =
      (if yieldOnReturn s1
       then bindR (Inr (s1\<lparr>yieldOnReturn := False, istatus := SystemMode\<rparr>)) (\<lambda>s'. Inr (s'\<lparr>istatus := SystemMode\<rparr>))
       else Inr s1)"
  using OneTick_timer [OF demo_clock_ok(1,2,4), of "\<lambda>s. Inr s"] by (auto simp: demo_clock_def)

end
