(* ===== verification/Disk.thy ===== *)
theory Disk
  imports Interrupt
begin

text \<open>
  The disk device of \<^verbatim>\<open>code/machine/disk.cc\<close>. The UNIX file that stores the disk is its list of bytes,
  the magic number first; a request reads or writes it at once and schedules the interrupt that
  reports the end of the operation, after the latency the head position and the track buffer
  give. The interrupt handler passes control to \<^verbatim>\<open>callWhenDone\<close>, the argument \<open>done\<close>. The lemmas show when a
  request is legal, that a sector read back is the sector last written, that sectors do not overlap,
  and that the computed latency is the time at which the requested sector has passed the head.
\<close>

section \<open>State\<close>

definition SectorSize :: int where "SectorSize = 128"
definition SectorsPerTrack :: int where "SectorsPerTrack = 32"
definition NumTracks :: int where "NumTracks = 32"
definition NumSectors :: int where "NumSectors = SectorsPerTrack * NumTracks"
definition MagicNumber :: u32 where "MagicNumber = 0x456789ab"
definition MagicSize :: int where "MagicSize = 4"
definition DiskSize :: int where "DiskSize = MagicSize + NumSectors * SectorSize"
definition RotationTime :: int where "RotationTime = 500"
definition SeekTime :: int where "SeekTime = 500"

lemmas disk_sizes [simp] = SectorSize_def SectorsPerTrack_def NumTracks_def NumSectors_def
  MagicSize_def DiskSize_def RotationTime_def SeekTime_def

record disk = alarm +
  active :: bool
  lastSector :: int
  bufferInit :: int
  diskFile :: "u8 list"

text \<open>The host file: \<^verbatim>\<open>Lseek\<close> to an offset, then \<^verbatim>\<open>Read\<close> or \<^verbatim>\<open>WriteFile\<close>.\<close>

definition file_read :: "u8 list \<Rightarrow> int \<Rightarrow> int \<Rightarrow> u8 list" where
  "file_read f off n = take (nat n) (drop (nat off) f)"

definition file_write :: "u8 list \<Rightarrow> int \<Rightarrow> u8 list \<Rightarrow> u8 list" where
  "file_write f off data =
     (let f = f @ replicate (nat off - length f) 0 in
      take (nat off) f @ data @ drop (nat off + length data) f)"

definition int_bytes :: "u32 \<Rightarrow> u8 list" where
  "int_bytes w = [byte_of 0 w, byte_of 1 w, byte_of 2 w, byte_of 3 w]"

section \<open>Operations\<close>

definition Disk_new :: "u8 list option \<Rightarrow> 'w disk_scheme \<Rightarrow> 'w disk_scheme outcome" where
  "Disk_new existing s =
     (let s = s\<lparr>lastSector := 0, bufferInit := 0\<rparr> in
      case existing of
        Some f \<Rightarrow>
          bindR (ASSERT (file_read f 0 MagicSize = int_bytes MagicNumber)) (\<lambda>_.
          Inr (s\<lparr>diskFile := f, active := False\<rparr>))
      | None \<Rightarrow>
          let f = file_write [] 0 (int_bytes MagicNumber);
              f = file_write f (DiskSize - 4) (int_bytes 0)
          in Inr (s\<lparr>diskFile := f, active := False\<rparr>))"

definition TimeToSeek :: "'w disk_scheme \<Rightarrow> int \<Rightarrow> int \<times> int" where
  "TimeToSeek s newSector =
     (let newTrack = newSector sdiv SectorsPerTrack;
          oldTrack = lastSector s sdiv SectorsPerTrack;
          seek = \<bar>newTrack - oldTrack\<bar> * SeekTime;
          over = (totalTicks s + seek) smod RotationTime;
          rotation = (if over > 0 then RotationTime - over else 0)
      in (seek, rotation))"

definition ModuloDiff :: "int \<Rightarrow> int \<Rightarrow> int" where
  "ModuloDiff to from =
     (let toOffset = to smod SectorsPerTrack; fromOffset = from smod SectorsPerTrack
      in ((toOffset - fromOffset) + SectorsPerTrack) smod SectorsPerTrack)"

definition ComputeLatency :: "'w disk_scheme \<Rightarrow> int \<Rightarrow> bool \<Rightarrow> int" where
  "ComputeLatency s newSector writing =
     (let (seek, rotation) = TimeToSeek s newSector;
          timeAfter = totalTicks s + seek + rotation
      in if writing = False \<and> seek = 0 \<and>
            (timeAfter - bufferInit s) sdiv RotationTime > ModuloDiff newSector (bufferInit s sdiv RotationTime)
         then RotationTime
         else let rotation = rotation + ModuloDiff newSector (timeAfter sdiv RotationTime) * RotationTime
              in seek + rotation + RotationTime)"

definition UpdateLast :: "int \<Rightarrow> 'w disk_scheme \<Rightarrow> 'w disk_scheme" where
  "UpdateLast newSector s =
     (let (seek, rotate) = TimeToSeek s newSector;
          s = (if seek \<noteq> 0 then s\<lparr>bufferInit := totalTicks s + seek + rotate\<rparr> else s)
      in s\<lparr>lastSector := newSector\<rparr>)"

definition ReadRequest :: "int \<Rightarrow> 'w disk_scheme \<Rightarrow> ('w disk_scheme \<times> u8 list) outcome" where
  "ReadRequest sectorNumber s =
     (let ticks = ComputeLatency s sectorNumber False in
      bindR (ASSERT (\<not> active s)) (\<lambda>_.
      bindR (ASSERT (sectorNumber \<ge> 0 \<and> sectorNumber < NumSectors)) (\<lambda>_.
      let data = file_read (diskFile s) (SectorSize * sectorNumber + MagicSize) SectorSize;
          s = UpdateLast sectorNumber (s\<lparr>active := True\<rparr>);
          s = s\<lparr>numDiskReads := numDiskReads s + 1\<rparr>
      in bindR (Schedule DiskCall ticks DiskInt s) (\<lambda>s. Inr (s, data)))))"

definition WriteRequest :: "int \<Rightarrow> u8 list \<Rightarrow> 'w disk_scheme \<Rightarrow> 'w disk_scheme outcome" where
  "WriteRequest sectorNumber data s =
     (let ticks = ComputeLatency s sectorNumber True in
      bindR (ASSERT (\<not> active s)) (\<lambda>_.
      bindR (ASSERT (sectorNumber \<ge> 0 \<and> sectorNumber < NumSectors)) (\<lambda>_.
      let s = s\<lparr>diskFile := file_write (diskFile s) (SectorSize * sectorNumber + MagicSize)
                             (take (nat SectorSize) data)\<rparr>;
          s = UpdateLast sectorNumber (s\<lparr>active := True\<rparr>);
          s = s\<lparr>numDiskWrites := numDiskWrites s + 1\<rparr>
      in Schedule DiskCall ticks DiskInt s)))"

definition Disk_CallBack :: "('w disk_scheme \<Rightarrow> 'w disk_scheme outcome) \<Rightarrow> 'w disk_scheme \<Rightarrow> 'w disk_scheme outcome" where
  "Disk_CallBack done s = done (s\<lparr>active := False\<rparr>)"

section \<open>Lemmas\<close>

definition disk_ok :: "'w disk_scheme \<Rightarrow> bool" where
  "disk_ok s \<longleftrightarrow> intr_ok s \<and> 0 \<le> totalTicks s \<and> length (diskFile s) = nat DiskSize \<and>
     0 \<le> lastSector s \<and> lastSector s < NumSectors"

definition sector_data :: "'w disk_scheme \<Rightarrow> int \<Rightarrow> u8 list" where
  "sector_data s n = file_read (diskFile s) (SectorSize * n + MagicSize) SectorSize"

lemma length_file_read: "0 \<le> off \<Longrightarrow> 0 \<le> n \<Longrightarrow> off + n \<le> int (length f) \<Longrightarrow> length (file_read f off n) = nat n"
  by (simp add: file_read_def nat_le_iff)

lemma file_write_in:
  "0 \<le> off \<Longrightarrow> off + int (length d) \<le> int (length f) \<Longrightarrow>
   file_write f off d = take (nat off) f @ d @ drop (nat off + length d) f"
  by (simp add: file_write_def Let_def nat_le_iff)

lemma length_file_write:
  "0 \<le> off \<Longrightarrow> off + int (length d) \<le> int (length f) \<Longrightarrow> length (file_write f off d) = length f"
  by (simp add: file_write_in)

lemma file_read_write_same:
  "0 \<le> off \<Longrightarrow> off + int (length d) \<le> int (length f) \<Longrightarrow> file_read (file_write f off d) off (int (length d)) = d"
  by (simp add: file_write_in file_read_def)

lemma file_read_write_other:
  assumes "0 \<le> off" and "off + int (length d) \<le> int (length f)" and "0 \<le> o2" and "0 \<le> n"
    and "o2 + n \<le> off \<or> off + int (length d) \<le> o2"
  shows "file_read (file_write f off d) o2 n = file_read f o2 n"
proof -
  have w: "file_write f off d = take (nat off) f @ d @ drop (nat off + length d) f"
    by (rule file_write_in [OF assms(1,2)])
  from assms(5) show ?thesis
  proof
    assume a: "o2 + n \<le> off"
    have "nat o2 + nat n \<le> nat off" "nat off \<le> length f" using a assms by linarith+
    then have "take (nat n) (drop (nat o2) (take (nat off) f)) = take (nat n) (drop (nat o2) f)"
      by (simp add: drop_take min_def)
    moreover have "length (drop (nat o2) (take (nat off) f)) \<ge> nat n"
      using \<open>nat o2 + nat n \<le> nat off\<close> \<open>nat off \<le> length f\<close> by simp
    ultimately show ?thesis by (simp add: w file_read_def)
  next
    assume a: "off + int (length d) \<le> o2"
    then have "nat off + length d \<le> nat o2" "nat off \<le> length f" using assms by linarith+
    then show ?thesis by (simp add: w file_read_def add.commute)
  qed
qed

lemma TimeToSeek_eq:
  assumes "0 \<le> n" and "0 \<le> lastSector s" and "0 \<le> totalTicks s"
  shows "TimeToSeek s n = (let seek = \<bar>n div 32 - lastSector s div 32\<bar> * 500; over = (totalTicks s + seek) mod 500
     in (seek, if over > 0 then 500 - over else 0))"
  using assms by (simp add: TimeToSeek_def sdiv_nonneg smod_nonneg Let_def)

lemma ModuloDiff_eq: "0 \<le> a \<Longrightarrow> 0 \<le> b \<Longrightarrow> ModuloDiff a b = (a - b) mod 32"
proof -
  assume ab: "0 \<le> a" "0 \<le> b"
  have "0 \<le> a mod 32 - b mod 32 + 32" using pos_mod_bound [of 32 b] pos_mod_sign [of 32 a] by simp
  then have "ModuloDiff a b = (a mod 32 - b mod 32 + 32) mod 32"
    using ab by (simp add: ModuloDiff_def smod_nonneg Let_def)
  also have "\<dots> = (a - b) mod 32" by (simp add: mod_diff_eq)
  finally show ?thesis .
qed

definition head_at :: "int \<Rightarrow> int" where
  "head_at t = (t div RotationTime) mod SectorsPerTrack"

lemma ComputeLatency_correct:
  assumes "0 \<le> n" and "n < NumSectors" and "0 \<le> lastSector s" and "lastSector s < NumSectors" and "0 \<le> totalTicks s"
  shows "RotationTime \<le> ComputeLatency s n w"
    and "ComputeLatency s n w \<le> (NumTracks - 1) * SeekTime + RotationTime + SectorsPerTrack * RotationTime"
    and "w \<Longrightarrow> (totalTicks s + ComputeLatency s n w) mod RotationTime = 0 \<and>
       head_at (totalTicks s + ComputeLatency s n w - RotationTime) = n mod SectorsPerTrack"
proof -
  define seek where "seek = \<bar>n div 32 - lastSector s div 32\<bar> * 500"
  define over where "over = (totalTicks s + seek) mod 500"
  define rot where "rot = (if over > 0 then 500 - over else 0)"
  define t where "t = totalTicks s + seek + rot"
  define D where "D = (n - t div 500) mod 32"
  have ts: "TimeToSeek s n = (seek, rot)"
    using assms by (simp add: TimeToSeek_eq seek_def over_def rot_def Let_def)
  have over: "0 \<le> over" "over < 500" by (simp_all add: over_def)
  then have rot: "0 \<le> rot" "rot < 500" by (auto simp: rot_def)
  have sk: "0 \<le> seek" "seek \<le> 15500"
  proof -
    have "0 \<le> n div 32" "n div 32 \<le> 31" "0 \<le> lastSector s div 32" "lastSector s div 32 \<le> 31" using assms by simp_all
    then have "\<bar>n div 32 - lastSector s div 32\<bar> \<le> 31" by linarith
    then show "seek \<le> 15500" by (simp add: seek_def)
  qed (simp add: seek_def)
  have t0: "0 \<le> t" using assms sk rot by (simp add: t_def)
  have tm: "t mod 500 = 0"
  proof (cases "over = 0")
    case True
    then show ?thesis by (simp add: t_def rot_def over_def)
  next
    case False
    then have "t = (totalTicks s + seek - over) + 500" using over by (simp add: t_def rot_def)
    then show ?thesis by (simp add: over_def minus_mod_eq_mult_div)
  qed
  have D: "0 \<le> D" "D < 32" by (simp_all add: D_def)
  have md: "ModuloDiff n (t sdiv 500) = D"
    using assms t0 by (simp add: ModuloDiff_eq sdiv_nonneg D_def pos_imp_zdiv_nonneg_iff)
  have L: "ComputeLatency s n w = 500 \<or> ComputeLatency s n w = seek + (rot + D * 500) + 500"
    using md by (auto simp: ComputeLatency_def ts t_def Let_def)
  then show "RotationTime \<le> ComputeLatency s n w"
    and "ComputeLatency s n w \<le> (NumTracks - 1) * SeekTime + RotationTime + SectorsPerTrack * RotationTime"
    using sk rot D by auto
  show "(totalTicks s + ComputeLatency s n w) mod RotationTime = 0 \<and>
       head_at (totalTicks s + ComputeLatency s n w - RotationTime) = n mod SectorsPerTrack" if w
  proof -
    have "ComputeLatency s n w = seek + (rot + D * 500) + 500" using md that by (simp add: ComputeLatency_def ts t_def Let_def)
    then have e: "totalTicks s + ComputeLatency s n w = t + D * 500 + 500" by (simp add: t_def)
    have "(t div 500 + D) mod 32 = n mod 32" by (simp add: D_def mod_simps)
    then show ?thesis unfolding head_at_def e using tm by (simp add: mod_add_eq add.commute)
  qed
qed

lemma UpdateLast_fields [simp]:
  "lastSector (UpdateLast n s) = n" "diskFile (UpdateLast n s) = diskFile s" "active (UpdateLast n s) = active s"
  "totalTicks (UpdateLast n s) = totalTicks s" "pending (UpdateLast n s) = pending s"
  "level (UpdateLast n s) = level s" "inHandler (UpdateLast n s) = inHandler s"
  "numDiskReads (UpdateLast n s) = numDiskReads s" "numDiskWrites (UpdateLast n s) = numDiskWrites s"
  by (simp_all add: UpdateLast_def Let_def split: prod.split)

lemma intr_ok_disk [simp]:
  "intr_ok (UpdateLast n s) = intr_ok s" "intr_ok (s\<lparr>active := a\<rparr>) = intr_ok s"
  "intr_ok (s\<lparr>diskFile := f\<rparr>) = intr_ok s" "intr_ok (s\<lparr>numDiskReads := k\<rparr>) = intr_ok s"
  "intr_ok (s\<lparr>numDiskWrites := k\<rparr>) = intr_ok s"
  by (simp_all add: UpdateLast_def intr_ok_def ticks_ok_def pending_ok_def Let_def split: prod.split)

definition request_posted :: "int \<Rightarrow> 'w disk_scheme \<Rightarrow> 'w disk_scheme \<Rightarrow> bool" where
  "request_posted n s s' \<longleftrightarrow> disk_ok s' \<and> active s' \<and> lastSector s' = n \<and> totalTicks s' = totalTicks s \<and>
     (\<exists>p. pending s' = sorted_ins PendingCompare p (pending s) \<and> callOnInterrupt p = DiskCall \<and>
        totalTicks s + RotationTime \<le> whenDue p)"

lemma Schedule_disk:
  assumes "disk_ok s" and "0 \<le> n" and "n < NumSectors" and "RotationTime \<le> ticks"
    and "totalTicks s1 = totalTicks s" and "pending s1 = pending s" and "intr_ok s1"
    and "length (diskFile s1) = nat DiskSize" and "lastSector s1 = n" and "active s1"
  shows "\<exists>s'. Schedule DiskCall ticks DiskInt s1 = Inr s' \<and> request_posted n s s' \<and> diskFile s' = diskFile s1 \<and>
     numDiskReads s' = numDiskReads s1 \<and> numDiskWrites s' = numDiskWrites s1"
proof -
  have "0 < ticks" using assms(4) by simp
  from Schedule_ok [OF assms(7) this, of DiskCall DiskInt] obtain p where
    p: "Schedule DiskCall ticks DiskInt s1 = Inr (s1\<lparr>nextAddress := Suc (nextAddress s1),
       pending := sorted_ins PendingCompare p (pending s1)\<rparr>)" "whenDue p = totalTicks s1 + ticks"
     "callOnInterrupt p = DiskCall"
     "intr_ok (s1\<lparr>nextAddress := Suc (nextAddress s1), pending := sorted_ins PendingCompare p (pending s1)\<rparr>)"
    by blast
  with assms show ?thesis
    by (auto simp: request_posted_def disk_ok_def intro!: exI [of _ p])
qed

lemma offsets:
  assumes "0 \<le> n" and "n < NumSectors"
  shows "0 \<le> SectorSize * n + MagicSize" and "SectorSize * n + MagicSize + SectorSize \<le> DiskSize"
  using assms by simp_all

lemma ReadRequest_ok:
  assumes "disk_ok s" and "\<not> active s" and "0 \<le> n" and "n < NumSectors"
  shows "\<exists>s'. ReadRequest n s = Inr (s', sector_data s n) \<and> request_posted n s s' \<and> diskFile s' = diskFile s \<and>
     numDiskReads s' = numDiskReads s + 1 \<and> numDiskWrites s' = numDiskWrites s"
proof -
  let ?s1 = "(UpdateLast n (s\<lparr>active := True\<rparr>))\<lparr>numDiskReads := numDiskReads s + 1\<rparr>"
  have d: "intr_ok s" "0 \<le> totalTicks s" "length (diskFile s) = nat DiskSize" "0 \<le> lastSector s" "lastSector s < NumSectors"
    using assms(1) by (simp_all add: disk_ok_def)
  have "RotationTime \<le> ComputeLatency s n False" by (rule ComputeLatency_correct(1) [OF assms(3,4) d(4,5,2)])
  then obtain s' where "Schedule DiskCall (ComputeLatency s n False) DiskInt ?s1 = Inr s'" "request_posted n s s'"
      "diskFile s' = diskFile s" "numDiskReads s' = numDiskReads s + 1" "numDiskWrites s' = numDiskWrites s"
    using Schedule_disk [OF assms(1,3,4), of "ComputeLatency s n False" ?s1] d by auto
  then show ?thesis using assms by (simp add: ReadRequest_def Let_def sector_data_def)
qed

lemma WriteRequest_ok:
  assumes "disk_ok s" and "\<not> active s" and "0 \<le> n" and "n < NumSectors" and "length data = nat SectorSize"
  shows "\<exists>s'. WriteRequest n data s = Inr s' \<and> request_posted n s s' \<and>
     diskFile s' = file_write (diskFile s) (SectorSize * n + MagicSize) data \<and>
     numDiskReads s' = numDiskReads s \<and> numDiskWrites s' = numDiskWrites s + 1"
proof -
  let ?f = "file_write (diskFile s) (SectorSize * n + MagicSize) data"
  let ?s1 = "(UpdateLast n (s\<lparr>diskFile := ?f, active := True\<rparr>))\<lparr>numDiskWrites := numDiskWrites s + 1\<rparr>"
  have d: "intr_ok s" "0 \<le> totalTicks s" "length (diskFile s) = nat DiskSize" "0 \<le> lastSector s" "lastSector s < NumSectors"
    using assms(1) by (simp_all add: disk_ok_def)
  have f: "length ?f = nat DiskSize"
    using offsets [OF assms(3,4)] assms(5) d(3) by (subst length_file_write) simp_all
  have "RotationTime \<le> ComputeLatency s n True" by (rule ComputeLatency_correct(1) [OF assms(3,4) d(4,5,2)])
  then obtain s' where "Schedule DiskCall (ComputeLatency s n True) DiskInt ?s1 = Inr s'" "request_posted n s s'"
      "diskFile s' = ?f" "numDiskReads s' = numDiskReads s" "numDiskWrites s' = numDiskWrites s + 1"
    using Schedule_disk [OF assms(1,3,4), of "ComputeLatency s n True" ?s1] d f by auto
  then show ?thesis using assms by (simp add: WriteRequest_def Let_def)
qed

lemma sector_write:
  assumes "disk_ok s" and "0 \<le> n" and "n < NumSectors" and "0 \<le> k" and "k < NumSectors" and "length data = nat SectorSize"
    and "diskFile s' = file_write (diskFile s) (SectorSize * n + MagicSize) data"
  shows "sector_data s' k = (if k = n then data else sector_data s k)"
proof -
  have len: "int (length (diskFile s)) = DiskSize" using assms(1) by (simp add: disk_ok_def)
  have on: "0 \<le> SectorSize * n + MagicSize" "SectorSize * n + MagicSize + int (length data) \<le> int (length (diskFile s))"
    using offsets [OF assms(2,3)] assms(6) len by simp_all
  show ?thesis
  proof (cases "k = n")
    case True
    with file_read_write_same [OF on] assms(6,7) show ?thesis by (simp add: sector_data_def)
  next
    case False
    then have "k + 1 \<le> n \<or> n + 1 \<le> k" by linarith
    then have "SectorSize * k + MagicSize + SectorSize \<le> SectorSize * n + MagicSize \<or>
        SectorSize * n + MagicSize + int (length data) \<le> SectorSize * k + MagicSize" using assms(6) by auto
    with file_read_write_other [OF on offsets(1) [OF assms(4,5)], of SectorSize] False assms(7) show ?thesis
      by (simp add: sector_data_def)
  qed
qed

section \<open>Properties\<close>

definition demo_disk :: disk where
  "demo_disk = \<lparr>totalTicks = 0, idleTicks = 0, systemTicks = 0, userTicks = 0, numDiskReads = 0,
     numDiskWrites = 0, numConsoleCharsRead = 0, numConsoleCharsWritten = 0, numPageFaults = 0,
     numPacketsSent = 0, numPacketsRecvd = 0, level = IntOff, pending = [], inHandler = False,
     yieldOnReturn = False, istatus = SystemMode, nextAddress = 0, kmachine = None,
     randomize = False, disable = False, randomValue = (\<lambda>_. 0), randomCount = 0,
     active = False, lastSector = 0, bufferInit = 0, diskFile = replicate 131076 0\<rparr>"

lemma demo_disk_ok: "disk_ok demo_disk"
  by (simp add: demo_disk_def disk_ok_def intr_ok_def pending_ok_def ticks_ok_def)

text \<open>
  On an idle, well-formed disk a request for a legal sector passes all its assertions. A read
  returns the sector's 128 bytes; a write makes later reads of that sector return the data
  written and leaves every other sector as it was. Either makes the disk active and schedules
  exactly one disk interrupt, no sooner than one sector's transfer time away. A request while the
  disk is active, or for a sector outside the disk, fails an assertion.
\<close>

theorem disk_requests:
  assumes "disk_ok s" and "length data = nat SectorSize"
  shows "(if \<not> active s \<and> 0 \<le> n \<and> n < NumSectors
     then (\<exists>s'. ReadRequest n s = Inr (s', sector_data s n) \<and> request_posted n s s' \<and> length (sector_data s n) = 128 \<and>
             (\<forall>k. sector_data s' k = sector_data s k) \<and> numDiskReads s' = numDiskReads s + 1) \<and>
          (\<exists>s'. WriteRequest n data s = Inr s' \<and> request_posted n s s' \<and>
             (\<forall>k. 0 \<le> k \<longrightarrow> k < NumSectors \<longrightarrow> sector_data s' k = (if k = n then data else sector_data s k)) \<and>
             numDiskWrites s' = numDiskWrites s + 1)
     else ReadRequest n s = Inl AssertFailed \<and> WriteRequest n data s = Inl AssertFailed)"
proof (cases "\<not> active s \<and> 0 \<le> n \<and> n < NumSectors")
  case True
  then have a: "\<not> active s" "0 \<le> n" "n < NumSectors" by auto
  have "length (sector_data s n) = 128"
    using offsets [OF a(2,3)] assms(1) by (simp add: sector_data_def length_file_read disk_ok_def)
  with ReadRequest_ok [OF assms(1) a] have r: "\<exists>s'. ReadRequest n s = Inr (s', sector_data s n) \<and> request_posted n s s' \<and>
      length (sector_data s n) = 128 \<and> (\<forall>k. sector_data s' k = sector_data s k) \<and> numDiskReads s' = numDiskReads s + 1"
    by (auto simp: sector_data_def)
  have w: "\<exists>s'. WriteRequest n data s = Inr s' \<and> request_posted n s s' \<and>
      (\<forall>k. 0 \<le> k \<longrightarrow> k < NumSectors \<longrightarrow> sector_data s' k = (if k = n then data else sector_data s k)) \<and>
      numDiskWrites s' = numDiskWrites s + 1"
    using WriteRequest_ok [OF assms(1) a assms(2)] sector_write [OF assms(1) a(2,3) _ _ assms(2)] by blast
  show ?thesis using r w True by simp
next
  case False
  then show ?thesis by (auto simp: ReadRequest_def WriteRequest_def Let_def ASSERT_def)
qed

theorem disk_requests_witness:
  "disk_ok demo_disk \<and> (\<exists>s'. WriteRequest 7 (replicate 128 1) demo_disk = Inr s' \<and>
     sector_data s' 7 = replicate 128 1 \<and> sector_data s' 8 = sector_data demo_disk 8)"
proof -
  have len: "length (replicate 128 (1::u8)) = nat SectorSize" by simp
  have "\<not> active demo_disk" by (simp add: demo_disk_def)
  with disk_requests [OF demo_disk_ok len, of 7] obtain s' where
    "WriteRequest 7 (replicate 128 1) demo_disk = Inr s'"
    "\<forall>k. 0 \<le> k \<longrightarrow> k < NumSectors \<longrightarrow> sector_data s' k = (if k = 7 then replicate 128 1 else sector_data demo_disk k)"
    by auto
  then show ?thesis using demo_disk_ok by (intro conjI exI [of _ s']) simp_all
qed

text \<open>
  The latency of a request is at least one sector's rotation and bounded by a full seek plus
  a full turn. For a write (and a read the track buffer cannot serve) the request ends on a
  sector boundary, just when the requested sector has passed under the head.
\<close>

theorem disk_latency:
  assumes "disk_ok s" and "0 \<le> n" and "n < NumSectors"
  shows "RotationTime \<le> ComputeLatency s n writing \<and>
    ComputeLatency s n writing \<le> (NumTracks - 1) * SeekTime + RotationTime + SectorsPerTrack * RotationTime \<and>
    (writing \<longrightarrow> (totalTicks s + ComputeLatency s n writing) mod RotationTime = 0 \<and>
       head_at (totalTicks s + ComputeLatency s n writing - RotationTime) = n mod SectorsPerTrack)"
  using ComputeLatency_correct [OF assms(2,3), of s writing] assms(1) by (simp add: disk_ok_def)

theorem disk_latency_witness:
  "ComputeLatency demo_disk 37 True \<le> 32000 \<and> head_at (ComputeLatency demo_disk 37 True - 500) = 5"
proof -
  have "ComputeLatency demo_disk 37 True \<le> 32000 \<and>
      head_at (totalTicks demo_disk + ComputeLatency demo_disk 37 True - 500) = 5"
    using disk_latency [OF demo_disk_ok, of 37 True] by simp
  then show ?thesis by (simp add: demo_disk_def)
qed

end
