(* ===== verification/File_Header.thy ===== *)
theory File_Header
  imports Bitmap Disk
begin

text \<open>
  The synchronous disk, file headers and open files: \<^verbatim>\<open>code/filesys/synchdisk.cc\<close> as its callers see
  it, \<^verbatim>\<open>filehdr.cc\<close>, and \<^verbatim>\<open>openfile.cc\<close> (the real file system, \<^verbatim>\<open>#ifndef FILESYS_STUB\<close>). The disk is the list
  of its sectors; a caller of \<^verbatim>\<open>ReadSector\<close> or \<^verbatim>\<open>WriteSector\<close> returns when the request is done, so the two are
  functions on that list (\<open>synch_disk_requests\<close> relates them to the device). A header is stored in one sector, as the 32
  little-endian words of the C++ object. Memory from \<^verbatim>\<open>new\<close> that the code does not initialise is
  the argument \<open>junk\<close>; every property holds for all of its values.
\<close>

section \<open>Sectors\<close>

type_synonym sectors = "u8 list list"

definition disk_sectors_ok :: "sectors \<Rightarrow> bool" where
  "disk_sectors_ok d \<longleftrightarrow> length d = nat NumSectors \<and> (\<forall>x \<in> set d. length x = nat SectorSize)"

definition ReadSector :: "int \<Rightarrow> sectors \<Rightarrow> u8 list outcome" where
  "ReadSector sectorNumber d =
     bindR (ASSERT (0 \<le> sectorNumber \<and> sectorNumber < NumSectors)) (\<lambda>_. Inr (d ! nat sectorNumber))"

definition WriteSector :: "int \<Rightarrow> u8 list \<Rightarrow> sectors \<Rightarrow> sectors outcome" where
  "WriteSector sectorNumber data d =
     bindR (ASSERT (0 \<le> sectorNumber \<and> sectorNumber < NumSectors)) (\<lambda>_.
     Inr (d[nat sectorNumber := take (nat SectorSize) data]))"

definition sectors_of :: "'w disk_scheme \<Rightarrow> sectors" where
  "sectors_of s = map (\<lambda>k. sector_data s (int k)) [0..<nat NumSectors]"

section \<open>File headers\<close>

definition NumDirect :: int where "NumDirect = (SectorSize - 2 * 4) sdiv 4"
definition MaxFileSize :: int where "MaxFileSize = NumDirect * SectorSize"

lemma header_sizes [simp]: "NumDirect = 30" "MaxFileSize = 3840"
  by (simp_all add: NumDirect_def MaxFileSize_def sdiv_nonneg)

record file_header =
  numBytes :: int
  numSectors :: int
  dataSectors :: "int list"

definition FileHeader_new :: "(nat \<Rightarrow> u32) \<Rightarrow> file_header" where
  "FileHeader_new junk = \<lparr>numBytes = sint (junk 0), numSectors = sint (junk 1),
     dataSectors = map (\<lambda>i. sint (junk (i + 2))) [0..<nat NumDirect]\<rparr>"

definition hdr_to_bytes :: "file_header \<Rightarrow> u8 list" where
  "hdr_to_bytes hdr = concat (map (\<lambda>i. int_bytes (word_of_int i)) (numBytes hdr # numSectors hdr # dataSectors hdr))"

definition word_at_byte :: "u8 list \<Rightarrow> nat \<Rightarrow> u32" where
  "word_at_byte b i = le32 (b ! (4 * i)) (b ! (4 * i + 1)) (b ! (4 * i + 2)) (b ! (4 * i + 3))"

definition hdr_of_bytes :: "u8 list \<Rightarrow> file_header" where
  "hdr_of_bytes b = \<lparr>numBytes = sint (word_at_byte b 0), numSectors = sint (word_at_byte b 1),
     dataSectors = map (\<lambda>i. sint (word_at_byte b (i + 2))) [0..<nat NumDirect]\<rparr>"

definition set_dataSector :: "int \<Rightarrow> int \<Rightarrow> file_header \<Rightarrow> file_header outcome" where
  "set_dataSector i v hdr =
     (if 0 \<le> i \<and> i < NumDirect then Inr (hdr\<lparr>dataSectors := (dataSectors hdr)[nat i := v]\<rparr>)
      else Inl OutOfBounds)"

definition get_dataSector :: "file_header \<Rightarrow> int \<Rightarrow> int outcome" where
  "get_dataSector hdr i = (if 0 \<le> i \<and> i < NumDirect then Inr (dataSectors hdr ! nat i) else Inl OutOfBounds)"

definition alloc_sector :: "int \<Rightarrow> file_header \<times> bitmap \<Rightarrow> (file_header \<times> bitmap) outcome" where
  "alloc_sector i = (\<lambda>(hdr, freeMap).
     bindR (FindAndSet freeMap) (\<lambda>(freeMap, v).
     bindR (set_dataSector i v hdr) (\<lambda>hdr.
     bindR (ASSERT (v \<ge> 0)) (\<lambda>_. Inr (hdr, freeMap)))))"

definition Allocate :: "bitmap \<Rightarrow> int \<Rightarrow> file_header \<Rightarrow> (file_header \<times> bitmap \<times> bool) outcome" where
  "Allocate freeMap fileSize hdr =
     (let hdr = hdr\<lparr>numBytes := fileSize, numSectors := divRoundUp fileSize SectorSize\<rparr> in
      bindR (NumClear freeMap) (\<lambda>n.
      if n < numSectors hdr then Inr (hdr, freeMap, False)
      else bindR (forR [0..numSectors hdr - 1] alloc_sector (hdr, freeMap)) (\<lambda>(hdr, freeMap).
           Inr (hdr, freeMap, True))))"

definition Deallocate :: "bitmap \<Rightarrow> file_header \<Rightarrow> bitmap outcome" where
  "Deallocate freeMap hdr =
     forR [0..numSectors hdr - 1] (\<lambda>i freeMap.
       bindR (get_dataSector hdr i) (\<lambda>v.
       bindR (Test freeMap v) (\<lambda>b. bindR (ASSERT b) (\<lambda>_. Clear freeMap v)))) freeMap"

definition hdr_FetchFrom :: "int \<Rightarrow> sectors \<Rightarrow> file_header outcome" where
  "hdr_FetchFrom n d = bindR (ReadSector n d) (\<lambda>b. Inr (hdr_of_bytes b))"

definition hdr_WriteBack :: "int \<Rightarrow> file_header \<Rightarrow> sectors \<Rightarrow> sectors outcome" where
  "hdr_WriteBack n hdr d = WriteSector n (hdr_to_bytes hdr) d"

definition ByteToSector :: "file_header \<Rightarrow> int \<Rightarrow> int outcome" where
  "ByteToSector hdr offset = get_dataSector hdr (offset sdiv SectorSize)"

definition FileLength :: "file_header \<Rightarrow> int" where
  "FileLength hdr = numBytes hdr"

text \<open>
  \<^verbatim>\<open>Print\<close>: the length, the numbers of the blocks, and per block the bytes as they are shown, a
  printable byte as itself and any other in hexadecimal.
\<close>

datatype shown = Chr u8 | Hex u8

definition show_byte :: "u8 \<Rightarrow> shown" where
  "show_byte b = (if 0x20 \<le> b \<and> b \<le> 0x7e then Chr b else Hex b)"

definition print_sector :: "u8 list \<Rightarrow> int \<Rightarrow> file_header \<Rightarrow> shown list" where
  "print_sector data k hdr = map show_byte (take (nat (numBytes hdr - k)) (take (nat SectorSize) data))"

definition hdr_Print :: "file_header \<Rightarrow> sectors \<Rightarrow> (int \<times> int list \<times> shown list list) outcome" where
  "hdr_Print hdr d =
     bindR (forR [0..numSectors hdr - 1] (\<lambda>i out. bindR (get_dataSector hdr i) (\<lambda>v. Inr (out @ [v]))) []) (\<lambda>blocks.
     bindR (forR [0..numSectors hdr - 1] (\<lambda>i (k, out).
       bindR (get_dataSector hdr i) (\<lambda>v.
       bindR (ReadSector v d) (\<lambda>data.
       let l = print_sector data k hdr in Inr (k + int (length l), out @ [l])))) (0, [])) (\<lambda>(k, out).
     Inr (numBytes hdr, blocks, out)))"

section \<open>Open files\<close>

record open_file =
  hdr :: file_header
  seekPosition :: int

definition OpenFile_new :: "int \<Rightarrow> sectors \<Rightarrow> open_file outcome" where
  "OpenFile_new n d = bindR (hdr_FetchFrom n d) (\<lambda>h. Inr \<lparr>hdr = h, seekPosition = 0\<rparr>)"

definition Seek :: "int \<Rightarrow> open_file \<Rightarrow> open_file" where
  "Seek position f = f\<lparr>seekPosition := position\<rparr>"

text \<open>\<^verbatim>\<open>bcopy\<close> into a buffer at an index; both ranges have to lie in their arrays.\<close>

definition bcopy :: "u8 list \<Rightarrow> u8 list \<Rightarrow> int \<Rightarrow> u8 list outcome" where
  "bcopy src buf at =
     (if 0 \<le> at \<and> at + int (length src) \<le> int (length buf)
      then Inr (take (nat at) buf @ src @ drop (nat at + length src) buf) else Inl OutOfBounds)"

definition slice :: "u8 list \<Rightarrow> int \<Rightarrow> int \<Rightarrow> u8 list outcome" where
  "slice buf at n =
     (if 0 \<le> at \<and> at + n \<le> int (length buf) then Inr (take (nat n) (drop (nat at) buf)) else Inl OutOfBounds)"

definition read_sectors :: "file_header \<Rightarrow> int \<Rightarrow> int \<Rightarrow> sectors \<Rightarrow> u8 list \<Rightarrow> u8 list outcome" where
  "read_sectors h firstSector endSector d buf =
     forR [firstSector..endSector] (\<lambda>i buf.
       bindR (ByteToSector h (i * SectorSize)) (\<lambda>n.
       bindR (ReadSector n d) (\<lambda>data. bcopy data buf ((i - firstSector) * SectorSize)))) buf"

definition write_sectors :: "file_header \<Rightarrow> int \<Rightarrow> int \<Rightarrow> u8 list \<Rightarrow> sectors \<Rightarrow> sectors outcome" where
  "write_sectors h firstSector endSector buf d =
     forR [firstSector..endSector] (\<lambda>i d.
       bindR (ByteToSector h (i * SectorSize)) (\<lambda>n.
       bindR (slice buf ((i - firstSector) * SectorSize) SectorSize) (\<lambda>data. WriteSector n data d))) d"

text \<open>\<^verbatim>\<open>ReadAt\<close> returns the bytes it copies to \<^verbatim>\<open>into\<close>; their number is its result.\<close>

definition ReadAt :: "(nat \<Rightarrow> u8) \<Rightarrow> open_file \<Rightarrow> int \<Rightarrow> int \<Rightarrow> sectors \<Rightarrow> u8 list outcome" where
  "ReadAt junk f n position d =
     (let fileLength = FileLength (hdr f) in
      if n \<le> 0 \<or> position \<ge> fileLength then Inr []
      else let n = (if position + n > fileLength then fileLength - position else n);
               firstSector = divRoundDown position SectorSize;
               endSector = divRoundDown (position + n - 1) SectorSize;
               count = 1 + endSector - firstSector;
               buf = map junk [0..<nat (count * SectorSize)]
           in bindR (read_sectors (hdr f) firstSector endSector d buf) (\<lambda>buf.
              slice buf (position - firstSector * SectorSize) n))"

text \<open>
  The buffer \<^verbatim>\<open>WriteAt\<close> writes back: the first and last sectors are read into it when they are to be
  partially modified.
\<close>

definition fill_buffer :: "(nat \<Rightarrow> u8) \<Rightarrow> open_file \<Rightarrow> int \<Rightarrow> int \<Rightarrow> bool \<Rightarrow> bool \<Rightarrow> sectors \<Rightarrow> u8 list \<Rightarrow> u8 list outcome" where
  "fill_buffer junk f a b firstAligned lastAligned d buf =
     bindR (if \<not> firstAligned then bindR (ReadAt junk f SectorSize (a * SectorSize) d) (\<lambda>x. bcopy x buf 0) else Inr buf) (\<lambda>buf.
     if \<not> lastAligned \<and> (a \<noteq> b \<or> firstAligned)
     then bindR (ReadAt junk f SectorSize (b * SectorSize) d) (\<lambda>x. bcopy x buf ((b - a) * SectorSize))
     else Inr buf)"

definition WriteAt :: "(nat \<Rightarrow> u8) \<Rightarrow> open_file \<Rightarrow> u8 list \<Rightarrow> int \<Rightarrow> int \<Rightarrow> sectors \<Rightarrow> (sectors \<times> int) outcome" where
  "WriteAt junk f from n position d =
     (let fileLength = FileLength (hdr f) in
      if n \<le> 0 \<or> position \<ge> fileLength then Inr (d, 0)
      else let n = (if position + n > fileLength then fileLength - position else n);
               firstSector = divRoundDown position SectorSize;
               endSector = divRoundDown (position + n - 1) SectorSize;
               count = 1 + endSector - firstSector;
               buf = map junk [0..<nat (count * SectorSize)];
               firstAligned = (position = firstSector * SectorSize);
               lastAligned = (position + n = (endSector + 1) * SectorSize)
           in bindR (fill_buffer junk f firstSector endSector firstAligned lastAligned d buf) (\<lambda>buf.
              bindR (slice from 0 n) (\<lambda>src.
              bindR (bcopy src buf (position - firstSector * SectorSize)) (\<lambda>buf.
              bindR (write_sectors (hdr f) firstSector endSector buf d) (\<lambda>d. Inr (d, n))))))"

definition Read :: "(nat \<Rightarrow> u8) \<Rightarrow> open_file \<Rightarrow> int \<Rightarrow> sectors \<Rightarrow> (open_file \<times> u8 list) outcome" where
  "Read junk f n d =
     bindR (ReadAt junk f n (seekPosition f) d) (\<lambda>b.
     Inr (f\<lparr>seekPosition := seekPosition f + int (length b)\<rparr>, b))"

definition Write :: "(nat \<Rightarrow> u8) \<Rightarrow> open_file \<Rightarrow> u8 list \<Rightarrow> int \<Rightarrow> sectors \<Rightarrow> (open_file \<times> sectors \<times> int) outcome" where
  "Write junk f from n d =
     bindR (WriteAt junk f from n (seekPosition f) d) (\<lambda>(d, result).
     Inr (f\<lparr>seekPosition := seekPosition f + result\<rparr>, d, result))"

definition Length :: "open_file \<Rightarrow> int" where
  "Length f = FileLength (hdr f)"

section \<open>Reading\<close>

lemma bcopy_spec:
  assumes "at = int p" and "p + length src \<le> length buf"
  shows "\<exists>buf'. bcopy src buf at = Inr buf' \<and> length buf' = length buf \<and>
    (\<forall>j < length buf. buf' ! j = (if p \<le> j \<and> j < p + length src then src ! (j - p) else buf ! j))"
proof -
  have "(take p buf @ src @ drop (p + length src) buf) ! j =
      (if p \<le> j \<and> j < p + length src then src ! (j - p) else buf ! j)" if "j < length buf" for j
    using that assms(2) by (auto simp: nth_append min_def not_less)
  with assms show ?thesis by (simp add: bcopy_def)
qed

lemma slice_spec: "at = int p \<Longrightarrow> n = int m \<Longrightarrow> p + m \<le> length buf \<Longrightarrow> slice buf at n = Inr (take m (drop p buf))"
  by (simp add: slice_def)

text \<open>A header that describes a file: its sectors lie on the disk and are distinct.\<close>

definition file_ok :: "file_header \<Rightarrow> bool" where
  "file_ok h \<longleftrightarrow> 0 \<le> numBytes h \<and> numSectors h = divRoundUp (numBytes h) SectorSize \<and> numSectors h \<le> NumDirect \<and>
     length (dataSectors h) = nat NumDirect \<and> distinct (take (nat (numSectors h)) (dataSectors h)) \<and>
     set (take (nat (numSectors h)) (dataSectors h)) \<subseteq> {0..<NumSectors}"

definition file_sectors :: "file_header \<Rightarrow> nat list" where
  "file_sectors h = map nat (take (nat (numSectors h)) (dataSectors h))"

definition file_image :: "file_header \<Rightarrow> sectors \<Rightarrow> u8 list" where
  "file_image h d = concat (map (\<lambda>k. d ! k) (file_sectors h))"

definition file_bytes :: "file_header \<Rightarrow> sectors \<Rightarrow> u8 list" where
  "file_bytes h d = take (nat (numBytes h)) (file_image h d)"

definition overwrite :: "u8 list \<Rightarrow> nat \<Rightarrow> u8 list \<Rightarrow> u8 list" where
  "overwrite b p data = take p b @ data @ drop (p + length data) b"

lemma length_concat_uniform: "(\<forall>x \<in> set xs. length (f x) = L) \<Longrightarrow> length (concat (map f xs)) = length xs * L"
  by (induction xs) auto

lemma nth_concat_uniform:
  "(\<forall>x \<in> set xs. length (f x) = L) \<Longrightarrow> j < length xs * L \<Longrightarrow> concat (map f xs) ! j = f (xs ! (j div L)) ! (j mod L)"
proof (induction xs arbitrary: j)
  case (Cons x xs)
  show ?case
  proof (cases "j < L")
    case False
    then obtain r where r: "j = L + r" by (metis le_Suc_ex not_less)
    have "0 < L" using Cons.prems(2) by (cases L) simp_all
    then have "j div L = Suc (r div L)" "j mod L = r mod L" by (simp_all add: r div_add_self1)
    moreover have "concat (map f xs) ! r = f (xs ! (r div L)) ! (r mod L)" using Cons.prems r by (intro Cons.IH) simp_all
    ultimately show ?thesis using Cons.prems(1) by (simp add: nth_append r)
  qed (use Cons.prems in \<open>simp add: nth_append\<close>)
qed simp

lemma file_ok_facts:
  assumes "file_ok h"
  shows "length (file_sectors h) = nat (numSectors h)" and "nat (numSectors h) \<le> 30" and "distinct (file_sectors h)"
    and "set (file_sectors h) \<subseteq> {..<1024}" and "nat (numBytes h) \<le> 128 * nat (numSectors h)"
    and "i < nat (numSectors h) \<Longrightarrow> dataSectors h ! i = int (file_sectors h ! i)"
proof -
  have f: "numSectors h = divRoundUp (numBytes h) 128" "0 \<le> numBytes h" "numSectors h \<le> 30" "length (dataSectors h) = 30"
    "distinct (take (nat (numSectors h)) (dataSectors h))" "set (take (nat (numSectors h)) (dataSectors h)) \<subseteq> {0..<1024}"
    using assms unfolding file_ok_def header_sizes disk_sizes by auto
  then show "length (file_sectors h) = nat (numSectors h)" "nat (numSectors h) \<le> 30"
    by (simp_all add: file_sectors_def)
  show "distinct (file_sectors h)" using f(5,6) by (auto simp: file_sectors_def distinct_map inj_on_def subset_iff eq_nat_nat_iff)
  show "set (file_sectors h) \<subseteq> {..<1024}" using f(6) by (auto simp: file_sectors_def subset_iff)
  show "nat (numBytes h) \<le> 128 * nat (numSectors h)"
    using divRoundUp_bounds(1) [OF f(2), of 128] f(1) by simp
  assume i: "i < nat (numSectors h)"
  then have "i < length (take (nat (numSectors h)) (dataSectors h))" using f(3,4) by simp
  from nth_mem [OF this] f(6) have "take (nat (numSectors h)) (dataSectors h) ! i \<in> {0..<1024}" by blast
  then show "dataSectors h ! i = int (file_sectors h ! i)"
    using i f(3,4) by (simp add: file_sectors_def)
qed

lemma disk_sectors_ok_nth: "disk_sectors_ok d \<Longrightarrow> i < 1024 \<Longrightarrow> length (d ! i) = 128"
  by (simp add: disk_sectors_ok_def)

lemma file_image_facts:
  assumes "file_ok h" and "disk_sectors_ok d"
  shows "length (file_image h d) = 128 * nat (numSectors h)"
    and "j < 128 * nat (numSectors h) \<Longrightarrow> file_image h d ! j = d ! (file_sectors h ! (j div 128)) ! (j mod 128)"
proof -
  have u: "\<forall>x \<in> set (file_sectors h). length (d ! x) = 128"
    using file_ok_facts(4) [OF assms(1)] disk_sectors_ok_nth [OF assms(2)] by auto
  show "length (file_image h d) = 128 * nat (numSectors h)"
    using length_concat_uniform [OF u] file_ok_facts(1) [OF assms(1)] by (simp add: file_image_def)
  assume "j < 128 * nat (numSectors h)"
  then show "file_image h d ! j = d ! (file_sectors h ! (j div 128)) ! (j mod 128)"
    using nth_concat_uniform [OF u, of j] file_ok_facts(1) [OF assms(1)] by (simp add: file_image_def mult.commute)
qed

lemma length_file_bytes:
  "file_ok h \<Longrightarrow> disk_sectors_ok d \<Longrightarrow> length (file_bytes h d) = nat (numBytes h)"
  using file_image_facts(1) file_ok_facts(5) by (simp add: file_bytes_def)

lemma nth_file_bytes:
  "file_ok h \<Longrightarrow> disk_sectors_ok d \<Longrightarrow> j < nat (numBytes h) \<Longrightarrow>
   file_bytes h d ! j = d ! (file_sectors h ! (j div 128)) ! (j mod 128)"
  using file_image_facts(2) [of h d j] file_ok_facts(5) [of h] by (simp add: file_bytes_def)

lemma ByteToSector_spec:
  assumes "file_ok h" and "k < nat (numSectors h)"
  shows "ByteToSector h (int k * SectorSize) = Inr (int (file_sectors h ! k))" and "file_sectors h ! k < 1024"
proof -
  have "int k * 128 sdiv 128 = int k" by (simp add: sdiv_nonneg)
  moreover have "k < 30" using assms file_ok_facts(2) [OF assms(1)] by linarith
  ultimately show "ByteToSector h (int k * SectorSize) = Inr (int (file_sectors h ! k))"
    using file_ok_facts(6) [OF assms] by (simp add: ByteToSector_def get_dataSector_def)
  show "file_sectors h ! k < 1024"
    using file_ok_facts(1,4) [OF assms(1)] assms(2) nth_mem [of k "file_sectors h"] by fastforce
qed

lemma read_sectors_spec:
  assumes h: "file_ok h" and d: "disk_sectors_ok d" and "A \<le> B" and "B < nat (numSectors h)"
    and "length buf = 128 * (B + 1 - A)"
  shows "\<exists>buf'. read_sectors h (int A) (int B) d buf = Inr buf' \<and> length buf' = length buf \<and>
    (\<forall>j < length buf. buf' ! j = d ! (file_sectors h ! (A + j div 128)) ! (j mod 128))"
proof -
  define I where "I k buf' \<longleftrightarrow> length buf' = length buf \<and>
    (\<forall>j < 128 * k. buf' ! j = d ! (file_sectors h ! (A + j div 128)) ! (j mod 128))" for k and buf' :: "u8 list"
  let ?f = "\<lambda>i b. bindR (ByteToSector h (i * SectorSize)) (\<lambda>n.
       bindR (ReadSector n d) (\<lambda>data. bcopy data b ((i - int A) * SectorSize)))"
  have "\<exists>s'. forR [int A..int B] ?f buf = Inr s' \<and> I (length [int A..int B]) s'"
  proof (rule forR_invariant)
    show "I 0 buf" by (simp add: I_def)
    fix k b assume "k < length [int A..int B]" and I: "I k b"
    then have k: "A + k \<le> B" "[int A..int B] ! k = int (A + k)" by (simp_all add: nth_upto)
    then have kn: "A + k < nat (numSectors h)" using assms(4) by simp
    have len: "length (d ! (file_sectors h ! (A + k))) = 128"
      using ByteToSector_spec(2) [OF h kn] d by (simp add: disk_sectors_ok_nth)
    have "128 * k + length (d ! (file_sectors h ! (A + k))) \<le> length b"
      using I k(1) assms(5) len by (simp add: I_def)
    from bcopy_spec [OF _ this, of "(int (A + k) - int A) * SectorSize"] obtain b' where
      b': "bcopy (d ! (file_sectors h ! (A + k))) b ((int (A + k) - int A) * SectorSize) = Inr b'" "length b' = length b"
        "\<forall>j < length b. b' ! j = (if 128 * k \<le> j \<and> j < 128 * k + 128 then d ! (file_sectors h ! (A + k)) ! (j - 128 * k) else b ! j)"
      using len by auto
    have "b' ! j = d ! (file_sectors h ! (A + j div 128)) ! (j mod 128)" if j: "j < 128 * Suc k" for j
    proof -
      have jb: "j < length b" using j k(1) I assms(5) by (simp add: I_def)
      show ?thesis
      proof (cases "j < 128 * k")
        case False
        then have "j div 128 = k" using j by auto
        moreover from this have "j mod 128 = j - 128 * k" by (simp add: modulo_nat_def mult.commute)
        ultimately have "j div 128 = k" "j mod 128 = j - 128 * k" .
        then show ?thesis using b'(3) jb False j by simp
      qed (use b'(3) jb I in \<open>simp add: I_def\<close>)
    qed
    with b' I have "I (Suc k) b'" by (simp add: I_def)
    moreover have "?f (int (A + k)) b = Inr b'"
      using b'(1) ByteToSector_spec [OF h kn] by (simp add: ReadSector_def)
    ultimately show "\<exists>s'. ?f ([int A..int B] ! k) b = Inr s' \<and> I (Suc k) s'" using k(2) by auto
  qed
  then show ?thesis using assms(3,5) by (force simp: read_sectors_def I_def)
qed

lemma ReadAt_nat:
  assumes h: "file_ok (hdr f)" and d: "disk_sectors_ok d"
  shows "ReadAt junk f (int n) (int p) d = Inr (take n (drop p (file_bytes (hdr f) d)))"
proof (cases "n = 0 \<or> p \<ge> nat (numBytes (hdr f))")
  case True
  then show ?thesis using length_file_bytes [OF h d] by (auto simp: ReadAt_def FileLength_def Let_def nat_le_iff)
next
  case False
  let ?L = "nat (numBytes (hdr f))"
  define m where "m = min n (?L - p)"
  define A where "A = p div 128"
  define B where "B = (p + m - 1) div 128"
  have L: "numBytes (hdr f) = int ?L" using h by (simp add: file_ok_def)
  have m: "0 < m" "p + m \<le> ?L" using False by (auto simp: m_def)
  have AB: "A \<le> B" unfolding A_def B_def by (rule div_le_mono) (use m(1) in simp)
  have B: "B < nat (numSectors (hdr f))" using file_ok_facts(5) [OF h] m by (simp add: B_def less_mult_imp_div_less)
  have pB: "p + m \<le> 128 * (B + 1)" "128 * A \<le> p" by (simp_all add: B_def A_def)
  from read_sectors_spec [OF h d AB B, of "map junk [0..<128 * (B + 1 - A)]"] obtain buf' where
    b: "read_sectors (hdr f) (int A) (int B) d (map junk [0..<128 * (B + 1 - A)]) = Inr buf'" "length buf' = 128 * (B + 1 - A)"
      "\<forall>j < 128 * (B + 1 - A). buf' ! j = d ! (file_sectors (hdr f) ! (A + j div 128)) ! (j mod 128)" by auto
  have "take m (drop (p - 128 * A) buf') = take n (drop p (file_bytes (hdr f) d))"
  proof (rule nth_equalityI)
    show len: "length (take m (drop (p - 128 * A) buf')) = length (take n (drop p (file_bytes (hdr f) d)))"
    proof -
      have "length (drop (p - 128 * A) buf') \<ge> m" using pB AB b(2) by (simp add: diff_mult_distrib2)
      then show ?thesis using length_file_bytes [OF h d] by (simp add: m_def min_def)
    qed
    fix i assume "i < length (take m (drop (p - 128 * A) buf'))"
    then have i: "i < m" by simp
    let ?j = "p - 128 * A + i"
    have "?j < 128 * (B + 1 - A)" using i pB AB by (simp add: diff_mult_distrib2)
    then have "take m (drop (p - 128 * A) buf') ! i = d ! (file_sectors (hdr f) ! (A + ?j div 128)) ! (?j mod 128)"
      using i b by simp
    moreover obtain q where "p = 128 * A + q" using pB(2) le_Suc_ex by blast
    then have "(p + i) div 128 = A + ?j div 128" "(p + i) mod 128 = ?j mod 128" by (simp_all add: add.assoc)
    moreover have "take n (drop p (file_bytes (hdr f) d)) ! i = file_bytes (hdr f) d ! (p + i)"
      using i m length_file_bytes [OF h d] by (simp add: m_def)
    ultimately show "take m (drop (p - 128 * A) buf') ! i = take n (drop p (file_bytes (hdr f) d)) ! i"
      using nth_file_bytes [OF h d, of "p + i"] i m by simp
  qed
  moreover have "slice buf' (int p - int A * 128) (int m) = Inr (take m (drop (p - 128 * A) buf'))"
    using pB AB b(2) by (intro slice_spec) (auto simp: diff_mult_distrib2 of_nat_diff)
  moreover have "(if int p + int n > numBytes (hdr f) then numBytes (hdr f) - int p else int n) = int m"
    using L False by (auto simp: m_def)
  moreover have "int p sdiv 128 = int A" "(int p + int m - 1) sdiv 128 = int B"
    using m(1) by (simp_all add: sdiv_nonneg A_def B_def zdiv_int of_nat_diff Suc_leI)
  moreover have "nat ((1 + int B - int A) * 128) = 128 * (B + 1 - A)" using AB by (simp add: nat_mult_distrib)
  moreover have "\<not> (int n \<le> 0 \<or> numBytes (hdr f) \<le> int p)" using False L by auto
  ultimately show ?thesis using b(1)
    by (simp add: ReadAt_def FileLength_def Let_def divRoundDown_def)
qed

section \<open>Writing\<close>

lemma write_sectors_spec:
  assumes h: "file_ok h" and d: "disk_sectors_ok d" and "A \<le> B" and "B < nat (numSectors h)"
    and len: "length buf = 128 * (B + 1 - A)"
  shows "\<exists>d'. write_sectors h (int A) (int B) buf d = Inr d' \<and> disk_sectors_ok d' \<and>
    (\<forall>i < nat (numSectors h). d' ! (file_sectors h ! i) =
       (if A \<le> i \<and> i \<le> B then take 128 (drop (128 * (i - A)) buf) else d ! (file_sectors h ! i))) \<and>
    (\<forall>s. s \<notin> set (file_sectors h) \<longrightarrow> d' ! s = d ! s)"
proof -
  define I where "I k d' \<longleftrightarrow> disk_sectors_ok d' \<and> (\<forall>i < nat (numSectors h). d' ! (file_sectors h ! i) =
       (if A \<le> i \<and> i < A + k then take 128 (drop (128 * (i - A)) buf) else d ! (file_sectors h ! i))) \<and>
    (\<forall>s. s \<notin> set (file_sectors h) \<longrightarrow> d' ! s = d ! s)" for k d'
  let ?f = "\<lambda>i d. bindR (ByteToSector h (i * SectorSize)) (\<lambda>n.
       bindR (slice buf ((i - int A) * SectorSize) SectorSize) (\<lambda>data. WriteSector n data d))"
  have "\<exists>s'. forR [int A..int B] ?f d = Inr s' \<and> I (length [int A..int B]) s'"
  proof (rule forR_invariant)
    show "I 0 d" using d by (simp add: I_def)
    fix k dk assume "k < length [int A..int B]" and I: "I k dk"
    then have k: "A + k \<le> B" "[int A..int B] ! k = int (A + k)" by (simp_all add: nth_upto)
    then have kn: "A + k < nat (numSectors h)" using assms(4) by simp
    let ?s = "file_sectors h ! (A + k)" and ?data = "take 128 (drop (128 * k) buf)"
    have s: "?s < 1024" "?s \<in> set (file_sectors h)"
      using ByteToSector_spec(2) [OF h kn] kn file_ok_facts(1) [OF h] by (simp_all add: nth_mem)
    have r: "128 * k + 128 \<le> length buf" using len k(1) by simp
    have "?f (int (A + k)) dk = Inr (dk[?s := ?data])"
      using slice_spec [of "(int (A + k) - int A) * SectorSize" "128 * k" SectorSize 128 buf] r
        ByteToSector_spec [OF h kn] by (simp add: WriteSector_def)
    moreover have "I (Suc k) (dk[?s := ?data])"
    proof -
      have ok: "disk_sectors_ok (dk[?s := ?data])"
        using I r by (auto simp: I_def disk_sectors_ok_def dest!: set_update_subset_insert [THEN subsetD])
      have ne: "(file_sectors h ! i = ?s) = (i = A + k)" if "i < nat (numSectors h)" for i
        using that kn file_ok_facts(1,3) [OF h] by (simp add: nth_eq_iff_index_eq)
      have "length dk = 1024" using I by (simp add: I_def disk_sectors_ok_def)
      then have "dk[?s := ?data] ! (file_sectors h ! i) = (if A \<le> i \<and> i < A + Suc k then take 128 (drop (128 * (i - A)) buf)
          else d ! (file_sectors h ! i))" if "i < nat (numSectors h)" for i
        using I that s ne [OF that] by (auto simp: I_def nth_list_update)
      moreover have "dk[?s := ?data] ! x = d ! x" if "x \<notin> set (file_sectors h)" for x
      proof -
        have "x \<noteq> ?s" using that s(2) by blast
        then show ?thesis using I that by (simp add: I_def)
      qed
      ultimately show ?thesis using ok by (simp add: I_def)
    qed
    ultimately show "\<exists>s'. ?f ([int A..int B] ! k) dk = Inr s' \<and> I (Suc k) s'" using k(2) by auto
  qed
  then obtain d' where "forR [int A..int B] ?f d = Inr d'" "I (length [int A..int B]) d'" by blast
  moreover have "length [int A..int B] = B + 1 - A" by simp
  moreover have "(i < A + (B + 1 - A)) = (i \<le> B)" for i using assms(3) by auto
  ultimately show ?thesis by (intro exI [of _ d']) (simp add: write_sectors_def I_def)
qed

lemma read_one_sector:
  assumes h: "file_ok (hdr f)" and d: "disk_sectors_ok d" and "length buf = 128 * (B + 1 - A)" and "A \<le> S" and "S \<le> B"
  shows "\<exists>buf'. bindR (ReadAt junk f SectorSize (int S * SectorSize) d) (\<lambda>x. bcopy x buf ((int S - int A) * SectorSize)) = Inr buf' \<and>
    length buf' = length buf \<and> (\<forall>j < length buf. buf' ! j =
      (if 128 * S \<le> 128 * A + j \<and> 128 * A + j < 128 * S + 128 \<and> 128 * A + j < nat (numBytes (hdr f))
       then file_bytes (hdr f) d ! (128 * A + j) else buf ! j))"
proof -
  let ?x = "take 128 (drop (128 * S) (file_bytes (hdr f) d))"
  have r: "ReadAt junk f SectorSize (int S * SectorSize) d = Inr ?x"
    using ReadAt_nat [OF h d, of junk 128 "128 * S"] by (simp add: mult.commute)
  obtain q where q: "S = A + q" using assms(4) le_Suc_ex by blast
  have "128 * q + length ?x \<le> length buf" using assms(3,5) q by simp
  from bcopy_spec [OF _ this, of "(int S - int A) * SectorSize"] obtain buf' where
    b: "bcopy ?x buf ((int S - int A) * SectorSize) = Inr buf'" "length buf' = length buf"
      "\<forall>j < length buf. buf' ! j = (if 128 * q \<le> j \<and> j < 128 * q + length ?x then ?x ! (j - 128 * q) else buf ! j)"
    using q by auto
  have "(if 128 * q \<le> j \<and> j < 128 * q + length ?x then ?x ! (j - 128 * q) else buf ! j) =
     (if 128 * S \<le> 128 * A + j \<and> 128 * A + j < 128 * S + 128 \<and> 128 * A + j < nat (numBytes (hdr f))
       then file_bytes (hdr f) d ! (128 * A + j) else buf ! j)" for j
    using length_file_bytes [OF h d] q by auto
  then show ?thesis using r b by simp
qed

lemma fill_buffer_spec:
  assumes h: "file_ok (hdr f)" and d: "disk_sectors_ok d" and len: "length buf = 128 * (B + 1 - A)"
    and AB: "A = p div 128" "B = (p + m - 1) div 128" "0 < m"
    and al: "first = (p = 128 * A)" "final = (p + m = 128 * (B + 1))"
  shows "\<exists>buf'. fill_buffer junk f (int A) (int B) first final d buf = Inr buf' \<and> length buf' = length buf \<and>
    (\<forall>j < length buf. 128 * A + j < nat (numBytes (hdr f)) \<longrightarrow> (128 * A + j < p \<or> p + m \<le> 128 * A + j) \<longrightarrow>
       buf' ! j = file_bytes (hdr f) d ! (128 * A + j))"
proof -
  have le: "A \<le> B" unfolding AB by (rule div_le_mono) (use AB(3) in simp)
  have p: "128 * A \<le> p" "p < 128 * A + 128" "128 * B < p + m" "p + m \<le> 128 * B + 128"
    using AB(3) by (auto simp: AB(1,2))
  obtain b1 where b1: "(if \<not> first then bindR (ReadAt junk f SectorSize (int A * SectorSize) d) (\<lambda>x. bcopy x buf 0) else Inr buf) = Inr b1"
    "length b1 = length buf" "\<not> first \<Longrightarrow> (\<forall>j < length buf. b1 ! j =
      (if 128 * A + j < 128 * A + 128 \<and> 128 * A + j < nat (numBytes (hdr f)) then file_bytes (hdr f) d ! (128 * A + j) else buf ! j))"
    using read_one_sector [OF h d len order_refl le, of junk] by (cases first) auto
  have len1: "length b1 = 128 * (B + 1 - A)" using b1(2) len by simp
  show ?thesis
  proof (cases "\<not> final \<and> (A \<noteq> B \<or> first)")
    case True
    from read_one_sector [OF h d len1 le order_refl, of junk] obtain b2 where
      b2: "bindR (ReadAt junk f SectorSize (int B * SectorSize) d) (\<lambda>x. bcopy x b1 ((int B - int A) * SectorSize)) = Inr b2"
      "length b2 = length b1" "\<forall>j < length b1. b2 ! j =
      (if 128 * B \<le> 128 * A + j \<and> 128 * A + j < 128 * B + 128 \<and> 128 * A + j < nat (numBytes (hdr f))
       then file_bytes (hdr f) d ! (128 * A + j) else b1 ! j)" by blast
    have "b2 ! j = file_bytes (hdr f) d ! (128 * A + j)"
      if j: "j < length buf" "128 * A + j < nat (numBytes (hdr f))" "128 * A + j < p \<or> p + m \<le> 128 * A + j" for j
    proof (cases "128 * B \<le> 128 * A + j")
      case True
      have "128 * A + j < 128 * B + 128" using j(1) len le by (simp add: diff_mult_distrib2)
      with True b2(3) b1(2) j show ?thesis by simp
    next
      case False
      then have "128 * A + j < p" using j(3) p by linarith
      then have "\<not> first" "128 * A + j < 128 * A + 128" using al(1) p by auto
      with b1(2,3) b2(3) j False show ?thesis by simp
    qed
    then show ?thesis using True b1(1,2) b2(1,2) by (simp add: fill_buffer_def)
  next
    case False
    have "b1 ! j = file_bytes (hdr f) d ! (128 * A + j)"
      if j: "j < length buf" "128 * A + j < nat (numBytes (hdr f))" "128 * A + j < p \<or> p + m \<le> 128 * A + j" for j
    proof -
      have u: "128 * A + j < 128 * B + 128" using j(1) len le by (simp add: diff_mult_distrib2)
      have "\<not> first \<and> 128 * A + j < 128 * A + 128"
      proof (cases "128 * A + j < p")
        case True
        then show ?thesis using p al(1) by auto
      next
        case F: False
        then have "\<not> final" using j(3) u al(2) by simp
        then show ?thesis using False u by simp
      qed
      then show ?thesis using b1(3) j(1,2) by simp
    qed
    moreover have "fill_buffer junk f (int A) (int B) first final d buf = Inr b1"
      using False b1(1) by (auto simp: fill_buffer_def)
    ultimately show ?thesis using b1(2) by blast
  qed
qed

lemma length_overwrite [simp]: "p + length data \<le> length b \<Longrightarrow> length (overwrite b p data) = length b"
  by (simp add: overwrite_def)

lemma nth_overwrite:
  "p + length data \<le> length b \<Longrightarrow> j < length b \<Longrightarrow>
   overwrite b p data ! j = (if p \<le> j \<and> j < p + length data then data ! (j - p) else b ! j)"
  by (auto simp: overwrite_def nth_append min_def not_less)

lemma WriteAt_nat:
  assumes h: "file_ok (hdr f)" and d: "disk_sectors_ok d" and n: "n \<le> length from"
    and m_def: "m = min n (nat (numBytes (hdr f)) - p)"
  shows "\<exists>d'. WriteAt junk f from (int n) (int p) d = Inr (d', int m) \<and> disk_sectors_ok d' \<and>
    file_bytes (hdr f) d' = overwrite (file_bytes (hdr f) d) p (take m from) \<and>
    (\<forall>s. s \<notin> set (file_sectors (hdr f)) \<longrightarrow> d' ! s = d ! s)"
proof (cases "n = 0 \<or> p \<ge> nat (numBytes (hdr f))")
  case True
  then have "m = 0" by (auto simp: m_def)
  then show ?thesis using True d
    by (intro exI [of _ d]) (auto simp: WriteAt_def FileLength_def Let_def nat_le_iff overwrite_def)
next
  case False
  let ?h = "hdr f"
  let ?L = "nat (numBytes ?h)"
  define A where "A = p div 128"
  define B where "B = (p + m - 1) div 128"
  let ?buf = "map junk [0..<128 * (B + 1 - A)]"
  have L: "numBytes ?h = int ?L" using h by (simp add: file_ok_def)
  have m: "0 < m" "p + m \<le> ?L" "m \<le> length from" using False n by (auto simp: m_def)
  have AB: "A \<le> B" unfolding A_def B_def by (rule div_le_mono) (use m(1) in simp)
  have B: "B < nat (numSectors ?h)" using file_ok_facts(5) [OF h] m by (simp add: B_def less_mult_imp_div_less)
  have pB: "p + m \<le> 128 * (B + 1)" "128 * A \<le> p" by (simp_all add: B_def A_def)
  have len: "length ?buf = 128 * (B + 1 - A)" by simp
  from fill_buffer_spec [OF h d len A_def B_def m(1) refl refl, of junk] obtain b1 where
    b1: "fill_buffer junk f (int A) (int B) (p = 128 * A) (p + m = 128 * (B + 1)) d ?buf = Inr b1" "length b1 = 128 * (B + 1 - A)"
     "\<forall>j < 128 * (B + 1 - A). 128 * A + j < ?L \<longrightarrow> (128 * A + j < p \<or> p + m \<le> 128 * A + j) \<longrightarrow> b1 ! j = file_bytes ?h d ! (128 * A + j)"
    by auto
  have "p - 128 * A + length (take m from) \<le> length b1" using b1(2) pB AB m(3) by (simp add: diff_mult_distrib2)
  from bcopy_spec [OF _ this, of "int p - int A * 128"] obtain b2 where
    b2: "bcopy (take m from) b1 (int p - int A * 128) = Inr b2" "length b2 = length b1"
     "\<forall>j < length b1. b2 ! j = (if p - 128 * A \<le> j \<and> j < p - 128 * A + m then take m from ! (j - (p - 128 * A)) else b1 ! j)"
    using m(3) pB(2) by (auto simp: min_absorb2 of_nat_diff)
  have len2: "length b2 = 128 * (B + 1 - A)" using b1(2) b2(2) by simp
  from write_sectors_spec [OF h d AB B len2] obtain d' where
    d': "write_sectors ?h (int A) (int B) b2 d = Inr d'" "disk_sectors_ok d'" "\<forall>s. s \<notin> set (file_sectors ?h) \<longrightarrow> d' ! s = d ! s"
      "\<forall>i < nat (numSectors ?h). d' ! (file_sectors ?h ! i) =
         (if A \<le> i \<and> i \<le> B then take 128 (drop (128 * (i - A)) b2) else d ! (file_sectors ?h ! i))" by blast
  have img: "file_bytes ?h d' ! j = (if p \<le> j \<and> j < p + m then from ! (j - p) else file_bytes ?h d ! j)" if j: "j < ?L" for j
  proof -
    have jd: "j div 128 < nat (numSectors ?h)" using j file_ok_facts(5) [OF h] by (simp add: less_mult_imp_div_less)
    show ?thesis
    proof (cases "A \<le> j div 128 \<and> j div 128 \<le> B")
      case True
      then have lo: "128 * A \<le> j" and hi: "j < 128 * (B + 1)" by auto
      then obtain i where i: "j = 128 * A + i" using le_Suc_ex by blast
      have "j div 128 = A + i div 128" "j mod 128 = i mod 128" using i by simp_all
      moreover have ilen: "i < 128 * (B + 1 - A)" using hi i by (simp add: diff_mult_distrib2)
      moreover have "128 * (i div 128) \<le> length b2" using ilen len2 mult_div_mod_eq [of 128 i] by linarith
      then have "drop (128 * (i div 128)) b2 ! (i mod 128) = b2 ! i" by simp
      ultimately have "file_bytes ?h d' ! j = b2 ! i"
        using d'(4) jd True len2 j by (simp add: nth_file_bytes [OF h d'(2)])
      also have "\<dots> = (if p \<le> j \<and> j < p + m then from ! (j - p) else b1 ! i)"
        using b2(3) b1(2) ilen i pB(2) by (auto simp: add.commute)
      finally show ?thesis using b1(3) ilen i j by auto
    next
      case False
      then have "\<not> (p \<le> j \<and> j < p + m)"
        using div_le_mono [of p j 128] div_le_mono [of j "p + m - 1" 128] by (auto simp: A_def B_def)
      then show ?thesis using False d'(4) jd j by (auto simp: nth_file_bytes [OF h d'(2)] nth_file_bytes [OF h d])
    qed
  qed
  have bytes: "file_bytes ?h d' = overwrite (file_bytes ?h d) p (take m from)"
    by (rule nth_equalityI) (use m img in \<open>auto simp: length_file_bytes [OF h d'(2)] length_file_bytes [OF h d] nth_overwrite min_absorb2\<close>)
  have "(if int p + int n > numBytes ?h then numBytes ?h - int p else int n) = int m"
    using L False by (auto simp: m_def)
  moreover have "int p sdiv 128 = int A" "(int p + int m - 1) sdiv 128 = int B"
    using m(1) by (simp_all add: sdiv_nonneg A_def B_def zdiv_int of_nat_diff Suc_leI)
  moreover have "nat ((1 + int B - int A) * 128) = 128 * (B + 1 - A)" using AB by (simp add: nat_mult_distrib)
  moreover have "\<not> (int n \<le> 0 \<or> numBytes ?h \<le> int p)" using False L by auto
  moreover have "(int p = int A * 128) = (p = 128 * A)" "(int p + int m = (int B + 1) * 128) = (p + m = 128 * (B + 1))" by auto
  moreover have "slice from 0 (int m) = Inr (take m from)" using slice_spec [of 0 0 "int m" m "from"] m(3) by simp
  ultimately have "WriteAt junk f from (int n) (int p) d = Inr (d', int m)"
    using b1(1) b2(1) d'(1) by (simp add: WriteAt_def FileLength_def Let_def divRoundDown_def)
  with d'(2,3) bytes show ?thesis by blast
qed

section \<open>Allocation\<close>

context allocator
begin

lemma alloc_loop:
  assumes "invar m" and "int (length is) \<le> capacity m - int (card (used m))" and "Q h"
    and put: "\<And>i v h. i \<in> set is \<Longrightarrow> Q h \<Longrightarrow> put i v h = Inr (upd i v h) \<and> Q (upd i v h)"
  shows "\<exists>vs m'. forR is (\<lambda>i (h, m). bindR (alloc m) (\<lambda>(m, v). bindR (put i v h) (\<lambda>h. bindR (ASSERT (v \<ge> 0)) (\<lambda>_. Inr (h, m))))) (h, m)
      = Inr (fold (\<lambda>(i, v). upd i v) (zip is vs) h, m') \<and>
    length vs = length is \<and> distinct vs \<and> set vs \<inter> used m = {} \<and> set vs \<subseteq> {0..<capacity m} \<and>
    invar m' \<and> capacity m' = capacity m \<and> used m' = used m \<union> set vs"
  using assms
proof (induction "is" arbitrary: h m)
  case (Cons i "is")
  obtain m1 v where m1: "alloc m = Inr (m1, v)" "invar m1" "capacity m1 = capacity m" "0 \<le> v" "v < capacity m"
    "v \<notin> used m" "used m1 = insert v (used m)"
    using alloc_spec [OF Cons.prems(1)] Cons.prems(2) by auto
  have p: "put i v h = Inr (upd i v h)" "Q (upd i v h)" using Cons.prems(4) [of i h v] Cons.prems(3) by auto
  have "int (length is) \<le> capacity m1 - int (card (used m1))"
    using Cons.prems(2) m1(3,6,7) used_finite by simp
  from Cons.IH [OF m1(2) this p(2)] Cons.prems(4) obtain vs m' where
    "forR is (\<lambda>i (h, m). bindR (alloc m) (\<lambda>(m, v). bindR (put i v h) (\<lambda>h. bindR (ASSERT (v \<ge> 0)) (\<lambda>_. Inr (h, m))))) (upd i v h, m1)
      = Inr (fold (\<lambda>(i, v). upd i v) (zip is vs) (upd i v h), m')"
    "length vs = length is" "distinct vs" "set vs \<inter> used m1 = {}" "set vs \<subseteq> {0..<capacity m1}"
    "invar m'" "capacity m' = capacity m1" "used m' = used m1 \<union> set vs" by auto
  with m1 p show ?case by (intro exI [of _ "v # vs"] exI [of _ m']) auto
qed simp

lemma release_all:
  assumes "invar m" and "distinct vs" and "set vs \<subseteq> used m"
  shows "\<exists>m'. forR vs (\<lambda>v m. bindR (test m v) (\<lambda>b. bindR (ASSERT b) (\<lambda>_. release m v))) m = Inr m' \<and>
    invar m' \<and> capacity m' = capacity m \<and> used m' = used m - set vs"
  using assms
proof (induction vs arbitrary: m)
  case (Cons v vs)
  then have v: "0 \<le> v" "v < capacity m" "v \<in> used m" using used_bounds [of v m] by auto
  obtain m1 where m1: "release m v = Inr m1" "invar m1" "capacity m1 = capacity m" "used m1 = used m - {v}"
    using release_spec [OF Cons.prems(1) v(1,2)] by blast
  have "set vs \<subseteq> used m1" using Cons.prems m1(4) by auto
  from Cons.IH [OF m1(2) _ this] Cons.prems(2) m1 test_spec [OF Cons.prems(1) v(1,2)] v(3) show ?case by auto
qed simp

end

lemma forR_map: "forR (map g xs) f s = forR xs (\<lambda>i. f (g i)) s"
  by (induction xs arbitrary: s) (simp_all add: bindR_def split: sum.split)

lemma forR_cong: "(\<And>i s. i \<in> set xs \<Longrightarrow> f i s = g i s) \<Longrightarrow> forR xs f s = forR xs g s"
  by (induction xs arbitrary: s) (simp_all add: bindR_def split: sum.split)

lemma upto_map_int: "[0..int n - 1] = map int [0..<n]"
  by (rule nth_equalityI) (simp_all add: nth_upto)

definition put_sector :: "int \<Rightarrow> int \<Rightarrow> file_header \<Rightarrow> file_header" where
  "put_sector i v h = h\<lparr>dataSectors := (dataSectors h)[nat i := v]\<rparr>"

lemma fold_put_sector:
  "n + length vs \<le> length (dataSectors h) \<Longrightarrow>
   fold (\<lambda>(i, v). put_sector i v) (zip (map int [n..<n + length vs]) vs) h =
     h\<lparr>dataSectors := take n (dataSectors h) @ vs @ drop (n + length vs) (dataSectors h)\<rparr>"
proof (induction vs arbitrary: n h)
  case (Cons v vs)
  let ?h = "put_sector (int n) v h"
  have len: "n < length (dataSectors h)" "Suc n + length vs \<le> length (dataSectors ?h)" using Cons.prems by (simp_all add: put_sector_def)
  have "[n..<n + length (v # vs)] = n # [Suc n..<Suc n + length vs]" by (simp add: upt_rec)
  then have "fold (\<lambda>(i, v). put_sector i v) (zip (map int [n..<n + length (v # vs)]) (v # vs)) h =
      ?h\<lparr>dataSectors := take (Suc n) (dataSectors ?h) @ vs @ drop (Suc n + length vs) (dataSectors ?h)\<rparr>"
    using Cons.IH [OF len(2)] by simp
  also have "take (Suc n) (dataSectors ?h) = take n (dataSectors h) @ [v]"
    using len(1) by (simp add: put_sector_def take_Suc_conv_app_nth)
  also have "drop (Suc n + length vs) (dataSectors ?h) = drop (n + length (v # vs)) (dataSectors h)"
    by (simp add: put_sector_def)
  finally show ?case by (simp add: put_sector_def)
qed simp

lemma Allocate_spec:
  assumes "bitmap_wf fm" and "numBits fm = NumSectors" and "0 \<le> fileSize" and "length (dataSectors h) = nat NumDirect"
    and n: "n = divRoundUp fileSize SectorSize" and free: "free = numBits fm - int (card (marked fm))"
  shows "free < n \<Longrightarrow> Allocate fm fileSize h = Inr (h\<lparr>numBytes := fileSize, numSectors := n\<rparr>, fm, False)"
    and "n \<le> free \<Longrightarrow> n \<le> NumDirect \<Longrightarrow> \<exists>h' fm'. Allocate fm fileSize h = Inr (h', fm', True) \<and>
      file_ok h' \<and> numBytes h' = fileSize \<and> numSectors h' = n \<and> bitmap_wf fm' \<and> numBits fm' = numBits fm \<and>
      int ` set (file_sectors h') \<inter> marked fm = {} \<and> marked fm' = marked fm \<union> int ` set (file_sectors h') \<and>
      set (dataSectors h') \<subseteq> set (dataSectors h) \<union> {0..<NumSectors}"
    and "n \<le> free \<Longrightarrow> NumDirect < n \<Longrightarrow> Allocate fm fileSize h = Inl OutOfBounds"
proof -
  let ?h = "h\<lparr>numBytes := fileSize, numSectors := n\<rparr>"
  have n0: "0 \<le> n" using divRoundUp_bounds(3) [OF assms(3), of 128] n by simp
  have nc: "NumClear fm = Inr free" using bitmap.num_free_spec [OF assms(1)] free by simp
  show "Allocate fm fileSize h = Inr (?h, fm, False)" if "free < n"
    using that nc n by (simp add: Allocate_def Let_def)
  let ?Q = "\<lambda>h. length (dataSectors h) = 30"
  have put: "set_dataSector i v h = Inr (put_sector i v h) \<and> ?Q (put_sector i v h)" if "0 \<le> i" "i < 30" "?Q h" for i v h
    using that by (simp add: set_dataSector_def put_sector_def)
  have loop: "\<exists>vs fm'. forR [0..int k - 1] alloc_sector (?h, fm) = Inr (fold (\<lambda>(i, v). put_sector i v) (zip [0..int k - 1] vs) ?h, fm') \<and>
    length vs = k \<and> distinct vs \<and> set vs \<inter> marked fm = {} \<and> set vs \<subseteq> {0..<1024} \<and>
    bitmap_wf fm' \<and> numBits fm' = numBits fm \<and> marked fm' = marked fm \<union> set vs" if k: "int k \<le> free" "k \<le> 30" for k
    using bitmap.alloc_loop [OF assms(1), of "[0..int k - 1]" ?Q ?h set_dataSector put_sector] k put assms(2,4) free
    by (simp add: alloc_sector_def [abs_def])
  show "\<exists>h' fm'. Allocate fm fileSize h = Inr (h', fm', True) \<and>
      file_ok h' \<and> numBytes h' = fileSize \<and> numSectors h' = n \<and> bitmap_wf fm' \<and> numBits fm' = numBits fm \<and>
      int ` set (file_sectors h') \<inter> marked fm = {} \<and> marked fm' = marked fm \<union> int ` set (file_sectors h') \<and>
      set (dataSectors h') \<subseteq> set (dataSectors h) \<union> {0..<NumSectors}"
    if a: "n \<le> free" "n \<le> NumDirect"
  proof -
    obtain vs fm' where l: "forR [0..n - 1] alloc_sector (?h, fm) = Inr (fold (\<lambda>(i, v). put_sector i v) (zip [0..n - 1] vs) ?h, fm')"
      "length vs = nat n" "distinct vs" "set vs \<inter> marked fm = {}" "set vs \<subseteq> {0..<1024}"
      "bitmap_wf fm'" "numBits fm' = numBits fm" "marked fm' = marked fm \<union> set vs"
      using loop [of "nat n"] a n0 by (auto simp: nat_le_iff)
    let ?h' = "?h\<lparr>dataSectors := vs @ drop (length vs) (dataSectors h)\<rparr>"
    have e: "fold (\<lambda>(i, v). put_sector i v) (zip [0..n - 1] vs) ?h = ?h'"
      using fold_put_sector [of 0 vs ?h] upto_map_int [of "nat n"] l(2) n0 a(2) assms(4) by simp
    have "int ` set (file_sectors ?h') = set vs"
      using l(2,5) n0 by (force simp: file_sectors_def image_iff subset_iff)
    moreover have "file_ok ?h'" using l(2,3,5) n0 n a(2) assms(3,4) by (simp add: file_ok_def)
    moreover have "set (dataSectors ?h') \<subseteq> set (dataSectors h) \<union> {0..<NumSectors}"
      using l(5) set_drop_subset [of "length vs" "dataSectors h"] by auto
    ultimately show ?thesis using l e nc n a(1) by (simp add: Allocate_def Let_def)
  qed
  show "Allocate fm fileSize h = Inl OutOfBounds" if a: "n \<le> free" "NumDirect < n"
  proof -
    obtain vs fm' where l: "forR [0..29] alloc_sector (?h, fm) = Inr (fold (\<lambda>(i, v). put_sector i v) (zip [0..29] vs) ?h, fm')"
      "bitmap_wf fm'" "numBits fm' = numBits fm" "marked fm' = marked fm \<union> set vs" "length vs = 30" "distinct vs" "set vs \<inter> marked fm = {}"
      using loop [of 30] a by auto
    have "int (card (marked fm')) < numBits fm'"
      using l(3-7) a free by (simp add: card_Un_disjoint Int_commute distinct_card)
    then obtain fm2 v where "FindAndSet fm' = Inr (fm2, v)" using bitmap.alloc_spec [OF l(2)] by blast
    then have "alloc_sector 30 (x, fm') = Inl OutOfBounds" for x by (simp add: alloc_sector_def set_dataSector_def)
    moreover have "[0..n - 1] = [0..29] @ 30 # [31..n - 1]"
      using a(2) upto_split3 [of 0 30 "n - 1"] by simp
    ultimately have "forR [0..n - 1] alloc_sector (?h, fm) = Inl OutOfBounds" by (simp add: forR_append l(1))
    then show ?thesis using nc n a(1) by (simp add: Allocate_def Let_def)
  qed
qed

lemma Deallocate_spec:
  assumes "bitmap_wf fm" and "numBits fm = NumSectors" and "file_ok h" and "int ` set (file_sectors h) \<subseteq> marked fm"
  shows "\<exists>fm'. Deallocate fm h = Inr fm' \<and> bitmap_wf fm' \<and> numBits fm' = numBits fm \<and>
    marked fm' = marked fm - int ` set (file_sectors h)"
proof -
  let ?vs = "map int (file_sectors h)" and ?n = "nat (numSectors h)"
  let ?rel = "\<lambda>v m. bindR (Test m v) (\<lambda>b. bindR (ASSERT b) (\<lambda>_. Clear m v))"
  have n: "0 \<le> numSectors h" using assms(3) divRoundUp_bounds(3) [of "numBytes h" 128] by (simp add: file_ok_def)
  have vs: "?vs = map (\<lambda>k. int (file_sectors h ! k)) [0..<?n]"
    by (rule nth_equalityI) (simp_all add: file_ok_facts(1) [OF assms(3)])
  have "Deallocate fm h = forR (map int [0..<?n]) (\<lambda>i. ?rel (int (file_sectors h ! nat i))) fm"
    unfolding Deallocate_def using n upto_map_int [of ?n] file_ok_facts(2) [OF assms(3)]
    by (auto intro!: forR_cong simp: get_dataSector_def file_ok_facts(6) [OF assms(3)])
  also have "\<dots> = forR ?vs ?rel fm" by (simp add: vs forR_map)
  finally have e: "Deallocate fm h = forR ?vs ?rel fm" .
  have "distinct ?vs" "set ?vs \<subseteq> marked fm" using file_ok_facts(3) [OF assms(3)] assms(4) by (simp_all add: distinct_map)
  from bitmap.release_all [OF assms(1) this] show ?thesis by (simp add: e)
qed

section \<open>The stored form\<close>

text \<open>The stored form of a header: 32 words, one sector.\<close>

lemma int_bytes_word: "word_at_byte (xs @ int_bytes w @ ys) i = w" if "length xs = 4 * i"
  using that by (simp add: word_at_byte_def int_bytes_def nth_append)

lemma length_int_bytes [simp]: "length (int_bytes w) = 4"
  by (simp add: int_bytes_def)

lemma words_of_bytes:
  assumes "i < length ws"
  shows "word_at_byte (concat (map int_bytes ws)) i = ws ! i"
proof -
  have "concat (map int_bytes ws) = concat (map int_bytes (take i ws)) @ int_bytes (ws ! i) @ concat (map int_bytes (drop (Suc i) ws))"
    using assms by (metis concat.simps(2) concat_append id_take_nth_drop list.map(2) map_append)
  moreover have "length (concat (map int_bytes (take i ws))) = 4 * i"
    using assms length_concat_uniform [of "take i ws" int_bytes 4] by simp
  ultimately show ?thesis using int_bytes_word by simp
qed

definition int_fits :: "int \<Rightarrow> bool" where
  "int_fits i \<longleftrightarrow> - (2 ^ 31) \<le> i \<and> i < 2 ^ 31"

lemma sint_of_int_fits: "int_fits i \<Longrightarrow> sint (word_of_int i :: u32) = i"
  by (simp add: int_fits_def sint_word_ariths(8) signed_take_bit_int_eq_self sint_sbintrunc' flip: word_of_int_eq_iff)

lemma hdr_roundtrip:
  assumes "length (dataSectors h) = nat NumDirect" and "\<forall>i \<in> set (numBytes h # numSectors h # dataSectors h). int_fits i"
  shows "length (hdr_to_bytes h) = nat SectorSize" and "hdr_of_bytes (hdr_to_bytes h) = h"
proof -
  let ?ws = "map word_of_int (numBytes h # numSectors h # dataSectors h) :: u32 list"
  have len: "length ?ws = 32" using assms(1) by simp
  have b: "hdr_to_bytes h = concat (map int_bytes ?ws)" by (simp add: hdr_to_bytes_def comp_def)
  show "length (hdr_to_bytes h) = nat SectorSize"
    unfolding b using length_concat_uniform [of ?ws int_bytes 4] len by simp
  have w: "sint (word_at_byte (hdr_to_bytes h) i) = (numBytes h # numSectors h # dataSectors h) ! i" if "i < 32" for i
  proof -
    have "sint (?ws ! i) = (numBytes h # numSectors h # dataSectors h) ! i"
      using that len assms(2) by (subst nth_map) (simp_all add: sint_of_int_fits del: list.simps)
    then show ?thesis unfolding b using words_of_bytes [of i ?ws] that len by simp
  qed
  have "map (\<lambda>i. sint (word_at_byte (hdr_to_bytes h) (i + 2))) [0..<30] = dataSectors h"
    using assms(1) w by (intro nth_equalityI) simp_all
  then show "hdr_of_bytes (hdr_to_bytes h) = h" using w [of 0] w [of 1] by (simp add: hdr_of_bytes_def)
qed

definition header_fits :: "file_header \<Rightarrow> bool" where
  "header_fits h \<longleftrightarrow> file_ok h \<and> (\<forall>i \<in> set (dataSectors h). int_fits i)"

lemma header_fits_words: "header_fits h \<Longrightarrow> \<forall>i \<in> set (numBytes h # numSectors h # dataSectors h). int_fits i"
  using divRoundUp_bounds(1,3) [of "numBytes h" 128] by (auto simp: header_fits_def file_ok_def int_fits_def)

lemma hdr_disk_roundtrip:
  assumes "header_fits h" and "disk_sectors_ok d" and "0 \<le> n" and "n < NumSectors"
  shows "\<exists>d'. hdr_WriteBack n h d = Inr d' \<and> disk_sectors_ok d' \<and> d' = d[nat n := hdr_to_bytes h] \<and> hdr_FetchFrom n d' = Inr h"
proof -
  have l: "length (hdr_to_bytes h) = 128" "hdr_of_bytes (hdr_to_bytes h) = h"
    using hdr_roundtrip [OF _ header_fits_words [OF assms(1)]] assms(1) by (simp_all add: header_fits_def file_ok_def)
  have "disk_sectors_ok (d[nat n := hdr_to_bytes h])"
    using assms(2) l(1) by (auto simp: disk_sectors_ok_def dest!: set_update_subset_insert [THEN subsetD])
  moreover have "nat n < length d" using assms by (simp add: disk_sectors_ok_def)
  ultimately show ?thesis using assms l
    by (simp add: hdr_WriteBack_def hdr_FetchFrom_def WriteSector_def ReadSector_def)
qed

section \<open>The device and printing\<close>

lemma sectors_of_ok: "disk_ok s \<Longrightarrow> disk_sectors_ok (sectors_of s)"
  using offsets by (auto simp: disk_sectors_ok_def sectors_of_def sector_data_def length_file_read disk_ok_def)

lemma synch_disk_requests:
  assumes "disk_ok s" and "\<not> active s" and "0 \<le> n" and "n < NumSectors" and "length data = nat SectorSize"
  shows "\<exists>s'. ReadRequest n s = Inr (s', sector_data s n) \<and> ReadSector n (sectors_of s) = Inr (sector_data s n) \<and>
      sectors_of s' = sectors_of s"
    and "\<exists>s'. WriteRequest n data s = Inr s' \<and> WriteSector n data (sectors_of s) = Inr (sectors_of s')"
proof -
  obtain s1 where "ReadRequest n s = Inr (s1, sector_data s n)" "diskFile s1 = diskFile s"
    using ReadRequest_ok [OF assms(1-4)] by blast
  then show "\<exists>s'. ReadRequest n s = Inr (s', sector_data s n) \<and> ReadSector n (sectors_of s) = Inr (sector_data s n) \<and>
      sectors_of s' = sectors_of s"
    using assms(3,4) by (auto simp: ReadSector_def sectors_of_def sector_data_def nat_less_iff)
  obtain s2 where w: "WriteRequest n data s = Inr s2" "diskFile s2 = file_write (diskFile s) (SectorSize * n + MagicSize) data"
    using WriteRequest_ok [OF assms] by blast
  have "(sectors_of s)[nat n := data] = sectors_of s2"
  proof (rule nth_equalityI)
    fix i assume "i < length ((sectors_of s)[nat n := data])"
    then have i: "i < 1024" by (simp add: sectors_of_def)
    then have "sector_data s2 (int i) = (if int i = n then data else sector_data s (int i))"
      using sector_write [OF assms(1,3,4) _ _ assms(5) w(2), of "int i"] by simp
    with i assms(3) show "(sectors_of s)[nat n := data] ! i = sectors_of s2 ! i"
      by (auto simp: sectors_of_def nth_list_update)
  qed (simp add: sectors_of_def)
  then show "\<exists>s'. WriteRequest n data s = Inr s' \<and> WriteSector n data (sectors_of s) = Inr (sectors_of s')"
    using w(1) assms(3-5) by (simp add: WriteSector_def)
qed

lemma forR_collect:
  "(\<And>i. i \<in> set xs \<Longrightarrow> g i = Inr (v i)) \<Longrightarrow>
   forR xs (\<lambda>i out. bindR (g i) (\<lambda>v. Inr (out @ [v]))) start = Inr (start @ map v xs)"
  by (induction xs arbitrary: start) simp_all

lemma print_sector_eq: "print_sector data k h = map show_byte (take (nat (numBytes h - k)) (take (nat SectorSize) data))"
  if "length data = nat SectorSize" for data
  using that by (simp add: print_sector_def)

lemma hdr_Print_shows_file:
  assumes "file_ok h" and "disk_sectors_ok d"
  shows "\<exists>ls. hdr_Print h d = Inr (numBytes h, map int (file_sectors h), ls) \<and> concat ls = map show_byte (file_bytes h d)"
proof -
  let ?n = "nat (numSectors h)"
  let ?f = "\<lambda>i (k, out). bindR (get_dataSector h i) (\<lambda>v. bindR (ReadSector v d) (\<lambda>data.
      let l = print_sector data k h in Inr (k + int (length l), out @ [l])))"
  define I where "I j = (\<lambda>(k, out). k = int (min (128 * j) (nat (numBytes h))) \<and>
      concat out = map show_byte (take (128 * j) (file_bytes h d)))" for j
  have n: "[0..numSectors h - 1] = map int [0..<?n]"
    using upto_map_int [of ?n] assms(1) divRoundUp_bounds(3) [of "numBytes h" 128] by (simp add: file_ok_def)
  have "\<exists>s'. forR (map int [0..<?n]) ?f (0, []) = Inr s' \<and> I (length (map int [0..<?n])) s'"
  proof (rule forR_invariant)
    show "I 0 (0, [])" by (simp add: I_def)
    fix j s assume "j < length (map int [0..<?n])" and I: "I j s"
    then have j: "j < ?n" by simp
    obtain k out where s: "s = (k, out)" by force
    let ?data = "d ! (file_sectors h ! j)"
    have fs: "file_sectors h ! j < 1024" by (rule ByteToSector_spec(2) [OF assms(1) j])
    have len: "length ?data = 128" using fs assms(2) by (simp add: disk_sectors_ok_nth)
    have g: "get_dataSector h (int j) = Inr (int (file_sectors h ! j))"
      using j file_ok_facts(2) [OF assms(1)] file_ok_facts(6) [OF assms(1) j] by (simp add: get_dataSector_def)
    have "take (nat (numBytes h - k)) ?data = take 128 (drop (128 * j) (file_bytes h d))"
    proof (rule nth_equalityI)
      show l: "length (take (nat (numBytes h - k)) ?data) = length (take 128 (drop (128 * j) (file_bytes h d)))"
        using I s len length_file_bytes [OF assms] by (auto simp: I_def min_def)
      fix i assume "i < length (take (nat (numBytes h - k)) ?data)"
      moreover from this have "i < length (take 128 (drop (128 * j) (file_bytes h d)))" unfolding l .
      then have "i < 128" "128 * j + i < nat (numBytes h)" using length_file_bytes [OF assms] by auto
      ultimately show "take (nat (numBytes h - k)) ?data ! i = take 128 (drop (128 * j) (file_bytes h d)) ! i"
        using nth_file_bytes [OF assms, of "128 * j + i"] length_file_bytes [OF assms] by simp
    qed
    then have p: "print_sector ?data k h = map show_byte (take 128 (drop (128 * j) (file_bytes h d)))"
      using len by (simp add: print_sector_eq)
    have "take (128 * Suc j) (file_bytes h d) = take (128 * j) (file_bytes h d) @ take 128 (drop (128 * j) (file_bytes h d))"
      using take_add [of "128 * j" 128 "file_bytes h d"] by (simp add: add.commute)
    then have "I (Suc j) (k + int (length (print_sector ?data k h)), out @ [print_sector ?data k h])"
      using I s p length_file_bytes [OF assms] by (auto simp: I_def min_def)
    with g fs j s show "\<exists>s'. ?f (map int [0..<?n] ! j) s = Inr s' \<and> I (Suc j) s'"
      by (simp add: ReadSector_def Let_def)
  qed
  then obtain k out where f: "forR (map int [0..<?n]) ?f (0, []) = Inr (k, out)" "I ?n (k, out)" by auto
  have "take (128 * ?n) (file_bytes h d) = file_bytes h d"
    using length_file_bytes [OF assms] file_ok_facts(5) [OF assms(1)] by simp
  moreover have "forR (map int [0..<?n]) (\<lambda>i out. bindR (get_dataSector h i) (\<lambda>v. Inr (out @ [v]))) [] =
      Inr ([] @ map (\<lambda>i. int (file_sectors h ! nat i)) (map int [0..<?n]))"
    using file_ok_facts(2,6) [OF assms(1)] by (intro forR_collect) (auto simp: get_dataSector_def)
  moreover have "map (\<lambda>i. int (file_sectors h ! nat i)) (map int [0..<?n]) = map int (file_sectors h)"
    by (rule nth_equalityI) (simp_all add: file_ok_facts(1) [OF assms(1)])
  ultimately show ?thesis using f n by (simp add: hdr_Print_def I_def)
qed

section \<open>Properties\<close>

definition demo_header :: file_header where
  "demo_header = \<lparr>numBytes = 200, numSectors = 2, dataSectors = [7, 4] @ replicate 28 0\<rparr>"

definition demo_sectors :: sectors where
  "demo_sectors = replicate 1024 (replicate 128 0)"

lemma demo_file: "file_ok demo_header" "header_fits demo_header" "disk_sectors_ok demo_sectors"
  by (simp_all add: demo_header_def demo_sectors_def file_ok_def header_fits_def int_fits_def disk_sectors_ok_def
      divRoundUp_nonneg)



text \<open>
  C21: \<^verbatim>\<open>FileHeader::Allocate\<close> fails, changing nothing in the free map, exactly when the disk has fewer free
  sectors than the file needs. Otherwise, for a file of at most \<^verbatim>\<open>NumDirect\<close> sectors, it gives the file
  distinct sectors that were free, marks exactly them, and \<^verbatim>\<open>Deallocate\<close> of the header makes the same
  sectors free again. A larger file passes the free-space check and the loop then writes beyond
  the end of \<^verbatim>\<open>dataSectors\<close>.
\<close>

theorem Allocate_Deallocate:
  assumes "bitmap_wf fm" and "numBits fm = NumSectors" and "0 \<le> fileSize" and "length (dataSectors h) = nat NumDirect"
  shows "if NumSectors - int (card (marked fm)) < divRoundUp fileSize SectorSize
     then \<exists>h'. Allocate fm fileSize h = Inr (h', fm, False)
     else if fileSize \<le> MaxFileSize
     then \<exists>h' fm'. Allocate fm fileSize h = Inr (h', fm', True) \<and> file_ok h' \<and> FileLength h' = fileSize \<and> bitmap_wf fm' \<and>
       int ` set (file_sectors h') \<inter> marked fm = {} \<and> marked fm' = marked fm \<union> int ` set (file_sectors h') \<and>
       (\<exists>fm''. Deallocate fm' h' = Inr fm'' \<and> bitmap_wf fm'' \<and> marked fm'' = marked fm)
     else Allocate fm fileSize h = Inl OutOfBounds"
proof -
  have b: "(divRoundUp fileSize 128 \<le> 30) = (fileSize \<le> 3840)"
    using divRoundUp_bounds(1,2) [OF assms(3), of 128] by auto
  note A = Allocate_spec [OF assms refl refl]
  consider "NumSectors - int (card (marked fm)) < divRoundUp fileSize SectorSize"
    | "\<not> NumSectors - int (card (marked fm)) < divRoundUp fileSize SectorSize" "fileSize \<le> MaxFileSize"
    | "\<not> NumSectors - int (card (marked fm)) < divRoundUp fileSize SectorSize" "\<not> fileSize \<le> MaxFileSize" by blast
  then show ?thesis
  proof cases
    case 2
    then obtain h' fm' where a: "Allocate fm fileSize h = Inr (h', fm', True)" "file_ok h'" "numBytes h' = fileSize"
      "bitmap_wf fm'" "numBits fm' = NumSectors" "int ` set (file_sectors h') \<inter> marked fm = {}"
      "marked fm' = marked fm \<union> int ` set (file_sectors h')"
      using A(2) b assms(2) by auto
    have "marked fm' - int ` set (file_sectors h') = marked fm" using a(6,7) by blast
    with Deallocate_spec [OF a(4,5,2)] a(7) have "\<exists>fm''. Deallocate fm' h' = Inr fm'' \<and> bitmap_wf fm'' \<and> marked fm'' = marked fm"
      by auto
    with a 2 show ?thesis by (simp add: FileLength_def)
  qed (use A(1,3) b assms(2) in auto)
qed

theorem Allocate_Deallocate_witness:
  "(\<exists>h' fm'. Allocate \<lparr>numBits = 1024, numWords = 32, bmap = replicate 32 0\<rparr> 200 demo_header = Inr (h', fm', True) \<and> file_ok h') \<and>
   Allocate \<lparr>numBits = 1024, numWords = 32, bmap = replicate 32 0\<rparr> 4000 demo_header = Inl OutOfBounds"
proof -
  let ?fm = "\<lparr>numBits = 1024, numWords = 32, bmap = replicate 32 0\<rparr> :: bitmap"
  have wf: "bitmap_wf ?fm" by (simp add: bitmap_wf_def divRoundUp_nonneg)
  have "word_index i < 32" if "i < 1024" for i using that by (simp add: word_index_def nat_less_iff)
  then have m: "marked ?fm = {}" by (auto simp: marked_def bit_at_def)
  have h: "length (dataSectors demo_header) = nat NumDirect" by (simp add: demo_header_def)
  show ?thesis
    using Allocate_Deallocate [OF wf _ _ h, of 200] Allocate_Deallocate [OF wf _ _ h, of 4000] m by (auto simp: divRoundUp_nonneg)
qed

text \<open>
  A header written to a sector is read back unchanged: its 32 words fill the sector exactly.
  \<^verbatim>\<open>Print\<close> of it shows its blocks and then exactly the bytes of the file.
\<close>

theorem header_roundtrip:
  assumes "header_fits h" and "disk_sectors_ok d" and "0 \<le> n" and "n < NumSectors"
  shows "\<exists>d'. hdr_WriteBack n h d = Inr d' \<and> disk_sectors_ok d' \<and> hdr_FetchFrom n d' = Inr h \<and>
     (\<forall>s. s \<noteq> nat n \<longrightarrow> d' ! s = d ! s) \<and>
     (\<exists>ls. hdr_Print h d' = Inr (FileLength h, map int (file_sectors h), ls) \<and> concat ls = map show_byte (file_bytes h d'))"
proof -
  obtain d' where d': "hdr_WriteBack n h d = Inr d'" "disk_sectors_ok d'" "d' = d[nat n := hdr_to_bytes h]" "hdr_FetchFrom n d' = Inr h"
    using hdr_disk_roundtrip [OF assms] by blast
  moreover have "file_ok h" using assms(1) by (simp add: header_fits_def)
  ultimately show ?thesis using hdr_Print_shows_file [of h d'] by (auto simp: FileLength_def)
qed

theorem header_roundtrip_witness:
  "header_fits demo_header \<and> (\<exists>d'. hdr_WriteBack 9 demo_header demo_sectors = Inr d' \<and> hdr_FetchFrom 9 d' = Inr demo_header)"
  using header_roundtrip [OF demo_file(2,3), of 9] demo_file(2) by auto

end
