(* ===== verification/Directory.thy ===== *)
theory Directory
  imports File_Header
begin

text \<open>
  The class \<^verbatim>\<open>Directory\<close> of \<^verbatim>\<open>code/filesys/directory.cc\<close>: a table of entries, each with an in-use flag, the
  sector of a file header and a name of ten bytes, stored in a file as the array of C++ objects
  (twenty bytes each on the 32-bit host; \<open>padding\<close> holds the five bytes no member occupies). Names are
  compared and copied with \<^verbatim>\<open>strncmp\<close> and \<^verbatim>\<open>strncpy\<close> over nine bytes, so a file is known by the first nine bytes
  of its name, \<open>fname\<close>. The lemmas show that the table refines a finite map from such names to
  sectors, with room for as many names as it has entries, and that it is read back as written.
\<close>

section \<open>State\<close>

definition FileNameMaxLen :: nat where "FileNameMaxLen = 9"

record DirectoryEntry =
  inUse :: bool
  sector :: int
  name :: "u8 list"
  padding :: "u8 list"

definition sizeof_DirectoryEntry :: nat where "sizeof_DirectoryEntry = 20"

lemmas dir_sizes [simp] = FileNameMaxLen_def sizeof_DirectoryEntry_def

type_synonym directory = "DirectoryEntry list"

text \<open>C strings: an array or a string is read up to its first NUL; past the end of a literal there is the NUL.\<close>

definition cstr :: "u8 list \<Rightarrow> u8 list" where
  "cstr s = takeWhile (\<lambda>c. c \<noteq> 0) s"

fun strncmp :: "u8 list \<Rightarrow> u8 list \<Rightarrow> nat \<Rightarrow> int" where
  "strncmp a b 0 = 0"
| "strncmp a b (Suc n) =
     (let x = (case a of [] \<Rightarrow> 0 | c # _ \<Rightarrow> c); y = (case b of [] \<Rightarrow> 0 | c # _ \<Rightarrow> c)
      in if x \<noteq> y then uint x - uint y else if x = 0 then 0 else strncmp (tl a) (tl b) n)"

definition strncpy :: "u8 list \<Rightarrow> u8 list \<Rightarrow> nat \<Rightarrow> u8 list" where
  "strncpy dst src n = take n (cstr src @ replicate n 0) @ drop n dst"

definition bytes_at :: "u8 list \<Rightarrow> nat \<Rightarrow> nat \<Rightarrow> u8 list" where
  "bytes_at b off n = map (\<lambda>i. b ! (off + i)) [0..<n]"

definition entry_to_bytes :: "DirectoryEntry \<Rightarrow> u8 list" where
  "entry_to_bytes e = (if inUse e then 1 else 0) # bytes_at (padding e) 0 3 @ int_bytes (word_of_int (sector e)) @
     bytes_at (name e) 0 10 @ bytes_at (padding e) 3 2"

definition entry_of_bytes :: "u8 list \<Rightarrow> DirectoryEntry" where
  "entry_of_bytes b = \<lparr>inUse = (b ! 0 \<noteq> 0), sector = sint (le32 (b ! 4) (b ! 5) (b ! 6) (b ! 7)),
     name = bytes_at b 8 10, padding = bytes_at b 1 3 @ bytes_at b 18 2\<rparr>"

definition table_to_bytes :: "directory \<Rightarrow> u8 list" where
  "table_to_bytes t = concat (map entry_to_bytes t)"

definition table_of_bytes :: "nat \<Rightarrow> u8 list \<Rightarrow> directory" where
  "table_of_bytes n b = map (\<lambda>i. entry_of_bytes (bytes_at b (20 * i) 20)) [0..<n]"

section \<open>Operations\<close>

definition Directory_new :: "(nat \<Rightarrow> u8) \<Rightarrow> nat \<Rightarrow> directory" where
  "Directory_new junk n =
     map (\<lambda>e. e\<lparr>inUse := False\<rparr>) (table_of_bytes n (map junk [0..<n * sizeof_DirectoryEntry]))"

definition dir_FetchFrom :: "(nat \<Rightarrow> u8) \<Rightarrow> open_file \<Rightarrow> sectors \<Rightarrow> directory \<Rightarrow> directory outcome" where
  "dir_FetchFrom junk file d t =
     bindR (ReadAt junk file (int (length t * sizeof_DirectoryEntry)) 0 d) (\<lambda>b.
     Inr (table_of_bytes (length t) (b @ drop (length b) (table_to_bytes t))))"

definition dir_WriteBack :: "(nat \<Rightarrow> u8) \<Rightarrow> open_file \<Rightarrow> directory \<Rightarrow> sectors \<Rightarrow> sectors outcome" where
  "dir_WriteBack junk file t d =
     bindR (WriteAt junk file (table_to_bytes t) (int (length t * sizeof_DirectoryEntry)) 0 d) (\<lambda>(d, _). Inr d)"

fun FindIndex_from :: "int \<Rightarrow> directory \<Rightarrow> u8 list \<Rightarrow> int" where
  "FindIndex_from i [] nm = - 1"
| "FindIndex_from i (e # t) nm =
     (if inUse e \<and> strncmp (name e) nm FileNameMaxLen = 0 then i else FindIndex_from (i + 1) t nm)"

definition FindIndex :: "directory \<Rightarrow> u8 list \<Rightarrow> int" where
  "FindIndex t nm = FindIndex_from 0 t nm"

definition Directory_Find :: "directory \<Rightarrow> u8 list \<Rightarrow> int" where
  "Directory_Find t nm = (let i = FindIndex t nm in if i \<noteq> - 1 then sector (t ! nat i) else - 1)"

fun add_first_free :: "directory \<Rightarrow> u8 list \<Rightarrow> int \<Rightarrow> directory \<times> bool" where
  "add_first_free [] nm newSector = ([], False)"
| "add_first_free (e # t) nm newSector =
     (if \<not> inUse e
      then (e\<lparr>inUse := True, name := strncpy (name e) nm FileNameMaxLen, sector := newSector\<rparr> # t, True)
      else let (t', b) = add_first_free t nm newSector in (e # t', b))"

definition Directory_Add :: "directory \<Rightarrow> u8 list \<Rightarrow> int \<Rightarrow> directory \<times> bool" where
  "Directory_Add t nm newSector = (if FindIndex t nm \<noteq> - 1 then (t, False) else add_first_free t nm newSector)"

definition Directory_Remove :: "directory \<Rightarrow> u8 list \<Rightarrow> directory \<times> bool" where
  "Directory_Remove t nm =
     (let i = FindIndex t nm in if i = - 1 then (t, False) else (t[nat i := (t ! nat i)\<lparr>inUse := False\<rparr>], True))"

text \<open>\<^verbatim>\<open>List\<close> and \<^verbatim>\<open>Print\<close> print each name up to its NUL; the model returns what is printed.\<close>

definition Directory_List :: "directory \<Rightarrow> u8 list list" where
  "Directory_List t = map (\<lambda>e. cstr (name e)) (filter inUse t)"

definition Directory_Print :: "directory \<Rightarrow> sectors \<Rightarrow> (u8 list \<times> int \<times> int \<times> int list \<times> shown list list) list outcome" where
  "Directory_Print t d =
     forR t (\<lambda>e out. if inUse e
        then bindR (hdr_FetchFrom (sector e) d) (\<lambda>h.
             bindR (hdr_Print h d) (\<lambda>p. Inr (out @ [(cstr (name e), sector e, p)])))
        else Inr out) []"

section \<open>Names\<close>

definition fname :: "u8 list \<Rightarrow> u8 list" where
  "fname nm = take FileNameMaxLen (cstr nm)"

lemma strncmp_eq_0: "strncmp a b n = 0 \<longleftrightarrow> take n (cstr a) = take n (cstr b)"
proof (induction n arbitrary: a b)
  case (Suc n)
  show ?case
    by (cases a; cases b) (auto simp: Suc.IH cstr_def Let_def uint_0_iff simp flip: word_uint_eq_iff)
qed simp

lemma strncmp_fname: "strncmp a b FileNameMaxLen = 0 \<longleftrightarrow> fname a = fname b"
  by (simp only: strncmp_eq_0 fname_def)

lemma takeWhile_append_zeros: "\<forall>c \<in> set s. c \<noteq> 0 \<Longrightarrow> takeWhile (\<lambda>c. c \<noteq> 0) (s @ replicate k 0 @ rest) = s \<or> k = 0"
  by (cases k) (simp_all add: takeWhile_append)

lemma fname_strncpy: "length dst = 10 \<Longrightarrow> fname (strncpy dst nm FileNameMaxLen) = fname nm"
proof -
  assume d: "length dst = 10"
  have nz: "\<forall>c \<in> set (cstr nm). c \<noteq> 0" by (auto simp: cstr_def dest: set_takeWhileD)
  show ?thesis
  proof (cases "length (cstr nm) < 9")
    case True
    then have "strncpy dst nm 9 = cstr nm @ replicate (9 - length (cstr nm)) 0 @ drop 9 dst" by (simp add: strncpy_def)
    then have "cstr (strncpy dst nm 9) = cstr nm"
      using takeWhile_append_zeros [OF nz, of "9 - length (cstr nm)" "drop 9 dst"] True by (simp add: cstr_def)
    then show ?thesis by (simp add: fname_def)
  next
    case False
    then have e: "strncpy dst nm 9 = take 9 (cstr nm) @ drop 9 dst" by (simp add: strncpy_def)
    have z: "c \<noteq> 0" if "c \<in> set (take 9 (cstr nm))" for c using nz that by (auto dest: in_set_takeD)
    have "cstr (strncpy dst nm 9) = take 9 (cstr nm) @ cstr (drop 9 dst)"
      unfolding e cstr_def [of "_ @ _"] cstr_def [of "drop 9 dst"] by (rule takeWhile_append2) (rule z)
    then show ?thesis using False by (simp add: fname_def)
  qed
qed

lemma length_strncpy: "length dst = 10 \<Longrightarrow> length (strncpy dst nm FileNameMaxLen) = 10"
  by (simp add: strncpy_def)

lemma fname_fname [simp]: "fname (fname nm) = fname nm"
proof -
  have "\<forall>c \<in> set (fname nm). c \<noteq> 0" unfolding fname_def cstr_def by (auto dest: in_set_takeD set_takeWhileD)
  then have "cstr (fname nm) = fname nm" by (simp add: cstr_def takeWhile_eq_all_conv)
  then show ?thesis by (simp add: fname_def)
qed

section \<open>The map\<close>

text \<open>
  What a table means: a map from names to sectors. The invariant: the names in use are distinct,
  and every entry has the layout of the C++ object.
\<close>

definition entry_wf :: "DirectoryEntry \<Rightarrow> bool" where
  "entry_wf e \<longleftrightarrow> length (name e) = 10 \<and> length (padding e) = 5 \<and> int_fits (sector e)"

definition used_names :: "directory \<Rightarrow> u8 list list" where
  "used_names t = map (\<lambda>e. fname (name e)) (filter inUse t)"

definition dir_ok :: "directory \<Rightarrow> bool" where
  "dir_ok t \<longleftrightarrow> (\<forall>e \<in> set t. entry_wf e) \<and> distinct (used_names t)"

fun dir_lookup :: "directory \<Rightarrow> u8 list \<rightharpoonup> int" where
  "dir_lookup [] k = None"
| "dir_lookup (e # t) k = (if inUse e \<and> fname (name e) = k then Some (sector e) else dir_lookup t k)"

lemma used_names_simps [simp]:
  "used_names [] = []" "used_names (e # t) = (if inUse e then fname (name e) # used_names t else used_names t)"
  "used_names (a @ b) = used_names a @ used_names b"
  by (simp_all add: used_names_def)

lemma takeWhile_less: "x \<in> set xs \<Longrightarrow> \<not> P x \<Longrightarrow> length (takeWhile P xs) < length xs"
  by (induction xs) auto

lemma dom_dir_lookup: "dom (dir_lookup t) = set (used_names t)"
  by (induction t) (auto simp: used_names_def dom_def)

lemma dir_lookup_Some: "dir_lookup t k = Some s \<Longrightarrow> \<exists>e \<in> set t. inUse e \<and> fname (name e) = k \<and> sector e = s"
  by (induction t) (auto split: if_splits)

lemma dir_lookup_entry: "distinct (used_names t) \<Longrightarrow> e \<in> set t \<Longrightarrow> inUse e \<Longrightarrow> dir_lookup t (fname (name e)) = Some (sector e)"
  by (induction t) (auto simp: used_names_def image_iff split: if_splits)

lemma FindIndex_from_spec:
  "FindIndex_from i t nm =
     (case dir_lookup t (fname nm) of None \<Rightarrow> - 1
      | Some s \<Rightarrow> i + int (length (takeWhile (\<lambda>e. \<not> (inUse e \<and> fname (name e) = fname nm)) t)))"
  by (induction t arbitrary: i) (auto simp: strncmp_fname simp del: FileNameMaxLen_def split: option.splits)

lemma FindIndex_None: "dir_lookup t (fname nm) = None \<Longrightarrow> FindIndex t nm = - 1"
  by (simp add: FindIndex_def FindIndex_from_spec)

lemma FindIndex_Some:
  assumes "dir_lookup t (fname nm) = Some s"
  obtains i where "FindIndex t nm = int i" "i < length t" "inUse (t ! i)" "fname (name (t ! i)) = fname nm" "sector (t ! i) = s"
proof -
  let ?P = "\<lambda>e. \<not> (inUse e \<and> fname (name e) = fname nm)"
  let ?i = "length (takeWhile ?P t)"
  have "?i < length t" using dir_lookup_Some [OF assms] by (auto intro: takeWhile_less)
  moreover have "\<not> ?P (t ! ?i)" using calculation nth_length_takeWhile [of ?P t] by blast
  moreover have "sector (t ! ?i) = s" using assms by (induction t) (auto split: if_splits)
  ultimately show ?thesis using that [of ?i] assms by (simp add: FindIndex_def FindIndex_from_spec)
qed

lemma Directory_Find_spec:
  "Directory_Find t nm = (case dir_lookup t (fname nm) of None \<Rightarrow> - 1 | Some s \<Rightarrow> s)"
proof (cases "dir_lookup t (fname nm)")
  case None
  then show ?thesis by (simp add: Directory_Find_def FindIndex_None)
next
  case (Some s)
  then obtain i where "FindIndex t nm = int i" "sector (t ! i) = s" by (rule FindIndex_Some)
  with Some show ?thesis by (simp add: Directory_Find_def Let_def)
qed

definition new_entry :: "u8 list \<Rightarrow> int \<Rightarrow> DirectoryEntry \<Rightarrow> DirectoryEntry" where
  "new_entry nm s e = e\<lparr>inUse := True, name := strncpy (name e) nm FileNameMaxLen, sector := s\<rparr>"

lemma add_first_free_full: "filter (\<lambda>e. \<not> inUse e) t = [] \<Longrightarrow> add_first_free t nm s = (t, False)"
  by (induction t) (auto split: if_splits)

lemma add_first_free_split:
  assumes "filter (\<lambda>e. \<not> inUse e) t \<noteq> []"
  obtains a e b where "t = a @ e # b" "\<not> inUse e" "add_first_free t nm s = (a @ new_entry nm s e # b, True)"
proof -
  have "\<exists>a e b. t = a @ e # b \<and> \<not> inUse e \<and> add_first_free t nm s = (a @ new_entry nm s e # b, True)"
    using assms
  proof (induction t)
    case (Cons e t)
    show ?case
    proof (cases "inUse e")
      case True
      then obtain a e' b where "t = a @ e' # b" "\<not> inUse e'" "add_first_free t nm s = (a @ new_entry nm s e' # b, True)"
        using Cons by auto
      with True show ?thesis by (intro exI [of _ "e # a"] exI [of _ e'] exI [of _ b]) simp
    next
      case False
      then show ?thesis by (intro exI [of _ "[]"] exI [of _ e] exI [of _ t]) (simp add: new_entry_def)
    qed
  qed simp
  with that show ?thesis by blast
qed

lemma dir_lookup_append: "dir_lookup (a @ b) k = (case dir_lookup a k of None \<Rightarrow> dir_lookup b k | Some s \<Rightarrow> Some s)"
  by (induction a) auto

lemma Directory_Add_spec:
  assumes "dir_ok t" and "int_fits s"
  shows "dir_lookup t (fname nm) \<noteq> None \<or> filter (\<lambda>e. \<not> inUse e) t = [] \<Longrightarrow> Directory_Add t nm s = (t, False)"
    and "dir_lookup t (fname nm) = None \<Longrightarrow> filter (\<lambda>e. \<not> inUse e) t \<noteq> [] \<Longrightarrow>
      \<exists>a e b. t = a @ e # b \<and> \<not> inUse e \<and> Directory_Add t nm s = (a @ new_entry nm s e # b, True) \<and>
        dir_ok (a @ new_entry nm s e # b) \<and> dir_lookup (a @ new_entry nm s e # b) = (dir_lookup t)(fname nm \<mapsto> s)"
proof -
  show "Directory_Add t nm s = (t, False)" if c: "dir_lookup t (fname nm) \<noteq> None \<or> filter (\<lambda>e. \<not> inUse e) t = []"
  proof (cases "dir_lookup t (fname nm)")
    case None
    then show ?thesis using c by (simp add: Directory_Add_def FindIndex_None add_first_free_full)
  next
    case (Some s)
    then obtain i where "FindIndex t nm = int i" by (rule FindIndex_Some)
    then show ?thesis by (simp add: Directory_Add_def)
  qed
  assume n: "dir_lookup t (fname nm) = None" and f: "filter (\<lambda>e. \<not> inUse e) t \<noteq> []"
  from f obtain a e b where s: "t = a @ e # b" "\<not> inUse e" "add_first_free t nm s = (a @ new_entry nm s e # b, True)"
    by (rule add_first_free_split)
  have ew: "entry_wf e" using assms(1) s(1) by (simp add: dir_ok_def)
  then have fn: "fname (name (new_entry nm s e)) = fname nm" "entry_wf (new_entry nm s e)"
    using assms(2) fname_strncpy [of "name e" nm] length_strncpy [of "name e" nm]
    by (simp_all add: new_entry_def entry_wf_def del: FileNameMaxLen_def)
  have "fname nm \<notin> set (used_names t)" using n dom_dir_lookup by (auto simp: domIff)
  then have "dir_ok (a @ new_entry nm s e # b)"
    using assms(1) s(1,2) fn by (auto simp: dir_ok_def)
  moreover have "dir_lookup (a @ new_entry nm s e # b) = (dir_lookup t)(fname nm \<mapsto> s)"
    using n s(1,2) fn by (auto simp: fun_eq_iff dir_lookup_append new_entry_def split: option.splits)
  ultimately show "\<exists>a e b. t = a @ e # b \<and> \<not> inUse e \<and> Directory_Add t nm s = (a @ new_entry nm s e # b, True) \<and>
        dir_ok (a @ new_entry nm s e # b) \<and> dir_lookup (a @ new_entry nm s e # b) = (dir_lookup t)(fname nm \<mapsto> s)"
    using s n by (auto simp: Directory_Add_def FindIndex_None)
qed

lemma Directory_Remove_spec:
  assumes "dir_ok t"
  shows "dir_lookup t (fname nm) = None \<Longrightarrow> Directory_Remove t nm = (t, False)"
    and "dir_lookup t (fname nm) = Some s \<Longrightarrow>
      \<exists>a e b. t = a @ e # b \<and> inUse e \<and> sector e = s \<and> fname (name e) = fname nm \<and>
        Directory_Remove t nm = (a @ e\<lparr>inUse := False\<rparr> # b, True) \<and> dir_ok (a @ e\<lparr>inUse := False\<rparr> # b) \<and>
        dir_lookup (a @ e\<lparr>inUse := False\<rparr> # b) = (dir_lookup t)(fname nm := None)"
proof -
  show "dir_lookup t (fname nm) = None \<Longrightarrow> Directory_Remove t nm = (t, False)"
    by (simp add: Directory_Remove_def FindIndex_None)
  assume "dir_lookup t (fname nm) = Some s"
  then obtain i where i: "FindIndex t nm = int i" "i < length t" "inUse (t ! i)" "fname (name (t ! i)) = fname nm" "sector (t ! i) = s"
    by (rule FindIndex_Some)
  obtain a e b where t: "t = a @ e # b" and l: "length a = i"
    using id_take_nth_drop [OF i(2)] i(2) by (metis length_take min_absorb2 nat_less_le)
  have e: "t ! i = e" unfolding t using l by (metis nth_append_length)
  have r: "Directory_Remove t nm = (a @ e\<lparr>inUse := False\<rparr> # b, True)"
  proof -
    have "t[i := v] = a @ v # b" for v using l by (simp add: t list_update_append)
    then show ?thesis using i(1) e by (simp add: Directory_Remove_def Let_def)
  qed
  have ok: "dir_ok (a @ e\<lparr>inUse := False\<rparr> # b)"
    using assms t by (auto simp: dir_ok_def entry_wf_def split: if_splits)
  have d: "distinct (used_names (a @ e # b))" "inUse e" "fname (name e) = fname nm"
    using assms t i(3,4) e by (simp_all add: dir_ok_def)
  then have "fname nm \<notin> dom (dir_lookup a)" "fname nm \<notin> dom (dir_lookup b)"
    by (simp_all add: dom_dir_lookup)
  then have n: "dir_lookup a (fname nm) = None" "dir_lookup b (fname nm) = None" by (simp_all add: domIff)
  have "dir_lookup (a @ e\<lparr>inUse := False\<rparr> # b) k = ((dir_lookup t)(fname nm := None)) k" for k
    using n d(2,3) by (cases "k = fname nm") (simp_all add: t dir_lookup_append split: option.split)
  then have "dir_lookup (a @ e\<lparr>inUse := False\<rparr> # b) = (dir_lookup t)(fname nm := None)" by (rule ext)
  then show "\<exists>a e b. t = a @ e # b \<and> inUse e \<and> sector e = s \<and> fname (name e) = fname nm \<and>
        Directory_Remove t nm = (a @ e\<lparr>inUse := False\<rparr> # b, True) \<and> dir_ok (a @ e\<lparr>inUse := False\<rparr> # b) \<and>
        dir_lookup (a @ e\<lparr>inUse := False\<rparr> # b) = (dir_lookup t)(fname nm := None)"
    using i(5) e d(2,3) by (intro exI [of _ a] exI [of _ e] exI [of _ b] conjI t r ok) simp_all
qed

section \<open>The stored form\<close>

lemma bytes_at_nth [simp]: "length (bytes_at b off n) = n" "i < n \<Longrightarrow> bytes_at b off n ! i = b ! (off + i)"
  by (simp_all add: bytes_at_def)

lemma bytes_at_eq: "off + n \<le> length b \<Longrightarrow> bytes_at b off n = take n (drop off b)"
  by (rule nth_equalityI) simp_all

lemma length_entry_to_bytes [simp]: "length (entry_to_bytes e) = 20"
  by (simp add: entry_to_bytes_def)

lemma bytes_at_split:
  "length b = 5 \<Longrightarrow> bytes_at b 0 3 @ bytes_at b 3 2 = b" "length b = 10 \<Longrightarrow> bytes_at b 0 10 = b"
  using append_take_drop_id [of 3 b] by (simp_all add: bytes_at_eq del: append_take_drop_id)

lemma bytes_at_append: "length xs = off \<Longrightarrow> length ys = n \<Longrightarrow> bytes_at (xs @ ys @ zs) off n = ys"
  by (subst bytes_at_eq) simp_all

lemma entry_roundtrip: "entry_wf e \<Longrightarrow> entry_of_bytes (entry_to_bytes e) = e"
proof -
  assume wf: "entry_wf e"
  let ?b = "entry_to_bytes e" and ?u = "(if inUse e then 1 else 0) :: u8" and ?w = "word_of_int (sector e) :: u32"
  let ?p = "bytes_at (padding e) 0 3" and ?q = "bytes_at (padding e) 3 2"
  have len: "length (name e) = 10" "length (padding e) = 5" using wf by (simp_all add: entry_wf_def)
  have b: "?b = ?u # ?p @ int_bytes ?w @ name e @ ?q"
    using len by (simp add: entry_to_bytes_def bytes_at_split)
  have w: "bytes_at ?b 4 4 = int_bytes ?w" "bytes_at ?b 8 10 = name e" "bytes_at ?b 1 3 = ?p" "bytes_at ?b 18 2 = ?q"
    using bytes_at_append [of "?u # ?p" 4 "int_bytes ?w" 4 "name e @ ?q"] bytes_at_append [of "?u # ?p @ int_bytes ?w" 8 "name e" 10 ?q]
      bytes_at_append [of "[?u]" 1 ?p 3 "int_bytes ?w @ name e @ ?q"] bytes_at_append [of "?u # ?p @ int_bytes ?w @ name e" 18 ?q 2 "[]"] len
    by (simp_all add: b)
  have "?b ! (4 + i) = int_bytes ?w ! i" if "i < 4" for i using bytes_at_nth(2) [of i 4 ?b 4] that w(1) by simp
  from this [of 0] this [of 1] this [of 2] this [of 3]
  have "le32 (?b ! 4) (?b ! 5) (?b ! 6) (?b ! 7) = ?w" by (simp add: int_bytes_def)
  moreover have "sint ?w = sector e" using wf by (intro sint_of_int_fits) (simp add: entry_wf_def)
  moreover have "(?b ! 0 \<noteq> 0) = inUse e" by (simp add: b)
  ultimately show ?thesis using w(2-4) bytes_at_split(1) [OF len(2)] by (simp add: entry_of_bytes_def)
qed

lemma length_table_to_bytes [simp]: "length (table_to_bytes t) = 20 * length t"
  by (induction t) (simp_all add: table_to_bytes_def)

lemma table_roundtrip:
  assumes "\<forall>e \<in> set t. entry_wf e"
  shows "table_of_bytes (length t) (table_to_bytes t) = t"
proof (rule nth_equalityI)
  fix i assume "i < length (table_of_bytes (length t) (table_to_bytes t))"
  then have i: "i < length t" by (simp add: table_of_bytes_def)
  have "table_to_bytes t = table_to_bytes (take i t) @ entry_to_bytes (t ! i) @ table_to_bytes (drop (Suc i) t)"
    using id_take_nth_drop [OF i] by (metis concat.simps(2) concat_append list.map(2) map_append table_to_bytes_def)
  then have "bytes_at (table_to_bytes t) (20 * i) 20 = entry_to_bytes (t ! i)"
    using bytes_at_append [of "table_to_bytes (take i t)" "20 * i" "entry_to_bytes (t ! i)" 20] i by simp
  then show "table_of_bytes (length t) (table_to_bytes t) ! i = t ! i"
    using i assms entry_roundtrip [of "t ! i"] by (simp add: table_of_bytes_def)
qed (simp add: table_of_bytes_def)

lemma entry_wf_of_bytes: "length b = 20 \<Longrightarrow> entry_wf (entry_of_bytes b)"
  using sint_range_size [of "le32 (b ! 4) (b ! 5) (b ! 6) (b ! 7)"]
  by (simp add: entry_wf_def entry_of_bytes_def int_fits_def word_size)

lemma table_of_bytes_wf: "\<forall>e \<in> set (table_of_bytes n b). entry_wf e"
  by (auto simp: table_of_bytes_def intro!: entry_wf_of_bytes)

lemma length_table_of_bytes [simp]: "length (table_of_bytes n b) = n"
  by (simp add: table_of_bytes_def)

text \<open>A directory file holds a table: reading it back gives the table that was written.\<close>

definition dir_in_file :: "nat \<Rightarrow> open_file \<Rightarrow> sectors \<Rightarrow> directory" where
  "dir_in_file n file d = table_of_bytes n (file_bytes (hdr file) d)"

lemma table_of_bytes_take: "20 * n \<le> length b \<Longrightarrow> table_of_bytes n (take (20 * n) b) = table_of_bytes n b"
  by (auto simp: table_of_bytes_def bytes_at_def intro!: arg_cong [where f = entry_of_bytes])

lemma dir_FetchFrom_spec:
  assumes "file_ok (hdr file)" and "disk_sectors_ok d" and "20 * length t \<le> nat (numBytes (hdr file))"
  shows "dir_FetchFrom junk file d t = Inr (dir_in_file (length t) file d)"
proof -
  let ?b = "take (20 * length t) (file_bytes (hdr file) d)"
  have "length ?b = 20 * length t" using assms length_file_bytes [OF assms(1,2)] by simp
  moreover have "ReadAt junk file (int (length t * 20)) 0 d = Inr ?b"
    using ReadAt_nat [OF assms(1,2), of junk "length t * 20" 0] by (simp add: mult.commute)
  ultimately show ?thesis
    using assms(3) length_file_bytes [OF assms(1,2)] by (simp add: dir_FetchFrom_def dir_in_file_def table_of_bytes_take)
qed

lemma dir_WriteBack_spec:
  assumes "file_ok (hdr file)" and "disk_sectors_ok d" and "20 * length t = nat (numBytes (hdr file))" and "\<forall>e \<in> set t. entry_wf e"
  shows "\<exists>d'. dir_WriteBack junk file t d = Inr d' \<and> disk_sectors_ok d' \<and> dir_in_file (length t) file d' = t \<and>
    (\<forall>s. s \<notin> set (file_sectors (hdr file)) \<longrightarrow> d' ! s = d ! s)"
proof -
  have "length t * 20 \<le> length (table_to_bytes t)" "length t * 20 = min (length t * 20) (nat (numBytes (hdr file)) - 0)"
    using assms(3) by simp_all
  from WriteAt_nat [OF assms(1,2) this, of junk] obtain d' where
    w: "WriteAt junk file (table_to_bytes t) (int (length t * 20)) 0 d = Inr (d', int (length t * 20))" "disk_sectors_ok d'"
      "file_bytes (hdr file) d' = overwrite (file_bytes (hdr file) d) 0 (take (length t * 20) (table_to_bytes t))"
      "\<forall>s. s \<notin> set (file_sectors (hdr file)) \<longrightarrow> d' ! s = d ! s" by auto
  have "file_bytes (hdr file) d' = table_to_bytes t"
    using w(3) length_file_bytes [OF assms(1,2)] assms(3) by (simp add: overwrite_def)
  then show ?thesis using w table_roundtrip [OF assms(4)] by (simp add: dir_WriteBack_def dir_in_file_def)
qed

section \<open>The interface\<close>

text \<open>The interface the file system uses: a bounded map from names to sectors.\<close>

locale name_table =
  fixes invar :: "'t \<Rightarrow> bool"
    and lookup :: "'t \<Rightarrow> 'k \<rightharpoonup> int"
    and key_of :: "'n \<Rightarrow> 'k"
    and has_room :: "'t \<Rightarrow> bool"
    and valid :: "int \<Rightarrow> bool"
    and find :: "'t \<Rightarrow> 'n \<Rightarrow> int"
    and add :: "'t \<Rightarrow> 'n \<Rightarrow> int \<Rightarrow> 't \<times> bool"
    and del :: "'t \<Rightarrow> 'n \<Rightarrow> 't \<times> bool"
  assumes find_spec: "find t n = (case lookup t (key_of n) of None \<Rightarrow> - 1 | Some s \<Rightarrow> s)"
    and add_refused: "invar t \<Longrightarrow> valid s \<Longrightarrow> lookup t (key_of n) \<noteq> None \<or> \<not> has_room t \<Longrightarrow> add t n s = (t, False)"
    and add_done: "invar t \<Longrightarrow> valid s \<Longrightarrow> lookup t (key_of n) = None \<Longrightarrow> has_room t \<Longrightarrow>
      snd (add t n s) \<and> invar (fst (add t n s)) \<and> lookup (fst (add t n s)) = (lookup t)(key_of n \<mapsto> s)"
    and del_spec: "invar t \<Longrightarrow> invar (fst (del t n)) \<and> snd (del t n) = (lookup t (key_of n) \<noteq> None) \<and>
      lookup (fst (del t n)) = (lookup t)(key_of n := None)"
    and del_room: "invar t \<Longrightarrow> lookup t (key_of n) \<noteq> None \<Longrightarrow> has_room (fst (del t n))"
begin

lemma find_added:
  "invar t \<Longrightarrow> valid s \<Longrightarrow> snd (add t n s) \<Longrightarrow>
   find (fst (add t n s)) m = (if key_of m = key_of n then s else find t m)"
  using add_refused [of t s n] add_done [of t s n]
  by (cases "lookup t (key_of n) \<noteq> None \<or> \<not> has_room t") (auto simp: find_spec)

lemma find_deleted:
  "invar t \<Longrightarrow> find (fst (del t n)) m = (if key_of m = key_of n then - 1 else find t m)"
  using del_spec [of t n] by (auto simp: find_spec)

lemma delete_then_add:
  "invar t \<Longrightarrow> valid s \<Longrightarrow> lookup t (key_of n) \<noteq> None \<Longrightarrow> snd (add (fst (del t n)) n s)"
  using del_spec [of t n] del_room [of t n] add_done [of "fst (del t n)" s n] by simp

lemma add_then_delete:
  "invar t \<Longrightarrow> valid s \<Longrightarrow> snd (add t n s) \<Longrightarrow> lookup (fst (del (fst (add t n s)) n)) = lookup t"
  using add_refused [of t s n] add_done [of t s n] del_spec [of "fst (add t n s)" n]
  by (cases "lookup t (key_of n) \<noteq> None \<or> \<not> has_room t") (auto simp: fun_eq_iff)

end

definition has_free_entry :: "directory \<Rightarrow> bool" where
  "has_free_entry t \<longleftrightarrow> filter (\<lambda>e. \<not> inUse e) t \<noteq> []"

interpretation dir: name_table dir_ok dir_lookup fname has_free_entry int_fits Directory_Find Directory_Add Directory_Remove
proof
  fix t n s assume "dir_ok t" "int_fits s" "dir_lookup t (fname n) = None" "has_free_entry t"
  then show "snd (Directory_Add t n s) \<and> dir_ok (fst (Directory_Add t n s)) \<and>
      dir_lookup (fst (Directory_Add t n s)) = (dir_lookup t)(fname n \<mapsto> s)"
    using Directory_Add_spec(2) [of t s n] by (auto simp: has_free_entry_def)
next
  fix t n assume ok: "dir_ok t"
  show "dir_ok (fst (Directory_Remove t n)) \<and> snd (Directory_Remove t n) = (dir_lookup t (fname n) \<noteq> None) \<and>
      dir_lookup (fst (Directory_Remove t n)) = (dir_lookup t)(fname n := None)"
  proof (cases "dir_lookup t (fname n)")
    case None
    then show ?thesis using Directory_Remove_spec(1) [OF ok] ok by (simp add: fun_upd_idem)
  next
    case (Some s)
    then show ?thesis using Directory_Remove_spec(2) [OF ok, of n s] by auto
  qed
  show "dir_lookup t (fname n) \<noteq> None \<Longrightarrow> has_free_entry (fst (Directory_Remove t n))"
    using Directory_Remove_spec(2) [OF ok, of n] by (fastforce simp: has_free_entry_def)
qed (auto simp: Directory_Find_spec Directory_Add_spec(1) has_free_entry_def)

section \<open>Properties\<close>

text \<open>
  C32: the directory is a map from names, cut to nine bytes, to sectors. \<^verbatim>\<open>Add\<close> succeeds exactly when
  the name is new and an entry is free, and then \<^verbatim>\<open>Find\<close> returns the sector for that name and is
  unchanged for every other; a refused \<^verbatim>\<open>Add\<close> changes nothing. \<^verbatim>\<open>Remove\<close> succeeds exactly when the name is
  present and makes just that name unknown. Both keep the names distinct.
\<close>

theorem directory_map:
  assumes "dir_ok t" and "int_fits s"
  shows "Directory_Find t nm = (case dir_lookup t (fname nm) of None \<Rightarrow> - 1 | Some k \<Rightarrow> k) \<and>
    snd (Directory_Add t nm s) = (dir_lookup t (fname nm) = None \<and> has_free_entry t) \<and>
    (if snd (Directory_Add t nm s)
     then dir_ok (fst (Directory_Add t nm s)) \<and> (\<forall>m. Directory_Find (fst (Directory_Add t nm s)) m =
            (if fname m = fname nm then s else Directory_Find t m))
     else fst (Directory_Add t nm s) = t) \<and>
    snd (Directory_Remove t nm) = (dir_lookup t (fname nm) \<noteq> None) \<and> dir_ok (fst (Directory_Remove t nm)) \<and>
    (\<forall>m. Directory_Find (fst (Directory_Remove t nm)) m = (if fname m = fname nm then - 1 else Directory_Find t m))"
proof -
  have "snd (Directory_Add t nm s) = (dir_lookup t (fname nm) = None \<and> has_free_entry t) \<and>
      (if snd (Directory_Add t nm s) then dir_ok (fst (Directory_Add t nm s)) else fst (Directory_Add t nm s) = t)"
    using dir.add_refused [OF assms, of nm] dir.add_done [OF assms, of nm] by fastforce
  then show ?thesis
    using dir.find_spec dir.find_added [OF assms, of nm] dir.find_deleted [OF assms(1), of nm] dir.del_spec [OF assms(1), of nm]
    by (auto split: if_splits)
qed

definition demo_directory :: directory where
  "demo_directory = replicate 10 \<lparr>inUse = False, sector = 0, name = replicate 10 0, padding = replicate 5 0\<rparr>"

lemma demo_directory_ok: "dir_ok demo_directory" "has_free_entry demo_directory" "dir_lookup demo_directory k = None"
  by (simp_all add: demo_directory_def dir_ok_def entry_wf_def int_fits_def has_free_entry_def eval_nat_numeral)

theorem directory_map_witness:
  "dir_ok demo_directory \<and> snd (Directory_Add demo_directory [97, 98] 5) \<and>
   Directory_Find (fst (Directory_Add demo_directory [97, 98] 5)) [97, 98] = 5"
proof -
  have "int_fits 5" by (simp add: int_fits_def)
  from directory_map [OF demo_directory_ok(1) this, of "[97, 98]"] show ?thesis
    using demo_directory_ok by auto
qed

text \<open>
  Names longer than nine bytes are not told apart: two names with the same first nine bytes are
  found at the same entry, so the second cannot be added.
\<close>

theorem long_names_alias:
  assumes "dir_ok t" and "int_fits s" and "int_fits s'" and "fname nm = fname nm'" and "snd (Directory_Add t nm s)"
  shows "Directory_Find (fst (Directory_Add t nm s)) nm' = s \<and>
    Directory_Add (fst (Directory_Add t nm s)) nm' s' = (fst (Directory_Add t nm s), False)"
proof -
  have a: "dir_ok (fst (Directory_Add t nm s))" "dir_lookup (fst (Directory_Add t nm s)) (fname nm') \<noteq> None"
    using dir.add_refused [OF assms(1,2), of nm] dir.add_done [OF assms(1,2), of nm] assms(4,5) by fastforce+
  show ?thesis using dir.find_added [OF assms(1,2,5)] dir.add_refused [OF a(1) assms(3), of nm'] a(2) assms(4) by simp
qed

theorem long_names_alias_witness:
  "Directory_Find (fst (Directory_Add demo_directory [1,2,3,4,5,6,7,8,9,10] 5)) [1,2,3,4,5,6,7,8,9,11] = 5"
proof -
  have i: "int_fits 5" by (simp add: int_fits_def)
  have f: "fname [1,2,3,4,5,6,7,8,9,10] = fname [1,2,3,4,5,6,7,8,9,11]" by (simp add: fname_def cstr_def)
  have "snd (Directory_Add demo_directory [1,2,3,4,5,6,7,8,9,10] 5)"
    using dir.add_done [OF demo_directory_ok(1) i demo_directory_ok(3,2)] by simp
  from long_names_alias [OF demo_directory_ok(1) i i f this] show ?thesis by simp
qed

end
