(* ===== verification/File_System.thy ===== *)
theory File_System
  imports Directory
begin

text \<open>
  The file system of \<^verbatim>\<open>code/filesys/filesys.cc\<close> (the real one, not \<^verbatim>\<open>FILESYS_STUB\<close>) with the persistent bitmap
  of \<^verbatim>\<open>pbitmap.cc\<close>. The state is the disk and the two files left open while Nachos runs, the free map and
  the directory. Every operation fetches the directory and the free map from the disk, works on
  the copies in memory, and writes them back only when it succeeds. The memory the code does not
  initialise is \<open>junk\<close>, one stream per allocation. The invariant \<open>fs_ok\<close> says that every sector is
  free, or belongs to exactly one file, and the free map marks just the second kind. The lemmas
  show that the operations keep it and refine a map from names to the contents of files.
\<close>

section \<open>State and operations\<close>

definition FreeMapSector :: int where "FreeMapSector = 0"
definition DirectorySector :: int where "DirectorySector = 1"
definition FreeMapFileSize :: int where "FreeMapFileSize = NumSectors sdiv BitsInByte"
definition NumDirEntries :: nat where "NumDirEntries = 10"
definition DirectoryFileSize :: int where "DirectoryFileSize = int (sizeof_DirectoryEntry * NumDirEntries)"

lemma fs_sizes [simp]: "FreeMapSector = 0" "DirectorySector = 1" "FreeMapFileSize = 128" "NumDirEntries = 10" "DirectoryFileSize = 200"
  by (simp_all add: FreeMapSector_def DirectorySector_def FreeMapFileSize_def BitsInByte_def NumDirEntries_def DirectoryFileSize_def sdiv_nonneg)

record file_system =
  sectors :: sectors
  freeMapFile :: open_file
  directoryFile :: open_file

type_synonym allocs = "nat \<Rightarrow> nat \<Rightarrow> u8"

definition junk_word :: "(nat \<Rightarrow> u8) \<Rightarrow> nat \<Rightarrow> u32" where
  "junk_word junk i = le32 (junk (4 * i)) (junk (4 * i + 1)) (junk (4 * i + 2)) (junk (4 * i + 3))"

definition map_to_bytes :: "bitmap \<Rightarrow> u8 list" where
  "map_to_bytes b = concat (map int_bytes (bmap b))"

definition pbitmap_FetchFrom :: "(nat \<Rightarrow> u8) \<Rightarrow> open_file \<Rightarrow> sectors \<Rightarrow> bitmap \<Rightarrow> bitmap outcome" where
  "pbitmap_FetchFrom junk file d b =
     bindR (ReadAt junk file (numWords b * 4) 0 d) (\<lambda>r.
     let bytes = r @ drop (length r) (map_to_bytes b)
     in Inr (b\<lparr>bmap := map (word_at_byte bytes) [0..<nat (numWords b)]\<rparr>))"

definition pbitmap_WriteBack :: "(nat \<Rightarrow> u8) \<Rightarrow> open_file \<Rightarrow> bitmap \<Rightarrow> sectors \<Rightarrow> sectors outcome" where
  "pbitmap_WriteBack junk file b d = bindR (WriteAt junk file (map_to_bytes b) (numWords b * 4) 0 d) (\<lambda>(d, _). Inr d)"

definition PersistentBitmap_new :: "int \<Rightarrow> bitmap outcome" where
  "PersistentBitmap_new numItems = Bitmap_new numItems"

definition PersistentBitmap_open :: "(nat \<Rightarrow> u8) \<Rightarrow> open_file \<Rightarrow> int \<Rightarrow> sectors \<Rightarrow> bitmap outcome" where
  "PersistentBitmap_open junk file numItems d = bindR (Bitmap_new numItems) (pbitmap_FetchFrom junk file d)"

definition format_disk :: "allocs \<Rightarrow> sectors \<Rightarrow> file_system outcome" where
  "format_disk junk d =
     bindR (PersistentBitmap_new NumSectors) (\<lambda>freeMap.
     let directory = Directory_new (junk 0) NumDirEntries;
         mapHdr = FileHeader_new (junk_word (junk 1));
         dirHdr = FileHeader_new (junk_word (junk 2)) in
     bindR (Mark freeMap FreeMapSector) (\<lambda>freeMap.
     bindR (Mark freeMap DirectorySector) (\<lambda>freeMap.
     bindR (Allocate freeMap FreeMapFileSize mapHdr) (\<lambda>(mapHdr, freeMap, b1).
     bindR (ASSERT b1) (\<lambda>_.
     bindR (Allocate freeMap DirectoryFileSize dirHdr) (\<lambda>(dirHdr, freeMap, b2).
     bindR (ASSERT b2) (\<lambda>_.
     bindR (hdr_WriteBack FreeMapSector mapHdr d) (\<lambda>d.
     bindR (hdr_WriteBack DirectorySector dirHdr d) (\<lambda>d.
     bindR (OpenFile_new FreeMapSector d) (\<lambda>mapFile.
     bindR (OpenFile_new DirectorySector d) (\<lambda>dirFile.
     bindR (pbitmap_WriteBack (junk 3) mapFile freeMap d) (\<lambda>d.
     bindR (dir_WriteBack (junk 4) dirFile directory d) (\<lambda>d.
     Inr \<lparr>sectors = d, freeMapFile = mapFile, directoryFile = dirFile\<rparr>)))))))))))))"

definition FileSystem_new :: "bool \<Rightarrow> allocs \<Rightarrow> sectors \<Rightarrow> file_system outcome" where
  "FileSystem_new format junk d =
     (if format then format_disk junk d
      else bindR (OpenFile_new FreeMapSector d) (\<lambda>mapFile.
           bindR (OpenFile_new DirectorySector d) (\<lambda>dirFile.
           Inr \<lparr>sectors = d, freeMapFile = mapFile, directoryFile = dirFile\<rparr>)))"

definition fetch_directory :: "allocs \<Rightarrow> file_system \<Rightarrow> directory outcome" where
  "fetch_directory junk fs = dir_FetchFrom (junk 1) (directoryFile fs) (sectors fs) (Directory_new (junk 0) NumDirEntries)"

definition Create :: "allocs \<Rightarrow> u8 list \<Rightarrow> int \<Rightarrow> file_system \<Rightarrow> (file_system \<times> bool) outcome" where
  "Create junk nm initialSize fs =
     bindR (fetch_directory junk fs) (\<lambda>directory.
     if Directory_Find directory nm \<noteq> - 1 then Inr (fs, False)
     else
       bindR (PersistentBitmap_open (junk 2) (freeMapFile fs) NumSectors (sectors fs)) (\<lambda>freeMap.
       bindR (FindAndSet freeMap) (\<lambda>(freeMap, hdrSector).
       if hdrSector = - 1 then Inr (fs, False)
       else let (directory, added) = Directory_Add directory nm hdrSector in
         if \<not> added then Inr (fs, False)
         else
           bindR (Allocate freeMap initialSize (FileHeader_new (junk_word (junk 3)))) (\<lambda>(h, freeMap, allocated).
           if \<not> allocated then Inr (fs, False)
           else
             bindR (hdr_WriteBack hdrSector h (sectors fs)) (\<lambda>d.
             bindR (dir_WriteBack (junk 4) (directoryFile fs) directory d) (\<lambda>d.
             bindR (pbitmap_WriteBack (junk 5) (freeMapFile fs) freeMap d) (\<lambda>d.
             Inr (fs\<lparr>sectors := d\<rparr>, True))))))))"

definition Open :: "allocs \<Rightarrow> u8 list \<Rightarrow> file_system \<Rightarrow> open_file option outcome" where
  "Open junk nm fs =
     bindR (fetch_directory junk fs) (\<lambda>directory.
     let hdrSector = Directory_Find directory nm in
     if hdrSector \<ge> 0 then bindR (OpenFile_new hdrSector (sectors fs)) (\<lambda>f. Inr (Some f)) else Inr None)"

definition FileSystem_Remove :: "allocs \<Rightarrow> u8 list \<Rightarrow> file_system \<Rightarrow> (file_system \<times> bool) outcome" where
  "FileSystem_Remove junk nm fs =
     bindR (fetch_directory junk fs) (\<lambda>directory.
     let hdrSector = Directory_Find directory nm in
     if hdrSector = - 1 then Inr (fs, False)
     else
       bindR (hdr_FetchFrom hdrSector (sectors fs)) (\<lambda>fileHdr.
       bindR (PersistentBitmap_open (junk 2) (freeMapFile fs) NumSectors (sectors fs)) (\<lambda>freeMap.
       bindR (Deallocate freeMap fileHdr) (\<lambda>freeMap.
       bindR (Clear freeMap hdrSector) (\<lambda>freeMap.
       let (directory, _) = Directory_Remove directory nm in
       bindR (pbitmap_WriteBack (junk 3) (freeMapFile fs) freeMap (sectors fs)) (\<lambda>d.
       bindR (dir_WriteBack (junk 4) (directoryFile fs) directory d) (\<lambda>d.
       Inr (fs\<lparr>sectors := d\<rparr>, True))))))))"

definition FileSystem_List :: "allocs \<Rightarrow> file_system \<Rightarrow> u8 list list outcome" where
  "FileSystem_List junk fs = bindR (fetch_directory junk fs) (\<lambda>directory. Inr (Directory_List directory))"

text \<open>\<^verbatim>\<open>Print\<close>: the two headers with their contents, the marked sectors, the directory with every file.\<close>

definition FileSystem_Print :: "allocs \<Rightarrow> file_system \<Rightarrow>
  ((int \<times> int list \<times> shown list list) \<times> (int \<times> int list \<times> shown list list) \<times> int list \<times>
   (u8 list \<times> int \<times> int \<times> int list \<times> shown list list) list) outcome" where
  "FileSystem_Print junk fs =
     bindR (PersistentBitmap_open (junk 2) (freeMapFile fs) NumSectors (sectors fs)) (\<lambda>freeMap.
     bindR (hdr_FetchFrom FreeMapSector (sectors fs)) (\<lambda>bitHdr.
     bindR (hdr_Print bitHdr (sectors fs)) (\<lambda>p1.
     bindR (hdr_FetchFrom DirectorySector (sectors fs)) (\<lambda>dirHdr.
     bindR (hdr_Print dirHdr (sectors fs)) (\<lambda>p2.
     bindR (Bitmap_Print freeMap) (\<lambda>p3.
     bindR (fetch_directory junk fs) (\<lambda>directory.
     bindR (Directory_Print directory (sectors fs)) (\<lambda>p4. Inr (p1, p2, p3, p4)))))))))"

section \<open>The free map on disk\<close>

definition map_in_file :: "open_file \<Rightarrow> sectors \<Rightarrow> bitmap" where
  "map_in_file file d = \<lparr>numBits = NumSectors, numWords = 32, bmap = map (word_at_byte (file_bytes (hdr file) d)) [0..<32]\<rparr>"

lemma map_in_file_wf [simp]: "bitmap_wf (map_in_file file d)" "numBits (map_in_file file d) = 1024"
  by (simp_all add: map_in_file_def bitmap_wf_def divRoundUp_nonneg)

lemma PersistentBitmap_open_spec:
  assumes "file_ok (hdr file)" and "disk_sectors_ok d" and "numBytes (hdr file) = 128"
  shows "PersistentBitmap_open junk file NumSectors d = Inr (map_in_file file d)"
proof -
  obtain b where b: "Bitmap_new 1024 = Inr b" "bitmap_wf b" "numBits b = 1024" using Bitmap_new_spec [of 1024] by auto
  then have w: "numWords b = 32" by (simp add: bitmap_wf_def divRoundUp_nonneg)
  have len: "length (file_bytes (hdr file) d) = 128" using length_file_bytes [OF assms(1,2)] assms(3) by simp
  have "length (map_to_bytes b) = 128"
    using b(2) w length_concat_uniform [of "bmap b" int_bytes 4] by (simp add: map_to_bytes_def bitmap_wf_def)
  moreover have "ReadAt junk file 128 0 d = Inr (file_bytes (hdr file) d)"
    using ReadAt_nat [OF assms(1,2), of junk 128 0] len by simp
  ultimately show ?thesis
    using b w len by (simp add: PersistentBitmap_open_def pbitmap_FetchFrom_def map_in_file_def)
qed

lemma pbitmap_WriteBack_spec:
  assumes "file_ok (hdr file)" and "disk_sectors_ok d" and "numBytes (hdr file) = 128" and "bitmap_wf b" and "numBits b = 1024"
  shows "\<exists>d'. pbitmap_WriteBack junk file b d = Inr d' \<and> disk_sectors_ok d' \<and> map_in_file file d' = b \<and>
    (\<forall>s. s \<notin> set (file_sectors (hdr file)) \<longrightarrow> d' ! s = d ! s)"
proof -
  have w: "numWords b = 32" "length (bmap b) = 32" using assms(4,5) by (simp_all add: bitmap_wf_def divRoundUp_nonneg)
  have l: "length (map_to_bytes b) = 128" using w length_concat_uniform [of "bmap b" int_bytes 4] by (simp add: map_to_bytes_def)
  have "128 \<le> length (map_to_bytes b)" "128 = min 128 (nat (numBytes (hdr file)) - 0)" using assms(3) l by simp_all
  from WriteAt_nat [OF assms(1,2) this, of junk] obtain d' where
    d': "WriteAt junk file (map_to_bytes b) 128 0 d = Inr (d', 128)" "disk_sectors_ok d'"
      "file_bytes (hdr file) d' = overwrite (file_bytes (hdr file) d) 0 (take 128 (map_to_bytes b))"
      "\<forall>s. s \<notin> set (file_sectors (hdr file)) \<longrightarrow> d' ! s = d ! s" by auto
  have "file_bytes (hdr file) d' = map_to_bytes b"
    using d'(3) l length_file_bytes [OF assms(1,2)] assms(3) by (simp add: overwrite_def)
  moreover have "map (word_at_byte (map_to_bytes b)) [0..<32] = bmap b"
    using words_of_bytes [of _ "bmap b"] w by (intro nth_equalityI) (simp_all add: map_to_bytes_def)
  ultimately have "map_in_file file d' = b" using w assms(5) by (simp add: map_in_file_def)
  with d' w show ?thesis by (simp add: pbitmap_WriteBack_def)
qed

section \<open>The invariant\<close>

definition fs_dir :: "file_system \<Rightarrow> directory" where
  "fs_dir fs = dir_in_file NumDirEntries (directoryFile fs) (sectors fs)"

definition fs_map :: "file_system \<Rightarrow> bitmap" where
  "fs_map fs = map_in_file (freeMapFile fs) (sectors fs)"

definition header_at :: "sectors \<Rightarrow> int \<Rightarrow> file_header" where
  "header_at d s = hdr_of_bytes (d ! nat s)"

definition entry_owns :: "sectors \<Rightarrow> DirectoryEntry \<Rightarrow> nat list" where
  "entry_owns d e = nat (sector e) # file_sectors (header_at d (sector e))"

definition system_sectors :: "file_system \<Rightarrow> nat list" where
  "system_sectors fs = [0, 1] @ file_sectors (hdr (freeMapFile fs)) @ file_sectors (hdr (directoryFile fs))"

definition files_own :: "sectors \<Rightarrow> directory \<Rightarrow> nat list" where
  "files_own d t = concat (map (entry_owns d) (filter inUse t))"

definition files_ok :: "sectors \<Rightarrow> directory \<Rightarrow> bool" where
  "files_ok d t \<longleftrightarrow> (\<forall>e \<in> set t. inUse e \<longrightarrow> 0 \<le> sector e \<and> sector e < NumSectors \<and> file_ok (header_at d (sector e)))"

definition fs_ok :: "file_system \<Rightarrow> bool" where
  "fs_ok fs \<longleftrightarrow> disk_sectors_ok (sectors fs) \<and>
     header_fits (hdr (freeMapFile fs)) \<and> numBytes (hdr (freeMapFile fs)) = FreeMapFileSize \<and>
     header_fits (hdr (directoryFile fs)) \<and> numBytes (hdr (directoryFile fs)) = DirectoryFileSize \<and>
     header_at (sectors fs) FreeMapSector = hdr (freeMapFile fs) \<and> header_at (sectors fs) DirectorySector = hdr (directoryFile fs) \<and>
     dir_ok (fs_dir fs) \<and> files_ok (sectors fs) (fs_dir fs) \<and>
     distinct (system_sectors fs @ files_own (sectors fs) (fs_dir fs)) \<and>
     marked (fs_map fs) = int ` set (system_sectors fs @ files_own (sectors fs) (fs_dir fs))"

definition fs_files :: "file_system \<Rightarrow> u8 list \<rightharpoonup> u8 list" where
  "fs_files fs k = map_option (\<lambda>s. file_bytes (header_at (sectors fs) s) (sectors fs)) (dir_lookup (fs_dir fs) k)"

lemma fs_okD:
  assumes "fs_ok fs"
  shows "disk_sectors_ok (sectors fs)" "file_ok (hdr (freeMapFile fs))" "numBytes (hdr (freeMapFile fs)) = 128"
    "file_ok (hdr (directoryFile fs))" "numBytes (hdr (directoryFile fs)) = 200" "dir_ok (fs_dir fs)" "files_ok (sectors fs) (fs_dir fs)"
    "distinct (system_sectors fs)" "distinct (files_own (sectors fs) (fs_dir fs))"
    "set (system_sectors fs) \<inter> set (files_own (sectors fs) (fs_dir fs)) = {}"
    "marked (fs_map fs) = int ` (set (system_sectors fs) \<union> set (files_own (sectors fs) (fs_dir fs)))"
    "header_at (sectors fs) 0 = hdr (freeMapFile fs)" "header_at (sectors fs) 1 = hdr (directoryFile fs)"
  using assms by (simp_all add: fs_ok_def header_fits_def)

lemma length_fs_dir [simp]: "length (fs_dir fs) = 10"
  by (simp add: fs_dir_def dir_in_file_def)

lemma fetch_directory_spec: "fs_ok fs \<Longrightarrow> fetch_directory junk fs = Inr (fs_dir fs)"
  unfolding fetch_directory_def fs_dir_def
  using dir_FetchFrom_spec [of "directoryFile fs" "sectors fs" "Directory_new (junk 0) 10" "junk 1"] fs_okD(1,4,5) [of fs]
  by (simp add: Directory_new_def)

lemma open_map_spec: "fs_ok fs \<Longrightarrow> PersistentBitmap_open junk (freeMapFile fs) NumSectors (sectors fs) = Inr (fs_map fs)"
  unfolding fs_map_def by (rule PersistentBitmap_open_spec) (simp_all add: fs_okD(1-3))

text \<open>What a disk update leaves alone.\<close>

lemma file_bytes_cong: "(\<And>s. s \<in> set (file_sectors h) \<Longrightarrow> d' ! s = d ! s) \<Longrightarrow> file_bytes h d' = file_bytes h d"
  unfolding file_bytes_def file_image_def by (metis (mono_tags, lifting) map_eq_conv)

lemma header_at_cong: "d' ! nat s = d ! nat s \<Longrightarrow> header_at d' s = header_at d s"
  by (simp add: header_at_def)

lemma files_own_simps [simp]:
  "files_own d [] = []" "files_own d (e # t) = (if inUse e then entry_owns d e @ files_own d t else files_own d t)"
  "files_own d (a @ b) = files_own d a @ files_own d b"
  by (simp_all add: files_own_def)

lemma files_ok_simps [simp]:
  "files_ok d []" "files_ok d (e # t) \<longleftrightarrow> (inUse e \<longrightarrow> 0 \<le> sector e \<and> sector e < NumSectors \<and> file_ok (header_at d (sector e))) \<and> files_ok d t"
  "files_ok d (a @ b) \<longleftrightarrow> files_ok d a \<and> files_ok d b"
  by (auto simp: files_ok_def)

lemma owned_entry: "e \<in> set t \<Longrightarrow> inUse e \<Longrightarrow> set (entry_owns d e) \<subseteq> set (files_own d t)"
  by (auto simp: files_own_def)

lemma files_unchanged:
  assumes "\<And>s. s \<in> set (files_own d t) \<Longrightarrow> d' ! s = d ! s"
  shows "files_own d' t = files_own d t" and "files_ok d' t = files_ok d t"
    and "e \<in> set t \<Longrightarrow> inUse e \<Longrightarrow> header_at d' (sector e) = header_at d (sector e) \<and>
      file_bytes (header_at d (sector e)) d' = file_bytes (header_at d (sector e)) d"
proof -
  have h: "header_at d' (sector e) = header_at d (sector e) \<and> file_bytes (header_at d (sector e)) d' = file_bytes (header_at d (sector e)) d"
    if "e \<in> set t" "inUse e" for e
  proof -
    have s: "d' ! x = d ! x" if "x \<in> set (entry_owns d e)" for x
      by (rule assms) (use owned_entry [OF \<open>e \<in> set t\<close> \<open>inUse e\<close>, of d] that in blast)
    have "header_at d' (sector e) = header_at d (sector e)"
      by (rule header_at_cong, rule s) (simp add: entry_owns_def)
    moreover have "file_bytes (header_at d (sector e)) d' = file_bytes (header_at d (sector e)) d"
      by (rule file_bytes_cong) (simp add: s entry_owns_def)
    ultimately show ?thesis by blast
  qed
  show "files_own d' t = files_own d t"
    unfolding files_own_def by (intro arg_cong [where f = concat] map_cong) (auto simp: entry_owns_def h)
  show "files_ok d' t = files_ok d t" by (auto simp: files_ok_def h)
  show "e \<in> set t \<Longrightarrow> inUse e \<Longrightarrow> header_at d' (sector e) = header_at d (sector e) \<and>
      file_bytes (header_at d (sector e)) d' = file_bytes (header_at d (sector e)) d" by (rule h)
qed

lemma fs_files_eq:
  assumes "dir_lookup (fs_dir fs') k = dir_lookup (fs_dir fs) k"
    and "\<And>s. s \<in> set (files_own (sectors fs) (fs_dir fs)) \<Longrightarrow> sectors fs' ! s = sectors fs ! s"
  shows "fs_files fs' k = fs_files fs k"
proof (cases "dir_lookup (fs_dir fs) k")
  case None
  then show ?thesis using assms(1) by (simp add: fs_files_def)
next
  case (Some s)
  then obtain e where "e \<in> set (fs_dir fs)" "inUse e" "sector e = s" using dir_lookup_Some by blast
  with files_unchanged(3) [where e = e, OF assms(2)] show ?thesis using assms(1) Some by (auto simp: fs_files_def)
qed

lemma system_facts:
  assumes "fs_ok fs"
  shows "set (system_sectors fs) \<subseteq> {..<1024}" "0 \<notin> set (file_sectors (hdr (directoryFile fs)))" "Suc 0 \<notin> set (file_sectors (hdr (directoryFile fs)))"
    "0 \<notin> set (file_sectors (hdr (freeMapFile fs)))" "Suc 0 \<notin> set (file_sectors (hdr (freeMapFile fs)))"
    "set (file_sectors (hdr (freeMapFile fs))) \<inter> set (file_sectors (hdr (directoryFile fs))) = {}"
  using file_ok_facts(4) [OF fs_okD(2) [OF assms]] file_ok_facts(4) [OF fs_okD(4) [OF assms]] fs_okD(8) [OF assms]
  by (auto simp: system_sectors_def)

text \<open>
  Writing a directory and a free map back, in either order: both files then hold what was written,
  and nothing outside them has changed.
\<close>

lemma write_back_both:
  assumes "fs_ok fs" and d: "disk_sectors_ok d" and t: "\<forall>e \<in> set t. entry_wf e" "length t = 10" and b: "bitmap_wf b" "numBits b = 1024"
  shows "\<exists>d'. bindR (dir_WriteBack j1 (directoryFile fs) t d) (pbitmap_WriteBack j2 (freeMapFile fs) b) = Inr d' \<and> disk_sectors_ok d' \<and>
      dir_in_file 10 (directoryFile fs) d' = t \<and> map_in_file (freeMapFile fs) d' = b \<and>
      (\<forall>s. s \<notin> set (file_sectors (hdr (directoryFile fs))) \<union> set (file_sectors (hdr (freeMapFile fs))) \<longrightarrow> d' ! s = d ! s)"
    and "\<exists>d'. bindR (pbitmap_WriteBack j2 (freeMapFile fs) b d) (dir_WriteBack j1 (directoryFile fs) t) = Inr d' \<and> disk_sectors_ok d' \<and>
      dir_in_file 10 (directoryFile fs) d' = t \<and> map_in_file (freeMapFile fs) d' = b \<and>
      (\<forall>s. s \<notin> set (file_sectors (hdr (directoryFile fs))) \<union> set (file_sectors (hdr (freeMapFile fs))) \<longrightarrow> d' ! s = d ! s)"
proof -
  note ok = fs_okD [OF assms(1)]
  let ?M = "set (file_sectors (hdr (freeMapFile fs)))" and ?D = "set (file_sectors (hdr (directoryFile fs)))"
  have dj: "?M \<inter> ?D = {}" by (rule system_facts(6) [OF assms(1)])
  have len: "20 * length t = nat (numBytes (hdr (directoryFile fs)))" using t(2) ok(5) by simp
  have keepD: "dir_in_file 10 (directoryFile fs) d2 = dir_in_file 10 (directoryFile fs) d1" if "\<And>s. s \<notin> ?M \<Longrightarrow> d2 ! s = d1 ! s" for d1 d2
    unfolding dir_in_file_def using dj by (subst file_bytes_cong [of _ d2 d1]) (auto intro!: that)
  have keepM: "map_in_file (freeMapFile fs) d2 = map_in_file (freeMapFile fs) d1" if "\<And>s. s \<notin> ?D \<Longrightarrow> d2 ! s = d1 ! s" for d1 d2
    unfolding map_in_file_def using dj by (subst file_bytes_cong [of _ d2 d1]) (auto intro!: that)
  obtain d1 where d1: "dir_WriteBack j1 (directoryFile fs) t d = Inr d1" "disk_sectors_ok d1" "dir_in_file 10 (directoryFile fs) d1 = t"
      "\<forall>s. s \<notin> ?D \<longrightarrow> d1 ! s = d ! s"
    using dir_WriteBack_spec [OF ok(4) d len t(1), of j1] t(2) by auto
  obtain d2 where d2: "pbitmap_WriteBack j2 (freeMapFile fs) b d1 = Inr d2" "disk_sectors_ok d2" "map_in_file (freeMapFile fs) d2 = b"
      "\<forall>s. s \<notin> ?M \<longrightarrow> d2 ! s = d1 ! s"
    using pbitmap_WriteBack_spec [OF ok(2) d1(2) ok(3) b, of j2] by auto
  show "\<exists>d'. bindR (dir_WriteBack j1 (directoryFile fs) t d) (pbitmap_WriteBack j2 (freeMapFile fs) b) = Inr d' \<and> disk_sectors_ok d' \<and>
      dir_in_file 10 (directoryFile fs) d' = t \<and> map_in_file (freeMapFile fs) d' = b \<and> (\<forall>s. s \<notin> ?D \<union> ?M \<longrightarrow> d' ! s = d ! s)"
    using d1 d2 keepD [of d2 d1] by (intro exI [of _ d2]) auto
  obtain c1 where c1: "pbitmap_WriteBack j2 (freeMapFile fs) b d = Inr c1" "disk_sectors_ok c1" "map_in_file (freeMapFile fs) c1 = b"
      "\<forall>s. s \<notin> ?M \<longrightarrow> c1 ! s = d ! s"
    using pbitmap_WriteBack_spec [OF ok(2) d ok(3) b, of j2] by auto
  obtain c2 where c2: "dir_WriteBack j1 (directoryFile fs) t c1 = Inr c2" "disk_sectors_ok c2" "dir_in_file 10 (directoryFile fs) c2 = t"
      "\<forall>s. s \<notin> ?D \<longrightarrow> c2 ! s = c1 ! s"
    using dir_WriteBack_spec [OF ok(4) c1(2) len t(1), of j1] t(2) by auto
  show "\<exists>d'. bindR (pbitmap_WriteBack j2 (freeMapFile fs) b d) (dir_WriteBack j1 (directoryFile fs) t) = Inr d' \<and> disk_sectors_ok d' \<and>
      dir_in_file 10 (directoryFile fs) d' = t \<and> map_in_file (freeMapFile fs) d' = b \<and> (\<forall>s. s \<notin> ?D \<union> ?M \<longrightarrow> d' ! s = d ! s)"
    using c1 c2 keepM [of c2 c1] by (intro exI [of _ c2]) auto
qed

section \<open>Create\<close>

lemma Create_refused:
  assumes "fs_ok fs" and "dir_lookup (fs_dir fs) (fname nm) \<noteq> None \<or> \<not> has_free_entry (fs_dir fs) \<or> int (card (marked (fs_map fs))) = NumSectors"
  shows "Create junk nm size0 fs = Inr (fs, False)"
proof (cases "dir_lookup (fs_dir fs) (fname nm)")
  case (Some s)
  then obtain e where "e \<in> set (fs_dir fs)" "inUse e" "sector e = s" using dir_lookup_Some by blast
  then have "0 \<le> s" using fs_okD(7) [OF assms(1)] by (auto simp: files_ok_def)
  then show ?thesis using Some by (simp add: Create_def fetch_directory_spec [OF assms(1)] Directory_Find_spec)
next
  case None
  have wf: "bitmap_wf (fs_map fs)" "numBits (fs_map fs) = 1024" by (simp_all add: fs_map_def)
  show ?thesis
  proof (cases "int (card (marked (fs_map fs))) < 1024")
    case True
    then obtain b s where f: "FindAndSet (fs_map fs) = Inr (b, s)" "0 \<le> s" "s < 1024"
      using bitmap.alloc_spec [OF wf(1)] wf(2) by fastforce
    have "int_fits s" using f by (simp add: int_fits_def)
    then have "Directory_Add (fs_dir fs) nm s = (fs_dir fs, False)"
      using dir.add_refused [OF fs_okD(6) [OF assms(1)], of s nm] assms(2) None True by auto
    then show ?thesis using None f
      by (simp add: Create_def fetch_directory_spec [OF assms(1)] open_map_spec [OF assms(1), simplified] Directory_Find_spec)
  next
    case False
    have "FindAndSet (fs_map fs) = Inr (fs_map fs, - 1)"
    proof (rule FindAndSet_full)
      fix i assume i: "0 \<le> i" "i < numBits (fs_map fs)"
      have sub: "marked (fs_map fs) \<subseteq> {0..<1024}" using marked_bounds [of _ "fs_map fs"] wf(2) by auto
      moreover have "card (marked (fs_map fs)) \<ge> card {0..<1024::int}" using False by simp
      ultimately have "marked (fs_map fs) = {0..<1024}" by (intro card_seteq) simp_all
      then show "i \<in> marked (fs_map fs)" using i wf(2) by simp
    qed
    then show ?thesis using None
      by (simp add: Create_def fetch_directory_spec [OF assms(1)] open_map_spec [OF assms(1), simplified] Directory_Find_spec)
  qed
qed

text \<open>
  The sector for the header is taken first, so the data sectors are allocated from a map with one
  more sector marked.
\<close>

definition free_sectors :: "file_system \<Rightarrow> int" where
  "free_sectors fs = NumSectors - int (card (marked (fs_map fs)))"

lemma header_sector:
  assumes "fs_ok fs" and "0 < free_sectors fs"
  obtains b s where "FindAndSet (fs_map fs) = Inr (b, int s)" "s < 1024" "int s \<notin> marked (fs_map fs)"
    "bitmap_wf b" "numBits b = NumSectors" "marked b = insert (int s) (marked (fs_map fs))" "NumSectors - int (card (marked b)) = free_sectors fs - 1"
proof -
  have wf: "bitmap_wf (fs_map fs)" "numBits (fs_map fs) = 1024" by (simp_all add: fs_map_def)
  have "int (card (marked (fs_map fs))) < numBits (fs_map fs)" using assms(2) wf(2) by (simp add: free_sectors_def)
  from bitmap.alloc_spec [OF wf(1) this] obtain b i where
    b: "FindAndSet (fs_map fs) = Inr (b, i)" "bitmap_wf b" "numBits b = 1024" "0 \<le> i" "i < 1024" "i \<notin> marked (fs_map fs)"
      "marked b = insert i (marked (fs_map fs))" using wf(2) by auto
  then have "card (marked b) = Suc (card (marked (fs_map fs)))" by simp
  then show ?thesis using b that [of b "nat i"] by (auto simp: free_sectors_def)
qed

lemma FileHeader_new_fits: "length (dataSectors (FileHeader_new junk)) = nat NumDirect" "\<forall>x \<in> set (dataSectors (FileHeader_new junk)). int_fits x"
proof -
  have "int_fits (sint (w :: u32))" for w using sint_range_size [of w] by (simp add: int_fits_def word_size)
  then show "length (dataSectors (FileHeader_new junk)) = nat NumDirect" "\<forall>x \<in> set (dataSectors (FileHeader_new junk)). int_fits x"
    by (auto simp: FileHeader_new_def)
qed

lemma Create_no_space:
  assumes "fs_ok fs" and "dir_lookup (fs_dir fs) (fname nm) = None" and "has_free_entry (fs_dir fs)" and "0 < free_sectors fs" and "0 \<le> size0"
  shows "free_sectors fs - 1 < divRoundUp size0 SectorSize \<Longrightarrow> Create junk nm size0 fs = Inr (fs, False)"
    and "divRoundUp size0 SectorSize \<le> free_sectors fs - 1 \<Longrightarrow> MaxFileSize < size0 \<Longrightarrow> Create junk nm size0 fs = Inl OutOfBounds"
proof -
  obtain b s where b: "FindAndSet (fs_map fs) = Inr (b, int s)" "s < 1024" "bitmap_wf b" "numBits b = NumSectors"
    "NumSectors - int (card (marked b)) = free_sectors fs - 1" using header_sector [OF assms(1,4)] by metis
  have i: "int_fits (int s)" using b(2) by (simp add: int_fits_def)
  obtain t where t: "Directory_Add (fs_dir fs) nm (int s) = (t, True)"
    using dir.add_done [OF fs_okD(6) [OF assms(1)] i assms(2,3)] by (metis prod.collapse)
  note A = Allocate_spec [OF b(3,4) assms(5) FileHeader_new_fits(1) refl refl, of "junk_word (junk 3)"]
  note C = Create_def fetch_directory_spec [OF assms(1)] open_map_spec [OF assms(1), simplified] Directory_Find_spec
  show "free_sectors fs - 1 < divRoundUp size0 SectorSize \<Longrightarrow> Create junk nm size0 fs = Inr (fs, False)"
    using A(1) b t assms(2) by (simp add: C)
  assume "divRoundUp size0 SectorSize \<le> free_sectors fs - 1" and "MaxFileSize < size0"
  moreover have "30 < divRoundUp size0 128" using divRoundUp_bounds(1) [OF assms(5), of 128] \<open>MaxFileSize < size0\<close> by simp
  ultimately show "Create junk nm size0 fs = Inl OutOfBounds" using A(3) b t assms(2) by (simp add: C)
qed

lemma Create_succeeds:
  assumes "fs_ok fs" and "dir_lookup (fs_dir fs) (fname nm) = None" and "has_free_entry (fs_dir fs)" and "0 < free_sectors fs"
    and "0 \<le> size0" and "divRoundUp size0 SectorSize \<le> free_sectors fs - 1" and "size0 \<le> MaxFileSize"
  shows "\<exists>fs' c. Create junk nm size0 fs = Inr (fs', True) \<and> fs_ok fs' \<and> length c = nat size0 \<and> fs_files fs' = (fs_files fs)(fname nm \<mapsto> c)"
proof -
  note ok = fs_okD [OF assms(1)] and sys = system_facts [OF assms(1)]
  let ?d = "sectors fs"
  obtain b s where b: "FindAndSet (fs_map fs) = Inr (b, int s)" "s < 1024" "int s \<notin> marked (fs_map fs)"
    "bitmap_wf b" "numBits b = NumSectors" "marked b = insert (int s) (marked (fs_map fs))" "NumSectors - int (card (marked b)) = free_sectors fs - 1"
    using header_sector [OF assms(1,4)] by metis
  have i: "int_fits (int s)" using b(2) by (simp add: int_fits_def)
  from Directory_Add_spec(2) [OF ok(6) i assms(2)] assms(3) obtain t1 e t2 where
    t: "fs_dir fs = t1 @ e # t2" "\<not> inUse e" "Directory_Add (fs_dir fs) nm (int s) = (t1 @ new_entry nm (int s) e # t2, True)"
      "dir_ok (t1 @ new_entry nm (int s) e # t2)" "dir_lookup (t1 @ new_entry nm (int s) e # t2) = (dir_lookup (fs_dir fs))(fname nm \<mapsto> int s)"
    by (auto simp: has_free_entry_def)
  let ?t = "t1 @ new_entry nm (int s) e # t2"
  have "divRoundUp size0 128 \<le> 30" using divRoundUp_bounds(2) [OF assms(5), of 128] assms(7) by simp
  then obtain h b' where h: "Allocate b size0 (FileHeader_new (junk_word (junk 3))) = Inr (h, b', True)" "file_ok h" "numBytes h = size0"
    "bitmap_wf b'" "numBits b' = 1024" "int ` set (file_sectors h) \<inter> marked b = {}" "marked b' = marked b \<union> int ` set (file_sectors h)"
    "set (dataSectors h) \<subseteq> set (dataSectors (FileHeader_new (junk_word (junk 3)))) \<union> {0..<NumSectors}"
    using Allocate_spec(2) [OF b(4,5) assms(5) FileHeader_new_fits(1) refl refl, of "junk_word (junk 3)"] b(5,7) assms(6) by auto
  have "int_fits x" if "x \<in> set (dataSectors h)" for x
    using that h(8) FileHeader_new_fits(2) [of "junk_word (junk 3)"] by (auto simp: int_fits_def)
  then have "header_fits h" using h(2) by (simp add: header_fits_def)
  then obtain d1 where d1: "hdr_WriteBack (int s) h ?d = Inr d1" "disk_sectors_ok d1" "d1 = ?d[s := hdr_to_bytes h]" "hdr_FetchFrom (int s) d1 = Inr h"
    using hdr_disk_roundtrip [OF _ ok(1), of h "int s"] b(2) by auto
  have d1s: "header_at d1 (int s) = h" using d1(4) b(2) by (simp add: hdr_FetchFrom_def ReadSector_def header_at_def)
  have wf: "\<forall>e \<in> set ?t. entry_wf e" "length ?t = 10" using t(4) length_fs_dir [of fs] by (simp_all add: dir_ok_def t(1))
  from write_back_both(1) [OF assms(1) d1(2) wf h(4,5), of "junk 4" "junk 5"] obtain d' where
    w: "bindR (dir_WriteBack (junk 4) (directoryFile fs) ?t d1) (pbitmap_WriteBack (junk 5) (freeMapFile fs) b') = Inr d'" "disk_sectors_ok d'"
      "dir_in_file 10 (directoryFile fs) d' = ?t" "map_in_file (freeMapFile fs) d' = b'"
      "\<And>x. x \<notin> set (file_sectors (hdr (directoryFile fs))) \<union> set (file_sectors (hdr (freeMapFile fs))) \<Longrightarrow> d' ! x = d1 ! x" by blast
  let ?fs = "fs\<lparr>sectors := d'\<rparr>"
  have dir': "fs_dir ?fs = ?t" "fs_map ?fs = b'" "system_sectors ?fs = system_sectors fs"
    using w(3,4) by (simp_all add: fs_dir_def fs_map_def system_sectors_def)
  have s_free: "s \<notin> set (system_sectors fs)" "s \<notin> set (files_own ?d (fs_dir fs))" using b(3) ok(11) by auto
  have keep: "d' ! x = ?d ! x" if "x \<notin> set (file_sectors (hdr (directoryFile fs))) \<union> set (file_sectors (hdr (freeMapFile fs)))" "x \<noteq> s" for x
    using w(5) [OF that(1)] that(2) d1(3) by simp
  have fil: "d' ! x = ?d ! x" if "x \<in> set (files_own ?d (fs_dir fs))" for x
    using that keep [of x] ok(10) s_free(2) by (auto simp: system_sectors_def)
  have "d' ! s = d1 ! s" using s_free(1) by (intro w(5)) (auto simp: system_sectors_def)
  then have hs: "header_at d' (int s) = h" using d1s by (simp add: header_at_def)
  have s01: "s \<noteq> 0" "s \<noteq> 1" using s_free(1) by (auto simp: system_sectors_def)
  have h01: "header_at d' 0 = hdr (freeMapFile fs)" "header_at d' 1 = hdr (directoryFile fs)"
    using keep [of 0] keep [of 1] sys(2-5) s01 ok(12,13) by (simp_all add: header_at_def)
  have part: "files_own d' t1 = files_own ?d t1" "files_own d' t2 = files_own ?d t2" "files_ok d' t1" "files_ok d' t2"
    using files_unchanged(1,2) [of ?d t1 d'] files_unchanged(1,2) [of ?d t2 d'] fil ok(7) t(1,2) by auto
  have new: "entry_owns d' (new_entry nm (int s) e) = s # file_sectors h" "inUse (new_entry nm (int s) e)"
    "sector (new_entry nm (int s) e) = int s"
    using hs by (simp_all add: entry_owns_def new_entry_def)
  have own: "set (files_own d' ?t) = set (files_own ?d (fs_dir fs)) \<union> insert s (set (file_sectors h))"
    using part new t(1,2) by auto
  have fresh: "set (file_sectors h) \<inter> insert s (set (system_sectors fs) \<union> set (files_own ?d (fs_dir fs))) = {}"
    using h(6) b(6) ok(11) by auto
  have "fs_ok ?fs"
  proof -
    have "distinct (system_sectors fs @ files_own d' ?t)"
      using ok(8-10) s_free fresh file_ok_facts(3) [OF h(2)] part new t(1,2) by auto
    moreover have "marked b' = int ` set (system_sectors fs @ files_own d' ?t)"
      using h(7) b(6) ok(11) own by auto
    moreover have "files_ok d' ?t" using part new hs h(2) b(2) by simp
    ultimately show ?thesis
      using assms(1) w(2) h01 t(4) dir' by (simp add: fs_ok_def)
  qed
  moreover have "fs_files ?fs k = ((fs_files fs)(fname nm \<mapsto> file_bytes h d')) k" for k
  proof (cases "k = fname nm")
    case True
    then show ?thesis using t(5) hs by (simp add: fs_files_def dir')
  next
    case False
    then show ?thesis using fs_files_eq [of ?fs k fs] fil t(5) by (simp add: dir')
  qed
  moreover have "length (file_bytes h d') = nat size0" using length_file_bytes [OF h(2) w(2)] h(3) by simp
  moreover have "Create junk nm size0 fs = Inr (?fs, True)"
  proof -
    have "bindR (dir_WriteBack (junk 4) (directoryFile fs) ?t d1) (\<lambda>d. bindR (pbitmap_WriteBack (junk 5) (freeMapFile fs) b' d) (\<lambda>d. Inr (fs\<lparr>sectors := d\<rparr>, True)))
      = Inr (?fs, True)" using w(1) by (simp add: bindR_assoc [symmetric])
    then show ?thesis using b(1) t(3) h(1) d1(1) assms(2)
      by (simp add: Create_def fetch_directory_spec [OF assms(1)] open_map_spec [OF assms(1), simplified] Directory_Find_spec)
  qed
  ultimately show ?thesis by blast
qed

section \<open>Remove, Open and writing\<close>

lemma Open_spec:
  assumes "fs_ok fs"
  shows "Open junk nm fs = Inr (map_option (\<lambda>s. \<lparr>hdr = header_at (sectors fs) s, seekPosition = 0\<rparr>) (dir_lookup (fs_dir fs) (fname nm)))"
proof (cases "dir_lookup (fs_dir fs) (fname nm)")
  case None
  then show ?thesis by (simp add: Open_def fetch_directory_spec [OF assms] Directory_Find_spec)
next
  case (Some s)
  then obtain e where "e \<in> set (fs_dir fs)" "inUse e" "sector e = s" using dir_lookup_Some by blast
  then have "0 \<le> s" "s < 1024" using fs_okD(7) [OF assms] by (auto simp: files_ok_def)
  then show ?thesis using Some
    by (simp add: Open_def fetch_directory_spec [OF assms] Directory_Find_spec OpenFile_new_def hdr_FetchFrom_def ReadSector_def header_at_def)
qed

lemma fs_Remove_absent:
  "fs_ok fs \<Longrightarrow> dir_lookup (fs_dir fs) (fname nm) = None \<Longrightarrow> FileSystem_Remove junk nm fs = Inr (fs, False)"
  by (simp add: FileSystem_Remove_def fetch_directory_spec Directory_Find_spec)

lemma Remove_succeeds:
  assumes "fs_ok fs" and "dir_lookup (fs_dir fs) (fname nm) = Some s"
  shows "\<exists>fs'. FileSystem_Remove junk nm fs = Inr (fs', True) \<and> fs_ok fs' \<and> fs_files fs' = (fs_files fs)(fname nm := None) \<and>
    marked (fs_map fs') = marked (fs_map fs) - insert s (int ` set (file_sectors (header_at (sectors fs) s)))"
proof -
  note ok = fs_okD [OF assms(1)] and sys = system_facts [OF assms(1)]
  let ?d = "sectors fs" and ?h = "header_at (sectors fs) s"
  from Directory_Remove_spec(2) [OF ok(6) assms(2)] obtain t1 e t2 where
    t: "fs_dir fs = t1 @ e # t2" "inUse e" "sector e = s" "fname (name e) = fname nm"
      "Directory_Remove (fs_dir fs) nm = (t1 @ e\<lparr>inUse := False\<rparr> # t2, True)" "dir_ok (t1 @ e\<lparr>inUse := False\<rparr> # t2)"
      "dir_lookup (t1 @ e\<lparr>inUse := False\<rparr> # t2) = (dir_lookup (fs_dir fs))(fname nm := None)" by blast
  let ?t = "t1 @ e\<lparr>inUse := False\<rparr> # t2" and ?X = "insert (nat s) (set (file_sectors ?h))"
  have s: "0 \<le> s" "s < 1024" "file_ok ?h" using ok(7) t(1-3) by auto
  have own: "set (files_own ?d (fs_dir fs)) = set (files_own ?d t1) \<union> ?X \<union> set (files_own ?d t2)"
    "?X \<inter> (set (files_own ?d t1) \<union> set (files_own ?d t2)) = {}"
    using t(1-3) ok(9) by (auto simp: entry_owns_def)
  have wf: "bitmap_wf (fs_map fs)" "numBits (fs_map fs) = NumSectors" by (simp_all add: fs_map_def)
  have "int ` set (file_sectors ?h) \<subseteq> marked (fs_map fs)" using ok(11) own(1) by auto
  from Deallocate_spec [OF wf s(3) this] obtain b1 where b1: "Deallocate (fs_map fs) ?h = Inr b1" "bitmap_wf b1"
    "numBits b1 = numBits (fs_map fs)" "marked b1 = marked (fs_map fs) - int ` set (file_sectors ?h)" by blast
  from Clear_spec [OF b1(2) s(1)] s(2) b1(3) wf(2) obtain b where b: "Clear b1 s = Inr b" "bitmap_wf b" "numBits b = 1024"
    "marked b = marked b1 - {s}" by auto
  have mb: "marked b = marked (fs_map fs) - insert s (int ` set (file_sectors ?h))" using b(4) b1(4) by auto
  have wt: "\<forall>e \<in> set ?t. entry_wf e" "length ?t = 10" using t(6) length_fs_dir [of fs] by (simp_all add: dir_ok_def t(1))
  from write_back_both(2) [OF assms(1) ok(1) wt b(2,3), of "junk 3" "junk 4"] obtain d' where
    w: "bindR (pbitmap_WriteBack (junk 3) (freeMapFile fs) b ?d) (dir_WriteBack (junk 4) (directoryFile fs) ?t) = Inr d'" "disk_sectors_ok d'"
      "dir_in_file 10 (directoryFile fs) d' = ?t" "map_in_file (freeMapFile fs) d' = b"
      "\<And>x. x \<notin> set (file_sectors (hdr (directoryFile fs))) \<union> set (file_sectors (hdr (freeMapFile fs))) \<Longrightarrow> d' ! x = ?d ! x" by blast
  let ?fs = "fs\<lparr>sectors := d'\<rparr>"
  have dir': "fs_dir ?fs = ?t" "fs_map ?fs = b" "system_sectors ?fs = system_sectors fs"
    using w(3,4) by (simp_all add: fs_dir_def fs_map_def system_sectors_def)
  have fil: "d' ! x = ?d ! x" if "x \<in> set (files_own ?d (fs_dir fs))" for x
    using that ok(10) by (intro w(5)) (auto simp: system_sectors_def)
  have h01: "header_at d' 0 = hdr (freeMapFile fs)" "header_at d' 1 = hdr (directoryFile fs)"
    using w(5) [of 0] w(5) [of 1] sys(2-5) ok(12,13) by (simp_all add: header_at_def)
  have part: "files_own d' t1 = files_own ?d t1" "files_own d' t2 = files_own ?d t2" "files_ok d' t1" "files_ok d' t2"
    using files_unchanged(1,2) [of ?d t1 d'] files_unchanged(1,2) [of ?d t2 d'] fil own(1) ok(7) t(1) by auto
  have ownt: "files_own d' ?t = files_own ?d t1 @ files_own ?d t2" using part by simp
  have "fs_ok ?fs"
  proof -
    have "distinct (files_own ?d t1)" "distinct (files_own ?d t2)" "set (files_own ?d t1) \<inter> set (files_own ?d t2) = {}"
      using ok(9) t(1,2) by auto
    moreover have "set (system_sectors fs) \<inter> (set (files_own ?d t1) \<union> set (files_own ?d t2)) = {}" using ok(10) own(1) by blast
    ultimately have "distinct (system_sectors fs @ files_own d' ?t)" unfolding ownt using ok(8) by simp
    moreover have "marked b = int ` set (system_sectors fs @ files_own d' ?t)"
    proof -
      have X: "insert s (int ` set (file_sectors ?h)) = int ` ?X" using s(1) by simp
      have "set (system_sectors fs) \<inter> ?X = {}" using ok(10) own(1) by auto
      then have E: "(set (system_sectors fs) \<union> set (files_own ?d (fs_dir fs))) - ?X = set (system_sectors fs @ files_own d' ?t)"
        unfolding ownt using own by auto
      show ?thesis unfolding mb X ok(11) E [symmetric] by (rule image_set_diff [symmetric]) simp
    qed
    moreover have "files_ok d' ?t" using part by simp
    ultimately show ?thesis using assms(1) w(2) h01 t(6) dir' by (simp add: fs_ok_def)
  qed
  moreover have "fs_files ?fs k = ((fs_files fs)(fname nm := None)) k" for k
    using fs_files_eq [of ?fs k fs] fil t(7) by (cases "k = fname nm") (simp_all add: dir' fs_files_def)
  moreover have "FileSystem_Remove junk nm fs = Inr (?fs, True)"
  proof -
    have "bindR (pbitmap_WriteBack (junk 3) (freeMapFile fs) b ?d) (\<lambda>d. bindR (dir_WriteBack (junk 4) (directoryFile fs) ?t d) (\<lambda>d. Inr (fs\<lparr>sectors := d\<rparr>, True)))
      = Inr (?fs, True)" using w(1) by (simp add: bindR_assoc [symmetric])
    then show ?thesis using b(1) b1(1) t(5) assms(2) s(1,2)
      by (simp add: FileSystem_Remove_def fetch_directory_spec [OF assms(1)] open_map_spec [OF assms(1), simplified] Directory_Find_spec
          hdr_FetchFrom_def ReadSector_def header_at_def)
  qed
  ultimately show ?thesis using mb dir'(2) by (intro exI [of _ ?fs]) (simp add: fun_eq_iff)
qed

text \<open>Writing through an open file changes that file's contents only.\<close>

lemma write_file_spec:
  assumes "fs_ok fs" and k: "dir_lookup (fs_dir fs) k = Some s" and f: "hdr f = header_at (sectors fs) s" and n: "n \<le> length from"
  shows "\<exists>d' m. WriteAt junk f from (int n) (int p) (sectors fs) = Inr (d', int m) \<and> m = min n (nat (numBytes (hdr f)) - p) \<and>
    fs_ok (fs\<lparr>sectors := d'\<rparr>) \<and> fs_dir (fs\<lparr>sectors := d'\<rparr>) = fs_dir fs \<and> header_at d' s = header_at (sectors fs) s \<and>
    fs_files (fs\<lparr>sectors := d'\<rparr>) = (fs_files fs)(k \<mapsto> overwrite (the (fs_files fs k)) p (take m from))"
proof -
  note ok = fs_okD [OF assms(1)]
  let ?d = "sectors fs" and ?h = "header_at (sectors fs) s"
  from dir_lookup_Some [OF k] obtain e where e: "e \<in> set (fs_dir fs)" "inUse e" "fname (name e) = k" "sector e = s" by blast
  obtain t1 t2 where t: "fs_dir fs = t1 @ e # t2" using e(1) by (auto simp: in_set_conv_decomp)
  have h: "file_ok ?h" "0 \<le> s" "s < 1024" using ok(7) t e(2,4) by auto
  obtain d' where w: "WriteAt junk f from (int n) (int p) ?d = Inr (d', int (min n (nat (numBytes (hdr f)) - p)))" "disk_sectors_ok d'"
      "file_bytes ?h d' = overwrite (file_bytes ?h ?d) p (take (min n (nat (numBytes (hdr f)) - p)) from)"
      "\<And>x. x \<notin> set (file_sectors ?h) \<Longrightarrow> d' ! x = ?d ! x"
    using WriteAt_nat [of f ?d n "from" _ p junk] h(1) ok(1) f n by auto
  have own: "set (file_sectors ?h) \<subseteq> set (files_own ?d (fs_dir fs))" "nat s \<notin> set (file_sectors ?h)"
    "set (file_sectors ?h) \<inter> set (files_own ?d (t1 @ t2)) = {}"
    using t e(2,4) ok(9) by (auto simp: entry_owns_def)
  have sysk: "d' ! x = ?d ! x" if "x \<in> set (system_sectors fs)" for x using that own(1) ok(10) by (intro w(4)) auto
  let ?fs = "fs\<lparr>sectors := d'\<rparr>"
  have "file_bytes (hdr (directoryFile fs)) d' = file_bytes (hdr (directoryFile fs)) ?d"
    "file_bytes (hdr (freeMapFile fs)) d' = file_bytes (hdr (freeMapFile fs)) ?d"
    by (rule file_bytes_cong, rule sysk, simp add: system_sectors_def)+
  then have dir': "fs_dir ?fs = fs_dir fs" "fs_map ?fs = fs_map fs" "system_sectors ?fs = system_sectors fs"
    by (simp_all add: fs_dir_def fs_map_def system_sectors_def dir_in_file_def map_in_file_def)
  have h01: "header_at d' 0 = hdr (freeMapFile fs)" "header_at d' 1 = hdr (directoryFile fs)"
    using sysk [of 0] sysk [of 1] ok(12,13) by (simp_all add: header_at_def system_sectors_def)
  have hs: "header_at d' s = ?h" using w(4) [OF own(2)] by (simp add: header_at_def)
  have oth: "d' ! x = ?d ! x" if "x \<in> set (files_own ?d (t1 @ t2))" for x using that own(3) by (intro w(4)) auto
  have part: "files_own d' t1 = files_own ?d t1" "files_own d' t2 = files_own ?d t2" "files_ok d' t1" "files_ok d' t2"
    using files_unchanged(1,2) [of ?d t1 d'] files_unchanged(1,2) [of ?d t2 d'] oth ok(7) t by auto
  have "files_own d' (fs_dir fs) = files_own ?d (fs_dir fs)" "files_ok d' (fs_dir fs)"
    using part t e(2,4) hs h by (simp_all add: entry_owns_def)
  then have "fs_ok ?fs" using assms(1) w(2) h01 dir' by (simp add: fs_ok_def)
  moreover have "fs_files ?fs j = ((fs_files fs)(k \<mapsto> overwrite (the (fs_files fs k)) p (take (min n (nat (numBytes (hdr f)) - p)) from))) j" for j
  proof (cases "j = k")
    case True
    then show ?thesis using k w(3) hs by (simp add: fs_files_def dir'(1))
  next
    case False
    show ?thesis
    proof (cases "dir_lookup (fs_dir fs) j")
      case (Some s')
      then obtain e' where e': "e' \<in> set (fs_dir fs)" "inUse e'" "fname (name e') = j" "sector e' = s'" using dir_lookup_Some by blast
      then have "e' \<in> set (t1 @ t2)" using t False e(3) by auto
      from files_unchanged(3) [where t = "t1 @ t2" and d = ?d and d' = d' and e = e', OF oth this e'(2)] show ?thesis
        using False Some e'(4) by (simp add: fs_files_def dir'(1))
    qed (use False in \<open>simp add: fs_files_def dir'(1)\<close>)
  qed
  ultimately show ?thesis using w(1) dir'(1) hs by (intro exI [of _ d'] exI) (simp add: fun_eq_iff)
qed

section \<open>Formatting\<close>

lemma Directory_new_ok: "dir_ok (Directory_new junk n)" "length (Directory_new junk n) = n" "filter inUse (Directory_new junk n) = []"
proof -
  show f: "filter inUse (Directory_new junk n) = []" by (simp add: Directory_new_def filter_map comp_def)
  then show "dir_ok (Directory_new junk n)"
    using table_of_bytes_wf by (auto simp: dir_ok_def used_names_def Directory_new_def entry_wf_def)
qed (simp add: Directory_new_def)

lemma empty_dir: "filter inUse t = [] \<Longrightarrow> files_own d t = [] \<and> files_ok d t \<and> dir_lookup t k = None"
  by (induction t) (auto split: if_splits)

lemma Allocate_fresh:
  assumes "bitmap_wf b" and "numBits b = 1024" and "card (marked b) \<le> 100" and "0 \<le> n" and "n \<le> 3840"
  shows "\<exists>h b'. Allocate b n (FileHeader_new junk) = Inr (h, b', True) \<and> header_fits h \<and> numBytes h = n \<and> bitmap_wf b' \<and> numBits b' = 1024 \<and>
    int ` set (file_sectors h) \<inter> marked b = {} \<and> marked b' = marked b \<union> int ` set (file_sectors h) \<and> card (set (file_sectors h)) \<le> 30"
proof -
  have "divRoundUp n 128 \<le> 30" using divRoundUp_bounds(2) [OF assms(4), of 128] assms(5) by simp
  with Allocate_spec(2) [OF assms(1) _ assms(4) FileHeader_new_fits(1) refl refl, of junk] assms(2,3) obtain h b' where
    h: "Allocate b n (FileHeader_new junk) = Inr (h, b', True)" "file_ok h" "numBytes h = n" "bitmap_wf b'" "numBits b' = 1024"
      "int ` set (file_sectors h) \<inter> marked b = {}" "marked b' = marked b \<union> int ` set (file_sectors h)"
      "set (dataSectors h) \<subseteq> set (dataSectors (FileHeader_new junk)) \<union> {0..<NumSectors}" by auto
  have "int_fits x" if "x \<in> set (dataSectors h)" for x
    using that h(8) FileHeader_new_fits(2) [of junk] by (auto simp: int_fits_def)
  moreover have "card (set (file_sectors h)) \<le> 30"
    using card_length [of "file_sectors h"] file_ok_facts(1,2) [OF h(2)] by simp
  ultimately show ?thesis using h by (auto simp: header_fits_def)
qed

lemma OpenFile_new_eq: "0 \<le> n \<Longrightarrow> n < 1024 \<Longrightarrow> OpenFile_new n d = Inr \<lparr>hdr = header_at d n, seekPosition = 0\<rparr>"
  by (simp add: OpenFile_new_def hdr_FetchFrom_def ReadSector_def header_at_def)

lemma format_spec:
  assumes "disk_sectors_ok d"
  shows "\<exists>fs. FileSystem_new True junk d = Inr fs \<and> fs_ok fs \<and> fs_files fs = Map.empty \<and>
    has_free_entry (fs_dir fs) \<and> 900 \<le> free_sectors fs"
proof -
  obtain b0 where b0: "Bitmap_new 1024 = Inr b0" "bitmap_wf b0" "numBits b0 = 1024" "marked b0 = {}" using Bitmap_new_spec [of 1024] by auto
  obtain b1 where b1: "Mark b0 0 = Inr b1" "bitmap_wf b1" "numBits b1 = 1024" "marked b1 = {0}" using Mark_spec [OF b0(2), of 0] b0 by auto
  obtain b2 where b2: "Mark b1 1 = Inr b2" "bitmap_wf b2" "numBits b2 = 1024" "marked b2 = {0, 1}" using Mark_spec [OF b1(2), of 1] b1 by auto
  have "card (marked b2) \<le> 100" by (simp add: b2(4))
  from Allocate_fresh [OF b2(2,3) this, of 128 "junk_word (junk 1)"] obtain mh b3 where
    mh: "Allocate b2 128 (FileHeader_new (junk_word (junk 1))) = Inr (mh, b3, True)" "header_fits mh" "numBytes mh = 128" "bitmap_wf b3" "numBits b3 = 1024"
      "int ` set (file_sectors mh) \<inter> marked b2 = {}" "marked b3 = marked b2 \<union> int ` set (file_sectors mh)" "card (set (file_sectors mh)) \<le> 30" by auto
  have card3: "card (marked b3) \<le> 90"
    using mh(8) card_Un_le [of "marked b2" "int ` set (file_sectors mh)"] card_image_le [of "set (file_sectors mh)" int] by (simp add: mh(7) b2(4))
  then have "card (marked b3) \<le> 100" by simp
  from Allocate_fresh [OF mh(4,5) this, of 200 "junk_word (junk 2)"] obtain dh b4 where
    dh: "Allocate b3 200 (FileHeader_new (junk_word (junk 2))) = Inr (dh, b4, True)" "header_fits dh" "numBytes dh = 200" "bitmap_wf b4" "numBits b4 = 1024"
      "int ` set (file_sectors dh) \<inter> marked b3 = {}" "marked b4 = marked b3 \<union> int ` set (file_sectors dh)" "card (set (file_sectors dh)) \<le> 30" by auto
  have ok: "file_ok mh" "file_ok dh" using mh(2) dh(2) by (simp_all add: header_fits_def)
  obtain d1 where d1: "hdr_WriteBack 0 mh d = Inr d1" "disk_sectors_ok d1" "d1 = d[0 := hdr_to_bytes mh]" "hdr_FetchFrom 0 d1 = Inr mh"
    using hdr_disk_roundtrip [OF mh(2) assms, of 0] by auto
  obtain d2 where d2: "hdr_WriteBack 1 dh d1 = Inr d2" "disk_sectors_ok d2" "d2 = d1[1 := hdr_to_bytes dh]" "hdr_FetchFrom 1 d2 = Inr dh"
    using hdr_disk_roundtrip [OF dh(2) d1(2), of 1] by auto
  have h: "header_at d2 0 = mh" "header_at d2 1 = dh"
    using d1(4) d2(3,4) by (simp_all add: hdr_FetchFrom_def ReadSector_def header_at_def)
  let ?mf = "\<lparr>hdr = mh, seekPosition = 0\<rparr>" and ?df = "\<lparr>hdr = dh, seekPosition = 0\<rparr>" and ?t = "Directory_new (junk 0) 10"
  obtain d3 where d3: "pbitmap_WriteBack (junk 3) ?mf b4 d2 = Inr d3" "disk_sectors_ok d3" "map_in_file ?mf d3 = b4"
      "\<And>s. s \<notin> set (file_sectors mh) \<Longrightarrow> d3 ! s = d2 ! s"
    using pbitmap_WriteBack_spec [of ?mf d2 b4 "junk 3"] ok mh(3) dh(4,5) d2(2) by auto
  obtain d4 where d4: "dir_WriteBack (junk 4) ?df ?t d3 = Inr d4" "disk_sectors_ok d4" "dir_in_file 10 ?df d4 = ?t"
      "\<And>s. s \<notin> set (file_sectors dh) \<Longrightarrow> d4 ! s = d3 ! s"
    using dir_WriteBack_spec [of ?df d3 ?t "junk 4"] ok dh(3) d3(2) Directory_new_ok [of "junk 0" 10] by (auto simp: dir_ok_def)
  let ?fs = "\<lparr>sectors = d4, freeMapFile = ?mf, directoryFile = ?df\<rparr>"
  have dj: "set (file_sectors mh) \<inter> {0, 1} = {}" "set (file_sectors dh) \<inter> ({0, 1} \<union> set (file_sectors mh)) = {}"
    using mh(6,7) dh(6) b2(4) by auto
  have "file_bytes mh d4 = file_bytes mh d3" by (rule file_bytes_cong, rule d4(4)) (use dj in auto)
  then have m: "fs_map ?fs = b4" using d3(3) by (simp add: fs_map_def map_in_file_def)
  have t: "fs_dir ?fs = ?t" using d4(3) by (simp add: fs_dir_def)
  have h4: "header_at d4 0 = mh" "header_at d4 1 = dh"
    using h d3(4) [of 0] d3(4) [of 1] d4(4) [of 0] d4(4) [of 1] dj by (simp_all add: header_at_def)
  have sys: "system_sectors ?fs = [0, 1] @ file_sectors mh @ file_sectors dh" by (simp add: system_sectors_def)
  have e: "files_own d4 ?t = []" "files_ok d4 ?t" "\<And>k. dir_lookup ?t k = None" using empty_dir Directory_new_ok(3) by blast+
  have "distinct (system_sectors ?fs)" using dj file_ok_facts(3) ok by (auto simp: sys)
  moreover have "marked b4 = int ` set (system_sectors ?fs)" using dh(7) mh(7) b2(4) by (auto simp: sys)
  ultimately have "fs_ok ?fs"
    using d4(2) mh(2,3) dh(2,3) h4 Directory_new_ok(1) m t e by (simp add: fs_ok_def)
  moreover have "fs_files ?fs = Map.empty" by (rule ext) (simp add: fs_files_def t e)
  moreover have "has_free_entry (fs_dir ?fs)"
    using Directory_new_ok(2,3) [of "junk 0" 10] by (auto simp: t has_free_entry_def filter_empty_conv)
  moreover have "900 \<le> free_sectors ?fs"
    using dh(8) card3 card_Un_le [of "marked b3" "int ` set (file_sectors dh)"] card_image_le [of "set (file_sectors dh)" int]
    by (simp add: free_sectors_def m dh(7))
  moreover have "FileSystem_new True junk d = Inr ?fs"
    using b0(1) b1(1) b2(1) mh(1) dh(1) d1(1) d2(1) d3(1) d4(1) h
    by (simp add: FileSystem_new_def format_disk_def PersistentBitmap_new_def OpenFile_new_eq)
  ultimately show ?thesis by blast
qed

text \<open>Restarting without formatting opens the same file system.\<close>

lemma reopen_spec:
  assumes "fs_ok fs"
  shows "\<exists>fs'. FileSystem_new False junk (sectors fs) = Inr fs' \<and> fs_ok fs' \<and> fs_files fs' = fs_files fs"
proof -
  let ?fs = "\<lparr>sectors = sectors fs, freeMapFile = \<lparr>hdr = hdr (freeMapFile fs), seekPosition = 0\<rparr>,
     directoryFile = \<lparr>hdr = hdr (directoryFile fs), seekPosition = 0\<rparr>\<rparr>"
  have e: "fs_dir ?fs = fs_dir fs" "fs_map ?fs = fs_map fs" "system_sectors ?fs = system_sectors fs"
    by (simp_all add: fs_dir_def fs_map_def system_sectors_def dir_in_file_def map_in_file_def)
  have "fs_ok ?fs" using assms e by (simp add: fs_ok_def)
  moreover have "fs_files ?fs = fs_files fs" by (rule ext) (simp add: fs_files_def e)
  moreover have "FileSystem_new False junk (sectors fs) = Inr ?fs"
    using fs_okD(12,13) [OF assms] by (simp add: FileSystem_new_def OpenFile_new_eq)
  ultimately show ?thesis by blast
qed

section \<open>Printing\<close>

lemma fname_cstr [simp]: "fname (cstr nm) = fname nm"
proof -
  have "cstr (cstr nm) = cstr nm" by (simp add: cstr_def takeWhile_idem)
  then show ?thesis by (simp add: fname_def)
qed

lemma listed_names: "fname ` set (Directory_List t) = dom (dir_lookup t)"
  by (auto simp: dom_dir_lookup used_names_def Directory_List_def image_image)

definition shows_entry :: "sectors \<Rightarrow> DirectoryEntry \<Rightarrow> u8 list \<times> int \<times> int \<times> int list \<times> shown list list \<Rightarrow> bool" where
  "shows_entry d e = (\<lambda>(n, s, len, blocks, ls). n = cstr (name e) \<and> s = sector e \<and> len = numBytes (header_at d s) \<and>
     concat ls = map show_byte (file_bytes (header_at d s) d))"

lemma Directory_Print_spec:
  assumes "disk_sectors_ok d" and "files_ok d t"
  shows "\<exists>ps. Directory_Print t d = Inr ps \<and> list_all2 (shows_entry d) (filter inUse t) ps"
proof -
  let ?f = "\<lambda>e out. if inUse e
        then bindR (hdr_FetchFrom (sector e) d) (\<lambda>h. bindR (hdr_Print h d) (\<lambda>p. Inr (out @ [(cstr (name e), sector e, p)])))
        else Inr out"
  have "\<exists>ps. forR t ?f start = Inr (start @ ps) \<and> list_all2 (shows_entry d) (filter inUse t) ps" for start
    using assms(2)
  proof (induction t arbitrary: start)
    case (Cons e t)
    show ?case
    proof (cases "inUse e")
      case True
      let ?h = "header_at d (sector e)"
      have h: "file_ok ?h" "0 \<le> sector e" "sector e < 1024" using True Cons.prems by auto
      from hdr_Print_shows_file [OF h(1) assms(1)] obtain ls where
        ls: "hdr_Print ?h d = Inr (numBytes ?h, map int (file_sectors ?h), ls)" "concat ls = map show_byte (file_bytes ?h d)" by blast
      let ?p = "(cstr (name e), sector e, numBytes ?h, map int (file_sectors ?h), ls)"
      have "?f e start = Inr (start @ [?p])"
        using True h ls(1) by (simp add: hdr_FetchFrom_def ReadSector_def header_at_def)
      moreover have sh: "shows_entry d e ?p" using ls(2) by (simp add: shows_entry_def)
      moreover from Cons.IH [of "start @ [?p]"] Cons.prems obtain ps where
        "forR t ?f (start @ [?p]) = Inr ((start @ [?p]) @ ps)" "list_all2 (shows_entry d) (filter inUse t) ps" by auto
      ultimately show ?thesis using True ls(2) by (intro exI [of _ "?p # ps"]) (simp add: sh)
    qed (use Cons in auto)
  qed simp
  from this [of "[]"] show ?thesis by (simp add: Directory_Print_def)
qed

section \<open>Properties\<close>

text \<open>Every state the operations lead to, starting from a formatted or reopened disk.\<close>

inductive fs_reachable :: "file_system \<Rightarrow> bool" where
  format: "disk_sectors_ok d \<Longrightarrow> FileSystem_new True junk d = Inr fs \<Longrightarrow> fs_reachable fs"
| reopen: "fs_reachable fs \<Longrightarrow> FileSystem_new False junk (sectors fs) = Inr fs' \<Longrightarrow> fs_reachable fs'"
| create: "fs_reachable fs \<Longrightarrow> 0 \<le> size0 \<Longrightarrow> Create junk nm size0 fs = Inr (fs', b) \<Longrightarrow> fs_reachable fs'"
| remove: "fs_reachable fs \<Longrightarrow> FileSystem_Remove junk nm fs = Inr (fs', b) \<Longrightarrow> fs_reachable fs'"
| writing: "fs_reachable fs \<Longrightarrow> Open junk nm fs = Inr (Some f) \<Longrightarrow> 0 \<le> position \<Longrightarrow> n \<le> int (length from) \<Longrightarrow>
    WriteAt buf f from n position (sectors fs) = Inr (d', m) \<Longrightarrow> fs_reachable (fs\<lparr>sectors := d'\<rparr>)"

lemma Create_cases:
  assumes "fs_ok fs" and "0 \<le> size0"
  shows "if dir_lookup (fs_dir fs) (fname nm) \<noteq> None \<or> \<not> has_free_entry (fs_dir fs) \<or> free_sectors fs < 1 + divRoundUp size0 SectorSize
    then Create junk nm size0 fs = Inr (fs, False)
    else if size0 \<le> MaxFileSize
    then \<exists>fs' c. Create junk nm size0 fs = Inr (fs', True) \<and> fs_ok fs' \<and> length c = nat size0 \<and> fs_files fs' = (fs_files fs)(fname nm \<mapsto> c)
    else Create junk nm size0 fs = Inl OutOfBounds"
proof (cases "dir_lookup (fs_dir fs) (fname nm) \<noteq> None \<or> \<not> has_free_entry (fs_dir fs) \<or> free_sectors fs \<le> 0")
  case True
  moreover have "free_sectors fs \<le> 0 \<Longrightarrow> int (card (marked (fs_map fs))) = NumSectors"
  proof -
    have "card (marked (fs_map fs)) \<le> card {0..<1024::int}"
      by (rule card_mono) (auto simp: fs_map_def dest: marked_bounds)
    then show "free_sectors fs \<le> 0 \<Longrightarrow> int (card (marked (fs_map fs))) = NumSectors" by (simp add: free_sectors_def)
  qed
  ultimately have "Create junk nm size0 fs = Inr (fs, False)" using Create_refused [OF assms(1)] by blast
  moreover have "0 \<le> divRoundUp size0 128" using divRoundUp_bounds(3) [OF assms(2), of 128] by simp
  ultimately show ?thesis using True by (auto split: if_splits)
next
  case False
  then show ?thesis
    using Create_no_space [OF assms(1) _ _ _ assms(2), of nm junk] Create_succeeds [OF assms(1) _ _ _ assms(2), of nm junk] by auto
qed

lemma write_handle:
  assumes "fs_ok fs" and "Open junk nm fs = Inr (Some f)" and "0 \<le> position" and "n \<le> int (length from)"
  shows "\<exists>d' m. WriteAt buf f from n position (sectors fs) = Inr (d', int m) \<and> m = min (nat n) (nat (numBytes (hdr f)) - nat position) \<and>
    fs_ok (fs\<lparr>sectors := d'\<rparr>) \<and> fs_files fs (fname nm) = Some (file_bytes (hdr f) (sectors fs)) \<and>
    fs_files (fs\<lparr>sectors := d'\<rparr>) = (fs_files fs)(fname nm \<mapsto> overwrite (file_bytes (hdr f) (sectors fs)) (nat position) (take m from))"
proof -
  from assms(2) obtain s where s: "dir_lookup (fs_dir fs) (fname nm) = Some s" "hdr f = header_at (sectors fs) s"
    unfolding Open_spec [OF assms(1)] by auto
  then have c: "fs_files fs (fname nm) = Some (file_bytes (hdr f) (sectors fs))" by (simp add: fs_files_def)
  show ?thesis
  proof (cases "0 \<le> n")
    case True
    have "nat n \<le> length from" using assms(4) by simp
    from write_file_spec [OF assms(1) s this, of buf "nat position"] show ?thesis using True assms(3) c by auto
  next
    case False
    then have "WriteAt buf f from n position (sectors fs) = Inr (sectors fs, 0)" by (simp add: WriteAt_def Let_def)
    then show ?thesis using False c assms(1) by (intro exI [of _ "sectors fs"] exI [of _ 0]) (simp add: overwrite_def fun_upd_idem)
  qed
qed

lemma read_handle:
  assumes "fs_ok fs" and "Open junk nm fs = Inr (Some f)" and "0 \<le> position"
  shows "ReadAt buf f n position (sectors fs) = Inr (take (nat n) (drop (nat position) (the (fs_files fs (fname nm)))))"
proof -
  from assms(2) obtain s where s: "dir_lookup (fs_dir fs) (fname nm) = Some s" "hdr f = header_at (sectors fs) s"
    unfolding Open_spec [OF assms(1)] by auto
  then obtain e where "e \<in> set (fs_dir fs)" "inUse e" "sector e = s" using dir_lookup_Some by blast
  then have "file_ok (hdr f)" using fs_okD(7) [OF assms(1)] s(2) by (auto simp: files_ok_def)
  then have "0 \<le> n \<Longrightarrow> ReadAt buf f n position (sectors fs) = Inr (take (nat n) (drop (nat position) (file_bytes (hdr f) (sectors fs))))"
    using ReadAt_nat [of f "sectors fs" buf "nat n" "nat position"] fs_okD(1) [OF assms(1)] assms(3) by simp
  moreover have "\<not> 0 \<le> n \<Longrightarrow> ReadAt buf f n position (sectors fs) = Inr []" by (simp add: ReadAt_def Let_def)
  ultimately show ?thesis using s by (cases "0 \<le> n") (simp_all add: fs_files_def)
qed

text \<open>
  C28: every file system reached from a formatted disk by creating, removing and writing files and
  by restarting is well formed: the free map marks exactly the sectors in use, no sector belongs
  to two files or twice to one, and every directory entry leads to a valid header.
\<close>

theorem fs_invariant:
  assumes "fs_reachable fs"
  shows "fs_ok fs"
  using assms
proof induction
  case (format d junk fs)
  then show ?case using format_spec [of d junk] by auto
next
  case (reopen fs junk fs')
  then show ?case using reopen_spec [of fs junk] by auto
next
  case (create fs size0 junk nm fs' b)
  then show ?case using Create_cases [of fs size0 nm junk] by (auto split: if_splits)
next
  case (remove fs junk nm fs' b)
  then show ?case
    using fs_Remove_absent [of fs nm junk] Remove_succeeds [of fs nm _ junk] by (cases "dir_lookup (fs_dir fs) (fname nm)") fastforce+
next
  case (writing fs junk nm f position n "from" buf d' m)
  then show ?case using write_handle [of fs junk nm f position n "from" buf] by auto
qed

theorem fs_invariant_witness:
  "\<exists>fs. FileSystem_new True (\<lambda>_ _. 77) demo_sectors = Inr fs \<and> fs_reachable fs \<and> fs_ok fs"
proof -
  obtain fs where fs: "FileSystem_new True (\<lambda>_ _. 77) demo_sectors = Inr fs" using format_spec [OF demo_file(3)] by blast
  have r: "fs_reachable fs" by (rule fs_reachable.format [OF demo_file(3) fs])
  show ?thesis using fs r fs_invariant [OF r] by blast
qed


lemma create_demo:
  "\<exists>fs fs' c. fs_ok fs \<and> Create (\<lambda>_ _. 0) [97] 100 fs = Inr (fs', True) \<and> fs_ok fs' \<and> length c = 100 \<and> fs_files fs' = [[97] \<mapsto> c]"
proof -
  obtain fs where fs: "fs_ok fs" "fs_files fs = Map.empty" "has_free_entry (fs_dir fs)" "900 \<le> free_sectors fs"
    using format_spec [OF demo_file(3)] by blast
  have "dir_lookup (fs_dir fs) (fname [97]) = None" using fs(2) by (simp add: fs_files_def fun_eq_iff)
  moreover have "fname [97] = [97]" by (simp add: fname_def cstr_def)
  ultimately have "\<exists>fs' c. Create (\<lambda>_ _. 0) [97] 100 fs = Inr (fs', True) \<and> fs_ok fs' \<and> length c = 100 \<and> fs_files fs' = [[97] \<mapsto> c]"
    using Create_cases [OF fs(1), of 100 "[97]" "\<lambda>_ _. 0"] fs by (auto simp: divRoundUp_nonneg)
  with fs(1) show ?thesis by blast
qed


text \<open>
  C30: \<^verbatim>\<open>FileSystem::Remove\<close> of a name that exists succeeds, makes that name unknown, keeps every other file and returns
  exactly the removed file's sectors to the free map; for an unknown name it returns \<^verbatim>\<open>FALSE\<close> and changes
  nothing. Restarting on the same disk gives the same files.
\<close>

theorem Remove_correct:
  assumes "fs_ok fs"
  shows "case dir_lookup (fs_dir fs) (fname nm) of
      None \<Rightarrow> FileSystem_Remove junk nm fs = Inr (fs, False)
    | Some s \<Rightarrow> \<exists>fs' fs''. FileSystem_Remove junk nm fs = Inr (fs', True) \<and> fs_ok fs' \<and> fs_files fs' = (fs_files fs)(fname nm := None) \<and>
        marked (fs_map fs') = marked (fs_map fs) - insert s (int ` set (file_sectors (header_at (sectors fs) s))) \<and>
        FileSystem_new False junk (sectors fs') = Inr fs'' \<and> fs_ok fs'' \<and> fs_files fs'' = fs_files fs'"
proof (cases "dir_lookup (fs_dir fs) (fname nm)")
  case None
  then show ?thesis using fs_Remove_absent [OF assms] by simp
next
  case (Some s)
  from Remove_succeeds [OF assms Some, of junk] obtain fs' where
    "FileSystem_Remove junk nm fs = Inr (fs', True)" "fs_ok fs'" "fs_files fs' = (fs_files fs)(fname nm := None)"
    "marked (fs_map fs') = marked (fs_map fs) - insert s (int ` set (file_sectors (header_at (sectors fs) s)))" by blast
  moreover obtain fs'' where "FileSystem_new False junk (sectors fs') = Inr fs''" "fs_ok fs''" "fs_files fs'' = fs_files fs'"
    using reopen_spec [of fs' junk] calculation(2) by blast
  ultimately show ?thesis using Some by auto
qed

theorem Remove_correct_witness:
  "\<exists>fs fs'. fs_ok fs \<and> FileSystem_Remove (\<lambda>_ _. 0) [97] fs = Inr (fs', True) \<and> fs_files fs' = Map.empty"
proof -
  obtain fs c where fs: "fs_ok fs" "fs_files fs = [[97] \<mapsto> c]" using create_demo by blast
  have f: "fname [97] = [97]" by (simp add: fname_def cstr_def)
  obtain s where s: "dir_lookup (fs_dir fs) (fname [97]) = Some s"
    using fs(2) f by (cases "dir_lookup (fs_dir fs) (fname [97])") (auto simp: fs_files_def fun_eq_iff split: if_splits)
  from Remove_correct [OF fs(1), where nm = "[97]" and junk = "\<lambda>_ _. 0"] s fs f
  have "\<exists>fs'. FileSystem_Remove (\<lambda>_ _. 0) [97] fs = Inr (fs', True) \<and> fs_files fs' = Map.empty" by auto
  with fs(1) show ?thesis by blast
qed



text \<open>
  Listing shows exactly the names of the files that exist. \<^verbatim>\<open>Print\<close> runs to its end and shows the
  sectors in use, and every file with its length and its bytes.
\<close>

theorem List_Print_show_files:
  assumes "fs_ok fs"
  shows "\<exists>ns p1 p2 used ps. FileSystem_List junk fs = Inr ns \<and> fname ` set ns = dom (fs_files fs) \<and>
    FileSystem_Print junk fs = Inr (p1, p2, used, ps) \<and> set used = marked (fs_map fs) \<and>
    list_all2 (shows_entry (sectors fs)) (filter inUse (fs_dir fs)) ps"
proof -
  note ok = fs_okD [OF assms]
  have "dom (fs_files fs) = dom (dir_lookup (fs_dir fs))" by (auto simp: fs_files_def dom_def)
  then have l: "FileSystem_List junk fs = Inr (Directory_List (fs_dir fs))" "fname ` set (Directory_List (fs_dir fs)) = dom (fs_files fs)"
    using listed_names by (simp_all add: FileSystem_List_def fetch_directory_spec [OF assms])
  obtain p1 where p1: "hdr_Print (hdr (freeMapFile fs)) (sectors fs) = Inr p1" using hdr_Print_shows_file [OF ok(2,1)] by blast
  obtain p2 where p2: "hdr_Print (hdr (directoryFile fs)) (sectors fs) = Inr p2" using hdr_Print_shows_file [OF ok(4,1)] by blast
  obtain ps where ps: "Directory_Print (fs_dir fs) (sectors fs) = Inr ps" "list_all2 (shows_entry (sectors fs)) (filter inUse (fs_dir fs)) ps"
    using Directory_Print_spec [OF ok(1,7)] by blast
  have h: "hdr_FetchFrom 0 (sectors fs) = Inr (hdr (freeMapFile fs))" "hdr_FetchFrom 1 (sectors fs) = Inr (hdr (directoryFile fs))"
    using ok(12,13) by (simp_all add: hdr_FetchFrom_def ReadSector_def header_at_def)
  let ?u = "filter (\<lambda>i. i \<in> marked (fs_map fs)) (indices (fs_map fs))"
  have "set ?u = marked (fs_map fs)" using marked_bounds by (auto simp: set_indices)
  moreover have "FileSystem_Print junk fs = Inr (p1, p2, ?u, ps)"
    by (simp add: FileSystem_Print_def open_map_spec [OF assms, simplified] h p1 p2 ps(1) Print_eq fetch_directory_spec [OF assms])
  ultimately show ?thesis using l ps(2) by blast
qed

theorem List_Print_show_files_witness:
  "\<exists>fs ns. fs_ok fs \<and> FileSystem_List (\<lambda>_ _. 0) fs = Inr ns \<and> fname ` set ns = {[97]}"
proof -
  obtain fs c where fs: "fs_ok fs" "fs_files fs = [[97] \<mapsto> c]" using create_demo by blast
  from List_Print_show_files [OF fs(1), where junk = "\<lambda>_ _. 0"] fs show ?thesis by (intro exI [of _ fs]) auto
qed

end
