(* ===== verification/User_Programs.thy ===== *)
theory User_Programs
  imports Mips_Sim File_System
begin

text \<open>
  User programs: the address space of \<^verbatim>\<open>code/userprog/addrspace.cc\<close>, the object file format of \<^verbatim>\<open>noff.h\<close>, and the
  exception handler of \<^verbatim>\<open>exception.cc\<close> with the system calls of \<^verbatim>\<open>ksyscall.h\<close>. The \<^verbatim>\<open>int\<close>s of the object file
  are \<open>32 word\<close>s, read in the byte order of the host. The page table is a pointer shared by the address space and
  the machine; here \<open>RestoreState\<close> hands it over as a value. The lemmas show that a loaded program sees the
  bytes of its file at its virtual addresses, that the kernel's own translation agrees with the
  machine's, and what every system call does.
\<close>

section \<open>Object files\<close>

record Segment =
  virtualAddr :: u32
  inFileAddr :: u32
  segSize :: u32     \<comment> \<open>the field \<^verbatim>\<open>size\<close>\<close>

record NoffHeader =
  noffMagic :: u32
  code :: Segment
  initData :: Segment
  readonlyData :: Segment
  uninitData :: Segment

definition NOFFMAGIC :: u32 where "NOFFMAGIC = 0xbadfad"
definition UserStackSize :: u32 where "UserStackSize = 1024"
definition sizeof_NoffHeader :: nat where "sizeof_NoffHeader = 52"

definition segment_of_bytes :: "bool \<Rightarrow> u8 list \<Rightarrow> nat \<Rightarrow> Segment" where
  "segment_of_bytes big b off =
     \<lparr>virtualAddr = host_load32 big b off, inFileAddr = host_load32 big b (off + 4), segSize = host_load32 big b (off + 8)\<rparr>"

definition noff_of_bytes :: "bool \<Rightarrow> u8 list \<Rightarrow> NoffHeader" where
  "noff_of_bytes big b =
     \<lparr>noffMagic = host_load32 big b 0, code = segment_of_bytes big b 4, initData = segment_of_bytes big b 16,
      readonlyData = segment_of_bytes big b 28, uninitData = segment_of_bytes big b 40\<rparr>"

definition swap_segment :: "bool \<Rightarrow> Segment \<Rightarrow> Segment" where
  "swap_segment big s = \<lparr>virtualAddr = WordToHost big (virtualAddr s), inFileAddr = WordToHost big (inFileAddr s), segSize = WordToHost big (segSize s)\<rparr>"

definition SwapHeader :: "bool \<Rightarrow> NoffHeader \<Rightarrow> NoffHeader" where
  "SwapHeader big h =
     \<lparr>noffMagic = WordToHost big (noffMagic h), code = swap_segment big (code h), initData = swap_segment big (initData h),
      readonlyData = swap_segment big (readonlyData h), uninitData = swap_segment big (uninitData h)\<rparr>"

definition to_host_order :: "bool \<Rightarrow> NoffHeader \<Rightarrow> NoffHeader" where
  "to_host_order big noffH =
     (if noffMagic noffH \<noteq> NOFFMAGIC \<and> WordToHost big (noffMagic noffH) = NOFFMAGIC then SwapHeader big noffH else noffH)"

section \<open>Address spaces\<close>

record AddrSpace =
  spaceTable :: "TranslationEntry list"   \<comment> \<open>the field \<^verbatim>\<open>pageTable\<close>\<close>
  numPages :: u32

text \<open>The constructor leaves \<^verbatim>\<open>numPages\<close> uninitialised: it is the argument \<open>n\<close>.\<close>

definition AddrSpace_new :: "u32 \<Rightarrow> machine \<Rightarrow> AddrSpace \<times> machine" where
  "AddrSpace_new n m =
     (\<lparr>spaceTable = map (\<lambda>i. \<lparr>virtualPage = of_nat i, physicalPage = of_nat i, valid = True, readOnly = False, used = False, dirty = False\<rparr>)
                      [0..<NumPhysPages], numPages = n\<rparr>,
      m\<lparr>mainMemory := replicate MemorySize 0\<rparr>)"

text \<open>\<^verbatim>\<open>ReadAt\<close> with its target in main memory, at an \<^verbatim>\<open>int\<close> index that is not checked.\<close>

definition copy_to_memory :: "u8 list \<Rightarrow> int \<Rightarrow> machine \<Rightarrow> machine outcome" where
  "copy_to_memory bytes a m =
     (if bytes = [] then Inr m
      else if a < 0 \<or> a + int (length bytes) > int MemorySize then Inl OutOfBounds
      else Inr (m\<lparr>mainMemory := take (nat a) (mainMemory m) @ bytes @ drop (nat a + length bytes) (mainMemory m)\<rparr>))"

definition load_segment :: "(nat \<Rightarrow> u8) \<Rightarrow> open_file \<Rightarrow> Segment \<Rightarrow> sectors \<Rightarrow> machine \<Rightarrow> machine outcome" where
  "load_segment junk executable s d m =
     (if sint (segSize s) > 0
      then bindR (ReadAt junk executable (sint (segSize s)) (sint (inFileAddr s)) d) (\<lambda>bytes. copy_to_memory bytes (sint (virtualAddr s)) m)
      else Inr m)"

definition Load :: "allocs \<Rightarrow> u8 list \<Rightarrow> file_system \<Rightarrow> AddrSpace \<Rightarrow> machine \<Rightarrow> (AddrSpace \<times> machine \<times> bool) outcome" where
  "Load junk fileName fs sp m =
     bindR (Open junk fileName fs) (\<lambda>r.
     case r of None \<Rightarrow> Inr (sp, m, False)
     | Some executable \<Rightarrow>
         bindR (ReadAt (junk 10) executable (int sizeof_NoffHeader) 0 (sectors fs)) (\<lambda>bytes.
         let noffH = to_host_order (hostBigEndian m)
                       (noff_of_bytes (hostBigEndian m) (bytes @ map (junk 11) [length bytes..<sizeof_NoffHeader])) in
         bindR (ASSERT (noffMagic noffH = NOFFMAGIC)) (\<lambda>_.
         let sz = segSize (code noffH) + segSize (readonlyData noffH) + segSize (initData noffH) + segSize (uninitData noffH) + UserStackSize;
             np = word_of_int (divRoundUp (uint sz) (int PageSize)) in
         bindR (ASSERT (np \<le> of_nat NumPhysPages)) (\<lambda>_.
         bindR (load_segment (junk 12) executable (code noffH) (sectors fs) m) (\<lambda>m.
         bindR (load_segment (junk 13) executable (initData noffH) (sectors fs) m) (\<lambda>m.
         bindR (load_segment (junk 14) executable (readonlyData noffH) (sectors fs) m) (\<lambda>m.
         Inr (sp\<lparr>numPages := np\<rparr>, m, True))))))))"

definition InitRegisters :: "AddrSpace \<Rightarrow> machine \<Rightarrow> machine outcome" where
  "InitRegisters sp m =
     bindR (forR [0..<NumTotalRegs] (\<lambda>i m. WriteRegister m (int i) 0) m) (\<lambda>m.
     bindR (WriteRegister m (int PCReg) 0) (\<lambda>m.
     bindR (WriteRegister m (int NextPCReg) 4) (\<lambda>m.
     WriteRegister m (int StackReg) (numPages sp * of_nat PageSize - 16))))"

definition RestoreState :: "AddrSpace \<Rightarrow> machine \<Rightarrow> machine" where
  "RestoreState sp m = m\<lparr>pageTable := Some (spaceTable sp), pageTableSize := numPages sp\<rparr>"

text \<open>\<^verbatim>\<open>Execute\<close> up to the call of \<^verbatim>\<open>machine->Run\<close>; the thread's \<^verbatim>\<open>space\<close> is set by \<open>Execute\<close> of the theory \<open>Threads\<close>.\<close>

definition AddrSpace_Execute :: "AddrSpace \<Rightarrow> machine \<Rightarrow> machine outcome" where
  "AddrSpace_Execute sp m = bindR (InitRegisters sp m) (\<lambda>m. Inr (RestoreState sp m))"

text \<open>The frame number \<^verbatim>\<open>pfn\<close> is a signed \<^verbatim>\<open>int\<close>, \<^verbatim>\<open>*paddr\<close> is unsigned.\<close>

definition AddrSpace_Translate :: "AddrSpace \<Rightarrow> u32 \<Rightarrow> bool \<Rightarrow> (AddrSpace \<times> (ExceptionType + nat)) outcome" where
  "AddrSpace_Translate sp vaddr isReadWrite =
     (let vpn = vaddr div of_nat PageSize; offset = vaddr mod of_nat PageSize in
      if vpn \<ge> numPages sp then Inr (sp, Inl AddressErrorException)
      else if unat vpn \<ge> length (spaceTable sp) then Inl OutOfBounds
      else let pte = spaceTable sp ! unat vpn in
      if isReadWrite \<and> readOnly pte then Inr (sp, Inl ReadOnlyException)
      else let pfn = physicalPage pte in
      if sint pfn \<ge> int NumPhysPages then Inr (sp, Inl BusErrorException)
      else let pte = pte\<lparr>used := True\<rparr>; pte = (if isReadWrite then pte\<lparr>dirty := True\<rparr> else pte);
               paddr = pfn * of_nat PageSize + offset in
      bindR (ASSERT (paddr < of_nat MemorySize)) (\<lambda>_.
      Inr (sp\<lparr>spaceTable := (spaceTable sp)[unat vpn := pte]\<rparr>, Inr (unat paddr))))"

section \<open>System calls\<close>

definition SC_Halt :: u32 where "SC_Halt = 0"
definition SC_Add :: u32 where "SC_Add = 42"

definition SysHalt :: "machine \<Rightarrow> machine outcome" where
  "SysHalt m = Inl Halted"

definition SysAdd :: "u32 \<Rightarrow> u32 \<Rightarrow> u32" where
  "SysAdd op1 op2 = op1 + op2"

definition ExceptionHandler :: handler where
  "ExceptionHandler which m =
     bindR (ReadRegister m 2) (\<lambda>typ.
     case which of
       SyscallException \<Rightarrow>
         if typ = SC_Halt then bindR (SysHalt m) (\<lambda>_. Inl AssertFailed)
         else if typ = SC_Add then
           bindR (ReadRegister m 4) (\<lambda>op1.
           bindR (ReadRegister m 5) (\<lambda>op2.
           bindR (WriteRegister m 2 (SysAdd op1 op2)) (\<lambda>m.
           bindR (ReadRegister m (int PCReg)) (\<lambda>pc.
           bindR (WriteRegister m (int PrevPCReg) pc) (\<lambda>m.
           bindR (ReadRegister m (int PCReg)) (\<lambda>pc.
           bindR (WriteRegister m (int PCReg) (pc + 4)) (\<lambda>m.
           bindR (ReadRegister m (int PCReg)) (\<lambda>pc.
           WriteRegister m (int NextPCReg) (pc + 4)))))))))
         else Inl AssertFailed
     | _ \<Rightarrow> Inl AssertFailed)"

section \<open>Registers and translation\<close>

lemma InitRegisters_spec:
  assumes "length (registers m) = NumTotalRegs"
  shows "InitRegisters sp m = Inr (m\<lparr>registers := (replicate 40 0)[35 := 4, 29 := numPages sp * 128 - 16]\<rparr>)"
proof -
  have "n \<le> 40 \<Longrightarrow> forR [0..<n] (\<lambda>i m. WriteRegister m (int i) 0) m = Inr (m\<lparr>registers := replicate n 0 @ drop n (registers m)\<rparr>)" for n
  proof (induction n)
    case (Suc n)
    have "(replicate n 0 @ drop n (registers m))[n := 0] = replicate (Suc n) (0::u32) @ drop (Suc n) (registers m)"
      using Suc.prems assms by (simp add: list_update_append Cons_nth_drop_Suc [symmetric] replicate_append_same [symmetric])
    then show ?case using Suc by (simp add: forR_append WriteRegister_def set_reg_def)
  qed simp
  moreover have "(replicate 40 (0::u32))[34 := 0] = replicate 40 0" by (simp add: list_update_same_conv)
  ultimately show ?thesis using assms by (simp add: InitRegisters_def) (simp add: WriteRegister_def set_reg_def)
qed

lemma AddrSpace_Execute_spec:
  assumes "length (registers m) = NumTotalRegs"
  shows "AddrSpace_Execute sp m = Inr (m\<lparr>registers := (replicate 40 0)[35 := 4, 29 := numPages sp * 128 - 16],
    pageTable := Some (spaceTable sp), pageTableSize := numPages sp\<rparr>)"
  using assms by (simp add: AddrSpace_Execute_def InitRegisters_spec RestoreState_def)

text \<open>The entries an address space has: valid, with a frame number that is not negative.\<close>

definition space_ok :: "AddrSpace \<Rightarrow> bool" where
  "space_ok sp \<longleftrightarrow> unat (numPages sp) \<le> length (spaceTable sp) \<and> (\<forall>e \<in> set (spaceTable sp). valid e \<and> 0 \<le> sint (physicalPage e))"

lemma sint_nonneg:
  assumes "0 \<le> sint (w::u32)"
  shows "sint w = int (unat w)"
proof -
  have b: "uint w < 2 ^ 32" "0 \<le> uint w" using uint_lt2p [of w] by simp_all
  have "sint (word_of_int (uint w) :: u32) = (if uint w < - (2 ^ 31) then uint w + 2 ^ 32 else if uint w < 2 ^ 31 then uint w else uint w - 2 ^ 32)"
    by (rule wrap32) (use b in linarith)+
  then show ?thesis using b assms by (simp split: if_splits)
qed

lemma frame_address:
  assumes "0 \<le> sint (pfn::u32)" and "sint pfn < 128"
  shows "unat pfn < 128" "unat (pfn * 128 + va mod 128) = unat pfn * 128 + unat va mod 128"
proof -
  show *: "unat pfn < 128" using assms(2) sint_nonneg [OF assms(1)] by linarith
  have o: "unat (va mod 128) = unat va mod 128" by (simp add: unat_mod_distrib)
  have "unat (pfn * 128) = unat pfn * 128" using * by (simp add: unat_word_ariths)
  then show "unat (pfn * 128 + va mod 128) = unat pfn * 128 + unat va mod 128"
    using * o by (simp add: unat_word_ariths(1))
qed

lemma space_entry:
  assumes "space_ok sp" and "va div 128 < numPages sp"
  shows "unat (va div 128) < length (spaceTable sp)" "valid (spaceTable sp ! unat (va div 128))" "0 \<le> sint (physicalPage (spaceTable sp ! unat (va div 128)))"
proof -
  show l: "unat (va div 128) < length (spaceTable sp)" using assms by (simp add: space_ok_def word_less_nat_alt)
  from nth_mem [OF l] show "valid (spaceTable sp ! unat (va div 128))" "0 \<le> sint (physicalPage (spaceTable sp ! unat (va div 128)))"
    using assms(1) by (auto simp: space_ok_def)
qed

lemma translate_space:
  assumes ok: "space_ok sp" and t: "tlb m = None"
  shows "\<exists>sp' r. AddrSpace_Translate sp va w = Inr (sp', r) \<and> Translate (RestoreState sp m) va 1 w = Inr (RestoreState sp' m, r) \<and> space_ok sp'"
proof (cases "numPages sp \<le> va div 128")
  case True
  then show ?thesis using ok t by (simp add: AddrSpace_Translate_def Translate_def Let_def RestoreState_def)
next
  case False
  then have True: "va div 128 < numPages sp" by simp
  note e = space_entry [OF ok True]
  let ?e = "spaceTable sp ! unat (va div 128)"
  have big: "128 \<le> sint (physicalPage ?e) \<longleftrightarrow> 128 \<le> unat (physicalPage ?e)"
    using sint_nonneg [OF e(3)] by linarith
  show ?thesis
  proof (cases "w \<and> readOnly ?e \<or> 128 \<le> sint (physicalPage ?e)")
    case True': True
    then show ?thesis using ok t True e(1,2) big
      by (auto simp: AddrSpace_Translate_def Translate_def check_entry_def Let_def RestoreState_def)
  next
    case False
    then have "sint (physicalPage ?e) < 128" by simp
    note f = frame_address [OF e(3) this]
    have "unat (physicalPage ?e * 128 + va mod 128) < 16384" unfolding f(2) using f(1) mod_less_divisor [of 128 "unat va"] by linarith
    moreover from this have "physicalPage ?e * 128 + va mod 128 < 16384" by (simp add: word_less_nat_alt)
    moreover have "unat (va mod 128) = unat va mod 128" by (simp add: unat_mod_distrib)
    moreover have "space_ok (sp\<lparr>spaceTable := (spaceTable sp)[unat (va div 128) := mark_entry w ?e]\<rparr>)"
      using ok e by (auto simp: space_ok_def mark_entry_def Let_def dest!: subsetD [OF set_update_subset_insert])
    ultimately show ?thesis using t True False e(1,2) big f
      by (auto simp: AddrSpace_Translate_def Translate_def check_entry_def mark_entry_def Let_def RestoreState_def)
  qed
qed

section \<open>Loading a program\<close>

lemma load32_host: "WordToHost True (host_load32 True b a) = host_load32 False b a"
  by (simp add: load32_le) (simp add: host_load32_def)

lemma swapped_header: "SwapHeader True (noff_of_bytes True b) = noff_of_bytes False b"
  by (simp add: SwapHeader_def swap_segment_def noff_of_bytes_def segment_of_bytes_def load32_host)

lemma magic_not_swapped: "WordToHost True NOFFMAGIC \<noteq> NOFFMAGIC"
  by (simp add: WordToHost_def NOFFMAGIC_def)

text \<open>The header is read correctly on a host of either byte order.\<close>

lemma chosen_header:
  assumes "noffMagic (noff_of_bytes False b) = NOFFMAGIC"
  shows "to_host_order big (noff_of_bytes big b) = noff_of_bytes False b"
proof (cases big)
  case True
  have "WordToHost True (noffMagic (noff_of_bytes True b)) = NOFFMAGIC"
    using assms by (simp add: noff_of_bytes_def load32_host)
  then show ?thesis using True magic_not_swapped swapped_header by (auto simp: to_host_order_def)
qed (use assms in \<open>simp add: to_host_order_def\<close>)

lemma noff_prefix: "52 \<le> length c \<Longrightarrow> noff_of_bytes big (take 52 c) = noff_of_bytes big c"
  by (simp add: noff_of_bytes_def segment_of_bytes_def host_load32_def)

definition seg_bytes :: "u8 list \<Rightarrow> Segment \<Rightarrow> u8 list" where
  "seg_bytes c s = (if sint (segSize s) > 0 then take (nat (sint (segSize s))) (drop (nat (sint (inFileAddr s))) c) else [])"

definition seg_in_file :: "Segment \<Rightarrow> bool" where
  "seg_in_file s \<longleftrightarrow> sint (segSize s) > 0 \<longrightarrow> 0 \<le> sint (inFileAddr s)"

definition seg_fits :: "u8 list \<Rightarrow> Segment \<Rightarrow> bool" where
  "seg_fits c s \<longleftrightarrow> seg_bytes c s \<noteq> [] \<longrightarrow> 0 \<le> sint (virtualAddr s) \<and> sint (virtualAddr s) + int (length (seg_bytes c s)) \<le> int MemorySize"

definition put_segment :: "u8 list \<Rightarrow> Segment \<Rightarrow> u8 list \<Rightarrow> u8 list" where
  "put_segment c s mem = overwrite mem (nat (sint (virtualAddr s))) (seg_bytes c s)"

definition program_image :: "u8 list \<Rightarrow> NoffHeader \<Rightarrow> u8 list" where
  "program_image c h = put_segment c (readonlyData h) (put_segment c (initData h) (put_segment c (code h) (replicate MemorySize 0)))"

definition program_pages :: "NoffHeader \<Rightarrow> int" where
  "program_pages h = divRoundUp (uint (segSize (code h) + segSize (readonlyData h) + segSize (initData h) + segSize (uninitData h) + UserStackSize)) 128"

lemma load_segment_eq:
  assumes "fs_ok fs" and "Open junk nm fs = Inr (Some f)" and "fs_files fs (fname nm) = Some c" and "seg_in_file s"
  shows "load_segment buf f s (sectors fs) m = copy_to_memory (seg_bytes c s) (sint (virtualAddr s)) m"
  using read_handle [OF assms(1,2), of "sint (inFileAddr s)" buf "sint (segSize s)"] assms(3,4)
  by (auto simp: load_segment_def seg_bytes_def seg_in_file_def copy_to_memory_def)

lemma copy_fits: "seg_fits c s \<Longrightarrow> copy_to_memory (seg_bytes c s) (sint (virtualAddr s)) m = Inr (m\<lparr>mainMemory := put_segment c s (mainMemory m)\<rparr>)"
  by (auto simp: seg_fits_def copy_to_memory_def put_segment_def overwrite_def)

lemma pages_word:
  "0 \<le> program_pages h" "uint (word_of_int (program_pages h) :: u32) = program_pages h"
  "(word_of_int (program_pages h) :: u32) \<le> of_nat NumPhysPages \<longleftrightarrow> program_pages h \<le> 128"
proof -
  let ?s = "uint (segSize (code h) + segSize (readonlyData h) + segSize (initData h) + segSize (uninitData h) + UserStackSize)"
  have s: "0 \<le> ?s" "?s < 2 ^ 32" using uint_lt2p [of "segSize (code h) + segSize (readonlyData h) + segSize (initData h) + segSize (uninitData h) + UserStackSize"] by simp_all
  have p: "0 \<le> program_pages h" "program_pages h * 128 < ?s + 128"
    using divRoundUp_bounds [OF s(1), of 128] by (simp_all add: program_pages_def)
  then show "0 \<le> program_pages h" by simp
  show u: "uint (word_of_int (program_pages h) :: u32) = program_pages h"
    using p s by (simp add: uint_word_of_int_eq take_bit_int_eq_self)
  show "(word_of_int (program_pages h) :: u32) \<le> of_nat NumPhysPages \<longleftrightarrow> program_pages h \<le> 128"
    using u by (simp add: word_le_def)
qed

lemma open_program:
  assumes "fs_ok fs" and "fs_files fs (fname nm) = Some c"
  obtains f where "Open junk nm fs = Inr (Some f)"
  using assms unfolding Open_spec [OF assms(1)] fs_files_def by auto

lemma header_bytes:
  assumes "fs_ok fs" and "Open junk nm fs = Inr (Some f)" and "fs_files fs (fname nm) = Some c" and "52 \<le> length c"
  shows "ReadAt buf f 52 0 (sectors fs) = Inr (take 52 c)" and "take 52 c @ map g [length (take 52 c)..<52] = take 52 c"
  using read_handle [OF assms(1,2), of 0 buf 52] assms(3,4) by simp_all

lemma Load_checked:
  assumes fs: "fs_ok fs" "fs_files fs (fname nm) = Some c" "52 \<le> length c" and h: "h = noff_of_bytes False c" "noffMagic h = NOFFMAGIC"
    and o: "Open junk nm fs = Inr (Some f)"
  shows "Load junk nm fs sp m =
    (if program_pages h \<le> 128
     then bindR (load_segment (junk 12) f (code h) (sectors fs) m) (\<lambda>m.
          bindR (load_segment (junk 13) f (initData h) (sectors fs) m) (\<lambda>m.
          bindR (load_segment (junk 14) f (readonlyData h) (sectors fs) m) (\<lambda>m.
          Inr (sp\<lparr>numPages := word_of_int (program_pages h)\<rparr>, m, True))))
     else Inl AssertFailed)"
proof -
  note r = header_bytes [OF fs(1) o fs(2,3)]
  have h': "noffMagic (noff_of_bytes False c) = NOFFMAGIC" using h by simp
  have p: "word_of_int (divRoundUp (uint (segSize (code h) + segSize (readonlyData h) + segSize (initData h) + segSize (uninitData h) + UserStackSize)) (int PageSize)) =
      (word_of_int (program_pages h) :: u32)" by (simp add: program_pages_def)
  have a: "ASSERT ((word_of_int (program_pages h) :: u32) \<le> of_nat NumPhysPages) = (if program_pages h \<le> 128 then Inr () else Inl AssertFailed)"
    using pages_word(3) [of h] by (simp add: ASSERT_def)
  show ?thesis
    unfolding Load_def o sizeof_NoffHeader_def
    by (simp only: bindR_simps option.case r of_nat_numeral noff_prefix [OF fs(3)] Let_def chosen_header [OF h'] h(2) ASSERT_simps p a flip: h(1)) simp
qed

lemma length_put: "seg_fits c s \<Longrightarrow> length mem = MemorySize \<Longrightarrow> length (put_segment c s mem) = MemorySize"
  by (cases "seg_bytes c s = []") (auto simp: seg_fits_def put_segment_def overwrite_def)

lemma Load_fits:
  assumes fs: "fs_ok fs" "fs_files fs (fname nm) = Some c" "52 \<le> length c" and h: "h = noff_of_bytes False c" "noffMagic h = NOFFMAGIC" "program_pages h \<le> 128"
    and s: "\<forall>s \<in> {code h, initData h, readonlyData h}. seg_in_file s \<and> seg_fits c s" and m: "mainMemory m = replicate MemorySize 0"
  shows "Load junk nm fs sp m = Inr (sp\<lparr>numPages := word_of_int (program_pages h)\<rparr>, m\<lparr>mainMemory := program_image c h\<rparr>, True)"
proof -
  obtain f where o: "Open junk nm fs = Inr (Some f)" using open_program [OF fs(1,2)] .
  have "load_segment buf f s (sectors fs) m' = Inr (m'\<lparr>mainMemory := put_segment c s (mainMemory m')\<rparr>)" if "s \<in> {code h, initData h, readonlyData h}" for s buf m'
    using load_segment_eq [OF fs(1) o fs(2), of s buf m'] copy_fits [of c s m'] that s by auto
  then show ?thesis using h(3) m by (simp add: Load_checked [OF fs h(1,2) o] program_image_def)
qed

lemma program_machine:
  assumes "length (registers m) = NumTotalRegs" and "tlb m = None" and "program_pages h \<le> 128" and "length (mainMemory m) = MemorySize"
    and sp: "sp = (fst (AddrSpace_new n m'))\<lparr>numPages := word_of_int (program_pages h)\<rparr>"
    and m2: "AddrSpace_Execute sp m = Inr m2"
  shows "machine_ok m2" "reg m2 PCReg = 0" "reg m2 NextPCReg = 4" "reg m2 StackReg = word_of_int (program_pages h) * 128 - 16" "mainMemory m2 = mainMemory m"
    "unat va < nat (program_pages h) * PageSize \<Longrightarrow> \<exists>m3. Translate m2 va 1 w = Inr (m3, Inr (unat va))"
    "nat (program_pages h) * PageSize \<le> unat va \<Longrightarrow> Translate m2 va 1 w = Inr (m2, Inl AddressErrorException)"
proof -
  have m2': "m2 = m\<lparr>registers := (replicate 40 0)[35 := 4, 29 := word_of_int (program_pages h) * 128 - 16],
      pageTable := Some (spaceTable sp), pageTableSize := word_of_int (program_pages h)\<rparr>"
    using m2 assms(1) sp by (simp add: AddrSpace_Execute_spec)
  have np: "unat (word_of_int (program_pages h) :: u32) = nat (program_pages h)" using pages_word(2) [of h] by (metis unat_eq_nat_uint)
  have tab: "spaceTable sp = map (\<lambda>i. \<lparr>virtualPage = of_nat i, physicalPage = of_nat i, valid = True, readOnly = False, used = False, dirty = False\<rparr>) [0..<128]"
    using sp by (simp add: AddrSpace_new_def)
  have tr: "translation_ok m2" using assms(2,3) np by (simp add: translation_ok_def m2' tab nat_le_iff)
  show "reg m2 PCReg = 0" "reg m2 NextPCReg = 4" "reg m2 StackReg = word_of_int (program_pages h) * 128 - 16" "mainMemory m2 = mainMemory m"
    by (simp_all add: m2' reg_def)
  show "machine_ok m2" using tr assms(4) by (simp add: machine_ok_def machine_shape_def) (simp add: m2' reg_def)
  have vpn: "unat (vpn_of va) = unat va div 128" by (simp add: vpn_of_def unat_div_distrib)
  have le: "pageTableSize m2 \<le> vpn_of va \<longleftrightarrow> nat (program_pages h) * 128 \<le> unat va"
    by (simp add: m2' word_le_nat_alt np vpn) (use div_le_mono [of "nat (program_pages h) * 128" "unat va" 128] in \<open>auto simp: less_eq_div_iff_mult_less_eq\<close>)
  have T: "Translate m2 va 1 w = (case mapped m2 (vpn_of va) of Inl e \<Rightarrow> Inr (m2, Inl e)
     | Inr e \<Rightarrow> if readOnly e \<and> w then Inr (m2, Inl ReadOnlyException)
         else if unat (physicalPage e) \<ge> NumPhysPages then Inr (m2, Inl BusErrorException)
         else Inr (touch w (vpn_of va) m2, Inr (physical e va)))"
    by (subst Translate_eq [OF tr]) (simp_all add: access_size_def misaligned_def)
  show "Translate m2 va 1 w = Inr (m2, Inl AddressErrorException)" if "nat (program_pages h) * PageSize \<le> unat va"
    using that le assms(2) unfolding T by (simp add: mapped_def m2')
  show "\<exists>m3. Translate m2 va 1 w = Inr (m3, Inr (unat va))" if va: "unat va < nat (program_pages h) * PageSize"
  proof -
    have v: "unat va div 128 < 128" using va assms(3) by (auto simp: nat_le_iff div_less_iff_less_mult)
    have "mapped m2 (vpn_of va) = Inr (spaceTable sp ! (unat va div 128))"
      using va le assms(2) v by (simp add: mapped_def vpn m2' tab)
    then show ?thesis unfolding T using v by (simp add: tab physical_def unat_of_nat take_bit_nat_eq_self)
  qed
qed

section \<open>Programs to load\<close>

lemma file_with_content:
  assumes "length data = 100"
  shows "\<exists>fs. fs_ok fs \<and> fs_files fs (fname [97]) = Some data"
proof -
  obtain fs c where fs: "fs_ok fs" "fs_files fs = [[97] \<mapsto> c]" "length c = 100" using create_demo by blast
  have n: "fname [97] = [97]" by (simp add: fname_def cstr_def)
  then obtain f where f: "Open (\<lambda>_ _. 0) [97] fs = Inr (Some f)" using open_program [OF fs(1), of "[97]" c] fs(2) by auto
  have cf: "c = file_bytes (hdr f) (sectors fs)" and len: "nat (numBytes (hdr f)) = 100"
  proof -
    obtain s where s: "dir_lookup (fs_dir fs) (fname [97]) = Some s" "hdr f = header_at (sectors fs) s"
      using f unfolding Open_spec [OF fs(1)] by auto
    then obtain e where "e \<in> set (fs_dir fs)" "inUse e" "sector e = s" using dir_lookup_Some by blast
    then have ok: "file_ok (hdr f)" using fs_okD(7) [OF fs(1)] s(2) by (auto simp: files_ok_def)
    show c: "c = file_bytes (hdr f) (sectors fs)" using s fs(2) n by (simp add: fs_files_def fun_eq_iff) (metis (no_types, lifting) map_option_eq_Some option.inject fun_upd_same)
    show "nat (numBytes (hdr f)) = 100" using length_file_bytes [OF ok fs_okD(1) [OF fs(1)]] c fs(3) by simp
  qed
  obtain d' m where "fs_ok (fs\<lparr>sectors := d'\<rparr>)" "m = min 100 (nat (numBytes (hdr f)) - 0)"
    "fs_files (fs\<lparr>sectors := d'\<rparr>) = (fs_files fs)(fname [97] \<mapsto> overwrite (file_bytes (hdr f) (sectors fs)) 0 (take m data))"
    using write_handle [OF fs(1) f, of 0 100 data "\<lambda>_. 0"] assms by auto
  then show ?thesis using assms len cf fs(3) by (intro exI [of _ "fs\<lparr>sectors := d'\<rparr>"]) (simp add: overwrite_def)
qed

definition demo_noff :: "u32 \<Rightarrow> u8 list" where
  "demo_noff a = concat (map int_bytes [0xbadfad, a, 52, 8, 128, 60, 4, 0, 0, 0, 0, 0, 0]) @ [0x0c, 0, 0, 0] @ replicate 44 7"

lemma demo_noff_len: "length (demo_noff a) = 100"
  by (simp add: demo_noff_def int_bytes_def)

lemma demo_noff_header: "noff_of_bytes False (demo_noff a) =
  \<lparr>noffMagic = 0xbadfad, code = \<lparr>virtualAddr = a, inFileAddr = 52, segSize = 8\<rparr>, initData = \<lparr>virtualAddr = 128, inFileAddr = 60, segSize = 4\<rparr>,
   readonlyData = \<lparr>virtualAddr = 0, inFileAddr = 0, segSize = 0\<rparr>, uninitData = \<lparr>virtualAddr = 0, inFileAddr = 0, segSize = 0\<rparr>\<rparr>"
  by (simp add: noff_of_bytes_def segment_of_bytes_def host_load32_def demo_noff_def int_bytes_def nth_Cons_numeral le32_byte_of)

lemma demo_noff_ok:
  "program_pages (noff_of_bytes False (demo_noff a)) = 9" "noffMagic (noff_of_bytes False (demo_noff a)) = NOFFMAGIC"
  "seg_bytes (demo_noff a) (code (noff_of_bytes False (demo_noff a))) = [0x0c, 0, 0, 0, 7, 7, 7, 7]"
  by (simp_all add: demo_noff_header program_pages_def UserStackSize_def divRoundUp_def sdiv_nonneg smod_nonneg NOFFMAGIC_def)
    (simp add: seg_bytes_def demo_noff_def int_bytes_def numeral_eq_Suc)

text \<open>
  C22: a user program is started correctly. For an object file whose segments lie in the file and in physical memory
  and that needs at most \<^verbatim>\<open>NumPhysPages\<close> pages, \<^verbatim>\<open>Load\<close> succeeds on a host of either byte order, memory then
  holds the segments' bytes at their virtual addresses and zeros elsewhere, and after \<^verbatim>\<open>Execute\<close> has set
  up the machine it is well formed, with the program counter at 0, the stack pointer 16 bytes below the end of the
  address space, and every address of the space translated to the same physical
  address; an address beyond it raises \<^verbatim>\<open>AddressErrorException\<close>.
\<close>

theorem user_program_starts:
  assumes fs: "fs_ok fs" "fs_files fs (fname nm) = Some c" "52 \<le> length c"
    and h: "h = noff_of_bytes False c" "noffMagic h = NOFFMAGIC" "program_pages h \<le> 128"
    and segs: "\<forall>s \<in> {code h, initData h, readonlyData h}. seg_in_file s \<and> seg_fits c s"
    and m: "length (registers m) = NumTotalRegs" "tlb m = None" and new: "AddrSpace_new n m = (sp0, m0)"
  shows "\<exists>sp m1 m2. Load junk nm fs sp0 m0 = Inr (sp, m1, True) \<and> AddrSpace_Execute sp m1 = Inr m2 \<and> machine_ok m2 \<and>
    mainMemory m2 = program_image c h \<and> reg m2 PCReg = 0 \<and> reg m2 NextPCReg = 4 \<and>
    reg m2 StackReg = word_of_int (program_pages h * 128 - 16) \<and>
    (\<forall>va w. if unat va < nat (program_pages h) * PageSize then \<exists>m3. Translate m2 va 1 w = Inr (m3, Inr (unat va))
            else Translate m2 va 1 w = Inr (m2, Inl AddressErrorException))"
proof -
  let ?sp = "sp0\<lparr>numPages := word_of_int (program_pages h)\<rparr>" and ?m = "m0\<lparr>mainMemory := program_image c h\<rparr>"
  have m0: "m0 = m\<lparr>mainMemory := replicate MemorySize 0\<rparr>" and sp0: "sp0 = fst (AddrSpace_new n m)"
    using new by (auto simp: AddrSpace_new_def)
  have l: "Load junk nm fs sp0 m0 = Inr (?sp, ?m, True)" by (rule Load_fits [OF fs h segs]) (simp add: m0)
  have len: "length (program_image c h) = MemorySize"
    unfolding program_image_def using segs by (intro length_put) auto
  have r: "length (registers ?m) = NumTotalRegs" "tlb ?m = None" using m by (simp_all add: m0)
  obtain m2 where e: "AddrSpace_Execute ?sp ?m = Inr m2" using AddrSpace_Execute_spec [OF r(1)] by blast
  have "length (mainMemory ?m) = MemorySize" using len by simp
  note P = program_machine [OF r h(3) this _ e, of n m, unfolded sp0 [symmetric], OF refl]
  have st: "reg m2 StackReg = word_of_int (program_pages h * 128 - 16)" unfolding P(4) by simp
  have tr: "if unat va < nat (program_pages h) * PageSize then \<exists>m3. Translate m2 va 1 w = Inr (m3, Inr (unat va))
      else Translate m2 va 1 w = Inr (m2, Inl AddressErrorException)" for va w
    using P(6) [of va w] P(7) [of va w] by (cases "unat va < nat (program_pages h) * PageSize") simp_all
  have "mainMemory m2 = program_image c h" using P(5) by simp
  with l e P(1-3) st tr show ?thesis by blast
qed

theorem user_program_starts_witness:
  "\<exists>fs sp m1 m2. Load (\<lambda>_ _. 0) [97] fs (fst (AddrSpace_new 0 demo_machine)) (snd (AddrSpace_new 0 demo_machine)) = Inr (sp, m1, True) \<and>
     AddrSpace_Execute sp m1 = Inr m2 \<and> machine_ok m2 \<and> reg m2 StackReg = 1136"
proof -
  obtain fs where fs: "fs_ok fs" "fs_files fs (fname [97]) = Some (demo_noff 0)" using file_with_content [OF demo_noff_len] by blast
  let ?h = "noff_of_bytes False (demo_noff 0)"
  have segs: "\<forall>s \<in> {code ?h, initData ?h, readonlyData ?h}. seg_in_file s \<and> seg_fits (demo_noff 0) s"
    by (simp add: demo_noff_header seg_in_file_def seg_fits_def seg_bytes_def demo_noff_len)
  have m: "length (registers demo_machine) = NumTotalRegs" "tlb demo_machine = None" by (simp_all add: demo_machine_def)
  have l: "52 \<le> length (demo_noff 0)" by (simp add: demo_noff_len)
  have new: "AddrSpace_new 0 demo_machine = (fst (AddrSpace_new 0 demo_machine), snd (AddrSpace_new 0 demo_machine))" by simp
  from user_program_starts [OF fs l refl demo_noff_ok(2) _ segs m new, where junk = "\<lambda>_ _. 0"] demo_noff_ok(1) [of 0] show ?thesis
    by (intro exI [of _ fs]) auto
qed

text \<open>
  What \<^verbatim>\<open>Load\<close> does with files it cannot run. It returns FALSE for a file that does not exist; it stops on a failed assertion
  for a file without the magic number in either byte order, and for one that needs more pages than there are. The addresses
  in the header are not checked: a code segment outside physical memory is copied there nevertheless.
\<close>

theorem Load_errors:
  assumes fs: "fs_ok fs"
  shows "case fs_files fs (fname nm) of
      None \<Rightarrow> Load junk nm fs sp m = Inr (sp, m, False)
    | Some c \<Rightarrow> 52 \<le> length c \<longrightarrow>
        (if noffMagic (noff_of_bytes False c) \<noteq> NOFFMAGIC
         then noffMagic (noff_of_bytes True c) \<noteq> NOFFMAGIC \<longrightarrow> Load junk nm fs sp m = Inl AssertFailed
         else if program_pages (noff_of_bytes False c) > 128 then Load junk nm fs sp m = Inl AssertFailed
         else seg_in_file (code (noff_of_bytes False c)) \<and> \<not> seg_fits c (code (noff_of_bytes False c)) \<longrightarrow> Load junk nm fs sp m = Inl OutOfBounds)"
proof (cases "fs_files fs (fname nm)")
  case None
  then have "Open junk nm fs = Inr None" unfolding Open_spec [OF fs] by (simp add: fs_files_def)
  then show ?thesis using None by (simp add: Load_def)
next
  case (Some c)
  obtain f where o: "Open junk nm fs = Inr (Some f)" using open_program [OF fs Some] .
  let ?h = "noff_of_bytes False c"
  have bad: "Load junk nm fs sp m = Inl AssertFailed" if l: "52 \<le> length c" and b: "noffMagic ?h \<noteq> NOFFMAGIC" "noffMagic (noff_of_bytes True c) \<noteq> NOFFMAGIC"
  proof -
    have "noffMagic (to_host_order (hostBigEndian m) (noff_of_bytes (hostBigEndian m) c)) \<noteq> NOFFMAGIC"
      using b swapped_header [of c] by (cases "hostBigEndian m") (simp_all add: to_host_order_def WordToHost_def)
    then show ?thesis unfolding Load_def o sizeof_NoffHeader_def
      by (simp only: bindR_simps option.case header_bytes [OF fs o Some l] of_nat_numeral noff_prefix [OF l] Let_def ASSERT_simps simp_thms)
  qed
  have out: "Load junk nm fs sp m = Inl OutOfBounds" if l: "52 \<le> length c" and mg: "noffMagic ?h = NOFFMAGIC" and pg: "\<not> program_pages ?h > 128"
    and s: "seg_in_file (code ?h) \<and> \<not> seg_fits c (code ?h)"
    using pg s unfolding Load_checked [OF fs Some l refl mg o]
    by (auto simp: load_segment_eq [OF fs o Some] copy_to_memory_def seg_fits_def)
  have big: "Load junk nm fs sp m = Inl AssertFailed" if "52 \<le> length c" "noffMagic ?h = NOFFMAGIC" "program_pages ?h > 128"
    using that unfolding Load_checked [OF fs Some that(1) refl that(2) o] by simp
  show ?thesis using Some bad out big by simp
qed

theorem Load_errors_witness:
  "\<exists>fs. fs_ok fs \<and> Load (\<lambda>_ _. 0) [97] fs (fst (AddrSpace_new 0 demo_machine)) demo_machine = Inl OutOfBounds"
proof -
  obtain fs where fs: "fs_ok fs" "fs_files fs (fname [97]) = Some (demo_noff 100000)" using file_with_content [OF demo_noff_len] by blast
  have "seg_in_file (code (noff_of_bytes False (demo_noff 100000)))" "\<not> seg_fits (demo_noff 100000) (code (noff_of_bytes False (demo_noff 100000)))"
    by (simp_all add: seg_fits_def demo_noff_ok(3)) (simp_all add: demo_noff_header seg_in_file_def)
  then show ?thesis using Load_errors [OF fs(1), where nm = "[97]" and junk = "\<lambda>_ _. 0" and sp = "fst (AddrSpace_new 0 demo_machine)" and m = demo_machine] fs demo_noff_ok(1,2) [of 100000] demo_noff_len [of 100000]
    by (intro exI [of _ fs]) simp
qed

section \<open>System calls\<close>

text \<open>A general register as the handler sees it: the pending delayed load has been done.\<close>

definition loaded_reg :: "machine \<Rightarrow> nat \<Rightarrow> u32" where
  "loaded_reg m j = (if j = 0 then 0 else if j = unat (reg m LoadReg) then reg m LoadValueReg else reg m j)"

lemma delayed_regs:
  assumes "machine_ok m"
  obtains m1 where "DelayedLoad (set_reg m BadVAddrReg v) 0 0 = Inr m1" "machine_ok m1" "\<And>j. j < 32 \<Longrightarrow> reg m1 j = loaded_reg m j"
    "reg m1 PCReg = reg m PCReg" "mainMemory m1 = mainMemory m"
proof -
  have len: "length (registers m) = 40" and t: "unat (reg m LoadReg) < 32" "reg m 0 = 0" using assms by (simp_all add: machine_ok_def machine_shape_def)
  have "machine_shape (set_reg m BadVAddrReg v)" using assms by (simp add: machine_ok_def)
  from DelayedLoad_ok [OF this, of 0 0] obtain m1 where m1: "DelayedLoad (set_reg m BadVAddrReg v) 0 0 = Inr m1" "machine_ok m1" by auto
  have "reg m1 j = (if j = 0 then 0 else if j = 38 then 0 else if j = 37 then 0 else if j = unat (reg m 37) then reg m 38 else if j = 39 then v else reg m j)" for j
    using m1(1) t(1) by (auto simp: DelayedLoad_def Let_def reg_set_reg len)
  then show ?thesis using that [OF m1] m1(1) t by (auto simp: loaded_reg_def DelayedLoad_def Let_def reg_set_reg len)
qed

lemma ExceptionHandler_Add:
  assumes "machine_ok m" and "reg m 2 = SC_Add"
  shows "\<exists>m'. ExceptionHandler SyscallException m = Inr m' \<and> machine_ok m' \<and> mainMemory m' = mainMemory m \<and>
    (\<forall>j < 32. reg m' j = (if j = 2 then reg m 4 + reg m 5 else reg m j)) \<and>
    reg m' PCReg = reg m PCReg + 4 \<and> reg m' NextPCReg = reg m PCReg + 8 \<and> reg m' PrevPCReg = reg m PCReg"
proof -
  have len: "length (registers m) = 40" and sh: "machine_shape m" "reg m 0 = 0" using assms by (simp_all add: machine_ok_def machine_shape_def)
  let ?m = "set_reg (set_reg (set_reg (set_reg m 2 (reg m 4 + reg m 5)) 36 (reg m 34)) 34 (reg m 34 + 4)) 35 (reg m 34 + 8)"
  have ne: "SC_Add \<noteq> SC_Halt" by (simp add: SC_Add_def SC_Halt_def)
  have e: "ExceptionHandler SyscallException m = Inr ?m"
    using assms(2) ne by (simp add: ExceptionHandler_def ReadRegister_def WriteRegister_def SysAdd_def reg_set_reg len add.assoc)
  have "machine_ok ?m" using sh len by (simp add: machine_ok_def reg_set_reg)
  then show ?thesis using e by (auto simp: reg_set_reg len)
qed

lemma ExceptionHandler_other:
  "length (registers m) = 40 \<Longrightarrow> which \<noteq> SyscallException \<or> reg m 2 \<notin> {SC_Halt, SC_Add} \<Longrightarrow> ExceptionHandler which m = Inl AssertFailed"
  "length (registers m) = 40 \<Longrightarrow> reg m 2 = SC_Halt \<Longrightarrow> ExceptionHandler SyscallException m = Inl Halted"
  by (auto simp: ExceptionHandler_def ReadRegister_def SysHalt_def split: ExceptionType.splits)

lemma syscall_step:
  assumes "machine_ok m" and "fetch m = Some i" and "opCode i = OP_SYSCALL"
  obtains m1 where "same_cpu m m1" "OneInstruction H m = RaiseException H SyscallException 0 m1"
proof -
  obtain m1 raw where r: "ReadMem H m (reg m PCReg) 4 = Inr (m1, Some raw)" "Decode raw = i" "same_cpu m m1" using fetch_ReadMem [OF assms(1,2), of H] by blast
  have "execute H i m1 pc = bindR (RaiseException H SyscallException 0 m1) (\<lambda>m. Inr (Return m))" for pc
    using assms(3) by (simp add: execute_def switch_ADD_BNE_def switch_DIV_LW_def switch_MFHI_SW_def switch_SYSCALL_default_def trap_def Let_def)
  then have "OneInstruction H m = RaiseException H SyscallException 0 m1"
    using r(1,2) by (cases "RaiseException H SyscallException 0 m1") (simp_all add: OneInstruction_def Let_def)
  then show ?thesis using that r(3) by blast
qed


definition syscall_machine :: machine where
  "syscall_machine = demo_machine\<lparr>registers := (replicate 40 0)[2 := 42, 4 := 3, 5 := 0xffffffff],
     mainMemory := (replicate 16384 0)[640 := 12]\<rparr>"

lemma syscall_machine_ok: "machine_ok syscall_machine" "fetch syscall_machine = Some (Decode 12)" "opCode (Decode 12) = OP_SYSCALL"
    "loaded_reg syscall_machine 2 = SC_Add" "loaded_reg syscall_machine 4 + loaded_reg syscall_machine 5 = 2"
proof -
  show "machine_ok syscall_machine"
    by (simp add: syscall_machine_def machine_ok_def machine_shape_def translation_ok_def demo_machine_def reg_def)
  show "loaded_reg syscall_machine 2 = SC_Add" "loaded_reg syscall_machine 4 + loaded_reg syscall_machine 5 = 2"
    by (simp_all add: loaded_reg_def syscall_machine_def reg_def SC_Add_def)
  have "Translate syscall_machine 0 4 False = Inr (touch False 0 syscall_machine, Inr 640)"
    by (subst Translate_eq) (simp_all add: translation_ok_def access_size_def syscall_machine_def demo_machine_def misaligned_def mapped_def vpn_of_def demo_entry_def physical_def)
  then show "fetch syscall_machine = Some (Decode 12)"
    by (simp add: fetch_def) (simp add: syscall_machine_def reg_def Machine.bytes_at_def le32_def)
  show "opCode (Decode 12) = OP_SYSCALL" by (simp add: Decode_def opTable_def specialTable_def Let_def)
qed


text \<open>
  The kernel's own address translation agrees with the machine's. For an address space whose entries are valid, with its page table
  loaded, \<^verbatim>\<open>AddrSpace::Translate\<close> returns the same exception or physical address as \<^verbatim>\<open>Machine::Translate\<close> of a one-byte
  access and sets the same use and dirty bits.
\<close>

theorem AddrSpace_Translate_agrees:
  assumes "space_ok sp" and "tlb m = None"
  shows "\<exists>sp' r. AddrSpace_Translate sp va w = Inr (sp', r) \<and> Translate (RestoreState sp m) va 1 w = Inr (RestoreState sp' m, r) \<and> space_ok sp'"
  by (rule translate_space [OF assms])

theorem AddrSpace_Translate_agrees_witness:
  "\<exists>sp' r. AddrSpace_Translate ((fst (AddrSpace_new 3 demo_machine))) 300 True = Inr (sp', r) \<and>
     Translate (RestoreState (fst (AddrSpace_new 3 demo_machine)) demo_machine) 300 1 True = Inr (RestoreState sp' demo_machine, r)"
proof -
  have "sint (of_nat i :: u32) \<ge> 0" if "i < 128" for i :: nat
    using wrap32 [of "int i"] that by simp
  then have "space_ok (fst (AddrSpace_new 3 demo_machine))" by (simp add: space_ok_def AddrSpace_new_def)
  moreover have "tlb demo_machine = None" by (simp add: demo_machine_def)
  ultimately show ?thesis using AddrSpace_Translate_agrees by blast
qed

end
