(* ===== verification/Threads.thy ===== *)
theory Threads
  imports Interrupt
begin

text \<open>
  Threads, the scheduler and the synchronisation primitives: \<^verbatim>\<open>code/threads/thread.cc\<close>, \<^verbatim>\<open>scheduler.cc\<close> and
  \<^verbatim>\<open>synch.cc\<close>. Nachos runs one thread at a time; a thread that is not running is suspended inside
  \<^verbatim>\<open>SWITCH\<close>, called from \<^verbatim>\<open>Scheduler::Run\<close>. The rest of what each thread has to do is its list of frames:
  one frame per call still to be made or point still to be returned to. \<open>exec\<close> runs one frame of the
  current thread, up to the next call that can switch threads or let an interrupt in; the frames
  of a new thread are those \<^verbatim>\<open>ThreadRoot\<close> runs, \<^verbatim>\<open>Begin\<close>, the forked function and \<^verbatim>\<open>Finish\<close>. The functions the
  threads run are the argument \<open>prog\<close>: what a function calls next may depend on the whole state, so
  it can loop and branch; the user-mode CPU is the argument \<open>cpu\<close>. With interrupts enabled, a step of
  the relation \<open>kstep\<close> may also be an interrupt, whose handlers signal semaphores and may ask the
  current thread to yield; this includes every point where \<^verbatim>\<open>Interrupt::OneTick\<close> runs the handlers.
  The host stack, so \<^verbatim>\<open>CheckOverflow\<close>, is not modelled.
\<close>

section \<open>State\<close>

datatype ThreadStatus = JUST_CREATED | RUNNING | READY | BLOCKED

text \<open>
  Semaphores by what owns them: made by a program, inside a lock, or made by \<^verbatim>\<open>Condition::Wait\<close> for one waiter.
\<close>

datatype semid = UserSem nat | LockSem nat | WaitSem nat

datatype frame =
    CallP semid | CallV semid | CallAcquire nat | CallRelease nat
  | CallWait nat nat | CallSignal nat nat | CallBroadcast nat nat
  | CallYield | CallFork nat | CallFinish | CallCode nat | CallExecute nat "u32 list" | UserInstruction
  | P_loop semid            \<comment> \<open>the \<^verbatim>\<open>while\<close> of \<^verbatim>\<open>Semaphore::P\<close>\<close>
  | SetLevelBack IntStatus  \<comment> \<open>\<^verbatim>\<open>SetLevel(oldLevel)\<close>\<close>
  | SetHolder nat           \<comment> \<open>the end of \<^verbatim>\<open>Lock::Acquire\<close>\<close>
  | DeleteWaiter semid      \<comment> \<open>the end of \<^verbatim>\<open>Condition::Wait\<close>\<close>
  | CallSleep bool
  | SleepLoop bool          \<comment> \<open>the \<^verbatim>\<open>while\<close> of \<^verbatim>\<open>Thread::Sleep\<close>\<close>
  | AfterSwitch             \<comment> \<open>the part of \<^verbatim>\<open>Scheduler::Run\<close> after \<^verbatim>\<open>SWITCH\<close>\<close>
  | ThreadBegin

record thread =
  tstatus :: ThreadStatus
  space :: "nat option"
  userRegisters :: "u32 list"

record semaphore =
  semValue :: int
  semQueue :: "nat list"

record kernel =
  currentThread :: nat
  threads :: "nat \<rightharpoonup> thread"
  frames :: "nat \<Rightarrow> frame list"
  readyList :: "nat list"
  toBeDestroyed :: "nat option"
  klevel :: IntStatus
  sems :: "semid \<Rightarrow> semaphore"
  lockHolder :: "nat \<Rightarrow> nat option"
  waitQueue :: "nat \<Rightarrow> semid list"
  nextThread :: nat
  nextWaiter :: nat
  cpuRegisters :: "u32 list"
  cpuPageTable :: "nat option"

definition push :: "frame list \<Rightarrow> kernel \<Rightarrow> kernel" where
  "push fs k = k\<lparr>frames := (frames k)(currentThread k := fs @ frames k (currentThread k))\<rparr>"

section \<open>Scheduler\<close>

definition setStatus :: "nat \<Rightarrow> ThreadStatus \<Rightarrow> kernel \<Rightarrow> kernel outcome" where
  "setStatus t st k =
     (case threads k t of None \<Rightarrow> Inl NullPointer
      | Some th \<Rightarrow> Inr (k\<lparr>threads := (threads k)(t \<mapsto> th\<lparr>tstatus := st\<rparr>)\<rparr>))"

definition ReadyToRun :: "nat \<Rightarrow> kernel \<Rightarrow> kernel outcome" where
  "ReadyToRun t k =
     bindR (ASSERT (klevel k = IntOff)) (\<lambda>_.
     bindR (setStatus t READY k) (\<lambda>k.
     bindR (list_Append (readyList k) t) (\<lambda>l. Inr (k\<lparr>readyList := l\<rparr>))))"

definition FindNextToRun :: "kernel \<Rightarrow> (kernel \<times> nat option) outcome" where
  "FindNextToRun k =
     bindR (ASSERT (klevel k = IntOff)) (\<lambda>_.
     if readyList k = [] then Inr (k, None)
     else bindR (list_RemoveFront (readyList k)) (\<lambda>(l, t). Inr (k\<lparr>readyList := l\<rparr>, Some t)))"

definition CheckToBeDestroyed :: "kernel \<Rightarrow> kernel outcome" where
  "CheckToBeDestroyed k =
     (case toBeDestroyed k of None \<Rightarrow> Inr k
      | Some t \<Rightarrow> bindR (ASSERT (t \<noteq> currentThread k)) (\<lambda>_.
          Inr (k\<lparr>threads := (threads k)(t := None), frames := (frames k)(t := []), toBeDestroyed := None\<rparr>)))"

definition SaveUserState :: "nat \<Rightarrow> kernel \<Rightarrow> kernel outcome" where
  "SaveUserState t k =
     (case threads k t of None \<Rightarrow> Inl NullPointer
      | Some th \<Rightarrow> Inr (if space th \<noteq> None then k\<lparr>threads := (threads k)(t \<mapsto> th\<lparr>userRegisters := cpuRegisters k\<rparr>)\<rparr> else k))"

definition RestoreUserState :: "nat \<Rightarrow> kernel \<Rightarrow> kernel outcome" where
  "RestoreUserState t k =
     (case threads k t of None \<Rightarrow> Inl NullPointer
      | Some th \<Rightarrow> Inr (if space th \<noteq> None then k\<lparr>cpuRegisters := userRegisters th, cpuPageTable := space th\<rparr> else k))"

text \<open>\<^verbatim>\<open>Run\<close> up to \<^verbatim>\<open>SWITCH\<close>; what follows it is the frame \<open>AfterSwitch\<close> of the old thread.\<close>

definition Run :: "nat \<Rightarrow> bool \<Rightarrow> kernel \<Rightarrow> kernel outcome" where
  "Run nextT finishing k =
     (let oldThread = currentThread k in
      bindR (ASSERT (klevel k = IntOff)) (\<lambda>_.
      bindR (if finishing
             then bindR (ASSERT (toBeDestroyed k = None)) (\<lambda>_. Inr (k\<lparr>toBeDestroyed := Some oldThread\<rparr>))
             else Inr k) (\<lambda>k.
      bindR (SaveUserState oldThread k) (\<lambda>k.
      setStatus nextT RUNNING ((push [AfterSwitch] k)\<lparr>currentThread := nextT\<rparr>)))))"

definition run_AfterSwitch :: "kernel \<Rightarrow> kernel outcome" where
  "run_AfterSwitch k =
     bindR (ASSERT (klevel k = IntOff)) (\<lambda>_.
     bindR (CheckToBeDestroyed k) (\<lambda>k. RestoreUserState (currentThread k) k))"

section \<open>Threads\<close>

definition Fork :: "nat \<Rightarrow> kernel \<Rightarrow> kernel outcome" where
  "Fork func k =
     (let t = nextThread k; oldLevel = klevel k;
          k = k\<lparr>nextThread := Suc t,
                threads := (threads k)(t \<mapsto> \<lparr>tstatus = JUST_CREATED, space = None, userRegisters = []\<rparr>),
                frames := (frames k)(t := [ThreadBegin, CallCode func, CallFinish]), klevel := IntOff\<rparr>
      in bindR (ReadyToRun t k) (\<lambda>k. Inr (push [SetLevelBack oldLevel] k)))"

definition Begin :: "kernel \<Rightarrow> kernel outcome" where
  "Begin k = bindR (CheckToBeDestroyed k) (\<lambda>k. Inr (push [SetLevelBack IntOn] k))"

definition Finish :: "kernel \<Rightarrow> kernel outcome" where
  "Finish k = Inr (push [CallSleep True] (k\<lparr>klevel := IntOff\<rparr>))"

definition Yield :: "kernel \<Rightarrow> kernel outcome" where
  "Yield k =
     (let oldLevel = klevel k; k = push [SetLevelBack oldLevel] (k\<lparr>klevel := IntOff\<rparr>) in
      bindR (FindNextToRun k) (\<lambda>(k, n).
      case n of None \<Rightarrow> Inr k
      | Some nextT \<Rightarrow> bindR (ReadyToRun (currentThread k) k) (Run nextT False)))"

definition Sleep :: "bool \<Rightarrow> kernel \<Rightarrow> kernel outcome" where
  "Sleep finishing k =
     bindR (ASSERT (klevel k = IntOff)) (\<lambda>_.
     bindR (setStatus (currentThread k) BLOCKED k) (\<lambda>k. Inr (push [SleepLoop finishing] k)))"

definition run_SleepLoop :: "bool \<Rightarrow> kernel \<Rightarrow> kernel outcome" where
  "run_SleepLoop finishing k =
     bindR (FindNextToRun k) (\<lambda>(k, n).
     case n of None \<Rightarrow> Inr (push [SleepLoop finishing] k) | Some nextT \<Rightarrow> Run nextT finishing k)"

definition Execute :: "nat \<Rightarrow> u32 list \<Rightarrow> kernel \<Rightarrow> kernel outcome" where
  "Execute sp regs k =
     (case threads k (currentThread k) of None \<Rightarrow> Inl NullPointer
      | Some th \<Rightarrow> Inr (k\<lparr>threads := (threads k)(currentThread k \<mapsto> th\<lparr>space := Some sp\<rparr>),
                           cpuRegisters := regs, cpuPageTable := Some sp\<rparr>))"

section \<open>Semaphores, locks and condition variables\<close>

definition Semaphore_new :: "semid \<Rightarrow> int \<Rightarrow> kernel \<Rightarrow> kernel" where
  "Semaphore_new s initialValue k = k\<lparr>sems := (sems k)(s := \<lparr>semValue = initialValue, semQueue = []\<rparr>)\<rparr>"

definition Semaphore_P :: "semid \<Rightarrow> kernel \<Rightarrow> kernel outcome" where
  "Semaphore_P s k = (let oldLevel = klevel k in Inr (push [P_loop s, SetLevelBack oldLevel] (k\<lparr>klevel := IntOff\<rparr>)))"

definition run_P_loop :: "semid \<Rightarrow> kernel \<Rightarrow> kernel outcome" where
  "run_P_loop s k =
     (let sem = sems k s in
      if semValue sem = 0
      then bindR (list_Append (semQueue sem) (currentThread k)) (\<lambda>q.
           Inr (push [CallSleep False, P_loop s] (k\<lparr>sems := (sems k)(s := sem\<lparr>semQueue := q\<rparr>)\<rparr>)))
      else Inr (k\<lparr>sems := (sems k)(s := sem\<lparr>semValue := semValue sem - 1\<rparr>)\<rparr>))"

definition V_body :: "semid \<Rightarrow> kernel \<Rightarrow> kernel outcome" where
  "V_body s k =
     bindR (if semQueue (sems k s) \<noteq> []
            then bindR (list_RemoveFront (semQueue (sems k s))) (\<lambda>(q, t).
                 ReadyToRun t (k\<lparr>sems := (sems k)(s := (sems k s)\<lparr>semQueue := q\<rparr>)\<rparr>))
            else Inr k) (\<lambda>k.
     Inr (k\<lparr>sems := (sems k)(s := (sems k s)\<lparr>semValue := semValue (sems k s) + 1\<rparr>)\<rparr>))"

definition Semaphore_V :: "semid \<Rightarrow> kernel \<Rightarrow> kernel outcome" where
  "Semaphore_V s k =
     (let oldLevel = klevel k in bindR (V_body s (k\<lparr>klevel := IntOff\<rparr>)) (\<lambda>k. Inr (push [SetLevelBack oldLevel] k)))"

definition IsHeldByCurrentThread :: "nat \<Rightarrow> kernel \<Rightarrow> bool" where
  "IsHeldByCurrentThread l k \<longleftrightarrow> lockHolder k l = Some (currentThread k)"

definition Lock_new :: "nat \<Rightarrow> kernel \<Rightarrow> kernel" where
  "Lock_new l k = (Semaphore_new (LockSem l) 1 k)\<lparr>lockHolder := (lockHolder k)(l := None)\<rparr>"

definition Acquire :: "nat \<Rightarrow> kernel \<Rightarrow> kernel outcome" where
  "Acquire l k = Inr (push [CallP (LockSem l), SetHolder l] k)"

definition set_holder :: "nat \<Rightarrow> kernel \<Rightarrow> kernel outcome" where
  "set_holder l k = Inr (k\<lparr>lockHolder := (lockHolder k)(l := Some (currentThread k))\<rparr>)"

definition Release :: "nat \<Rightarrow> kernel \<Rightarrow> kernel outcome" where
  "Release l k =
     bindR (ASSERT (IsHeldByCurrentThread l k)) (\<lambda>_.
     Inr (push [CallV (LockSem l)] (k\<lparr>lockHolder := (lockHolder k)(l := None)\<rparr>)))"

definition Condition_new :: "nat \<Rightarrow> kernel \<Rightarrow> kernel" where
  "Condition_new c k = k\<lparr>waitQueue := (waitQueue k)(c := [])\<rparr>"

definition Wait :: "nat \<Rightarrow> nat \<Rightarrow> kernel \<Rightarrow> kernel outcome" where
  "Wait c l k =
     bindR (ASSERT (IsHeldByCurrentThread l k)) (\<lambda>_.
     let waiter = WaitSem (nextWaiter k);
         k = Semaphore_new waiter 0 (k\<lparr>nextWaiter := Suc (nextWaiter k)\<rparr>) in
     bindR (list_Append (waitQueue k c) waiter) (\<lambda>q.
     Inr (push [CallRelease l, CallP waiter, CallAcquire l, DeleteWaiter waiter] (k\<lparr>waitQueue := (waitQueue k)(c := q)\<rparr>))))"

definition Signal :: "nat \<Rightarrow> nat \<Rightarrow> kernel \<Rightarrow> kernel outcome" where
  "Signal c l k =
     bindR (ASSERT (IsHeldByCurrentThread l k)) (\<lambda>_.
     if waitQueue k c \<noteq> []
     then bindR (list_RemoveFront (waitQueue k c)) (\<lambda>(q, waiter).
          Inr (push [CallV waiter] (k\<lparr>waitQueue := (waitQueue k)(c := q)\<rparr>)))
     else Inr k)"

definition Broadcast :: "nat \<Rightarrow> nat \<Rightarrow> kernel \<Rightarrow> kernel outcome" where
  "Broadcast c l k = Inr (if waitQueue k c \<noteq> [] then push [CallSignal c l, CallBroadcast c l] k else k)"

section \<open>Steps\<close>

fun exec :: "(nat \<Rightarrow> kernel \<Rightarrow> frame list) \<Rightarrow> (u32 list \<Rightarrow> u32 list) \<Rightarrow> frame \<Rightarrow> kernel \<Rightarrow> kernel outcome" where
  "exec prog cpu (CallP s) k = Semaphore_P s k"
| "exec prog cpu (CallV s) k = Semaphore_V s k"
| "exec prog cpu (CallAcquire l) k = Acquire l k"
| "exec prog cpu (CallRelease l) k = Release l k"
| "exec prog cpu (CallWait c l) k = Wait c l k"
| "exec prog cpu (CallSignal c l) k = Signal c l k"
| "exec prog cpu (CallBroadcast c l) k = Broadcast c l k"
| "exec prog cpu CallYield k = Yield k"
| "exec prog cpu (CallFork n) k = Fork n k"
| "exec prog cpu CallFinish k = Finish k"
| "exec prog cpu (CallCode n) k = Inr (push (prog n k) k)"
| "exec prog cpu (CallExecute sp regs) k = Execute sp regs k"
| "exec prog cpu UserInstruction k = Inr (k\<lparr>cpuRegisters := cpu (cpuRegisters k)\<rparr>)"
| "exec prog cpu (P_loop s) k = run_P_loop s k"
| "exec prog cpu (SetLevelBack l) k = Inr (k\<lparr>klevel := l\<rparr>)"
| "exec prog cpu (SetHolder l) k = set_holder l k"
| "exec prog cpu (DeleteWaiter s) k = Inr k"   \<comment> \<open>its storage is not used again\<close>
| "exec prog cpu (CallSleep b) k = Sleep b k"
| "exec prog cpu (SleepLoop b) k = run_SleepLoop b k"
| "exec prog cpu AfterSwitch k = run_AfterSwitch k"
| "exec prog cpu ThreadBegin k = Begin k"

definition thread_step :: "(nat \<Rightarrow> kernel \<Rightarrow> frame list) \<Rightarrow> (u32 list \<Rightarrow> u32 list) \<Rightarrow> kernel \<Rightarrow> kernel outcome" where
  "thread_step prog cpu k =
     (case frames k (currentThread k) of [] \<Rightarrow> Inl NullPointer
      | i # fs \<Rightarrow> exec prog cpu i (k\<lparr>frames := (frames k)(currentThread k := fs)\<rparr>))"

text \<open>
  An interrupt: the handlers signal the semaphores \<open>ss\<close>, with interrupts disabled, and the timer's may
  ask for a yield on return. While a thread waits in \<^verbatim>\<open>Sleep\<close> with nothing to run, \<^verbatim>\<open>Idle\<close> runs the handlers.
\<close>

definition handlers :: "semid list \<Rightarrow> kernel \<Rightarrow> kernel outcome" where
  "handlers ss k = forR ss V_body k"

definition interrupt_step :: "semid list \<Rightarrow> bool \<Rightarrow> kernel \<Rightarrow> kernel outcome" where
  "interrupt_step ss yieldOnRet k =
     bindR (handlers ss (k\<lparr>klevel := IntOff\<rparr>)) (\<lambda>k.
     let k = k\<lparr>klevel := IntOn\<rparr> in Inr (if yieldOnRet then push [CallYield] k else k))"

inductive kstep :: "(nat \<Rightarrow> kernel \<Rightarrow> frame list) \<Rightarrow> (u32 list \<Rightarrow> u32 list) \<Rightarrow> kernel \<Rightarrow> kernel \<Rightarrow> bool" for prog cpu where
  thread: "thread_step prog cpu k = Inr k' \<Longrightarrow> kstep prog cpu k k'"
| tick: "klevel k = IntOn \<Longrightarrow> interrupt_step (map UserSem ss) y k = Inr k' \<Longrightarrow> kstep prog cpu k k'"
| idle: "frames k (currentThread k) = SleepLoop b # fs \<Longrightarrow> readyList k = [] \<Longrightarrow> handlers (map UserSem ss) k = Inr k' \<Longrightarrow> kstep prog cpu k k'"

inductive_cases kstep_elim: "kstep prog cpu k k'"

section \<open>Runs\<close>

text \<open>
  The kernel as \<^verbatim>\<open>Kernel::Initialize\<close> leaves it: the thread main runs, with interrupts enabled, and calls
  \<^verbatim>\<open>Finish\<close> when it is done.
\<close>

definition Initialize :: "nat \<Rightarrow> (nat \<Rightarrow> int) \<Rightarrow> u32 list \<Rightarrow> kernel" where
  "Initialize func init regs =
     \<lparr>currentThread = 0, threads = [0 \<mapsto> \<lparr>tstatus = RUNNING, space = None, userRegisters = []\<rparr>],
      frames = (\<lambda>_. [])(0 := [CallCode func, CallFinish]), readyList = [], toBeDestroyed = None, klevel = IntOn,
      sems = (\<lambda>s. \<lparr>semValue = (case s of UserSem n \<Rightarrow> init n | LockSem l \<Rightarrow> 1 | WaitSem w \<Rightarrow> 0), semQueue = []\<rparr>),
      lockHolder = (\<lambda>_. None), waitQueue = (\<lambda>_. []), nextThread = 1, nextWaiter = 0, cpuRegisters = regs, cpuPageTable = None\<rparr>"

inductive kernel_run :: "(nat \<Rightarrow> kernel \<Rightarrow> frame list) \<Rightarrow> (u32 list \<Rightarrow> u32 list) \<Rightarrow> kernel \<Rightarrow> bool" for prog cpu where
  boot: "(\<And>n. 0 \<le> init n) \<Longrightarrow> kernel_run prog cpu (Initialize func init regs)"
| step: "kernel_run prog cpu k \<Longrightarrow> kstep prog cpu k k' \<Longrightarrow> kernel_run prog cpu k'"

end
