(* ===== verification/Scheduler_Invariant.thy ===== *)
theory Scheduler_Invariant
  imports Threads
begin

text \<open>
  The invariant of the scheduler, over the parts of the state it speaks of: the current thread, the
  status of every thread, the frames it still has to run, the ready list, the thread to be deleted,
  the interrupt level, and the values and queues of the semaphores. Each lemma \<open>inv_...\<close> is the
  effect of one kind of step on these parts: a call, taking or waiting for a semaphore, waking a
  waiter, switching to another thread in its three forms, deleting a thread and forking one.
\<close>

section \<open>Levels and places\<close>

text \<open>
  The interrupt level at which each frame may run: a frame that was pushed with interrupts
  disabled runs with interrupts disabled, and every routine gives back the level it found. The
  frames \<open>on_top\<close> never lie below another.
\<close>

fun on_top :: "frame \<Rightarrow> bool" where
  "on_top (CallSleep b) \<longleftrightarrow> True"
| "on_top (SleepLoop b) \<longleftrightarrow> True"
| "on_top AfterSwitch \<longleftrightarrow> True"
| "on_top ThreadBegin \<longleftrightarrow> True"
| "on_top _ \<longleftrightarrow> False"

definition calm :: "frame list \<Rightarrow> bool" where
  "calm fs \<longleftrightarrow> (\<forall>i \<in> set fs. \<not> on_top i)"

lemma calm_simps [simp]: "calm []" "calm (i # fs) \<longleftrightarrow> \<not> on_top i \<and> calm fs" "calm (fs @ gs) \<longleftrightarrow> calm fs \<and> calm gs"
  by (auto simp: calm_def)

fun lev_ok :: "IntStatus \<Rightarrow> frame list \<Rightarrow> bool" where
  "lev_ok l [] \<longleftrightarrow> False"
| "lev_ok l (i # fs) \<longleftrightarrow> calm fs \<and>
     (case i of
        CallFinish \<Rightarrow> True
      | CallSleep b \<Rightarrow> l = IntOff \<and> (b \<or> (case fs of P_loop s # _ \<Rightarrow> True | _ \<Rightarrow> False) \<and> lev_ok IntOff fs)
      | SleepLoop b \<Rightarrow> l = IntOff \<and> (b \<or> (case fs of P_loop s # _ \<Rightarrow> True | _ \<Rightarrow> False) \<and> lev_ok IntOff fs)
      | P_loop s \<Rightarrow> l = IntOff \<and> lev_ok IntOff fs
      | AfterSwitch \<Rightarrow> l = IntOff \<and> lev_ok IntOff fs
      | ThreadBegin \<Rightarrow> l = IntOff \<and> lev_ok IntOn fs
      | SetLevelBack l' \<Rightarrow> lev_ok l' fs
      | _ \<Rightarrow> lev_ok l fs)"

text \<open>The semaphore a thread is about to test, in the loop of \<^verbatim>\<open>P\<close> or asleep in it.\<close>

fun testing :: "frame list \<Rightarrow> semid option" where
  "testing (P_loop s # fs) = Some s"
| "testing (CallSleep False # P_loop s # fs) = Some s"
| "testing (SleepLoop False # P_loop s # fs) = Some s"
| "testing (AfterSwitch # P_loop s # fs) = Some s"
| "testing fs = None"

text \<open>Where a thread is queued: \<open>None\<close> for the ready list, \<open>Some s\<close> for a semaphore.\<close>

definition loc :: "nat list \<Rightarrow> (semid \<Rightarrow> nat list) \<Rightarrow> nat \<Rightarrow> semid option set" where
  "loc rl sq t = (if t \<in> set rl then {None} else {}) \<union> Some ` {s. t \<in> set (sq s)}"

definition suspended :: "semid option set \<Rightarrow> ThreadStatus \<Rightarrow> frame list \<Rightarrow> bool" where
  "suspended L st fs \<longleftrightarrow> (\<exists>r. fs = AfterSwitch # r \<or> fs = ThreadBegin # r) \<and> lev_ok IntOff fs \<and>
     (L = {None} \<and> st = READY \<or> (\<exists>s r. L = {Some s} \<and> st = BLOCKED \<and> fs = AfterSwitch # P_loop s # r))"

definition running :: "semid option set \<Rightarrow> IntStatus \<Rightarrow> ThreadStatus \<Rightarrow> frame list \<Rightarrow> bool" where
  "running L lv st fs \<longleftrightarrow> lev_ok lv fs \<and>
     (case fs of
        CallSleep b # r \<Rightarrow> st = RUNNING \<and> (if b then L = {} else (\<exists>s r'. r = P_loop s # r' \<and> L = {Some s}))
      | SleepLoop b # r \<Rightarrow> if b then L = {} \<and> st = BLOCKED
          else (\<exists>s r'. r = P_loop s # r' \<and> (L = {Some s} \<and> st = BLOCKED \<or> L = {None} \<and> st = READY))
      | _ \<Rightarrow> L = {} \<and> st = RUNNING)"

definition thread_inv :: "nat \<Rightarrow> (nat \<rightharpoonup> ThreadStatus) \<Rightarrow> (nat \<Rightarrow> frame list) \<Rightarrow> nat list \<Rightarrow> nat option \<Rightarrow> IntStatus \<Rightarrow>
    (semid \<Rightarrow> nat list) \<Rightarrow> nat \<Rightarrow> bool" where
  "thread_inv c st fr rl tbd lv sq t \<longleftrightarrow>
     (case st t of
        None \<Rightarrow> loc rl sq t = {}
      | Some x \<Rightarrow> if t = c then running (loc rl sq t) lv x (fr t)
                  else if tbd = Some t then loc rl sq t = {}
                  else suspended (loc rl sq t) x (fr t))"

text \<open>Threads that have been woken, or never slept, and will test the semaphore next.\<close>

definition testers :: "(nat \<rightharpoonup> ThreadStatus) \<Rightarrow> (nat \<Rightarrow> frame list) \<Rightarrow> nat option \<Rightarrow> (semid \<Rightarrow> nat list) \<Rightarrow> semid \<Rightarrow> nat set" where
  "testers st fr tbd sq s = {t. st t \<noteq> None \<and> tbd \<noteq> Some t \<and> t \<notin> set (sq s) \<and> testing (fr t) = Some s}"

definition sched_inv :: "nat \<Rightarrow> (nat \<rightharpoonup> ThreadStatus) \<Rightarrow> (nat \<Rightarrow> frame list) \<Rightarrow> nat list \<Rightarrow> nat option \<Rightarrow> IntStatus \<Rightarrow>
    (semid \<Rightarrow> int) \<Rightarrow> (semid \<Rightarrow> nat list) \<Rightarrow> nat \<Rightarrow> bool" where
  "sched_inv c st fr rl tbd lv sv sq nt \<longleftrightarrow>
     (\<forall>t. thread_inv c st fr rl tbd lv sq t) \<and> st c \<noteq> None \<and> distinct rl \<and> (\<forall>s. distinct (sq s)) \<and> (\<forall>s. 0 \<le> sv s) \<and>
     (tbd = None \<or> (\<exists>t r. tbd = Some t \<and> t \<noteq> c \<and> st t \<noteq> None \<and> (fr c = AfterSwitch # r \<or> fr c = ThreadBegin # r))) \<and>
     (\<forall>t. nt \<le> t \<longrightarrow> st t = None) \<and>
     (\<forall>s. sq s \<noteq> [] \<longrightarrow> sv s \<le> int (card (testers st fr tbd sq s)))"

lemma inv_intro:
  assumes "\<And>t. thread_inv c st fr rl tbd lv sq t" and "st c \<noteq> None" and "distinct rl" and "\<And>s. distinct (sq s)" and "\<And>s. 0 \<le> sv s"
    and "tbd = None \<or> (\<exists>t r. tbd = Some t \<and> t \<noteq> c \<and> st t \<noteq> None \<and> (fr c = AfterSwitch # r \<or> fr c = ThreadBegin # r))"
    and "\<And>t. nt \<le> t \<Longrightarrow> st t = None"
    and "\<And>s. sq s \<noteq> [] \<Longrightarrow> sv s \<le> int (card (testers st fr tbd sq s))"
  shows "sched_inv c st fr rl tbd lv sv sq nt"
  using assms by (simp add: sched_inv_def)

lemma invD:
  assumes "sched_inv c st fr rl tbd lv sv sq nt"
  shows "thread_inv c st fr rl tbd lv sq t" "st c \<noteq> None" "distinct rl" "distinct (sq s)" "0 \<le> sv s"
    "tbd = None \<or> (\<exists>t r. tbd = Some t \<and> t \<noteq> c \<and> st t \<noteq> None \<and> (fr c = AfterSwitch # r \<or> fr c = ThreadBegin # r))"
    "nt \<le> t \<Longrightarrow> st t = None" "sq s \<noteq> [] \<Longrightarrow> sv s \<le> int (card (testers st fr tbd sq s))"
  using assms by (simp_all add: sched_inv_def)

lemma inv_alive: "sched_inv c st fr rl tbd lv sv sq nt \<Longrightarrow> loc rl sq t \<noteq> {} \<Longrightarrow> st t \<noteq> None"
  using invD(1) [of c st fr rl tbd lv sv sq nt t] by (auto simp: thread_inv_def split: option.splits)

lemma loc_mem [simp]: "None \<in> loc rl sq t \<longleftrightarrow> t \<in> set rl" "Some s \<in> loc rl sq t \<longleftrightarrow> t \<in> set (sq s)"
  by (auto simp: loc_def)

lemma loc_ready: "loc rl sq t = {None} \<longleftrightarrow> t \<in> set rl \<and> (\<forall>s. t \<notin> set (sq s))"
  by (auto simp: loc_def)

lemma loc_empty: "loc rl sq t = {} \<longleftrightarrow> t \<notin> set rl \<and> (\<forall>s. t \<notin> set (sq s))"
  by (auto simp: loc_def)

lemma inv_current:
  assumes "sched_inv c st fr rl tbd lv sv sq nt"
  obtains x where "st c = Some x" "running (loc rl sq c) lv x (fr c)"
  using invD(1) [OF assms, of c] invD(2) [OF assms] by (auto simp: thread_inv_def)

lemma finite_testers: "(\<And>t. nt \<le> t \<Longrightarrow> st t = None) \<Longrightarrow> finite (testers st fr tbd sq s)"
  by (rule finite_subset [of _ "{..<nt}"]) (auto simp: testers_def, metis not_less option.distinct(1))

lemma enough_testers: "v \<le> int (card A) \<Longrightarrow> A \<subseteq> B \<Longrightarrow> finite B \<Longrightarrow> v \<le> int (card B)"
  using card_mono [of B A] by simp

lemma thread_inv_current:
  "thread_inv c st fr rl tbd lv sq c \<longleftrightarrow> (case st c of None \<Rightarrow> loc rl sq c = {} | Some x \<Rightarrow> running (loc rl sq c) lv x (fr c))"
  by (simp add: thread_inv_def split: option.split)

lemma thread_inv_other:
  "t \<noteq> c \<Longrightarrow> st' t = st t \<Longrightarrow> fr' t = fr t \<Longrightarrow> loc rl' sq' t = loc rl sq t \<Longrightarrow> t \<noteq> c' \<Longrightarrow> (tbd' = Some t) = (tbd = Some t) \<Longrightarrow>
   thread_inv c st fr rl tbd lv sq t \<Longrightarrow> thread_inv c' st' fr' rl' tbd' lv' sq' t"
  by (simp add: thread_inv_def split: option.splits)

lemma awake:
  assumes "running L lv x fs" and "\<And>b r. fs \<noteq> CallSleep b # r" and "\<And>b r. fs \<noteq> SleepLoop b # r"
  shows "L = {} \<and> x = RUNNING"
proof (cases fs)
  case (Cons i r)
  then show ?thesis using assms by (cases i) (simp_all add: running_def)
qed (use assms in \<open>simp add: running_def\<close>)

text \<open>A step that changes only the frames of the current thread and the interrupt level.\<close>

lemma inv_frames:
  assumes i: "sched_inv c st fr rl tbd lv sv sq nt" and "tbd = None" and "\<And>b r. fr c \<noteq> CallSleep b # r" and "\<And>b r. fr c \<noteq> SleepLoop b # r"
    and "\<And>s. testing (fr c) = Some s \<Longrightarrow> testing fs' = Some s" and "running {} lv' RUNNING fs'"
  shows "sched_inv c st (fr(c := fs')) rl tbd lv' sv sq nt"
proof (rule inv_intro)
  obtain x where x: "st c = Some x" "running (loc rl sq c) lv x (fr c)" using inv_current [OF i] .
  have a: "loc rl sq c = {}" "x = RUNNING" using awake [OF x(2) assms(3,4)] by auto
  show "thread_inv c st (fr(c := fs')) rl tbd lv' sq t" for t
  proof (cases "t = c")
    case True
    then show ?thesis using x a assms(6) by (simp add: thread_inv_current)
  qed (rule thread_inv_other [OF _ _ _ _ _ _ invD(1) [OF i]], simp_all)
  show "sv s \<le> int (card (testers st (fr(c := fs')) tbd sq s))" if "sq s \<noteq> []" for s
  proof (rule enough_testers [OF invD(8) [OF i that]])
    show "testers st fr tbd sq s \<subseteq> testers st (fr(c := fs')) tbd sq s" using assms(5) by (auto simp: testers_def)
    show "finite (testers st (fr(c := fs')) tbd sq s)" by (rule finite_testers) (rule invD(7) [OF i])
  qed
qed (use i assms(2) in \<open>simp_all add: sched_inv_def\<close>)

lemma inv_value:
  "sched_inv c st fr rl tbd lv sv sq nt \<Longrightarrow> sq s = [] \<Longrightarrow> 0 \<le> v \<Longrightarrow> sched_inv c st fr rl tbd lv (sv(s := v)) sq nt"
  by (simp add: sched_inv_def)

text \<open>\<^verbatim>\<open>P\<close> takes the semaphore, or puts the thread to sleep on it.\<close>

lemma inv_take:
  assumes i: "sched_inv c st fr rl None lv sv sq nt" and f: "fr c = P_loop s # fs" and "0 < sv s" and r: "running {} lv RUNNING fs"
  shows "sched_inv c st (fr(c := fs)) rl None lv (sv(s := sv s - 1)) sq nt"
proof (rule inv_intro)
  obtain x where x: "st c = Some x" "running (loc rl sq c) lv x (fr c)" using inv_current [OF i] .
  have a: "loc rl sq c = {}" "x = RUNNING" using awake [OF x(2)] f by auto
  have fin: "finite (testers st (fr(c := fs)) None sq s')" for s' by (rule finite_testers) (rule invD(7) [OF i])
  show "thread_inv c st (fr(c := fs)) rl None lv sq t" for t
  proof (cases "t = c")
    case True
    then show ?thesis using x a r by (simp add: thread_inv_current)
  qed (rule thread_inv_other [OF _ _ _ _ _ _ invD(1) [OF i]], simp_all)
  show "0 \<le> (sv(s := sv s - 1)) s'" for s' using invD(5) [OF i, of s'] assms(3) by simp
  show "(sv(s := sv s - 1)) s' \<le> int (card (testers st (fr(c := fs)) None sq s'))" if q: "sq s' \<noteq> []" for s'
  proof (cases "s' = s")
    case True
    have c: "c \<in> testers st fr None sq s" using f x(1) a(1) by (simp add: testers_def loc_empty)
    have "testers st fr None sq s - {c} \<subseteq> testers st (fr(c := fs)) None sq s" by (auto simp: testers_def)
    from card_mono [OF fin this] have "card (testers st fr None sq s) - 1 \<le> card (testers st (fr(c := fs)) None sq s)"
      using c by (simp add: card_Diff_singleton)
    then show ?thesis using True invD(8) [OF i q] by simp
  next
    case False
    have "testers st fr None sq s' \<subseteq> testers st (fr(c := fs)) None sq s'" using f False by (auto simp: testers_def)
    from enough_testers [OF invD(8) [OF i q] this fin] show ?thesis using False by simp
  qed
qed (use i in \<open>simp_all add: sched_inv_def\<close>)

lemma loc_append_queue: "loc rl (sq(s := sq s @ [c])) t = (if t = c then insert (Some s) (loc rl sq t) else loc rl sq t)"
  by (auto simp: loc_def)

lemma inv_wait:
  assumes i: "sched_inv c st fr rl None IntOff sv sq nt" and f: "fr c = P_loop s # fs" and "sv s = 0"
  shows "sched_inv c st (fr(c := CallSleep False # P_loop s # fs)) rl None IntOff sv (sq(s := sq s @ [c])) nt" and "c \<notin> set (sq s)"
proof -
  obtain x where x: "st c = Some x" "running (loc rl sq c) IntOff x (fr c)" using inv_current [OF i] .
  have a: "loc rl sq c = {}" "x = RUNNING" using awake [OF x(2)] f by auto
  have l: "lev_ok IntOff fs" "calm fs" using x(2) f by (simp_all add: running_def)
  show nc: "c \<notin> set (sq s)" using a(1) by (simp add: loc_empty)
  show "sched_inv c st (fr(c := CallSleep False # P_loop s # fs)) rl None IntOff sv (sq(s := sq s @ [c])) nt"
  proof (rule inv_intro)
    show "thread_inv c st (fr(c := CallSleep False # P_loop s # fs)) rl None IntOff (sq(s := sq s @ [c])) t" for t
    proof (cases "t = c")
      case True
      then show ?thesis using x a l by (simp add: thread_inv_current loc_append_queue running_def)
    qed (rule thread_inv_other [OF _ _ _ _ _ _ invD(1) [OF i]], simp_all add: loc_append_queue)
    show "sv s' \<le> int (card (testers st (fr(c := CallSleep False # P_loop s # fs)) None (sq(s := sq s @ [c])) s'))"
      if "(sq(s := sq s @ [c])) s' \<noteq> []" for s'
    proof (cases "s' = s")
      case False
      have "testers st (fr(c := CallSleep False # P_loop s # fs)) None (sq(s := sq s @ [c])) s' = testers st fr None sq s'"
        using f False by (auto simp: testers_def)
      then show ?thesis using invD(8) [OF i, of s'] that False by simp
    qed (simp add: assms(3))
    show "distinct ((sq(s := sq s @ [c])) s')" for s' using invD(4) [OF i, of s'] invD(4) [OF i, of s] nc by simp
  qed (use i in \<open>simp_all add: sched_inv_def\<close>)
qed

lemma running_sleep: "running L lv x (CallSleep False # fs) \<Longrightarrow> \<exists>s r. fs = P_loop s # r"
  by (clarsimp simp: running_def)

lemma running_SleepLoop:
  "running L lv x (SleepLoop False # fs) \<Longrightarrow> \<exists>s r. fs = P_loop s # r \<and> (L = {Some s} \<and> x = BLOCKED \<or> L = {None} \<and> x = READY)"
  by (clarsimp simp: running_def)

lemma inv_sleep:
  assumes i: "sched_inv c st fr rl None lv sv sq nt" and f: "fr c = CallSleep b # fs"
  shows "sched_inv c (st(c \<mapsto> BLOCKED)) (fr(c := SleepLoop b # fs)) rl None lv sv sq nt"
proof (rule inv_intro)
  obtain x where x: "st c = Some x" "running (loc rl sq c) lv x (fr c)" using inv_current [OF i] .
  show "thread_inv c (st(c \<mapsto> BLOCKED)) (fr(c := SleepLoop b # fs)) rl None lv sq t" for t
  proof (cases "t = c")
    case True
    then show ?thesis using x f by (auto simp: thread_inv_current running_def)
  qed (rule thread_inv_other [OF _ _ _ _ _ _ invD(1) [OF i]], simp_all)
  have "testing (SleepLoop b # fs) = testing (CallSleep b # fs)"
  proof (cases b)
    case False
    then have "\<exists>s r. fs = P_loop s # r" using running_sleep [of "loc rl sq c" lv x fs] x(2) f by simp
    then show ?thesis using False by auto
  qed simp
  then have "testers (st(c \<mapsto> BLOCKED)) (fr(c := SleepLoop b # fs)) None sq s = testers st fr None sq s" for s
    using x(1) f by (auto simp: testers_def)
  then show "sv s \<le> int (card (testers (st(c \<mapsto> BLOCKED)) (fr(c := SleepLoop b # fs)) None sq s))" if "sq s \<noteq> []" for s
    using invD(8) [OF i that] by simp
  show "nt \<le> t \<Longrightarrow> (st(c \<mapsto> BLOCKED)) t = None" for t using invD(7) [OF i, of t] x(1) by auto
qed (use i in \<open>simp_all add: sched_inv_def\<close>)

section \<open>Waking and sleeping\<close>

lemma running_queued:
  assumes "running L lv x fs" and "L \<noteq> {}" and "\<And>r. fs \<noteq> CallSleep False # r"
  shows "\<exists>s r. fs = SleepLoop False # P_loop s # r \<and> (L = {Some s} \<and> x = BLOCKED \<or> L = {None} \<and> x = READY)"
proof -
  have "\<exists>b r. fs = CallSleep b # r \<or> fs = SleepLoop b # r" using awake [OF assms(1)] assms(2) by blast
  then obtain b r where "fs = CallSleep b # r \<or> fs = SleepLoop b # r" by blast
  then show ?thesis
  proof
    assume "fs = CallSleep b # r"
    then show ?thesis using assms by (cases b) (simp_all add: running_def)
  next
    assume f: "fs = SleepLoop b # r"
    then have "\<not> b" using assms(1,2) by (cases b) (simp_all add: running_def)
    then show ?thesis using running_SleepLoop [of L lv x r] assms(1) f by simp
  qed
qed

lemma queued_where:
  assumes i: "sched_inv c st fr rl tbd lv sv sq nt" and t: "t \<in> set (sq s)" and nosleep: "\<And>r. fr c \<noteq> CallSleep False # r"
  shows "loc rl sq t = {Some s} \<and> t \<notin> set rl \<and> st t = Some BLOCKED \<and> testing (fr t) = Some s \<and> tbd \<noteq> Some t \<and>
    (if t = c then (\<exists>r. fr c = SleepLoop False # P_loop s # r \<and> lev_ok lv (fr c)) else (\<exists>r. fr t = AfterSwitch # P_loop s # r) \<and> lev_ok IntOff (fr t))"
proof -
  have l: "Some s \<in> loc rl sq t" using t by simp
  then have ne: "loc rl sq t \<noteq> {}" by (metis empty_iff)
  have nr: "loc rl sq t \<noteq> {None}" using l by (metis option.distinct(1) singletonD)
  have ls: "loc rl sq t = {Some s'} \<Longrightarrow> s' = s" for s' using l by (metis option.inject singletonD)
  have rl: "loc rl sq t = {Some s} \<Longrightarrow> t \<notin> set rl" by (metis loc_mem(1) option.distinct(1) singletonD)
  from inv_alive [OF i ne] obtain x where x: "st t = Some x" by blast
  show ?thesis
  proof (cases "t = c")
    case True
    then have r: "running (loc rl sq c) lv x (fr c)" using invD(1) [OF i, of c] x by (simp add: thread_inv_current)
    from running_queued [OF this _ nosleep] ne True obtain s' r' where
      f: "fr c = SleepLoop False # P_loop s' # r'" "loc rl sq c = {Some s'}" "x = BLOCKED" using nr by blast
    then have "tbd \<noteq> Some c" using invD(6) [OF i] by auto
    moreover have "lev_ok lv (fr c)" using r by (simp add: running_def)
    ultimately show ?thesis using True f x ls rl by auto
  next
    case False
    then have td: "tbd \<noteq> Some t" "suspended (loc rl sq t) x (fr t)" using invD(1) [OF i, of t] x ne by (auto simp: thread_inv_def split: if_splits)
    then obtain s' r where "loc rl sq t = {Some s'}" "x = BLOCKED" "fr t = AfterSwitch # P_loop s' # r" "lev_ok IntOff (fr t)"
      using nr unfolding suspended_def by blast
    then show ?thesis using x False td(1) ls rl by auto
  qed
qed

lemma loc_wake:
  "sq s = t # q \<Longrightarrow> distinct (sq s) \<Longrightarrow> loc rl sq t = {Some s} \<Longrightarrow> loc (rl @ [t]) (sq(s := q)) u = (if u = t then {None} else loc rl sq u)"
proof (cases "u = t")
  case True
  assume a: "sq s = t # q" "distinct (sq s)" "loc rl sq t = {Some s}"
  have "t \<notin> set (sq s')" if "s' \<noteq> s" for s' using a(3) that loc_mem(2) [of s' rl sq t] by simp
  then show ?thesis using True a(1,2) by (auto simp: loc_ready)
qed (auto simp: loc_def)

lemma testing_queued: "running L lv x (SleepLoop False # P_loop s # r) = (lev_ok lv (SleepLoop False # P_loop s # r) \<and> (L = {Some s} \<and> x = BLOCKED \<or> L = {None} \<and> x = READY))"
  by (simp add: running_def)

text \<open>\<^verbatim>\<open>V\<close> moves the first waiter to the ready list, which makes it a tester.\<close>

lemma inv_wake:
  assumes i: "sched_inv c st fr rl tbd lv sv sq nt" and q: "sq s = t # q" and nosleep: "\<And>r. fr c \<noteq> CallSleep False # r"
  shows "sched_inv c (st(t \<mapsto> READY)) fr (rl @ [t]) tbd lv (sv(s := sv s + 1)) (sq(s := q)) nt" and "t \<notin> set rl" and "st t \<noteq> None"
proof -
  have tm: "t \<in> set (sq s)" using q by simp
  have w: "loc rl sq t = {Some s}" "t \<notin> set rl" "st t = Some BLOCKED" "testing (fr t) = Some s" "tbd \<noteq> Some t"
    "if t = c then (\<exists>r. fr c = SleepLoop False # P_loop s # r \<and> lev_ok lv (fr c)) else (\<exists>r. fr t = AfterSwitch # P_loop s # r) \<and> lev_ok IntOff (fr t)"
    using queued_where [OF i tm nosleep] by blast+
  show "t \<notin> set rl" "st t \<noteq> None" using w(2,3) by simp_all
  have dq: "distinct (t # q)" using invD(4) [OF i, of s] q by simp
  have L: "loc (rl @ [t]) (sq(s := q)) u = (if u = t then {None} else loc rl sq u)" for u
    by (rule loc_wake) (use q dq w(1) in simp_all)
  show "sched_inv c (st(t \<mapsto> READY)) fr (rl @ [t]) tbd lv (sv(s := sv s + 1)) (sq(s := q)) nt"
  proof (rule inv_intro)
    show "thread_inv c (st(t \<mapsto> READY)) fr (rl @ [t]) tbd lv (sq(s := q)) u" for u
    proof (cases "u = t")
      case True
      show ?thesis
      proof (cases "t = c")
        case True
        then obtain r where "fr c = SleepLoop False # P_loop s # r" "lev_ok lv (SleepLoop False # P_loop s # r)" using w(6) by auto
        then show ?thesis using \<open>u = t\<close> True L [of c] by (simp add: thread_inv_current testing_queued del: lev_ok.simps)
      next
        case False
        then show ?thesis using \<open>u = t\<close> w(5,6) by (auto simp: thread_inv_def L suspended_def simp del: lev_ok.simps)
      qed
    next
      case False
      then show ?thesis using invD(1) [OF i, of u] by (auto simp: thread_inv_def L split: option.splits)
    qed
    show "(sv(s := sv s + 1)) s' \<le> int (card (testers (st(t \<mapsto> READY)) fr tbd (sq(s := q)) s'))" if n: "(sq(s := q)) s' \<noteq> []" for s'
    proof (cases "s' = s")
      case True
      have "testers (st(t \<mapsto> READY)) fr tbd (sq(s := q)) s = insert t (testers st fr tbd sq s)"
        using w(3-5) q dq by (auto simp: testers_def)
      moreover have "t \<notin> testers st fr tbd sq s" using q by (simp add: testers_def)
      moreover have "finite (testers st fr tbd sq s)" by (rule finite_testers) (rule invD(7) [OF i])
      ultimately show ?thesis using True invD(8) [OF i, of s] q by simp
    next
      case False
      have "testers (st(t \<mapsto> READY)) fr tbd (sq(s := q)) s' = testers st fr tbd sq s'"
        using False w(3) by (auto simp: testers_def)
      then show ?thesis using False n invD(8) [OF i, of s'] by simp
    qed
    show "0 \<le> (sv(s := sv s + 1)) s'" for s' using invD(5) [OF i, of s'] invD(5) [OF i, of s] by simp
    show "distinct ((sq(s := q)) s')" for s' using invD(4) [OF i, of s'] dq by simp
    show "nt \<le> u \<Longrightarrow> (st(t \<mapsto> READY)) u = None" for u using invD(7) [OF i, of u] w(3) by auto
    show "tbd = None \<or> (\<exists>u r. tbd = Some u \<and> u \<noteq> c \<and> (st(t \<mapsto> READY)) u \<noteq> None \<and> (fr c = AfterSwitch # r \<or> fr c = ThreadBegin # r))"
      using invD(6) [OF i] by auto
  qed (use invD(2,3) [OF i] w(2) in auto)
qed

lemma inv_signal_none: "sched_inv c st fr rl tbd lv sv sq nt \<Longrightarrow> sq s = [] \<Longrightarrow> sched_inv c st fr rl tbd lv (sv(s := sv s + 1)) sq nt"
  using invD(5) [of c st fr rl tbd lv sv sq nt s] by (intro inv_value) simp_all

lemma ready_where:
  assumes i: "sched_inv c st fr rl tbd lv sv sq nt" and t: "t \<in> set rl" "t \<noteq> c"
  shows "loc rl sq t = {None} \<and> st t = Some READY \<and> tbd \<noteq> Some t \<and> (\<exists>r. fr t = AfterSwitch # r \<or> fr t = ThreadBegin # r) \<and> lev_ok IntOff (fr t)"
proof -
  have l: "None \<in> loc rl sq t" using t by simp
  then have ne: "loc rl sq t \<noteq> {}" "\<And>s. loc rl sq t \<noteq> {Some s}" by (metis empty_iff, metis option.distinct(1) singletonD)
  from inv_alive [OF i ne(1)] obtain x where x: "st t = Some x" by blast
  then have "tbd \<noteq> Some t" "suspended (loc rl sq t) x (fr t)" using invD(1) [OF i, of t] t(2) ne by (auto simp: thread_inv_def split: if_splits)
  then show ?thesis using x ne unfolding suspended_def by blast
qed

lemma loc_tl: "distinct (n # rl) \<Longrightarrow> loc rl sq u = (if u = n then loc (n # rl) sq u - {None} else loc (n # rl) sq u)"
  by (auto simp: loc_def)

lemma resumed: "(\<exists>r. fs = AfterSwitch # r \<or> fs = ThreadBegin # r) \<Longrightarrow> lev_ok IntOff fs \<Longrightarrow> running {} IntOff RUNNING fs"
  by (auto simp: running_def)

text \<open>\<^verbatim>\<open>Scheduler::Run\<close> from the loop of \<^verbatim>\<open>Sleep\<close>: the old thread stays queued where it is.\<close>

lemma inv_switch_asleep:
  assumes i: "sched_inv c st fr (n # rl) None IntOff sv sq nt" and f: "fr c = SleepLoop False # P_loop s # r"
  shows "sched_inv n (st(n \<mapsto> RUNNING)) (fr(c := AfterSwitch # P_loop s # r)) rl None IntOff sv sq nt" and "st n \<noteq> None"
proof -
  obtain x where x: "st c = Some x" "running (loc (n # rl) sq c) IntOff x (fr c)" using inv_current [OF i] .
  have lev: "lev_ok IntOff r" "calm r" and L: "loc (n # rl) sq c = {Some s} \<and> x = BLOCKED \<or> loc (n # rl) sq c = {None} \<and> x = READY"
    using x(2) f by (auto simp: running_def)
  have lo: "lev_ok IntOff (AfterSwitch # P_loop s # r)" using lev by simp
  have d: "distinct (n # rl)" using invD(3) [OF i] .
  show sn: "st n \<noteq> None" using inv_alive [OF i, of n] by (metis empty_iff list.set_intros(1) loc_mem(1))
  have nl: "loc (n # rl) sq n = {None}"
    by (cases "n = c") (use L ready_where [OF i, of n] in \<open>auto simp: loc_def\<close>)
  have T: "testers (st(n \<mapsto> RUNNING)) (fr(c := AfterSwitch # P_loop s # r)) None sq s' = testers st fr None sq s'" for s'
    using f sn by (auto simp: testers_def)
  show "sched_inv n (st(n \<mapsto> RUNNING)) (fr(c := AfterSwitch # P_loop s # r)) rl None IntOff sv sq nt"
  proof (rule inv_intro)
    show "thread_inv n (st(n \<mapsto> RUNNING)) (fr(c := AfterSwitch # P_loop s # r)) rl None IntOff sq u" for u
    proof (cases "u = n")
      case True
      have "running {} IntOff RUNNING ((fr(c := AfterSwitch # P_loop s # r)) n)"
        by (rule resumed) (use ready_where [OF i, of n] lo in \<open>cases "n = c"; simp del: lev_ok.simps\<close>)+
      moreover have "loc rl sq n = {}" using nl d by (auto simp: loc_ready loc_empty)
      ultimately show ?thesis using True by (simp add: thread_inv_current)
    next
      case False
      then have lu: "loc rl sq u = loc (n # rl) sq u" using loc_tl [OF d] by simp
      show ?thesis
      proof (cases "u = c")
        case True
        have "suspended (loc (n # rl) sq c) x (AfterSwitch # P_loop s # r)"
          unfolding suspended_def using L lo by (elim disjE) simp_all
        then show ?thesis using True False x(1) lu by (simp add: thread_inv_def)
      next
        case nc: False
        show ?thesis by (rule thread_inv_other [OF nc _ _ lu False _ invD(1) [OF i]]) (use nc False in simp_all)
      qed
    qed
    show "nt \<le> u \<Longrightarrow> (st(n \<mapsto> RUNNING)) u = None" for u using invD(7) [OF i, of u] sn by auto
  qed (use i d T in \<open>auto simp: sched_inv_def\<close>)
qed

section \<open>Switching, deleting and forking\<close>

lemma loc_yield: "distinct (n # rl) \<Longrightarrow> c \<notin> set (n # rl) \<Longrightarrow>
  loc (rl @ [c]) sq u = (if u = n then loc (n # rl) sq u - {None} else if u = c then insert None (loc (n # rl) sq u) else loc (n # rl) sq u)"
  by (auto simp: loc_def)

text \<open>\<^verbatim>\<open>Thread::Yield\<close>: the current thread goes to the end of the ready list, its first thread runs.\<close>

lemma inv_switch_yield:
  assumes i: "sched_inv c st fr (n # rl) None lv sv sq nt" and f: "\<And>b r. fr c \<noteq> CallSleep b # r" "\<And>b r. fr c \<noteq> SleepLoop b # r"
    and te: "testing (fr c) = None" and fs: "lev_ok IntOff (SetLevelBack l # fs)"
  shows "sched_inv n (st(c \<mapsto> READY, n \<mapsto> RUNNING)) (fr(c := AfterSwitch # SetLevelBack l # fs)) (rl @ [c]) None IntOff sv sq nt"
    and "c \<notin> set (n # rl)" and "st n \<noteq> None"
proof -
  obtain x where x: "st c = Some x" "running (loc (n # rl) sq c) lv x (fr c)" using inv_current [OF i] .
  have L: "loc (n # rl) sq c = {}" using awake [OF x(2) f] by simp
  have d: "distinct (n # rl)" using invD(3) [OF i] .
  show nc: "c \<notin> set (n # rl)" using L by (simp add: loc_empty)
  have w: "loc (n # rl) sq n = {None}" "st n = Some READY" "\<exists>r. fr n = AfterSwitch # r \<or> fr n = ThreadBegin # r" "lev_ok IntOff (fr n)"
    using ready_where [OF i, of n] nc by auto
  show sn: "st n \<noteq> None" using w(2) by simp
  have T: "testers (st(c \<mapsto> READY, n \<mapsto> RUNNING)) (fr(c := AfterSwitch # SetLevelBack l # fs)) None sq s' = testers st fr None sq s'" for s'
    using te w(2) x(1) by (auto simp: testers_def)
  show "sched_inv n (st(c \<mapsto> READY, n \<mapsto> RUNNING)) (fr(c := AfterSwitch # SetLevelBack l # fs)) (rl @ [c]) None IntOff sv sq nt"
  proof (rule inv_intro)
    show "thread_inv n (st(c \<mapsto> READY, n \<mapsto> RUNNING)) (fr(c := AfterSwitch # SetLevelBack l # fs)) (rl @ [c]) None IntOff sq u" for u
    proof (cases "u = n")
      case True
      have "loc (rl @ [c]) sq n = {}" using w(1) by (simp add: loc_yield [OF d nc])
      then show ?thesis using True nc resumed [OF w(3,4)] by (auto simp: thread_inv_current)
    next
      case False
      show ?thesis
      proof (cases "u = c")
        case True
        have "loc (rl @ [c]) sq c = {None}" using L nc by (simp add: loc_yield [OF d nc])
        then show ?thesis using True False fs nc by (simp add: thread_inv_def suspended_def)
      next
        case nu: False
        show ?thesis by (rule thread_inv_other [OF nu _ _ _ False _ invD(1) [OF i]]) (use nu False in \<open>simp_all add: loc_yield [OF d nc]\<close>)
      qed
    qed
    show "nt \<le> u \<Longrightarrow> (st(c \<mapsto> READY, n \<mapsto> RUNNING)) u = None" for u using invD(7) [OF i, of u] w(2) x(1) by auto
    show "sv s \<le> int (card (testers (st(c \<mapsto> READY, n \<mapsto> RUNNING)) (fr(c := AfterSwitch # SetLevelBack l # fs)) None sq s))" if "sq s \<noteq> []" for s
      unfolding T using invD(8) [OF i that] .
  qed (use invD(4,5) [OF i] d nc in auto)
qed

text \<open>A finishing thread leaves the processor for good; the next thread deletes it.\<close>

lemma inv_switch_finish:
  assumes i: "sched_inv c st fr (n # rl) None IntOff sv sq nt" and f: "fr c = SleepLoop True # r"
  shows "sched_inv n (st(n \<mapsto> RUNNING)) (fr(c := AfterSwitch # r)) rl (Some c) IntOff sv sq nt" and "n \<noteq> c" and "st n \<noteq> None"
proof -
  obtain x where x: "st c = Some x" "running (loc (n # rl) sq c) IntOff x (fr c)" using inv_current [OF i] .
  have L: "loc (n # rl) sq c = {}" using x(2) f by (simp add: running_def)
  have d: "distinct (n # rl)" using invD(3) [OF i] .
  show nc: "n \<noteq> c" using L by (auto simp: loc_empty)
  have w: "loc (n # rl) sq n = {None}" "st n = Some READY" "\<exists>r. fr n = AfterSwitch # r \<or> fr n = ThreadBegin # r" "lev_ok IntOff (fr n)"
    using ready_where [OF i, of n] nc by auto
  show sn: "st n \<noteq> None" using w(2) by simp
  have T: "testers (st(n \<mapsto> RUNNING)) (fr(c := AfterSwitch # r)) (Some c) sq s' = testers st fr None sq s'" for s'
    using f w(2) x(1) by (auto simp: testers_def)
  show "sched_inv n (st(n \<mapsto> RUNNING)) (fr(c := AfterSwitch # r)) rl (Some c) IntOff sv sq nt"
  proof (rule inv_intro)
    show "thread_inv n (st(n \<mapsto> RUNNING)) (fr(c := AfterSwitch # r)) rl (Some c) IntOff sq u" for u
    proof (cases "u = n")
      case True
      have "loc rl sq n = {}" using w(1) d by (auto simp: loc_ready loc_empty)
      then show ?thesis using True nc resumed [OF w(3,4)] by (simp add: thread_inv_current)
    next
      case False
      then have lu: "loc rl sq u = loc (n # rl) sq u" using loc_tl [OF d] by simp
      show ?thesis
      proof (cases "u = c")
        case True
        then show ?thesis using False x(1) lu L by (simp add: thread_inv_def)
      next
        case nu: False
        show ?thesis by (rule thread_inv_other [OF nu _ _ lu False _ invD(1) [OF i]]) (use nu False in simp_all)
      qed
    qed
    show "nt \<le> u \<Longrightarrow> (st(n \<mapsto> RUNNING)) u = None" for u using invD(7) [OF i, of u] w(2) by auto
    show "sv s \<le> int (card (testers (st(n \<mapsto> RUNNING)) (fr(c := AfterSwitch # r)) (Some c) sq s))" if "sq s \<noteq> []" for s
      unfolding T using invD(8) [OF i that] .
    show "Some c = None \<or> (\<exists>t r'. Some c = Some t \<and> t \<noteq> n \<and> (st(n \<mapsto> RUNNING)) t \<noteq> None \<and>
        ((fr(c := AfterSwitch # r)) n = AfterSwitch # r' \<or> (fr(c := AfterSwitch # r)) n = ThreadBegin # r'))"
      using nc w(3) x(1) by auto
  qed (use invD(4,5) [OF i] d in auto)
qed

text \<open>\<^verbatim>\<open>CheckToBeDestroyed\<close>, run first by every thread that is switched to.\<close>

lemma inv_destroy:
  assumes i: "sched_inv c st fr rl (Some t) lv sv sq nt" and fs: "running {} lv' RUNNING fs"
    and te: "\<And>s. testing (fr c) = Some s \<Longrightarrow> testing fs = Some s"
  shows "sched_inv c (st(t := None)) (fr(t := [], c := fs)) rl None lv' sv sq nt" and "t \<noteq> c" and "st t \<noteq> None"
proof -
  obtain r where t: "t \<noteq> c" "st t \<noteq> None" "fr c = AfterSwitch # r \<or> fr c = ThreadBegin # r" using invD(6) [OF i] by auto
  show "t \<noteq> c" "st t \<noteq> None" by fact+
  obtain x where x: "st c = Some x" "running (loc rl sq c) lv x (fr c)" using inv_current [OF i] .
  have L: "loc rl sq c = {}" "x = RUNNING" using awake [OF x(2)] t(3) by auto
  have Lt: "loc rl sq t = {}" using invD(1) [OF i, of t] t(1) by (auto simp: thread_inv_def split: option.splits)
  have fin: "finite (testers (st(t := None)) (fr(t := [], c := fs)) None sq s')" for s'
    by (rule finite_testers [of nt]) (use invD(7) [OF i] in simp)
  show "sched_inv c (st(t := None)) (fr(t := [], c := fs)) rl None lv' sv sq nt"
  proof (rule inv_intro)
    show "thread_inv c (st(t := None)) (fr(t := [], c := fs)) rl None lv' sq u" for u
    proof (cases "u = c")
      case True
      then show ?thesis using x L fs t(1) by (simp add: thread_inv_current)
    next
      case False
      show ?thesis
      proof (cases "u = t")
        case True
        then show ?thesis using Lt by (simp add: thread_inv_def)
      next
        case nu: False
        show ?thesis by (rule thread_inv_other [OF False _ _ refl False _ invD(1) [OF i]]) (use nu False in simp_all)
      qed
    qed
    show "sv s \<le> int (card (testers (st(t := None)) (fr(t := [], c := fs)) None sq s))" if q: "sq s \<noteq> []" for s
    proof (rule enough_testers [OF invD(8) [OF i q] _ fin])
      show "testers st fr (Some t) sq s \<subseteq> testers (st(t := None)) (fr(t := [], c := fs)) None sq s"
        using te t(1) x(1) by (auto simp: testers_def)
    qed
    show "nt \<le> u \<Longrightarrow> (st(t := None)) u = None" for u using invD(7) [OF i, of u] by auto
  qed (use invD(2-5) [OF i] t(1) in auto)
qed


text \<open>\<^verbatim>\<open>Fork\<close>: a new thread at the end of the ready list.\<close>

lemma inv_fork:
  assumes i: "sched_inv c st fr rl None lv sv sq nt" and f: "\<And>b r. fr c \<noteq> CallSleep b # r" "\<And>b r. fr c \<noteq> SleepLoop b # r"
    and te: "testing (fr c) = None" and fs: "running {} lv' RUNNING fs" and new: "lev_ok IntOff (ThreadBegin # code)"
  shows "sched_inv c (st(nt \<mapsto> READY)) (fr(nt := ThreadBegin # code, c := fs)) (rl @ [nt]) None lv' sv sq (Suc nt)" and "nt \<notin> set rl" and "nt \<noteq> c"
proof -
  obtain x where x: "st c = Some x" "running (loc rl sq c) lv x (fr c)" using inv_current [OF i] .
  have L: "loc rl sq c = {}" "x = RUNNING" using awake [OF x(2) f] by auto
  have n: "st nt = None" using invD(7) [OF i] by simp
  then have ln: "loc rl sq nt = {}" using invD(1) [OF i, of nt] by (simp add: thread_inv_def)
  show nr: "nt \<notin> set rl" using ln by (simp add: loc_empty)
  show nc: "nt \<noteq> c" using n x(1) by auto
  have lu: "loc (rl @ [nt]) sq u = (if u = nt then {None} else loc rl sq u)" for u using ln by (auto simp: loc_def)
  show "sched_inv c (st(nt \<mapsto> READY)) (fr(nt := ThreadBegin # code, c := fs)) (rl @ [nt]) None lv' sv sq (Suc nt)"
  proof (rule inv_intro)
    show "thread_inv c (st(nt \<mapsto> READY)) (fr(nt := ThreadBegin # code, c := fs)) (rl @ [nt]) None lv' sq u" for u
    proof (cases "u = c")
      case True
      then show ?thesis using x L fs nc by (simp add: thread_inv_current lu)
    next
      case False
      show ?thesis
      proof (cases "u = nt")
        case True
        then show ?thesis using False new by (simp add: thread_inv_def lu suspended_def)
      next
        case nu: False
        show ?thesis by (rule thread_inv_other [OF False _ _ _ False _ invD(1) [OF i]]) (use nu False in \<open>simp_all add: lu\<close>)
      qed
    qed
    show "sv s \<le> int (card (testers (st(nt \<mapsto> READY)) (fr(nt := ThreadBegin # code, c := fs)) None sq s))" if q: "sq s \<noteq> []" for s
    proof (rule enough_testers [OF invD(8) [OF i q]])
      show "testers st fr None sq s \<subseteq> testers (st(nt \<mapsto> READY)) (fr(nt := ThreadBegin # code, c := fs)) None sq s"
        using te n by (auto simp: testers_def)
      show "finite (testers (st(nt \<mapsto> READY)) (fr(nt := ThreadBegin # code, c := fs)) None sq s)"
        by (rule finite_testers [of "Suc nt"]) (use invD(7) [OF i] in simp)
    qed
    show "Suc nt \<le> u \<Longrightarrow> (st(nt \<mapsto> READY)) u = None" for u using invD(7) [OF i, of u] by simp
  qed (use invD(2-5) [OF i] nr in auto)
qed

end
