(* ===== verification/Thread_Invariant.thy ===== *)
theory Thread_Invariant
  imports Scheduler_Invariant
begin

text \<open>
  Every step of a thread and every interrupt keeps the scheduler's invariant. One lemma \<open>..._inv\<close> per
  routine of \<^verbatim>\<open>thread.cc\<close>, \<^verbatim>\<open>scheduler.cc\<close> and \<^verbatim>\<open>synch.cc\<close> says that it returns, in a state with the
  invariant; \<open>thread_step_inv\<close> and \<open>kstep_inv\<close> put them together.
\<close>

lemma running_calm: "lev_ok lv fs \<Longrightarrow> calm fs \<Longrightarrow> running {} lv RUNNING fs"
  by (cases fs; cases "hd fs") (simp_all add: running_def)

lemma lev_ok_calm: "lev_ok lv (i # fs) \<Longrightarrow> calm fs"
  by simp

lemma inv_head:
  assumes i: "sched_inv c st fr rl tbd lv sv sq nt" and f: "fr c = i # fs" and t: "\<not> on_top i"
  shows "tbd = None" "lev_ok lv (i # fs)" "calm fs" "loc rl sq c = {}" "st c = Some RUNNING"
proof -
  obtain x where x: "st c = Some x" "running (loc rl sq c) lv x (fr c)" using inv_current [OF i] .
  show "lev_ok lv (i # fs)" "calm fs" using x(2) f unfolding running_def by auto
  have ns: "\<And>b r. fr c \<noteq> CallSleep b # r" "\<And>b r. fr c \<noteq> SleepLoop b # r" using f t by auto
  show "loc rl sq c = {}" "st c = Some RUNNING" using awake [OF x(2) ns] x(1) by auto
  show "tbd = None" using invD(6) [OF i] f t by auto
qed

text \<open>A step of a thread that calls, or returns, without touching a queue.\<close>

lemma inv_quiet:
  assumes "sched_inv c st fr rl tbd lv sv sq nt" and "fr c = i # fs" and "\<not> on_top i" and "testing (i # fs) = None"
    and "lev_ok lv' fs'" and "calm fs'"
  shows "sched_inv c st (fr(c := fs')) rl tbd lv' sv sq nt"
  by (rule inv_frames [OF assms(1)]) (use assms inv_head(1) [OF assms(1-3)] running_calm [OF assms(5,6)] in auto)

section \<open>The invariant of the kernel\<close>

definition stat :: "(nat \<rightharpoonup> thread) \<Rightarrow> nat \<rightharpoonup> ThreadStatus" where
  "stat m t = map_option tstatus (m t)"

definition sval :: "(semid \<Rightarrow> semaphore) \<Rightarrow> semid \<Rightarrow> int" where
  "sval ss s = semValue (ss s)"

definition squeue :: "(semid \<Rightarrow> semaphore) \<Rightarrow> semid \<Rightarrow> nat list" where
  "squeue ss s = semQueue (ss s)"

lemma stat_upd [simp]: "stat (m(t \<mapsto> th)) = (stat m)(t \<mapsto> tstatus th)" "stat (m(t := None)) = (stat m)(t := None)"
  by (auto simp: stat_def)

lemma sval_upd [simp]: "sval (ss(s := x)) = (sval ss)(s := semValue x)" "(sval ss)(s := semValue (ss s)) = sval ss"
  by (auto simp: sval_def)

lemma squeue_upd [simp]: "squeue (ss(s := x)) = (squeue ss)(s := semQueue x)" "(squeue ss)(s := semQueue (ss s)) = squeue ss"
  by (auto simp: squeue_def)

lemma stat_same: "threads k t = Some th \<Longrightarrow> (stat (threads k))(t \<mapsto> tstatus th) = stat (threads k)"
  by (auto simp: stat_def)

text \<open>The semaphores of \<^verbatim>\<open>Condition::Wait\<close> made so far are those with a number below \<open>nextWaiter\<close>.\<close>

fun waiter_below :: "nat \<Rightarrow> semid \<Rightarrow> bool" where
  "waiter_below n (WaitSem m) \<longleftrightarrow> m < n"
| "waiter_below n _ \<longleftrightarrow> True"

fun frame_below :: "nat \<Rightarrow> frame \<Rightarrow> bool" where
  "frame_below n (CallP s) \<longleftrightarrow> waiter_below n s"
| "frame_below n (CallV s) \<longleftrightarrow> waiter_below n s"
| "frame_below n (P_loop s) \<longleftrightarrow> waiter_below n s"
| "frame_below n _ \<longleftrightarrow> True"

definition waiters_ok :: "nat \<Rightarrow> (nat \<Rightarrow> frame list) \<Rightarrow> (nat \<Rightarrow> semid list) \<Rightarrow> (semid \<Rightarrow> nat list) \<Rightarrow> bool" where
  "waiters_ok nw fr wq sq \<longleftrightarrow> (\<forall>t. \<forall>i \<in> set (fr t). frame_below nw i) \<and>
     (\<forall>c. distinct (wq c) \<and> (\<forall>s \<in> set (wq c). \<exists>n < nw. s = WaitSem n)) \<and> (\<forall>n. nw \<le> n \<longrightarrow> sq (WaitSem n) = [])"

definition kernel_inv :: "kernel \<Rightarrow> bool" where
  "kernel_inv k \<longleftrightarrow>
     sched_inv (currentThread k) (stat (threads k)) (frames k) (readyList k) (toBeDestroyed k) (klevel k)
       (sval (sems k)) (squeue (sems k)) (nextThread k) \<and>
     waiters_ok (nextWaiter k) (frames k) (waitQueue k) (squeue (sems k))"

text \<open>What the functions run by threads may call: the public operations, on semaphores of their own.\<close>

fun api :: "frame \<Rightarrow> bool" where
  "api (CallP s) \<longleftrightarrow> (\<exists>n. s = UserSem n)"
| "api (CallV s) \<longleftrightarrow> (\<exists>n. s = UserSem n)"
| "api (P_loop s) \<longleftrightarrow> False"
| "api (SetLevelBack l) \<longleftrightarrow> False"
| "api (SetHolder l) \<longleftrightarrow> False"
| "api (DeleteWaiter s) \<longleftrightarrow> False"
| "api (CallSleep b) \<longleftrightarrow> False"
| "api (SleepLoop b) \<longleftrightarrow> False"
| "api AfterSwitch \<longleftrightarrow> False"
| "api ThreadBegin \<longleftrightarrow> False"
| "api _ \<longleftrightarrow> True"

lemma api_frames:
  assumes "\<forall>i \<in> set gs. api i" and "lev_ok lv fs" and "calm fs"
  shows "lev_ok lv (gs @ fs)" "calm (gs @ fs)" "\<forall>i \<in> set gs. frame_below n i"
proof -
  have a: "api i \<Longrightarrow> \<not> on_top i \<and> frame_below n i" for i by (cases i) auto
  show c: "calm (gs @ fs)" using assms a by (auto simp: calm_def)
  show "\<forall>i \<in> set gs. frame_below n i" using assms a by auto
  show "lev_ok lv (gs @ fs)" using assms(1) c
  proof (induction gs)
    case (Cons i gs)
    then show ?case by (cases i) auto
  qed (use assms(2) in simp)
qed

lemma waiters_frames:
  "waiters_ok nw fr wq sq \<Longrightarrow> (\<And>i. i \<in> set fs \<Longrightarrow> frame_below nw i) \<Longrightarrow> waiters_ok nw (fr(t := fs)) wq sq"
  by (auto simp: waiters_ok_def)

lemma waiters_tail: "waiters_ok nw fr wq sq \<Longrightarrow> fr t = i # fs \<Longrightarrow> j \<in> set (i # fs) \<Longrightarrow> frame_below nw j"
  unfolding waiters_ok_def by metis

section \<open>Calls and returns\<close>

lemma kernel_invD:
  assumes "kernel_inv k"
  shows "sched_inv (currentThread k) (stat (threads k)) (frames k) (readyList k) (toBeDestroyed k) (klevel k)
       (sval (sems k)) (squeue (sems k)) (nextThread k)"
    and "waiters_ok (nextWaiter k) (frames k) (waitQueue k) (squeue (sems k))"
  using assms by (simp_all add: kernel_inv_def)

lemma quiet_inv:
  assumes k: "kernel_inv k" and f: "frames k (currentThread k) = i # fs" "\<not> on_top i" "testing (i # fs) = None"
    and r: "running {} (klevel k') RUNNING fs'"
    and eq: "currentThread k' = currentThread k" "stat (threads k') = stat (threads k)" "frames k' = (frames k)(currentThread k := fs')"
      "readyList k' = readyList k" "toBeDestroyed k' = toBeDestroyed k" "sems k' = sems k" "nextThread k' = nextThread k"
      "waitQueue k' = waitQueue k" "nextWaiter k' = nextWaiter k"
    and w: "\<And>j. j \<in> set fs' \<Longrightarrow> frame_below (nextWaiter k) j"
  shows "kernel_inv k'"
proof -
  note i = kernel_invD [OF k]
  have "sched_inv (currentThread k) (stat (threads k)) ((frames k)(currentThread k := fs')) (readyList k) (toBeDestroyed k)
      (klevel k') (sval (sems k)) (squeue (sems k)) (nextThread k)"
    by (rule inv_frames [OF i(1)]) (use f inv_head(1) [OF i(1) f(1,2)] r in auto)
  then show ?thesis using eq waiters_frames [OF i(2) w] by (simp add: kernel_inv_def)
qed

lemma head_facts:
  assumes "kernel_inv k" and "frames k (currentThread k) = i # fs" and "\<not> on_top i"
  shows "toBeDestroyed k = None" "lev_ok (klevel k) (i # fs)" "calm fs" "\<exists>th. threads k (currentThread k) = Some th \<and> tstatus th = RUNNING"
    "frame_below (nextWaiter k) i" "\<And>j. j \<in> set fs \<Longrightarrow> frame_below (nextWaiter k) j"
proof -
  note i = kernel_invD [OF assms(1)]
  show "toBeDestroyed k = None" "lev_ok (klevel k) (i # fs)" "calm fs" using inv_head [OF i(1) assms(2,3)] by blast+
  show "\<exists>th. threads k (currentThread k) = Some th \<and> tstatus th = RUNNING" using inv_head(5) [OF i(1) assms(2,3)] by (auto simp: stat_def)
  show "frame_below (nextWaiter k) i" "\<And>j. j \<in> set fs \<Longrightarrow> frame_below (nextWaiter k) j"
    using waiters_tail [OF i(2) assms(2)] by simp_all
qed

text \<open>Calls and returns that touch no queue.\<close>

definition pop :: "kernel \<Rightarrow> kernel" where
  "pop k = k\<lparr>frames := (frames k)(currentThread k := tl (frames k (currentThread k)))\<rparr>"

lemma pop_simps [simp]:
  "currentThread (pop k) = currentThread k" "threads (pop k) = threads k" "readyList (pop k) = readyList k" "toBeDestroyed (pop k) = toBeDestroyed k"
  "klevel (pop k) = klevel k" "sems (pop k) = sems k" "nextThread (pop k) = nextThread k" "waitQueue (pop k) = waitQueue k"
  "nextWaiter (pop k) = nextWaiter k" "lockHolder (pop k) = lockHolder k" "cpuRegisters (pop k) = cpuRegisters k" "cpuPageTable (pop k) = cpuPageTable k"
  "frames (pop k) = (frames k)(currentThread k := tl (frames k (currentThread k)))"
  by (simp_all add: pop_def)

lemma push_simps [simp]:
  "currentThread (push g k) = currentThread k" "threads (push g k) = threads k" "readyList (push g k) = readyList k" "toBeDestroyed (push g k) = toBeDestroyed k"
  "klevel (push g k) = klevel k" "sems (push g k) = sems k" "nextThread (push g k) = nextThread k" "waitQueue (push g k) = waitQueue k"
  "nextWaiter (push g k) = nextWaiter k" "lockHolder (push g k) = lockHolder k" "cpuRegisters (push g k) = cpuRegisters k" "cpuPageTable (push g k) = cpuPageTable k"
  "frames (push g k) = (frames k)(currentThread k := g @ frames k (currentThread k))"
  by (simp_all add: push_def)

lemma simple_steps:
  assumes k: "kernel_inv k" and f: "frames k (currentThread k) = i # fs" and api: "\<And>n k. \<forall>j \<in> set (prog n k). api j"
    and i: "i \<in> {CallP s, CallAcquire l, CallBroadcast c l, CallFinish, CallCode n, CallExecute sp regs, UserInstruction, SetLevelBack lv, SetHolder l, DeleteWaiter s}"
  shows "returns kernel_inv (exec prog cpu i (pop k))"
proof -
  have t: "\<not> on_top i" "testing (i # fs) = None" using i by auto
  note h = head_facts [OF k f t(1)]
  obtain th where th: "threads k (currentThread k) = Some th" using h(4) by blast
  show ?thesis using i
    apply (elim insertE emptyE)
    subgoal by (simp add: Semaphore_P_def, rule quiet_inv [OF k f t], rule running_calm) (use h f in auto)
    subgoal by (simp add: Acquire_def, rule quiet_inv [OF k f t], rule running_calm) (use h f in auto)
    subgoal by (simp add: Broadcast_def, intro conjI impI; rule quiet_inv [OF k f t], rule running_calm) (use h f in auto)
    subgoal by (simp add: Finish_def, rule quiet_inv [OF k f t]) (use h f in \<open>auto simp: running_def\<close>)
    subgoal by (simp, rule quiet_inv [OF k f t], rule running_calm) (use h f api_frames [OF api, of "klevel k" fs] in auto)
    subgoal by (simp add: Execute_def th, rule quiet_inv [OF k f t], rule running_calm) (use h f stat_same [OF th] in auto)
    subgoal by (simp, rule quiet_inv [OF k f t], rule running_calm) (use h f in auto)
    subgoal by (simp, rule quiet_inv [OF k f t], rule running_calm) (use h f in auto)
    subgoal by (simp add: set_holder_def, rule quiet_inv [OF k f t], rule running_calm) (use h f in auto)
    subgoal by (simp, rule quiet_inv [OF k f t], rule running_calm) (use h f in auto)
    done
qed

section \<open>Semaphores\<close>

text \<open>\<^verbatim>\<open>V\<close> with interrupts disabled, as \<^verbatim>\<open>Semaphore::V\<close> and the interrupt handlers run it.\<close>

lemma waiters_queue: "waiters_ok nw fr wq sq \<Longrightarrow> waiter_below nw s \<or> q = [] \<Longrightarrow> waiters_ok nw fr wq (sq(s := q))"
  by (cases s) (auto simp: waiters_ok_def)

lemma V_body_inv:
  assumes k: "kernel_inv k" and off: "klevel k = IntOff" and ns: "\<And>r. frames k (currentThread k) \<noteq> CallSleep False # r"
    and s: "waiter_below (nextWaiter k) s"
  shows "returns (\<lambda>k'. kernel_inv k' \<and> klevel k' = IntOff \<and> frames k' = frames k \<and> currentThread k' = currentThread k \<and> nextWaiter k' = nextWaiter k \<and>
    lockHolder k' = lockHolder k) (V_body s k)"
proof (cases "semQueue (sems k s)")
  case Nil
  have "squeue (sems k) s = []" using Nil by (simp add: squeue_def)
  moreover have "(squeue (sems k))(s := []) = squeue (sems k)" using Nil by (auto simp: squeue_def)
  ultimately show ?thesis using inv_signal_none [OF kernel_invD(1) [OF k], of s] Nil off kernel_invD(2) [OF k] by (simp add: V_body_def kernel_inv_def sval_def [of _ s])
next
  case (Cons t q)
  then have q: "squeue (sems k) s = t # q" by (simp add: squeue_def)
  note w = inv_wake [OF kernel_invD(1) [OF k] q ns]
  obtain th where th: "threads k t = Some th" using w(3) by (auto simp: stat_def)
  have "list_Append (readyList k) t = Inr (readyList k @ [t])" using w(2) by (simp add: list_Append_def)
  then show ?thesis using w(1) waiters_queue [OF kernel_invD(2) [OF k], of s q] s Cons off th
    by (simp add: V_body_def ReadyToRun_def setStatus_def list_RemoveFront_def kernel_inv_def sval_def [of _ s])
qed

lemma V_body_push: "V_body s (push g k) = bindR (V_body s k) (\<lambda>k. Inr (push g k))"
proof (cases "semQueue (sems k s)")
  case Nil
  then show ?thesis by (simp add: V_body_def push_def)
next
  case (Cons t q)
  then show ?thesis
    by (cases "threads k t"; cases "klevel k"; cases "list_Append (readyList k) t")
       (simp_all add: V_body_def list_RemoveFront_def ReadyToRun_def setStatus_def push_def)
qed

lemma V_inv:
  assumes k: "kernel_inv k" and f: "frames k (currentThread k) = CallV s # fs"
  shows "returns kernel_inv (Semaphore_V s (pop k))"
proof -
  have t: "\<not> on_top (CallV s)" "testing (CallV s # fs) = None" by simp_all
  note h = head_facts [OF k f t(1)]
  let ?k = "(pop k)\<lparr>klevel := IntOff\<rparr>"
  have "kernel_inv (push [SetLevelBack (klevel k)] ?k)"
    by (rule quiet_inv [OF k f t], rule running_calm) (use h f in auto)
  then have "returns (\<lambda>k'. kernel_inv k') (V_body s (push [SetLevelBack (klevel k)] ?k))"
    by (rule returns_mono [OF V_body_inv]) (use h(5) in auto)
  then show ?thesis
    by (simp add: Semaphore_V_def Let_def V_body_push)
qed

lemma P_loop_inv:
  assumes k: "kernel_inv k" and f: "frames k (currentThread k) = P_loop s # fs"
  shows "returns kernel_inv (run_P_loop s (pop k))"
proof -
  have t: "\<not> on_top (P_loop s)" by simp
  note h = head_facts [OF k f t] and i = kernel_invD(1) [OF k]
  have off: "klevel k = IntOff" using h(2) by simp
  note i' = i [unfolded h(1) off]
  show ?thesis
  proof (cases "semValue (sems k s) = 0")
    case True
    then have v: "sval (sems k) s = 0" by (simp add: sval_def)
    note w = inv_wait [OF i' f v]
    have "list_Append (semQueue (sems k s)) (currentThread k) = Inr (semQueue (sems k s) @ [currentThread k])"
      using w(2) by (simp add: list_Append_def squeue_def)
    moreover have "waiters_ok (nextWaiter k) ((frames k)(currentThread k := CallSleep False # P_loop s # fs)) (waitQueue k)
        ((squeue (sems k))(s := squeue (sems k) s @ [currentThread k]))"
      by (intro waiters_queue waiters_frames kernel_invD(2) [OF k]) (use h in auto)
    moreover have "(sval (sems k))(s := 0) = sval (sems k)" using v by auto
    ultimately show ?thesis using w(1) True f h(1) off by (simp add: run_P_loop_def Let_def kernel_inv_def squeue_def [of _ s])
  next
    case False
    then have v: "0 < sval (sems k) s" using invD(5) [OF i, of s] by (simp add: sval_def)
    have "running {} IntOff RUNNING fs" by (rule running_calm) (use h in auto)
    from inv_take [OF i' f v this] False f h(1) off show ?thesis
      using waiters_frames [OF kernel_invD(2) [OF k], of fs] h(6) by (simp add: run_P_loop_def Let_def kernel_inv_def sval_def [of _ s])
  qed
qed

section \<open>Switches\<close>

definition saved :: "kernel \<Rightarrow> thread \<Rightarrow> thread" where
  "saved k th = (if space th \<noteq> None then th\<lparr>userRegisters := cpuRegisters k\<rparr> else th)"

lemma saved_fields [simp]: "tstatus (saved k th) = tstatus th" "space (saved k th) = space th"
  by (simp_all add: saved_def)

lemma Run_spec:
  assumes "klevel k = IntOff" and "threads k (currentThread k) = Some th" and "threads k n \<noteq> None" and "finishing \<Longrightarrow> toBeDestroyed k = None"
  defines "m \<equiv> (threads k)(currentThread k \<mapsto> saved k th)"
  shows "Run n finishing k = Inr (k\<lparr>toBeDestroyed := if finishing then Some (currentThread k) else toBeDestroyed k,
      threads := m(n \<mapsto> (the (m n))\<lparr>tstatus := RUNNING\<rparr>),
      frames := (frames k)(currentThread k := AfterSwitch # frames k (currentThread k)), currentThread := n\<rparr>)"
  using assms by (auto simp: Run_def Let_def SaveUserState_def setStatus_def saved_def push_def map_upd_triv)

lemma Yield_inv:
  assumes k: "kernel_inv k" and f: "frames k (currentThread k) = CallYield # fs"
  shows "returns kernel_inv (Yield (pop k))"
proof -
  have t: "\<not> on_top CallYield" "testing (CallYield # fs) = None" by simp_all
  note h = head_facts [OF k f t(1)] and i = kernel_invD(1) [OF k]
  obtain th where th: "threads k (currentThread k) = Some th" "tstatus th = RUNNING" using h(4) by blast
  have l: "lev_ok IntOff (SetLevelBack (klevel k) # fs)" using h(2,3) by simp
  show ?thesis
  proof (cases "readyList k")
    case Nil
    have "kernel_inv (push [SetLevelBack (klevel k)] ((pop k)\<lparr>klevel := IntOff\<rparr>))"
      by (rule quiet_inv [OF k f t], rule running_calm) (use h f in auto)
    then show ?thesis using Nil by (simp add: Yield_def FindNextToRun_def Let_def)
  next
    case (Cons n rl)
    note w = inv_switch_yield [OF i [unfolded h(1) Cons] _ _ _ l, unfolded f, simplified t list.simps frame.simps]
    have r: "list_Append rl (currentThread k) = Inr (rl @ [currentThread k])" using w(2) by (simp add: list_Append_def)
    have "threads k n \<noteq> None" "n \<noteq> currentThread k" using w(2,3) by (auto simp: stat_def)
    moreover have "waiters_ok (nextWaiter k) ((frames k)(currentThread k := AfterSwitch # SetLevelBack (klevel k) # fs)) (waitQueue k) (squeue (sems k))"
      by (rule waiters_frames [OF kernel_invD(2) [OF k]]) (use h(6) in auto)
    ultimately show ?thesis using w(1) h(1) f th r Cons
      by (auto simp: Yield_def FindNextToRun_def Let_def list_RemoveFront_def ReadyToRun_def setStatus_def Run_spec kernel_inv_def)
  qed
qed

lemma Sleep_inv:
  assumes k: "kernel_inv k" and f: "frames k (currentThread k) = CallSleep b # fs"
  shows "returns kernel_inv (Sleep b (pop k))"
proof -
  note i = kernel_invD [OF k]
  have td: "toBeDestroyed k = None" using invD(6) [OF i(1)] f by auto
  obtain x where x: "stat (threads k) (currentThread k) = Some x" "running (loc (readyList k) (squeue (sems k)) (currentThread k)) (klevel k) x (CallSleep b # fs)"
    using inv_current [OF i(1)] f by auto
  then have off: "klevel k = IntOff" and th: "threads k (currentThread k) \<noteq> None" by (auto simp: running_def stat_def)
  have "waiters_ok (nextWaiter k) ((frames k)(currentThread k := SleepLoop b # fs)) (waitQueue k) (squeue (sems k))"
    by (rule waiters_frames [OF i(2)]) (use waiters_tail [OF i(2) f] in auto)
  then show ?thesis using inv_sleep [OF i(1) [unfolded td] f] off th td f
    by (auto simp: Sleep_def setStatus_def kernel_inv_def)
qed

lemma SleepLoop_inv:
  assumes k: "kernel_inv k" and f: "frames k (currentThread k) = SleepLoop b # fs"
  shows "returns kernel_inv (run_SleepLoop b (pop k))"
proof -
  note i = kernel_invD [OF k]
  have td: "toBeDestroyed k = None" using invD(6) [OF i(1)] f by auto
  obtain x where x: "stat (threads k) (currentThread k) = Some x" "running (loc (readyList k) (squeue (sems k)) (currentThread k)) (klevel k) x (SleepLoop b # fs)"
    using inv_current [OF i(1)] f by auto
  then obtain th where off: "klevel k = IntOff" and th: "threads k (currentThread k) = Some th" by (auto simp: running_def stat_def)
  have w: "waiters_ok (nextWaiter k) ((frames k)(currentThread k := AfterSwitch # fs)) (waitQueue k) (squeue (sems k))"
    by (rule waiters_frames [OF i(2)]) (use waiters_tail [OF i(2) f] in auto)
  show ?thesis
  proof (cases "readyList k")
    case Nil
    have "push [SleepLoop b] (pop k) = k" using f by (simp add: push_def pop_def fun_upd_idem)
    then show ?thesis using Nil off k by (simp add: run_SleepLoop_def FindNextToRun_def)
  next
    case (Cons n rl)
    note i' = i(1) [unfolded td Cons off]
    have run: "run_SleepLoop b (pop k) = Run n b ((pop k)\<lparr>readyList := rl\<rparr>)"
      using Cons off by (simp add: run_SleepLoop_def FindNextToRun_def list_RemoveFront_def)
    show ?thesis
    proof (cases b)
      case True
      have "frames k (currentThread k) = SleepLoop True # fs" using f True by simp
      note s = inv_switch_finish [OF i' this]
      then have n: "threads k n \<noteq> None" by (auto simp: stat_def)
      then show ?thesis unfolding run using s(1) w True off th td f n
        by (simp add: Run_spec kernel_inv_def stat_same [OF th])
    next
      case False
      have "running (loc (readyList k) (squeue (sems k)) (currentThread k)) (klevel k) x (SleepLoop False # fs)" using x(2) False by simp
      from running_SleepLoop [OF this] obtain s r where fs: "fs = P_loop s # r" by blast
      have "frames k (currentThread k) = SleepLoop False # P_loop s # r" using f False fs by simp
      note s = inv_switch_asleep [OF i' this]
      then have n: "threads k n \<noteq> None" by (auto simp: stat_def)
      then show ?thesis unfolding run using s(1) w False off th td f n fs
        by (simp add: Run_spec kernel_inv_def stat_same [OF th])
    qed
  qed
qed

lemma destroy_inv:
  assumes k: "kernel_inv k" and f: "frames k (currentThread k) = i # fs" and fs: "running {} lv RUNNING fs'"
    and te: "\<And>s. testing (i # fs) = Some s \<Longrightarrow> testing fs' = Some s" and i: "i = AfterSwitch \<or> i = ThreadBegin"
    and w: "\<And>j. j \<in> set fs' \<Longrightarrow> frame_below (nextWaiter k) j"
  shows "\<exists>k'. CheckToBeDestroyed (pop k) = Inr k' \<and> kernel_inv (k'\<lparr>frames := (frames k')(currentThread k := fs'), klevel := lv\<rparr>) \<and>
    currentThread k' = currentThread k \<and> klevel k' = klevel k \<and> frames k' (currentThread k) = fs \<and> threads k' (currentThread k) = threads k (currentThread k) \<and>
    cpuRegisters k' = cpuRegisters k \<and> cpuPageTable k' = cpuPageTable k"
proof (cases "toBeDestroyed k")
  case None
  have "sched_inv (currentThread k) (stat (threads k)) ((frames k)(currentThread k := fs')) (readyList k) (toBeDestroyed k) lv
      (sval (sems k)) (squeue (sems k)) (nextThread k)"
    by (rule inv_frames [OF kernel_invD(1) [OF k] None]) (use f i fs te in auto)
  then show ?thesis using None waiters_frames [OF kernel_invD(2) [OF k] w] f by (simp add: CheckToBeDestroyed_def kernel_inv_def)
next
  case (Some t)
  note d = inv_destroy [OF kernel_invD(1) [OF k, unfolded Some] fs, unfolded f, OF te]
  have "waiters_ok (nextWaiter k) ((frames k)(t := [], currentThread k := fs')) (waitQueue k) (squeue (sems k))"
    by (intro waiters_frames kernel_invD(2) [OF k]) (use w in auto)
  then show ?thesis using d Some f by (simp add: CheckToBeDestroyed_def kernel_inv_def fun_upd_twist)
qed

lemma AfterSwitch_inv:
  assumes k: "kernel_inv k" and f: "frames k (currentThread k) = AfterSwitch # fs"
  shows "returns kernel_inv (run_AfterSwitch (pop k))"
proof -
  note i = kernel_invD [OF k]
  obtain x where x: "stat (threads k) (currentThread k) = Some x" "running (loc (readyList k) (squeue (sems k)) (currentThread k)) (klevel k) x (AfterSwitch # fs)"
    using inv_current [OF i(1)] f by auto
  then obtain th where off: "klevel k = IntOff" and th: "threads k (currentThread k) = Some th" and l: "lev_ok IntOff fs" "calm fs"
    by (auto simp: running_def stat_def)
  have te: "testing (AfterSwitch # fs) = Some s \<Longrightarrow> testing fs = Some s" for s by (cases fs; cases "hd fs") auto
  have w: "j \<in> set fs \<Longrightarrow> frame_below (nextWaiter k) j" for j using waiters_tail [OF i(2) f] by simp
  obtain k' where k': "CheckToBeDestroyed (pop k) = Inr k'" "kernel_inv (k'\<lparr>frames := (frames k')(currentThread k := fs), klevel := IntOff\<rparr>)"
    "currentThread k' = currentThread k" "klevel k' = IntOff" "frames k' (currentThread k) = fs" "threads k' (currentThread k) = Some th"
    using destroy_inv [OF k f running_calm [OF l] te _ w] off th by auto
  have "k'\<lparr>frames := (frames k')(currentThread k := fs), klevel := IntOff\<rparr> = k'" using k'(4,5) by (simp add: fun_upd_idem)
  then have "kernel_inv k'" using k'(2) by simp
  then show ?thesis using k' off by (simp add: run_AfterSwitch_def RestoreUserState_def kernel_inv_def)
qed

lemma Begin_inv:
  assumes k: "kernel_inv k" and f: "frames k (currentThread k) = ThreadBegin # fs"
  shows "returns kernel_inv (Begin (pop k))"
proof -
  note i = kernel_invD [OF k]
  obtain x where x: "stat (threads k) (currentThread k) = Some x" "running (loc (readyList k) (squeue (sems k)) (currentThread k)) (klevel k) x (ThreadBegin # fs)"
    using inv_current [OF i(1)] f by auto
  then have off: "klevel k = IntOff" and l: "lev_ok IntOff (SetLevelBack IntOn # fs)" "calm (SetLevelBack IntOn # fs)"
    by (auto simp: running_def stat_def)
  have w: "j \<in> set (SetLevelBack IntOn # fs) \<Longrightarrow> frame_below (nextWaiter k) j" for j using waiters_tail [OF i(2) f] by auto
  obtain k' where k': "CheckToBeDestroyed (pop k) = Inr k'" "kernel_inv (k'\<lparr>frames := (frames k')(currentThread k := SetLevelBack IntOn # fs), klevel := IntOff\<rparr>)"
    "currentThread k' = currentThread k" "klevel k' = IntOff" "frames k' (currentThread k) = fs"
    using destroy_inv [OF k f running_calm [OF l] _ _ w] off by auto
  then show ?thesis by (simp add: Begin_def push_def kernel_inv_def)
qed

section \<open>Fork, locks and condition variables\<close>

lemma Fork_inv:
  assumes k: "kernel_inv k" and f: "frames k (currentThread k) = CallFork n # fs"
  shows "returns kernel_inv (Fork n (pop k))"
proof -
  have t: "\<not> on_top (CallFork n)" "testing (CallFork n # fs) = None" by simp_all
  note h = head_facts [OF k f t(1)] and i = kernel_invD [OF k]
  let ?new = "ThreadBegin # [CallCode n, CallFinish]" and ?fs = "SetLevelBack (klevel k) # fs"
  have "running {} IntOff RUNNING ?fs" by (rule running_calm) (use h in auto)
  note w = inv_fork [OF i(1) [unfolded h(1)] _ _ _ this, of "[CallCode n, CallFinish]", unfolded f, simplified]
  have r: "list_Append (readyList k) (nextThread k) = Inr (readyList k @ [nextThread k])" using w(2) by (simp add: list_Append_def)
  have "waiters_ok (nextWaiter k) ((frames k)(nextThread k := ?new, currentThread k := ?fs)) (waitQueue k) (squeue (sems k))"
    by (intro waiters_frames i(2)) (use h(6) in auto)
  then show ?thesis using w(1,3) r f h(1)
    by (simp add: Fork_def Let_def ReadyToRun_def setStatus_def kernel_inv_def fun_upd_twist)
qed

lemma Release_inv:
  assumes k: "kernel_inv k" and f: "frames k (currentThread k) = CallRelease l # fs" and own: "IsHeldByCurrentThread l k"
  shows "returns kernel_inv (Release l (pop k))"
proof -
  have t: "\<not> on_top (CallRelease l)" "testing (CallRelease l # fs) = None" by simp_all
  note h = head_facts [OF k f t(1)]
  have "kernel_inv (push [CallV (LockSem l)] ((pop k)\<lparr>lockHolder := (lockHolder k)(l := None)\<rparr>))"
    by (rule quiet_inv [OF k f t], rule running_calm) (use h f in auto)
  then show ?thesis using own by (simp add: Release_def IsHeldByCurrentThread_def)
qed

lemma Signal_inv:
  assumes k: "kernel_inv k" and f: "frames k (currentThread k) = CallSignal c l # fs" and own: "IsHeldByCurrentThread l k"
  shows "returns kernel_inv (Signal c l (pop k))"
proof -
  have t: "\<not> on_top (CallSignal c l)" "testing (CallSignal c l # fs) = None" by simp_all
  note h = head_facts [OF k f t(1)] and i = kernel_invD [OF k]
  show ?thesis
  proof (cases "waitQueue k c")
    case Nil
    have "kernel_inv (pop k)" by (rule quiet_inv [OF k f t], rule running_calm) (use h f in auto)
    then show ?thesis using Nil own by (simp add: Signal_def IsHeldByCurrentThread_def)
  next
    case (Cons s q)
    then have s: "waiter_below (nextWaiter k) s" and q: "distinct q" "\<forall>s \<in> set q. \<exists>n < nextWaiter k. s = WaitSem n"
      using i(2) unfolding waiters_ok_def by (metis distinct.simps(2) list.set_intros waiter_below.simps(1))+
    have "sched_inv (currentThread k) (stat (threads k)) ((frames k)(currentThread k := CallV s # fs)) (readyList k) (toBeDestroyed k)
      (klevel k) (sval (sems k)) (squeue (sems k)) (nextThread k)"
      by (rule inv_quiet [OF i(1) f t]) (use h in auto)
    moreover have "waiters_ok (nextWaiter k) ((frames k)(currentThread k := CallV s # fs)) ((waitQueue k)(c := q)) (squeue (sems k))"
      using i(2) s q h(6) by (auto simp: waiters_ok_def)
    ultimately show ?thesis using Cons own f by (simp add: Signal_def IsHeldByCurrentThread_def list_RemoveFront_def kernel_inv_def)
  qed
qed

lemma waiter_Suc: "waiter_below n s \<Longrightarrow> waiter_below (Suc n) s"
  by (cases s) simp_all

lemma below_Suc: "frame_below n j \<Longrightarrow> frame_below (Suc n) j"
  by (cases j) (simp_all add: waiter_Suc)

lemma Wait_inv:
  assumes k: "kernel_inv k" and f: "frames k (currentThread k) = CallWait c l # fs" and own: "IsHeldByCurrentThread l k"
  shows "returns kernel_inv (Wait c l (pop k))"
proof -
  have t: "\<not> on_top (CallWait c l)" "testing (CallWait c l # fs) = None" by simp_all
  note h = head_facts [OF k f t(1)] and i = kernel_invD [OF k]
  let ?w = "WaitSem (nextWaiter k)"
  let ?fs = "CallRelease l # CallP ?w # CallAcquire l # DeleteWaiter ?w # fs"
  have e: "squeue (sems k) ?w = []" and nw: "?w \<notin> set (waitQueue k c)" using i(2) by (auto simp: waiters_ok_def)
  then have a: "list_Append (waitQueue k c) ?w = Inr (waitQueue k c @ [?w])" by (simp add: list_Append_def)
  have "sched_inv (currentThread k) (stat (threads k)) ((frames k)(currentThread k := ?fs)) (readyList k) (toBeDestroyed k)
      (klevel k) (sval (sems k)) (squeue (sems k)) (nextThread k)"
    by (rule inv_quiet [OF i(1) f t]) (use h in auto)
  from inv_value [OF this e, of 0] have "sched_inv (currentThread k) (stat (threads k)) ((frames k)(currentThread k := ?fs)) (readyList k) (toBeDestroyed k)
      (klevel k) ((sval (sems k))(?w := 0)) (squeue (sems k)) (nextThread k)" by simp
  moreover have "(squeue (sems k))(?w := []) = squeue (sems k)" using e by auto
  moreover have "waiters_ok (Suc (nextWaiter k)) ((frames k)(currentThread k := ?fs)) ((waitQueue k)(c := waitQueue k c @ [?w])) (squeue (sems k))"
  proof -
    have "\<forall>i \<in> set (((frames k)(currentThread k := ?fs)) t). frame_below (Suc (nextWaiter k)) i" for t
      using i(2) below_Suc h(6) by (auto simp: waiters_ok_def)
    moreover have m: "\<exists>n < Suc (nextWaiter k). s = WaitSem n" if "s \<in> set (waitQueue k c')" for s c'
      using i(2) that unfolding waiters_ok_def by (metis less_SucI)
    ultimately show ?thesis using i(2) nw by (auto simp: waiters_ok_def intro: m)
  qed
  ultimately show ?thesis using own f a
    by (simp add: Wait_def Let_def IsHeldByCurrentThread_def Semaphore_new_def kernel_inv_def)
qed

fun needs_lock :: "frame \<Rightarrow> nat option" where
  "needs_lock (CallRelease l) = Some l"
| "needs_lock (CallWait c l) = Some l"
| "needs_lock (CallSignal c l) = Some l"
| "needs_lock _ = None"

text \<open>
  A thread never fails, except when it releases, waits with or signals with a lock it does not hold.
\<close>

lemma thread_step_inv:
  assumes k: "kernel_inv k" and api: "\<And>n k. \<forall>j \<in> set (prog n k). api j"
  shows "\<exists>i fs. frames k (currentThread k) = i # fs \<and>
    (case needs_lock i of Some l \<Rightarrow> if IsHeldByCurrentThread l k then returns kernel_inv (thread_step prog cpu k) else thread_step prog cpu k = Inl AssertFailed
     | None \<Rightarrow> returns kernel_inv (thread_step prog cpu k))"
proof -
  obtain x where "running (loc (readyList k) (squeue (sems k)) (currentThread k)) (klevel k) x (frames k (currentThread k))"
    using inv_current [OF kernel_invD(1) [OF k]] by auto
  then obtain i fs where f: "frames k (currentThread k) = i # fs" by (cases "frames k (currentThread k)") (auto simp: running_def)
  have ts: "thread_step prog cpu k = exec prog cpu i (pop k)" using f by (simp add: thread_step_def pop_def)
  note S = simple_steps [OF k f api]
  have "case needs_lock i of Some l \<Rightarrow> if IsHeldByCurrentThread l k then returns kernel_inv (exec prog cpu i (pop k)) else exec prog cpu i (pop k) = Inl AssertFailed
     | None \<Rightarrow> returns kernel_inv (exec prog cpu i (pop k))"
    apply (cases i)
    subgoal for s using S [of s] by simp
    subgoal for s using V_inv [OF k] f by simp
    subgoal for l using S [of _ l] by simp
    subgoal for l using Release_inv [OF k] f by (simp add: Release_def IsHeldByCurrentThread_def)
    subgoal for c l using Wait_inv [OF k] f by (simp add: Wait_def IsHeldByCurrentThread_def)
    subgoal for c l using Signal_inv [OF k] f by (simp add: Signal_def IsHeldByCurrentThread_def)
    subgoal for c l using S [of _ l c] by simp
    subgoal using Yield_inv [OF k] f by simp
    subgoal for n using Fork_inv [OF k] f by simp
    subgoal using S by simp
    subgoal for n using S [of _ _ _ n] by simp
    subgoal for sp regs using S [of _ _ _ _ sp regs] by simp
    subgoal using S by simp
    subgoal for s using P_loop_inv [OF k] f by simp
    subgoal for lv using S [of _ _ _ _ _ _ lv] by simp
    subgoal for l using S [of _ l] by simp
    subgoal for s using S [of s] by simp
    subgoal for b using Sleep_inv [OF k] f by simp
    subgoal for b using SleepLoop_inv [OF k] f by simp
    subgoal using AfterSwitch_inv [OF k] f by simp
    subgoal using Begin_inv [OF k] f by simp
    done
  then show ?thesis unfolding ts using f by (intro exI [of _ i] exI [of _ fs] conjI)
qed

section \<open>Interrupts and runs\<close>

lemma lev_ok_off: "lev_ok lv fs \<Longrightarrow> lev_ok IntOff fs"
proof (induction lv fs rule: lev_ok.induct)
  case (2 l i fs)
  then show ?case by (cases i) (auto split: list.splits frame.splits)
qed simp

lemma enabled_calm:
  assumes "kernel_inv k" and "klevel k = IntOn"
  shows "calm (frames k (currentThread k))" "lev_ok IntOn (frames k (currentThread k))" "testing (frames k (currentThread k)) = None" "toBeDestroyed k = None"
proof -
  note i = kernel_invD(1) [OF assms(1)]
  from inv_current [OF i] have l: "lev_ok IntOn (frames k (currentThread k))" using assms(2) by (auto simp: running_def)
  then obtain f fs where f: "frames k (currentThread k) = f # fs" "lev_ok IntOn (f # fs)" by (cases "frames k (currentThread k)") simp_all
  then have "\<not> on_top f" "testing (f # fs) = None" by (cases f; simp)+
  then show "calm (frames k (currentThread k))" "testing (frames k (currentThread k)) = None" using f by auto
  show "toBeDestroyed k = None" using inv_head(1) [OF i f(1)] \<open>\<not> on_top f\<close> .
qed (use inv_current [OF kernel_invD(1) [OF assms(1)]] assms(2) in \<open>auto simp: running_def\<close>)

lemma level_inv:
  assumes k: "kernel_inv k" and f: "calm (frames k (currentThread k))" "lev_ok lv fs" "calm fs" "toBeDestroyed k = None"
    and te: "testing (frames k (currentThread k)) = None" and w: "\<And>j. j \<in> set fs \<Longrightarrow> frame_below (nextWaiter k) j"
  shows "kernel_inv (k\<lparr>klevel := lv, frames := (frames k)(currentThread k := fs)\<rparr>)"
proof -
  have "frames k (currentThread k) \<noteq> CallSleep b # r" "frames k (currentThread k) \<noteq> SleepLoop b # r" for b r using f(1) by auto
  from inv_frames [OF kernel_invD(1) [OF k] f(4) this _ running_calm [OF f(2,3)]] show ?thesis
    using te waiters_frames [OF kernel_invD(2) [OF k] w] f(4) by (simp add: kernel_inv_def)
qed

lemma handlers_inv:
  assumes "kernel_inv k" and "klevel k = IntOff" and "\<And>r. frames k (currentThread k) \<noteq> CallSleep False # r"
  shows "returns (\<lambda>k'. kernel_inv k' \<and> klevel k' = IntOff \<and> frames k' = frames k \<and> currentThread k' = currentThread k \<and> nextWaiter k' = nextWaiter k \<and>
    lockHolder k' = lockHolder k) (handlers (map UserSem ss) k)"
  using assms
proof (induction ss arbitrary: k)
  case (Cons s ss)
  from V_body_inv [OF Cons.prems, of "UserSem s"] obtain k1 where k1: "V_body (UserSem s) k = Inr k1" "kernel_inv k1" "klevel k1 = IntOff"
    "frames k1 = frames k" "currentThread k1 = currentThread k" "nextWaiter k1 = nextWaiter k" "lockHolder k1 = lockHolder k"
    by (auto simp: returns_iff)
  then show ?case using Cons.IH [of k1] Cons.prems(3) by (simp add: handlers_def)
qed (simp add: handlers_def)

lemma interrupt_inv:
  assumes k: "kernel_inv k" and on: "klevel k = IntOn"
  shows "returns kernel_inv (interrupt_step (map UserSem ss) y k)"
proof -
  note c = enabled_calm [OF k on]
  let ?f = "frames k (currentThread k)"
  have w: "j \<in> set ?f \<Longrightarrow> frame_below (nextWaiter k) j" for j using kernel_invD(2) [OF k] by (auto simp: waiters_ok_def)
  have "kernel_inv (k\<lparr>klevel := IntOff\<rparr>)"
    using level_inv [OF k c(1) lev_ok_off [OF c(2)] c(1,4,3) w] by simp
  moreover have ns: "?f \<noteq> CallSleep False # r" for r using c(1) by auto
  ultimately obtain k1 where k1: "handlers (map UserSem ss) (k\<lparr>klevel := IntOff\<rparr>) = Inr k1" "kernel_inv k1"
    "frames k1 = frames k" "currentThread k1 = currentThread k" "nextWaiter k1 = nextWaiter k"
    using handlers_inv [of "k\<lparr>klevel := IntOff\<rparr>" ss] by (auto simp: returns_iff)
  have t: "toBeDestroyed k1 = None"
  proof (rule ccontr)
    assume "toBeDestroyed k1 \<noteq> None"
    then obtain r where "?f = AfterSwitch # r \<or> ?f = ThreadBegin # r" using invD(6) [OF kernel_invD(1) [OF k1(2)]] k1(3,4) by auto
    then show False using c(1) by auto
  qed
  have "kernel_inv (k1\<lparr>klevel := IntOn, frames := (frames k1)(currentThread k1 := fs)\<rparr>)" if "fs = ?f \<or> fs = CallYield # ?f" for fs
    by (rule level_inv [OF k1(2) _ _ _ t]) (use that k1 c w in auto)
  from this [of ?f] this [of "CallYield # ?f"] show ?thesis using k1 by (simp add: interrupt_step_def Let_def push_def kernel_inv_def)
qed

lemma kstep_inv:
  assumes "kstep prog cpu k k'" and k: "kernel_inv k" and api: "\<And>n k. \<forall>j \<in> set (prog n k). api j"
  shows "kernel_inv k'"
  using assms(1)
proof (cases rule: kstep.cases)
  case thread
  from thread_step_inv [of k prog cpu, OF k api] obtain i where
    "case needs_lock i of Some l \<Rightarrow> if IsHeldByCurrentThread l k then returns kernel_inv (thread_step prog cpu k) else thread_step prog cpu k = Inl AssertFailed
     | None \<Rightarrow> returns kernel_inv (thread_step prog cpu k)" by blast
  then show ?thesis using thread by (auto split: option.splits if_splits)
next
  case (tick ss y)
  then show ?thesis using interrupt_inv [OF k, of ss y] by simp
next
  case (idle b fs ss)
  have off: "klevel k = IntOff" using inv_current [OF kernel_invD(1) [OF k]] idle(1) by (auto simp: running_def)
  from handlers_inv [OF k off, of ss] idle(1,3) show ?thesis by (auto simp: returns_iff)
qed

lemma Initialize_inv:
  assumes "\<And>n. 0 \<le> init n"
  shows "kernel_inv (Initialize func init regs)"
proof -
  have "running {} IntOn RUNNING [CallCode func, CallFinish]" by (rule running_calm) simp_all
  then show ?thesis using assms
    by (auto simp: kernel_inv_def sched_inv_def Initialize_def thread_inv_def loc_def squeue_def sval_def stat_def waiters_ok_def
        split: semid.splits option.splits)
qed

lemma kernel_run_inv: "kernel_run prog cpu k \<Longrightarrow> (\<And>n k. \<forall>j \<in> set (prog n k). api j) \<Longrightarrow> kernel_inv k"
  by (induction rule: kernel_run.induct) (blast intro: Initialize_inv kstep_inv)+

end
