(* ===== verification/Thread_Properties.thy ===== *)
theory Thread_Properties
  imports Thread_Invariant
begin

text \<open>
  What the threads can rely on: locks exclude each other, by counting the one token each lock has;
  the registers of user programs survive context switches; and the properties of every run of the
  kernel, with a run of three threads to evaluate them on.
\<close>

section \<open>Locks\<close>

text \<open>
  The token of a lock: it is the value of the lock's semaphore, or a thread holds it, or it is on its
  way, between the end of \<^verbatim>\<open>P\<close> and the assignment to \<^verbatim>\<open>lockHolder\<close>, or between the reset of \<^verbatim>\<open>lockHolder\<close>
  and \<^verbatim>\<open>V\<close>. A thread that still has to take the token before it sets \<^verbatim>\<open>lockHolder\<close> counts nothing.
\<close>

fun tok :: "nat \<Rightarrow> frame \<Rightarrow> int" where
  "tok l (CallV s) = (if s = LockSem l then 1 else 0)"
| "tok l (SetHolder l') = (if l' = l then 1 else 0)"
| "tok l (CallP s) = (if s = LockSem l then - 1 else 0)"
| "tok l (P_loop s) = (if s = LockSem l then - 1 else 0)"
| "tok l _ = 0"

definition toks :: "nat \<Rightarrow> frame list \<Rightarrow> int" where
  "toks l fs = sum_list (map (tok l) fs)"

lemma toks_simps [simp]: "toks l [] = 0" "toks l (i # fs) = tok l i + toks l fs" "toks l (fs @ gs) = toks l fs + toks l gs"
  by (simp_all add: toks_def)

fun paired :: "nat \<Rightarrow> frame list \<Rightarrow> bool" where
  "paired l [] \<longleftrightarrow> True"
| "paired l (i # fs) \<longleftrightarrow> 0 \<le> toks l (i # fs) \<and> paired l fs"

lemma paired_nonneg: "paired l fs \<Longrightarrow> 0 \<le> toks l fs"
  by (cases fs) auto

definition lock_count :: "kernel \<Rightarrow> nat \<Rightarrow> int" where
  "lock_count k l = semValue (sems k (LockSem l)) + (if lockHolder k l = None then 0 else 1) + (\<Sum>t<nextThread k. toks l (frames k t))"

definition lock_inv :: "kernel \<Rightarrow> bool" where
  "lock_inv k \<longleftrightarrow> (\<forall>l. lock_count k l \<le> 1 \<and> (\<forall>t. paired l (frames k t)))"

lemma api_tok: "\<forall>j \<in> set g. api j \<Longrightarrow> toks l g = 0"
proof (induction g)
  case (Cons i g)
  then show ?case by (cases i) auto
qed simp

lemma api_paired: "\<forall>j \<in> set g. api j \<Longrightarrow> paired l fs \<Longrightarrow> paired l (g @ fs)"
proof (induction g)
  case (Cons i g)
  then show ?case using api_tok [of "i # g" l] api_tok [of g l] paired_nonneg [of l fs] by auto
qed simp

lemma lock_step:
  assumes k: "lock_inv k" and c: "c < nextThread k" "nextThread k \<le> nextThread k'"
    and p: "\<And>l t. paired l (frames k' t)"
    and o: "\<And>l t. t \<noteq> c \<Longrightarrow> t < nextThread k' \<Longrightarrow> toks l (frames k' t) \<le> (if t < nextThread k then toks l (frames k t) else 0)"
    and le: "\<And>l. semValue (sems k' (LockSem l)) + (if lockHolder k' l = None then 0 else 1) + toks l (frames k' c) \<le>
      semValue (sems k (LockSem l)) + (if lockHolder k l = None then 0 else 1) + toks l (frames k c)"
  shows "lock_inv k'"
proof -
  have "lock_count k' l \<le> lock_count k l" for l
  proof -
    have split: "(\<Sum>t<nextThread x. toks l (frames x t)) = toks l (frames x c) + (\<Sum>t \<in> {..<nextThread x} - {c}. toks l (frames x t))" if "c < nextThread x" for x
      by (rule sum.remove) (use that in auto)
    have "(\<Sum>t \<in> {..<nextThread k'} - {c}. toks l (frames k' t)) \<le> (\<Sum>t \<in> {..<nextThread k'} - {c}. if t < nextThread k then toks l (frames k t) else 0)"
      by (rule sum_mono) (use o in auto)
    also have "\<dots> = (\<Sum>t \<in> {..<nextThread k} - {c}. toks l (frames k t))"
      by (rule sum.mono_neutral_cong_right) (use c in auto)
    finally show ?thesis using le [of l] split [of k] split [of k'] c by (simp add: lock_count_def)
  qed
  then show ?thesis using k p unfolding lock_inv_def by (meson order_trans)
qed

text \<open>At most one thread is between the end of \<^verbatim>\<open>P\<close> and \<^verbatim>\<open>Release\<close>.\<close>

lemma lock_free:
  assumes k: "lock_inv k" "kernel_inv k" and c: "t < nextThread k" and f: "frames k t = SetHolder l # fs"
  shows "lockHolder k l = None"
proof -
  have "(\<Sum>t\<in>{t}. toks l (frames k t)) \<le> (\<Sum>t<nextThread k. toks l (frames k t))"
    by (rule sum_mono2) (use c k(1) paired_nonneg in \<open>auto simp: lock_inv_def\<close>)
  moreover have "paired l fs" using k(1) f unfolding lock_inv_def by (metis paired.simps(2))
  then have "1 \<le> toks l (frames k t)" using f paired_nonneg [of l fs] by simp
  moreover have "0 \<le> semValue (sems k (LockSem l))" using invD(5) [OF kernel_invD(1) [OF k(2)], of "LockSem l"] by (simp add: sval_def)
  moreover have "lock_count k l \<le> 1" using k(1) by (simp add: lock_inv_def)
  ultimately show ?thesis by (cases "lockHolder k l") (simp_all add: lock_count_def)
qed

text \<open>What the routines that do not deal with locks leave alone.\<close>

definition same_locks :: "kernel \<Rightarrow> kernel \<Rightarrow> bool" where
  "same_locks k k' \<longleftrightarrow> nextThread k' = nextThread k \<and> lockHolder k' = lockHolder k \<and> (\<forall>l. semValue (sems k' (LockSem l)) = semValue (sems k (LockSem l)))"

lemma same_locks_simps [simp]:
  "same_locks k k" "same_locks k (push g k') = same_locks k k'" "same_locks (pop k) k' = same_locks k k'"
  by (simp_all add: same_locks_def)

lemma ReadyToRun_frame: "ReadyToRun t k = Inr k' \<Longrightarrow> same_locks k k' \<and> frames k' = frames k \<and> currentThread k' = currentThread k \<and> sems k' = sems k"
  by (auto simp: ReadyToRun_def setStatus_def bindR_eq_Inr ASSERT_eq same_locks_def split: option.splits)

lemma FindNextToRun_frame: "FindNextToRun k = Inr (k', n) \<Longrightarrow> same_locks k k' \<and> frames k' = frames k \<and> currentThread k' = currentThread k"
  by (auto simp: FindNextToRun_def bindR_eq_Inr ASSERT_eq same_locks_def split: if_splits prod.splits)

lemma Run_frame: "Run n b k = Inr k' \<Longrightarrow> same_locks k k' \<and> frames k' = (frames k)(currentThread k := AfterSwitch # frames k (currentThread k))"
  by (auto simp: Run_def Let_def SaveUserState_def setStatus_def bindR_eq_Inr ASSERT_eq same_locks_def split: if_splits option.splits)

lemma Check_frame: "CheckToBeDestroyed k = Inr k' \<Longrightarrow> same_locks k k' \<and> currentThread k' = currentThread k \<and>
    (frames k' = frames k \<or> (\<exists>t. t \<noteq> currentThread k \<and> frames k' = (frames k)(t := [])))"
  by (auto simp: CheckToBeDestroyed_def bindR_eq_Inr ASSERT_eq same_locks_def split: option.splits)

lemma Restore_frame: "RestoreUserState t k = Inr k' \<Longrightarrow> same_locks k k' \<and> frames k' = frames k \<and> currentThread k' = currentThread k"
  by (auto simp: RestoreUserState_def same_locks_def split: option.splits if_splits)

lemma same_locks_trans: "same_locks k k1 \<Longrightarrow> same_locks k1 k2 \<Longrightarrow> same_locks k k2"
  by (simp add: same_locks_def)

lemma lock_same:
  assumes k: "lock_inv k" and c: "c < nextThread k" and s: "same_locks k k'"
    and o: "\<And>t. t \<noteq> c \<Longrightarrow> frames k' t = frames k t \<or> frames k' t = []"
    and f: "\<And>l. paired l (frames k' c)" "\<And>l. toks l (frames k' c) \<le> toks l (frames k c)"
  shows "lock_inv k'"
proof (rule lock_step [OF k c])
  have p: "paired l (frames k t)" for l t using k by (simp add: lock_inv_def)
  show "nextThread k \<le> nextThread k'" using s by (simp add: same_locks_def)
  show "paired l (frames k' t)" for l t using f(1) o [of t] p [of l t] by (cases "t = c") auto
  show "toks l (frames k' t) \<le> (if t < nextThread k then toks l (frames k t) else 0)" if "t \<noteq> c" "t < nextThread k'" for l t
    using o [OF that(1)] paired_nonneg [OF p, of l t] that s by (auto simp: same_locks_def)
qed (use s f(2) in \<open>simp add: same_locks_def\<close>)

lemma current_old: "kernel_inv k \<Longrightarrow> currentThread k < nextThread k"
  using invD(2,7) [OF kernel_invD(1), of k] by (meson not_le)

lemma V_body_frame:
  "V_body s k = Inr k' \<Longrightarrow> frames k' = frames k \<and> currentThread k' = currentThread k \<and> nextThread k' = nextThread k \<and> lockHolder k' = lockHolder k \<and>
    (\<forall>s'. semValue (sems k' s') = semValue (sems k s') + (if s' = s then 1 else 0))"
  by (auto simp: V_body_def bindR_eq_Inr split: if_splits prod.splits dest!: ReadyToRun_frame simp: same_locks_def)

lemma exec_lock_inv:
  assumes k: "kernel_inv k" "lock_inv k" and f: "frames k (currentThread k) = i # fs" and x: "exec prog cpu i (pop k) = Inr k'"
    and api: "\<And>n k. \<forall>j \<in> set (prog n k). api j"
  shows "lock_inv k'"
proof -
  let ?c = "currentThread k"
  note c = current_old [OF k(1)]
  have p: "paired l (i # fs)" for l using k(2) f unfolding lock_inv_def by metis
  have p': "paired l fs" "0 \<le> toks l fs" "0 \<le> tok l i + toks l fs" for l using p [of l] paired_nonneg [of l fs] by simp_all
  note S = lock_same [OF k(2) c, of k'] and T = lock_step [OF k(2) c, of k']
  have pk: "paired l (frames k t)" for l t using k(2) by (simp add: lock_inv_def)
  show ?thesis
  proof (cases i)
    case (CallP s)
    then show ?thesis using x f p' by (intro S) (auto simp: Semaphore_P_def same_locks_def)
  next
    case (CallV s)
    from x CallV obtain k1 where k1: "V_body s ((pop k)\<lparr>klevel := IntOff\<rparr>) = Inr k1" "k' = push [SetLevelBack (klevel k)] k1"
      by (auto simp: Semaphore_V_def Let_def bindR_eq_Inr)
    show ?thesis using V_body_frame [OF k1(1)] k1(2) f p' pk CallV by (intro T) auto
  next
    case (CallAcquire l)
    then show ?thesis using x f p' by (intro S) (auto simp: Acquire_def same_locks_def)
  next
    case (CallRelease l)
    then show ?thesis using x f p' pk by (intro T) (auto simp: Release_def bindR_eq_Inr IsHeldByCurrentThread_def split: if_splits)
  next
    case (CallWait c l)
    then show ?thesis using x f p' by (intro S) (auto simp: Wait_def Let_def bindR_eq_Inr Semaphore_new_def same_locks_def)
  next
    case (CallSignal c l)
    have "\<exists>n. s = WaitSem n" if "s \<in> set (waitQueue k c)" for s using kernel_invD(2) [OF k(1)] that unfolding waiters_ok_def by metis
    then have "s \<noteq> LockSem l'" if "waitQueue k c = s # q" for s q l' using that by (metis list.set_intros(1) semid.distinct(5))
    then show ?thesis using x f p' CallSignal
      by (intro S) (auto simp: Signal_def bindR_eq_Inr list_RemoveFront_def same_locks_def split: if_splits list.splits)
  next
    case (CallBroadcast c l)
    then show ?thesis using x f p' by (intro S) (auto simp: Broadcast_def same_locks_def split: if_splits)
  next
    case CallYield
    then show ?thesis using x f p'
      by (intro S) (auto simp: Yield_def Let_def bindR_eq_Inr same_locks_def split: option.splits dest!: FindNextToRun_frame ReadyToRun_frame Run_frame)
  next
    case (CallFork n)
    then show ?thesis using x f p' pk c
      by (intro T) (auto simp: Fork_def Let_def bindR_eq_Inr same_locks_def dest!: ReadyToRun_frame)
  next
    case CallFinish
    then show ?thesis using x f p' by (intro S) (auto simp: Finish_def same_locks_def)
  next
    case (CallCode n)
    then show ?thesis using x f p' api_paired [OF api] api_tok [OF api] by (intro S) (auto simp: same_locks_def)
  next
    case (CallExecute sp regs)
    then show ?thesis using x f p' by (intro S) (auto simp: Execute_def same_locks_def split: option.splits)
  next
    case (P_loop s)
    then show ?thesis using x f p' pk
      by (intro T) (auto simp: run_P_loop_def Let_def bindR_eq_Inr split: if_splits)
  next
    case (SetHolder l)
    then have "lockHolder k l = None" using lock_free [OF k(2,1) c] f by simp
    then show ?thesis using x f p' pk SetHolder by (intro T) (auto simp: set_holder_def)
  next
    case (CallSleep b)
    then show ?thesis using x f p' by (intro S) (auto simp: Sleep_def setStatus_def bindR_eq_Inr same_locks_def split: option.splits)
  next
    case (SleepLoop b)
    then show ?thesis using x f p'
      by (intro S) (auto simp: run_SleepLoop_def bindR_eq_Inr same_locks_def split: option.splits dest!: FindNextToRun_frame Run_frame)
  next
    case AfterSwitch
    then show ?thesis using x f p'
      by (intro S) (auto simp: run_AfterSwitch_def bindR_eq_Inr same_locks_def dest!: Check_frame Restore_frame)
  next
    case ThreadBegin
    then show ?thesis using x f p'
      by (intro S) (auto simp: Begin_def bindR_eq_Inr same_locks_def dest!: Check_frame)
  qed (use x f p' in \<open>intro S; auto simp: same_locks_def\<close>)+
qed

lemma handlers_frame:
  "handlers (map UserSem ss) k = Inr k' \<Longrightarrow> same_locks k k' \<and> frames k' = frames k \<and> currentThread k' = currentThread k"
proof (induction ss arbitrary: k)
  case (Cons s ss)
  then obtain k1 where "V_body (UserSem s) k = Inr k1" "handlers (map UserSem ss) k1 = Inr k'" by (auto simp: handlers_def bindR_eq_Inr)
  then show ?case using V_body_frame [of "UserSem s" k k1] Cons.IH [of k1] by (simp add: same_locks_def)
qed (simp add: handlers_def)

lemma thread_step_exec:
  assumes "thread_step prog cpu k = Inr k'"
  obtains i fs where "frames k (currentThread k) = i # fs" "exec prog cpu i (pop k) = Inr k'"
  using assms by (auto simp: thread_step_def pop_def split: list.splits)

lemma interrupt_frame:
  assumes "interrupt_step (map UserSem ss) y k = Inr k'"
  shows "same_locks k k' \<and> currentThread k' = currentThread k \<and>
    frames k' = (frames k)(currentThread k := (if y then [CallYield] else []) @ frames k (currentThread k))"
proof -
  obtain k1 where k1: "handlers (map UserSem ss) (k\<lparr>klevel := IntOff\<rparr>) = Inr k1"
    "k' = (if y then push [CallYield] (k1\<lparr>klevel := IntOn\<rparr>) else k1\<lparr>klevel := IntOn\<rparr>)"
    using assms by (auto simp: interrupt_step_def Let_def bindR_eq_Inr)
  then show ?thesis using handlers_frame [OF k1(1)] by (auto simp: same_locks_def)
qed

lemma kstep_lock_inv:
  assumes "kstep prog cpu k k'" and k: "kernel_inv k" "lock_inv k" and api: "\<And>n k. \<forall>j \<in> set (prog n k). api j"
  shows "lock_inv k'"
proof -
  have p: "paired l (frames k (currentThread k))" for l using k(2) by (simp add: lock_inv_def)
  note S = lock_same [OF k(2) current_old [OF k(1)], of k']
  show ?thesis using assms(1)
  proof (cases rule: kstep.cases)
    case thread
    then show ?thesis by (elim thread_step_exec) (rule exec_lock_inv [OF k _ _ api])
  next
    case (tick ss y)
    show ?thesis by (rule S) (use interrupt_frame [OF tick(2)] p paired_nonneg [OF p] in auto)
  next
    case (idle b fs ss)
    show ?thesis by (rule S) (use handlers_frame [OF idle(3)] p in auto)
  qed
qed

lemma Initialize_locks: "lock_inv (Initialize func init regs)"
  by (auto simp: lock_inv_def lock_count_def Initialize_def)

lemma kernel_run_locks: "kernel_run prog cpu k \<Longrightarrow> (\<And>n k. \<forall>j \<in> set (prog n k). api j) \<Longrightarrow> kernel_inv k \<and> lock_inv k"
  by (induction rule: kernel_run.induct) (auto intro: Initialize_inv Initialize_locks kstep_inv kstep_lock_inv)

text \<open>Only the thread that runs takes or gives up a lock.\<close>

lemma exec_holder:
  assumes k: "kernel_inv k" "lock_inv k" and f: "frames k (currentThread k) = i # fs" and x: "exec prog cpu i (pop k) = Inr k'"
  shows "lockHolder k' l = lockHolder k l \<or> lockHolder k l = None \<and> lockHolder k' l = Some (currentThread k) \<or>
    lockHolder k l = Some (currentThread k) \<and> lockHolder k' l = None"
proof (cases i)
  case (SetHolder l')
  then have "lockHolder k l' = None" using lock_free [OF k(2,1) current_old [OF k(1)]] f by simp
  then show ?thesis using x SetHolder by (auto simp: set_holder_def split: if_splits)
next
  case (CallV s)
  then show ?thesis using x V_body_frame [of s] by (auto simp: Semaphore_V_def Let_def bindR_eq_Inr dest!: V_body_frame)
qed (use x in \<open>auto simp: Semaphore_P_def Acquire_def Release_def IsHeldByCurrentThread_def Wait_def Signal_def Broadcast_def Yield_def Fork_def Finish_def
      Execute_def run_P_loop_def Sleep_def setStatus_def run_SleepLoop_def run_AfterSwitch_def Begin_def Semaphore_new_def Let_def bindR_eq_Inr same_locks_def
      split: if_splits option.splits prod.splits dest!: FindNextToRun_frame ReadyToRun_frame Run_frame Check_frame Restore_frame\<close>)

section \<open>User registers\<close>

definition uview :: "(nat \<rightharpoonup> thread) \<Rightarrow> nat \<rightharpoonup> nat option \<times> u32 list" where
  "uview m t = map_option (\<lambda>th. (space th, userRegisters th)) (m t)"

definition resuming :: "frame list \<Rightarrow> bool" where
  "resuming fs \<longleftrightarrow> (\<exists>r. fs = AfterSwitch # r)"

text \<open>
  The user-level context of a thread with an address space: the registers are those of the machine
  while it runs, and the saved ones from \<^verbatim>\<open>SaveUserState\<close> until \<^verbatim>\<open>RestoreUserState\<close>.
\<close>

definition user_context :: "kernel \<Rightarrow> nat \<Rightarrow> (nat \<times> u32 list) option" where
  "user_context k t =
     (case uview (threads k) t of
        Some (Some a, r) \<Rightarrow> Some (a, if t = currentThread k \<and> \<not> resuming (frames k t) then cpuRegisters k else r)
      | _ \<Rightarrow> None)"

definition user_inv :: "kernel \<Rightarrow> bool" where
  "user_inv k \<longleftrightarrow>
     (\<forall>t r. frames k t = ThreadBegin # r \<longrightarrow> user_context k t = None) \<and>
     (\<not> resuming (frames k (currentThread k)) \<longrightarrow> (\<forall>a r. user_context k (currentThread k) = Some (a, r) \<longrightarrow> cpuPageTable k = Some a))"

lemma uview_upd [simp]: "uview (m(t \<mapsto> th)) = (uview m)(t \<mapsto> (space th, userRegisters th))" "uview (m(t := None)) = (uview m)(t := None)"
  by (auto simp: uview_def)

lemma uview_same: "m t = Some th \<Longrightarrow> (uview m)(t \<mapsto> (space th, userRegisters th)) = uview m"
  by (auto simp: uview_def)

definition same_user :: "kernel \<Rightarrow> kernel \<Rightarrow> bool" where
  "same_user k k' \<longleftrightarrow> uview (threads k') = uview (threads k) \<and> cpuRegisters k' = cpuRegisters k \<and> cpuPageTable k' = cpuPageTable k"

lemma ReadyToRun_user: "ReadyToRun t k = Inr k' \<Longrightarrow> same_user k k' \<and> frames k' = frames k \<and> currentThread k' = currentThread k"
  by (auto simp: ReadyToRun_def setStatus_def bindR_eq_Inr same_user_def uview_same split: option.splits)

lemma FindNextToRun_user: "FindNextToRun k = Inr (k', n) \<Longrightarrow> same_user k k' \<and> frames k' = frames k \<and> currentThread k' = currentThread k"
  by (auto simp: FindNextToRun_def bindR_eq_Inr same_user_def split: if_splits prod.splits)

lemma V_body_user: "V_body s k = Inr k' \<Longrightarrow> same_user k k' \<and> frames k' = frames k \<and> currentThread k' = currentThread k"
  by (auto simp: V_body_def bindR_eq_Inr same_user_def split: if_splits prod.splits dest!: ReadyToRun_user)

lemma handlers_user: "handlers ss k = Inr k' \<Longrightarrow> same_user k k' \<and> frames k' = frames k \<and> currentThread k' = currentThread k"
proof (induction ss arbitrary: k)
  case (Cons s ss)
  then obtain k1 where "V_body s k = Inr k1" "handlers ss k1 = Inr k'" by (auto simp: handlers_def bindR_eq_Inr)
  then show ?case using V_body_user [of s k k1] Cons.IH [of k1] by (simp add: same_user_def)
qed (simp add: handlers_def same_user_def)

definition user_step :: "kernel \<Rightarrow> kernel \<Rightarrow> bool" where
  "user_step k k' \<longleftrightarrow> user_inv k' \<and> (\<forall>t. user_context k t = None \<or> user_context k' t = user_context k t \<or> threads k' t = None)"

lemma user_same:
  assumes k: "user_inv k" and r: "\<not> resuming (frames k (currentThread k))" and s: "same_user k k'" and c: "currentThread k' = currentThread k"
    and o: "\<And>t. t \<noteq> currentThread k \<Longrightarrow> frames k' t = frames k t" and f: "\<not> resuming (frames k' (currentThread k))"
    and b: "\<And>r. frames k' (currentThread k) \<noteq> ThreadBegin # r"
  shows "user_step k k'"
proof -
  have "user_context k' t = user_context k t" for t
    using s c r f o [of t] by (cases "t = currentThread k") (auto simp: user_context_def same_user_def split: option.splits prod.splits)
  then show ?thesis using k r s c f b o unfolding user_step_def user_inv_def same_user_def by metis
qed

lemma calm_not: "calm fs \<Longrightarrow> \<not> resuming fs \<and> fs \<noteq> ThreadBegin # r"
  by (auto simp: resuming_def)

lemma resuming_Cons [simp]: "resuming (i # r) \<longleftrightarrow> i = AfterSwitch"
  by (auto simp: resuming_def)

lemma Run_current: "Run n b k = Inr k' \<Longrightarrow> \<exists>th. threads k (currentThread k) = Some th"
  by (auto simp: Run_def Let_def SaveUserState_def bindR_eq_Inr split: option.splits if_splits)

lemma Run_user:
  "Run n b k = Inr k' \<Longrightarrow> threads k (currentThread k) = Some th \<Longrightarrow>
     uview (threads k') = (uview (threads k))(currentThread k \<mapsto> (space th, if space th \<noteq> None then cpuRegisters k else userRegisters th)) \<and>
     cpuRegisters k' = cpuRegisters k \<and> cpuPageTable k' = cpuPageTable k \<and> currentThread k' = n \<and>
     frames k' = (frames k)(currentThread k := AfterSwitch # frames k (currentThread k))"
  by (auto simp: Run_def Let_def SaveUserState_def setStatus_def bindR_eq_Inr uview_def fun_eq_iff split: if_splits option.splits)

lemma user_switch:
  assumes k: "user_inv k" and r: "\<not> resuming (frames k (currentThread k))" and s: "same_user k k1" "currentThread k1 = currentThread k"
    and o: "\<And>t. t \<noteq> currentThread k \<Longrightarrow> frames k1 t = frames k t" and run: "Run n b k1 = Inr k'"
    and n: "n = currentThread k \<or> resuming (frames k n) \<or> (\<exists>r. frames k n = ThreadBegin # r)"
  shows "user_step k k'"
proof -
  obtain th where th: "threads k1 (currentThread k) = Some th"
    "uview (threads k') = (uview (threads k1))(currentThread k \<mapsto> (space th, if space th \<noteq> None then cpuRegisters k1 else userRegisters th))"
    "currentThread k' = n" "frames k' = (frames k1)(currentThread k := AfterSwitch # frames k1 (currentThread k))"
    using Run_user [OF run] Run_current [OF run] s(2) by auto
  have "uview (threads k1) (currentThread k) = Some (space th, userRegisters th)" using th(1) by (simp add: uview_def)
  then have v: "uview (threads k) (currentThread k) = Some (space th, userRegisters th)" using s(1) by (simp add: same_user_def)
  have ctx: "user_context k' t = user_context k t" for t
  proof (cases "t = currentThread k")
    case True
    then show ?thesis using th s v r by (simp add: user_context_def same_user_def split: option.splits)
  next
    case False
    then have f: "frames k' t = frames k t" "uview (threads k') t = uview (threads k) t" using th(2,4) o s(1) by (simp_all add: same_user_def)
    show ?thesis
    proof (cases "t = n \<and> \<not> resuming (frames k t)")
      case True
      then obtain r where "frames k t = ThreadBegin # r" using n False by blast
      then have "user_context k t = None" using k by (simp add: user_inv_def)
      then show ?thesis using f by (auto simp: user_context_def split: option.splits prod.splits)
    next
      case False': False
      then show ?thesis using False f th(3) by (auto simp: user_context_def split: option.splits prod.splits)
    qed
  qed
  moreover have "user_inv k'"
    unfolding user_inv_def
  proof (intro conjI allI impI)
    fix t r assume a: "frames k' t = ThreadBegin # r"
    then have "t \<noteq> currentThread k" using th(4) by auto
    then show "user_context k' t = None" using a k th(4) o ctx by (simp add: user_inv_def)
  next
    fix a r assume a: "\<not> resuming (frames k' (currentThread k'))" "user_context k' (currentThread k') = Some (a, r)"
    then have "n \<noteq> currentThread k" using th(3,4) by auto
    moreover from this have "\<not> resuming (frames k n)" using a(1) th(3,4) o by simp
    ultimately show "cpuPageTable k' = Some a" using n a(2) k ctx th(3) by (auto simp: user_inv_def)
  qed
  ultimately show ?thesis by (simp add: user_step_def)
qed

lemma next_suspended:
  assumes k: "kernel_inv k" and n: "FindNextToRun k1 = Inr (k2, Some n)" "readyList k1 = readyList k"
  shows "n = currentThread k \<or> resuming (frames k n) \<or> (\<exists>r. frames k n = ThreadBegin # r)"
proof -
  have "n \<in> set (readyList k)" using n by (auto simp: FindNextToRun_def bindR_eq_Inr list_RemoveFront_def split: if_splits list.splits)
  from ready_where [OF kernel_invD(1) [OF k] this] show ?thesis by (auto simp: resuming_def)
qed

lemma destroyed:
  assumes "CheckToBeDestroyed k = Inr k'"
  shows "currentThread k' = currentThread k \<and> cpuRegisters k' = cpuRegisters k \<and> cpuPageTable k' = cpuPageTable k \<and>
    threads k' (currentThread k) = threads k (currentThread k) \<and> frames k' (currentThread k) = frames k (currentThread k) \<and>
    (\<forall>t. threads k' t = None \<and> frames k' t = [] \<or> threads k' t = threads k t \<and> frames k' t = frames k t)"
  using assms by (auto simp: CheckToBeDestroyed_def bindR_eq_Inr split: option.splits)

lemma uview_eq: "m t = m' t \<Longrightarrow> uview m t = uview m' t"
  by (simp add: uview_def)

lemma no_context: "threads k t = None \<Longrightarrow> user_context k t = None"
  by (simp add: user_context_def uview_def)

lemma user_AfterSwitch:
  assumes k: "user_inv k" and f: "frames k (currentThread k) = AfterSwitch # fs" "calm fs" and x: "run_AfterSwitch (pop k) = Inr k'"
  shows "user_step k k'"
proof -
  let ?c = "currentThread k"
  obtain k1 where k1: "CheckToBeDestroyed (pop k) = Inr k1" "RestoreUserState (currentThread k1) k1 = Inr k'"
    using x by (auto simp: run_AfterSwitch_def bindR_eq_Inr)
  note d = destroyed [OF k1(1), simplified]
  obtain th where th: "threads k ?c = Some th" "k' = (if space th \<noteq> None then k1\<lparr>cpuRegisters := userRegisters th, cpuPageTable := space th\<rparr> else k1)"
    using k1(2) d by (auto simp: RestoreUserState_def split: option.splits)
  have s: "currentThread k' = ?c" "threads k' = threads k1" "frames k' = frames k1" "frames k1 ?c = fs" "threads k1 ?c = Some th" using th d f by auto
  have nr: "\<not> resuming fs" "fs \<noteq> ThreadBegin # r" for r using calm_not [OF f(2)] by auto
  have ctx: "user_context k' t = user_context k t" if "threads k1 t \<noteq> None" for t
  proof (cases "t = ?c")
    case True
    then show ?thesis using s th f(1) nr by (auto simp: user_context_def uview_def split: option.splits)
  next
    case False
    have "threads k1 t = threads k t" using d that by metis
    then have "uview (threads k1) t = uview (threads k) t" by (rule uview_eq)
    then show ?thesis using False s(1,2) by (simp add: user_context_def split: option.splits prod.splits)
  qed
  have "user_inv k'"
    unfolding user_inv_def
  proof (intro conjI allI impI)
    fix t r assume a: "frames k' t = ThreadBegin # r"
    then have t: "t \<noteq> ?c" using s nr by auto
    then have "frames k t = ThreadBegin # r \<and> threads k1 t = threads k t" using a s(3) d by (metis fun_upd_other list.distinct(1))
    then show "user_context k' t = None"
      using k ctx [of t] s(2) no_context [of k' t] by (cases "threads k t") (auto simp: user_inv_def)
  next
    fix a r assume a: "user_context k' (currentThread k') = Some (a, r)"
    then show "cpuPageTable k' = Some a" using s th by (auto simp: user_context_def uview_def split: if_splits option.splits)
  qed
  then show ?thesis using ctx s(2) by (auto simp: user_step_def)
qed

lemma user_Begin:
  assumes k: "user_inv k" and f: "frames k (currentThread k) = ThreadBegin # fs" and x: "Begin (pop k) = Inr k'"
  shows "user_step k k'"
proof -
  let ?c = "currentThread k"
  obtain k1 where k1: "CheckToBeDestroyed (pop k) = Inr k1" "k' = push [SetLevelBack IntOn] k1"
    using x by (auto simp: Begin_def bindR_eq_Inr)
  note d = destroyed [OF k1(1), simplified]
  have s: "currentThread k' = ?c" "threads k' = threads k1" "frames k' = (frames k1)(?c := SetLevelBack IntOn # fs)" using k1 d f by auto
  have none: "user_context k ?c = None" using k f by (simp add: user_inv_def)
  have ctx: "user_context k' t = user_context k t" if "threads k1 t \<noteq> None" for t
  proof -
    have "threads k1 t = threads k t" using d that by metis
    then have u: "uview (threads k1) t = uview (threads k) t" by (rule uview_eq)
    show ?thesis
    proof (cases "t = ?c")
      case True
      then show ?thesis using none u s(1,2) by (auto simp: user_context_def split: option.splits prod.splits)
    next
      case False
      then show ?thesis using u s(1,2) by (simp add: user_context_def split: option.splits prod.splits)
    qed
  qed
  have "user_inv k'"
    unfolding user_inv_def
  proof (intro conjI allI impI)
    fix t r assume a: "frames k' t = ThreadBegin # r"
    then have t: "t \<noteq> ?c" using s by auto
    then have "frames k t = ThreadBegin # r \<and> threads k1 t = threads k t" using a s(3) d by (metis fun_upd_other list.distinct(1))
    then show "user_context k' t = None" using k ctx [of t] s(2) no_context [of k' t] by (cases "threads k t") (auto simp: user_inv_def)
  next
    fix a r assume "user_context k' (currentThread k') = Some (a, r)"
    then show "cpuPageTable k' = Some a" using ctx [of ?c] none s(1,2) no_context [of k' ?c] by (cases "threads k1 ?c") auto
  qed
  then show ?thesis using ctx s(2) by (auto simp: user_step_def)
qed

lemma user_Fork:
  assumes k: "kernel_inv k" "user_inv k" and f: "frames k (currentThread k) = CallFork n # fs" and x: "Fork n (pop k) = Inr k'"
  shows "user_step k k'"
proof -
  let ?c = "currentThread k" and ?t = "nextThread k"
  have new: "threads k ?t = None" "?t \<noteq> ?c" using invD(7) [OF kernel_invD(1) [OF k(1)], of ?t] current_old [OF k(1)] by (auto simp: stat_def)
  have s: "currentThread k' = ?c" "uview (threads k') = (uview (threads k))(?t \<mapsto> (None, []))" "cpuRegisters k' = cpuRegisters k" "cpuPageTable k' = cpuPageTable k"
    "frames k' ?c = SetLevelBack (klevel k) # fs" "\<And>t. t \<noteq> ?c \<Longrightarrow> t \<noteq> ?t \<Longrightarrow> frames k' t = frames k t"
    using x f new by (auto simp: Fork_def Let_def bindR_eq_Inr same_user_def dest!: ReadyToRun_user)
  have ctx: "user_context k' t = user_context k t" for t
  proof (cases "t = ?t")
    case True
    then show ?thesis using no_context [OF new(1)] s(2) by (simp add: user_context_def)
  next
    case False
    then show ?thesis using s f by (cases "t = ?c") (simp_all add: user_context_def split: option.splits prod.splits)
  qed
  have "user_inv k'"
    unfolding user_inv_def
  proof (intro conjI allI impI)
    fix t r assume a: "frames k' t = ThreadBegin # r"
    then have "t \<noteq> ?c" using s(5) by auto
    then show "user_context k' t = None" using a k(2) s(6) [of t] ctx no_context [OF new(1)] by (cases "t = ?t") (auto simp: user_inv_def)
  qed (use k(2) s f ctx in \<open>auto simp: user_inv_def\<close>)
  then show ?thesis using ctx by (simp add: user_step_def)
qed

text \<open>The frames that run user code or start a user program.\<close>

fun user_frame :: "frame \<Rightarrow> bool" where
  "user_frame (CallExecute sp regs) \<longleftrightarrow> True"
| "user_frame UserInstruction \<longleftrightarrow> True"
| "user_frame _ \<longleftrightarrow> False"

lemma user_own:
  assumes k: "user_inv k" and f: "frames k (currentThread k) = i # fs" "i \<noteq> AfterSwitch" "calm fs"
    and c: "currentThread k' = currentThread k" "frames k' = (frames k)(currentThread k := fs)"
      "\<And>t. t \<noteq> currentThread k \<Longrightarrow> uview (threads k') t = uview (threads k) t"
    and p: "\<And>a r. user_context k' (currentThread k) = Some (a, r) \<Longrightarrow> cpuPageTable k' = Some a"
  shows "user_inv k' \<and> (\<forall>t. t \<noteq> currentThread k \<longrightarrow> user_context k' t = user_context k t)"
proof -
  have ctx: "user_context k' t = user_context k t" if "t \<noteq> currentThread k" for t
    using that c by (simp add: user_context_def split: option.splits prod.splits)
  have "user_inv k'"
    unfolding user_inv_def
  proof (intro conjI allI impI)
    fix t r assume a: "frames k' t = ThreadBegin # r"
    then have "t \<noteq> currentThread k" using calm_not [OF f(3)] c(2) by auto
    then show "user_context k' t = None" using a k c(2) ctx by (simp add: user_inv_def)
  qed (use p c(1) in auto)
  then show ?thesis using ctx by simp
qed

lemma user_quiet:
  assumes "user_inv k" and "frames k (currentThread k) = i # fs" and "i \<noteq> AfterSwitch" and "same_user k k'" and "currentThread k' = currentThread k"
    and "frames k' = (frames k)(currentThread k := fs')" and "calm fs' \<or> (\<exists>j r. fs' = j # r \<and> j \<noteq> AfterSwitch \<and> j \<noteq> ThreadBegin)"
  shows "user_step k k'"
  by (rule user_same) (use assms calm_not in auto)

lemma api_calm:
  assumes "\<forall>j \<in> set g. api j"
  shows "calm g"
proof -
  have "api j \<Longrightarrow> \<not> on_top j" for j by (cases j) simp_all
  then show ?thesis using assms by (auto simp: calm_def)
qed

lemma exec_user:
  assumes k: "kernel_inv k" "user_inv k" and f: "frames k (currentThread k) = i # fs" and x: "exec prog cpu i (pop k) = Inr k'" and u: "\<not> user_frame i"
    and api: "\<And>n k. \<forall>j \<in> set (prog n k). api j"
  shows "user_step k k'"
proof -
  let ?c = "currentThread k"
  have calm: "calm fs" using inv_current [OF kernel_invD(1) [OF k(1)]] f by (auto simp: running_def)
  note Q = user_quiet [OF k(2) f] and W = user_switch [OF k(2)]
  show ?thesis
  proof (cases i)
    case (CallP s)
    then show ?thesis using x f calm by (intro Q) (auto simp: Semaphore_P_def same_user_def)
  next
    case (CallV s)
    from x CallV obtain k1 where k1: "V_body s ((pop k)\<lparr>klevel := IntOff\<rparr>) = Inr k1" "k' = push [SetLevelBack (klevel k)] k1"
      by (auto simp: Semaphore_V_def Let_def bindR_eq_Inr)
    show ?thesis using V_body_user [OF k1(1)] k1(2) f calm CallV by (intro Q) (auto simp: same_user_def)
  next
    case (CallAcquire l)
    then show ?thesis using x f calm by (intro Q) (auto simp: Acquire_def same_user_def)
  next
    case (CallRelease l)
    then show ?thesis using x f calm by (intro Q) (auto simp: Release_def bindR_eq_Inr same_user_def)
  next
    case (CallWait c l)
    then show ?thesis using x f calm by (intro Q) (auto simp: Wait_def Let_def bindR_eq_Inr Semaphore_new_def same_user_def)
  next
    case (CallSignal c l)
    show ?thesis
    proof (cases "waitQueue k c")
      case Nil
      then show ?thesis using x f calm CallSignal by (intro Q) (auto simp: Signal_def bindR_eq_Inr same_user_def)
    next
      case (Cons s q)
      then show ?thesis using x f calm CallSignal by (intro Q) (auto simp: Signal_def bindR_eq_Inr list_RemoveFront_def same_user_def)
    qed
  next
    case (CallBroadcast c l)
    show ?thesis
    proof (cases "waitQueue k c")
      case Nil
      then show ?thesis using x f calm CallBroadcast by (intro Q) (auto simp: Broadcast_def same_user_def)
    next
      case (Cons s q)
      then show ?thesis using x f calm CallBroadcast by (intro Q) (auto simp: Broadcast_def same_user_def)
    qed
  next
    case CallYield
    let ?k = "push [SetLevelBack (klevel k)] ((pop k)\<lparr>klevel := IntOff\<rparr>)"
    obtain k1 n where k1: "FindNextToRun ?k = Inr (k1, n)"
      "case n of None \<Rightarrow> k' = k1 | Some t \<Rightarrow> \<exists>k2. ReadyToRun (currentThread k1) k1 = Inr k2 \<and> Run t False k2 = Inr k'"
      using x CallYield by (auto simp: Yield_def Let_def bindR_eq_Inr split: option.splits)
    note u1 = FindNextToRun_user [OF k1(1)]
    show ?thesis
    proof (cases n)
      case None
      then show ?thesis using k1(2) u1 f calm CallYield by (intro Q) (auto simp: same_user_def)
    next
      case (Some t)
      then obtain k2 where k2: "ReadyToRun (currentThread k1) k1 = Inr k2" "Run t False k2 = Inr k'" using k1(2) by auto
      note u2 = ReadyToRun_user [OF k2(1)]
      show ?thesis
        by (rule W [OF _ _ _ _ k2(2) next_suspended [OF k(1) k1(1) [unfolded Some]]]) (use u1 u2 f CallYield in \<open>auto simp: same_user_def\<close>)
    qed
  next
    case (CallFork n)
    then show ?thesis using user_Fork [OF k] f x by simp
  next
    case CallFinish
    then show ?thesis using x f calm by (intro Q) (auto simp: Finish_def same_user_def)
  next
    case (CallCode n)
    then show ?thesis using x f calm api_calm [OF api] by (intro Q) (auto simp: same_user_def)
  next
    case (P_loop s)
    show ?thesis
    proof (cases "semValue (sems k s) = 0")
      case True
      then show ?thesis using x f calm P_loop by (intro Q) (auto simp: run_P_loop_def Let_def bindR_eq_Inr same_user_def)
    next
      case False
      then show ?thesis using x f calm P_loop by (intro Q) (auto simp: run_P_loop_def Let_def bindR_eq_Inr same_user_def)
    qed
  next
    case (SetHolder l)
    then show ?thesis using x f calm by (intro Q) (auto simp: set_holder_def same_user_def)
  next
    case (CallSleep b)
    then show ?thesis using x f calm by (intro Q) (auto simp: Sleep_def setStatus_def bindR_eq_Inr same_user_def uview_same split: option.splits)
  next
    case (SleepLoop b)
    obtain k1 n where k1: "FindNextToRun (pop k) = Inr (k1, n)"
      "case n of None \<Rightarrow> k' = push [SleepLoop b] k1 | Some t \<Rightarrow> Run t b k1 = Inr k'"
      using x SleepLoop by (auto simp: run_SleepLoop_def bindR_eq_Inr split: option.splits)
    note u1 = FindNextToRun_user [OF k1(1)]
    show ?thesis
    proof (cases n)
      case None
      then show ?thesis using k1(2) u1 f calm SleepLoop by (intro Q) (auto simp: same_user_def)
    next
      case (Some t)
      then have r: "Run t b k1 = Inr k'" using k1(2) by simp
      show ?thesis
        by (rule W [OF _ _ _ _ r next_suspended [OF k(1) k1(1) [unfolded Some]]]) (use u1 f SleepLoop in \<open>auto simp: same_user_def\<close>)
    qed
  next
    case AfterSwitch
    then show ?thesis using user_AfterSwitch [OF k(2) _ calm] f x by simp
  next
    case ThreadBegin
    then show ?thesis using user_Begin [OF k(2)] f x by simp
  qed (use x f calm u in \<open>intro Q; auto simp: same_user_def\<close>)+
qed

lemma kstep_user:
  assumes "kstep prog cpu k k'" and k: "kernel_inv k" "user_inv k" and api: "\<And>n k. \<forall>j \<in> set (prog n k). api j"
  shows "user_inv k' \<and> (\<forall>t. user_context k t = None \<or> user_context k' t = user_context k t \<or> threads k' t = None \<or>
    t = currentThread k \<and> (\<exists>i fs. frames k t = i # fs \<and> user_frame i))"
  using assms(1)
proof (cases rule: kstep.cases)
  case thread
  then obtain i fs where f: "frames k (currentThread k) = i # fs" and x: "exec prog cpu i (pop k) = Inr k'" by (elim thread_step_exec)
  have calm: "calm fs" using inv_current [OF kernel_invD(1) [OF k(1)]] f by (auto simp: running_def)
  show ?thesis
  proof (cases "user_frame i")
    case True
    have "user_inv k' \<and> (\<forall>t. t \<noteq> currentThread k \<longrightarrow> user_context k' t = user_context k t)"
    proof (rule user_own [OF k(2) f _ calm])
      show "i \<noteq> AfterSwitch" using True by auto
      have e: "(\<exists>sp regs. i = CallExecute sp regs) \<or> i = UserInstruction" using True by (cases i) simp_all
      then show "currentThread k' = currentThread k" "frames k' = (frames k)(currentThread k := fs)" using x f
        by (auto simp: Execute_def split: option.splits)
      show "uview (threads k') t = uview (threads k) t" if "t \<noteq> currentThread k" for t using x that e
        by (auto simp: Execute_def uview_def split: option.splits)
      show "cpuPageTable k' = Some a" if "user_context k' (currentThread k) = Some (a, r)" for a r
        using e
      proof
        assume "\<exists>sp regs. i = CallExecute sp regs"
        then show ?thesis using x that by (auto simp: Execute_def user_context_def split: option.splits)
      next
        assume "i = UserInstruction"
        then show ?thesis using x that k(2) f by (auto simp: user_inv_def user_context_def split: option.splits)
      qed
    qed
    then show ?thesis using f True by metis
  next
    case False
    from exec_user [OF k f x False api] show ?thesis unfolding user_step_def by metis
  qed
next
  case (tick ss y)
  obtain k1 where k1: "handlers (map UserSem ss) (k\<lparr>klevel := IntOff\<rparr>) = Inr k1"
    "k' = (if y then push [CallYield] (k1\<lparr>klevel := IntOn\<rparr>) else k1\<lparr>klevel := IntOn\<rparr>)"
    using tick(2) by (auto simp: interrupt_step_def Let_def bindR_eq_Inr)
  have "user_step k k'"
    by (rule user_same [OF k(2)]) (use calm_not [OF enabled_calm(1) [OF k(1) tick(1)]] handlers_user [OF k1(1)] k1(2) in \<open>auto simp: same_user_def\<close>)
  then show ?thesis unfolding user_step_def by metis
next
  case (idle b fs ss)
  have "user_step k k'"
    by (rule user_same [OF k(2)]) (use handlers_user [OF idle(3)] idle(1) in auto)
  then show ?thesis unfolding user_step_def by metis
qed

lemma Initialize_user: "user_inv (Initialize func init regs)"
  by (auto simp: user_inv_def user_context_def uview_def Initialize_def)

lemma kernel_run_user: "kernel_run prog cpu k \<Longrightarrow> (\<And>n k. \<forall>j \<in> set (prog n k). api j) \<Longrightarrow> kernel_inv k \<and> user_inv k"
proof (induction rule: kernel_run.induct)
  case (step k k')
  then show ?case using kstep_inv [of prog cpu k k'] kstep_user [of prog cpu k k'] by blast
qed (simp add: Initialize_inv Initialize_user)

section \<open>Properties\<close>

definition waits_for :: "kernel \<Rightarrow> semid \<Rightarrow> nat set" where
  "waits_for k s = {u. threads k u \<noteq> None \<and> toBeDestroyed k \<noteq> Some u \<and> (u = currentThread k \<or> u \<in> set (readyList k)) \<and>
     u \<notin> set (semQueue (sems k s)) \<and> testing (frames k u) = Some s}"

lemma testers_waits:
  assumes "kernel_inv k"
  shows "testers (stat (threads k)) (frames k) (toBeDestroyed k) (squeue (sems k)) s = waits_for k s"
proof -
  have "u \<in> set (readyList k)" if u: "u \<in> testers (stat (threads k)) (frames k) (toBeDestroyed k) (squeue (sems k)) s" "u \<noteq> currentThread k" for u
  proof -
    obtain x where x: "stat (threads k) u = Some x" "toBeDestroyed k \<noteq> Some u" "u \<notin> set (squeue (sems k) s)" "testing (frames k u) = Some s"
      using u(1) by (auto simp: testers_def)
    have "suspended (loc (readyList k) (squeue (sems k)) u) x (frames k u)"
      using invD(1) [OF kernel_invD(1) [OF assms], of u] x u(2) by (auto simp: thread_inv_def)
    then consider "loc (readyList k) (squeue (sems k)) u = {None}" | s' r where "loc (readyList k) (squeue (sems k)) u = {Some s'}" "frames k u = AfterSwitch # P_loop s' # r"
      unfolding suspended_def by blast
    then show ?thesis
    proof cases
      case 2
      then have "Some s \<in> loc (readyList k) (squeue (sems k)) u" using x(4) by simp
      then show ?thesis using x(3) by simp
    qed (simp add: loc_ready)
  qed
  then show ?thesis by (auto simp: waits_for_def testers_def squeue_def stat_def)
qed

lemma running_threads:
  assumes k: "kernel_inv k" and on: "klevel k = IntOn"
  shows "\<exists>th. threads k (currentThread k) = Some th \<and> tstatus th = RUNNING" "currentThread k \<notin> set (readyList k)"
    "currentThread k \<notin> set (semQueue (sems k s))"
proof -
  obtain i fs where f: "frames k (currentThread k) = i # fs" using enabled_calm(2) [OF k on] by (cases "frames k (currentThread k)") simp_all
  have "\<not> on_top i" using enabled_calm(1) [OF k on] f by simp
  note h = inv_head [OF kernel_invD(1) [OF k] f this]
  show "\<exists>th. threads k (currentThread k) = Some th \<and> tstatus th = RUNNING" using h(5) by (auto simp: stat_def)
  show "currentThread k \<notin> set (readyList k)" "currentThread k \<notin> set (semQueue (sems k s))" using h(4) by (auto simp: loc_empty squeue_def)
qed

section \<open>A run to evaluate\<close>

text \<open>A run to evaluate: main and two forked threads share the semaphore 0, with value 0.\<close>

fun thread_steps :: "nat \<Rightarrow> (nat \<Rightarrow> kernel \<Rightarrow> frame list) \<Rightarrow> (u32 list \<Rightarrow> u32 list) \<Rightarrow> kernel \<Rightarrow> kernel outcome" where
  "thread_steps 0 prog cpu k = Inr k"
| "thread_steps (Suc n) prog cpu k = bindR (thread_step prog cpu k) (thread_steps n prog cpu)"

lemma thread_steps_run: "kernel_run prog cpu k \<Longrightarrow> thread_steps n prog cpu k = Inr k' \<Longrightarrow> kernel_run prog cpu k'"
  by (induction n arbitrary: k) (auto simp: bindR_eq_Inr intro: kernel_run.step kstep.thread)

definition demo_prog :: "nat \<Rightarrow> kernel \<Rightarrow> frame list" where
  "demo_prog n k = (if n = 0 then [CallExecute 7 [5], CallFork 1, CallFork 1, CallYield, CallV (UserSem 0), CallAcquire 3, UserInstruction] else [CallP (UserSem 0)])"

definition demo_kernel :: kernel where
  "demo_kernel = Initialize 0 (\<lambda>_. 0) []"

definition demo_after :: "nat \<Rightarrow> kernel" where
  "demo_after n = (case thread_steps n demo_prog (map (\<lambda>r. r + 1)) demo_kernel of Inr k \<Rightarrow> k | Inl e \<Rightarrow> demo_kernel)"

lemma demo_api: "\<forall>j \<in> set (demo_prog n k). api j"
  by (simp add: demo_prog_def)

lemma suspended_places:
  assumes "distinct rl" and "\<And>s. distinct (sq s)" and "suspended (loc rl sq t) st fs"
  shows "st = READY \<and> count_list rl t = 1 \<and> (\<forall>s. t \<notin> set (sq s)) \<or>
    st = BLOCKED \<and> t \<notin> set rl \<and> (\<exists>s. count_list (sq s) t = 1 \<and> (\<forall>s'. s' \<noteq> s \<longrightarrow> t \<notin> set (sq s')))"
proof -
  have one: "distinct xs \<Longrightarrow> t \<in> set xs \<Longrightarrow> count_list xs t = 1" for xs :: "nat list" by (induction xs) (auto simp: count_list_0_iff)
  from assms(3) consider "loc rl sq t = {None}" "st = READY" | s where "loc rl sq t = {Some s}" "st = BLOCKED"
    unfolding suspended_def by blast
  then show ?thesis
  proof cases
    case 1
    then show ?thesis using one [OF assms(1)] by (simp add: loc_ready)
  next
    case 2
    have "t \<notin> set rl" "t \<in> set (sq s)" "\<forall>s'. s' \<noteq> s \<longrightarrow> t \<notin> set (sq s')"
      using loc_mem(1) [of rl sq t] loc_mem(2) [of _ rl sq t] 2(1) by (metis option.distinct(1) singletonD, metis singletonI, metis option.inject singletonD)
    then show ?thesis using 2(2) one [OF assms(2)] by blast
  qed
qed

lemmas demo_run = thread_step_def Initialize_def demo_prog_def push_def setStatus_def ReadyToRun_def FindNextToRun_def CheckToBeDestroyed_def
  SaveUserState_def RestoreUserState_def Run_def run_AfterSwitch_def Fork_def Begin_def Finish_def Yield_def Sleep_def run_SleepLoop_def Execute_def
  Semaphore_P_def run_P_loop_def V_body_def Semaphore_V_def Acquire_def set_holder_def list_Append_def list_RemoveFront_def ASSERT_def

lemma card_pos: "1 \<le> int (card A) \<Longrightarrow> A \<noteq> {}"
  by auto

lemma demo_reached:
  "kernel_run demo_prog (map (\<lambda>r. r + 1)) (demo_after n)"
proof -
  have b: "kernel_run demo_prog (map (\<lambda>r. r + 1)) demo_kernel" unfolding demo_kernel_def by (rule kernel_run.boot) simp
  then show ?thesis by (auto simp: demo_after_def intro: thread_steps_run split: sum.splits)
qed

lemma demo_24: "semQueue (sems (demo_after 24) (UserSem 0)) = [2]" "semValue (sems (demo_after 24) (UserSem 0)) = 1"
  by (simp_all add: demo_after_def demo_kernel_def demo_run eval_nat_numeral)

lemma demo_30: "kstep demo_prog (map (\<lambda>r. r + 1)) (demo_after 30) (demo_after 31)" "lockHolder (demo_after 30) 3 = Some 0"
  by (rule kstep.thread) (simp_all add: demo_after_def demo_kernel_def demo_run eval_nat_numeral)

lemma demo_6: "kstep demo_prog (map (\<lambda>r. r + 1)) (demo_after 6) (demo_after 7)" "user_context (demo_after 6) 0 = Some (7, [5])"
  "threads (demo_after 7) 0 \<noteq> None" "frames (demo_after 6) 0 = CallYield # tl (frames (demo_after 6) 0)" "currentThread (demo_after 7) = 1"
  by (rule kstep.thread) (simp_all add: demo_after_def demo_kernel_def demo_run user_context_def uview_def eval_nat_numeral)

text \<open>
  C4: wherever a run of the kernel has got to, every live thread but the current one and the one waiting to be deleted is
  either READY and exactly once in the ready list and in no semaphore's queue, or BLOCKED and exactly once in the queue
  of one semaphore and nowhere else; only live threads are queued; no semaphore's value is negative; and with
  interrupts enabled the current thread is RUNNING and in no queue. The threads run any functions
  that call the public operations, and interrupts come at any point where they are enabled.
\<close>

theorem scheduler_invariant:
  assumes run: "kernel_run prog cpu k" and api: "\<forall>n k. \<forall>j \<in> set (prog n k). api j"
  shows "(\<forall>t th. threads k t = Some th \<and> t \<noteq> currentThread k \<and> toBeDestroyed k \<noteq> Some t \<longrightarrow>
      tstatus th = READY \<and> count_list (readyList k) t = 1 \<and> (\<forall>s. t \<notin> set (semQueue (sems k s))) \<or>
      tstatus th = BLOCKED \<and> t \<notin> set (readyList k) \<and>
        (\<exists>s. count_list (semQueue (sems k s)) t = 1 \<and> (\<forall>s'. s' \<noteq> s \<longrightarrow> t \<notin> set (semQueue (sems k s')))))
    \<and> (\<forall>t s. t \<in> set (readyList k) \<or> t \<in> set (semQueue (sems k s)) \<longrightarrow> threads k t \<noteq> None)
    \<and> (\<forall>s. 0 \<le> semValue (sems k s))
    \<and> (klevel k = IntOn \<longrightarrow> (\<exists>th. threads k (currentThread k) = Some th \<and> tstatus th = RUNNING) \<and>
        currentThread k \<notin> set (readyList k) \<and> (\<forall>s. currentThread k \<notin> set (semQueue (sems k s))))"
proof -
  have k: "kernel_inv k" using kernel_run_inv [OF run] api by blast
  note i = kernel_invD(1) [OF k]
  show ?thesis
  proof (intro conjI allI impI)
    fix t th assume a: "threads k t = Some th \<and> t \<noteq> currentThread k \<and> toBeDestroyed k \<noteq> Some t"
    then have "suspended (loc (readyList k) (squeue (sems k)) t) (tstatus th) (frames k t)"
      using invD(1) [OF i, of t] by (simp add: thread_inv_def stat_def)
    then show "tstatus th = READY \<and> count_list (readyList k) t = 1 \<and> (\<forall>s. t \<notin> set (semQueue (sems k s))) \<or>
        tstatus th = BLOCKED \<and> t \<notin> set (readyList k) \<and>
        (\<exists>s. count_list (semQueue (sems k s)) t = 1 \<and> (\<forall>s'. s' \<noteq> s \<longrightarrow> t \<notin> set (semQueue (sems k s'))))"
      using suspended_places [of "readyList k" "squeue (sems k)", OF invD(3) [OF i] invD(4) [OF i]] by (simp add: squeue_def [of "sems k"])
  next
    fix t s assume "t \<in> set (readyList k) \<or> t \<in> set (semQueue (sems k s))"
    then have "loc (readyList k) (squeue (sems k)) t \<noteq> {}" by (auto simp: loc_empty squeue_def)
    from inv_alive [OF i this] show "threads k t \<noteq> None" by (simp add: stat_def)
  next
    show "0 \<le> semValue (sems k s)" for s using invD(5) [OF i, of s] by (simp add: sval_def)
  qed (use running_threads [OF k] in auto)
qed

theorem scheduler_invariant_witness:
  "threads (demo_after 24) 2 \<noteq> None \<and> (\<forall>s. 0 \<le> semValue (sems (demo_after 24) s))"
  using scheduler_invariant [OF demo_reached [of 24]] demo_api demo_24(1) by (metis list.set_intros(1))


lemma demo_6_level: "klevel (demo_after 6) = IntOn"
  by (simp add: demo_after_def demo_kernel_def demo_run eval_nat_numeral)


text \<open>
  C6: no wakeup is lost: while threads wait in the queue of a semaphore, its value is at most the number of threads that
  are running or ready and will test it next, so a positive value never leaves every waiter asleep.
\<close>

theorem no_lost_wakeup:
  assumes run: "kernel_run prog cpu k" and api: "\<forall>n k. \<forall>j \<in> set (prog n k). api j" and q: "semQueue (sems k s) \<noteq> []"
  shows "semValue (sems k s) \<le> int (card {u. threads k u \<noteq> None \<and> toBeDestroyed k \<noteq> Some u \<and> (u = currentThread k \<or> u \<in> set (readyList k)) \<and>
     u \<notin> set (semQueue (sems k s)) \<and> testing (frames k u) = Some s})"
proof -
  have k: "kernel_inv k" using kernel_run_inv [OF run] api by blast
  have "squeue (sems k) s \<noteq> []" using q by (simp add: squeue_def)
  from invD(8) [OF kernel_invD(1) [OF k] this] show ?thesis unfolding testers_waits [OF k] by (simp add: waits_for_def sval_def)
qed

theorem no_lost_wakeup_witness:
  "semQueue (sems (demo_after 24) (UserSem 0)) = [2] \<and>
   {u. threads (demo_after 24) u \<noteq> None \<and> toBeDestroyed (demo_after 24) \<noteq> Some u \<and> (u = currentThread (demo_after 24) \<or> u \<in> set (readyList (demo_after 24))) \<and>
     u \<notin> set (semQueue (sems (demo_after 24) (UserSem 0))) \<and> testing (frames (demo_after 24) u) = Some (UserSem 0)} \<noteq> {}"
proof -
  let ?A = "{u. threads (demo_after 24) u \<noteq> None \<and> toBeDestroyed (demo_after 24) \<noteq> Some u \<and> (u = currentThread (demo_after 24) \<or> u \<in> set (readyList (demo_after 24))) \<and>
     u \<notin> set (semQueue (sems (demo_after 24) (UserSem 0))) \<and> testing (frames (demo_after 24) u) = Some (UserSem 0)}"
  have "semQueue (sems (demo_after 24) (UserSem 0)) \<noteq> []" by (simp add: demo_24)
  from no_lost_wakeup [OF demo_reached [of 24] _ this] demo_api have "1 \<le> int (card ?A)" unfolding demo_24(2) by blast
  from card_pos [OF this] show ?thesis using demo_24(1) by (intro conjI)
qed

text \<open>
  C7: locks are exclusive. A step changes the holder of a lock only when the thread that runs takes a lock no thread holds, or gives up a lock it holds
  itself; while a thread holds a lock, the value of the lock's semaphore is 0, so no \<^verbatim>\<open>Acquire\<close> gets past its \<^verbatim>\<open>P\<close>.
\<close>

theorem lock_mutual_exclusion:
  assumes run: "kernel_run prog cpu k" and api: "\<forall>n k. \<forall>j \<in> set (prog n k). api j" and step: "kstep prog cpu k k'"
  shows "(lockHolder k' l = lockHolder k l \<or> lockHolder k l = None \<and> lockHolder k' l = Some (currentThread k) \<or>
      lockHolder k l = Some (currentThread k) \<and> lockHolder k' l = None)
    \<and> (lockHolder k l \<noteq> None \<longrightarrow> semValue (sems k (LockSem l)) = 0)"
proof -
  have k: "kernel_inv k" "lock_inv k" using kernel_run_locks [OF run] api by blast+
  have h: "lockHolder k' l = lockHolder k l \<or> lockHolder k l = None \<and> lockHolder k' l = Some (currentThread k) \<or>
      lockHolder k l = Some (currentThread k) \<and> lockHolder k' l = None"
    using step
  proof (cases rule: kstep.cases)
    case thread
    then show ?thesis by (elim thread_step_exec) (rule exec_holder [OF k])
  next
    case (tick ss y)
    then show ?thesis using interrupt_frame [OF tick(2)] by (simp add: same_locks_def)
  next
    case (idle b fs ss)
    then show ?thesis using handlers_frame [OF idle(3)] by (simp add: same_locks_def)
  qed
  have "0 \<le> (\<Sum>t<nextThread k. toks l (frames k t))"
    by (rule sum_nonneg) (use k(2) paired_nonneg in \<open>auto simp: lock_inv_def\<close>)
  moreover have c: "lock_count k l \<le> 1" using k(2) by (simp add: lock_inv_def)
  ultimately have "lockHolder k l \<noteq> None \<longrightarrow> semValue (sems k (LockSem l)) = 0"
    using invD(5) [OF kernel_invD(1) [OF k(1)], of "LockSem l"] c by (cases "lockHolder k l") (simp_all add: lock_count_def sval_def)
  then show ?thesis using h by blast
qed

theorem lock_mutual_exclusion_witness: "lockHolder (demo_after 30) 3 = Some 0 \<and> semValue (sems (demo_after 30) (LockSem 3)) = 0"
  using lock_mutual_exclusion [OF demo_reached [of 30] _ demo_30(1), of 3] demo_api demo_30(2) by auto



end
