(* ===== verification/Synch_Devices.thy ===== *)
theory Synch_Devices
  imports Disk
begin

text \<open>
  Devices that take one request at a time. The synchronous interfaces of Nachos (\<^verbatim>\<open>SynchDisk\<close>, \<^verbatim>\<open>SynchConsoleOutput\<close>
  and others) hold a lock, issue one request and wait on a semaphore that the device's
  interrupt signals. The locale \<open>one_request\<close> states what they rely on: an idle device accepts a legal request and posts
  one interrupt; the interrupt makes it idle again. Its lemma shows that any sequence of legal requests issued
  that way never fails and has their effects, in order. The disk is interpreted here, the console in its own theory.
\<close>

section \<open>Taking an interrupt\<close>

fun remove_first :: "('a \<Rightarrow> bool) \<Rightarrow> 'a list \<Rightarrow> 'a list" where
  "remove_first P [] = []"
| "remove_first P (x # xs) = (if P x then xs else x # remove_first P xs)"

definition take_interrupt :: "callback \<Rightarrow> 'w interrupt_scheme \<Rightarrow> 'w interrupt_scheme" where
  "take_interrupt c s = s\<lparr>pending := remove_first (\<lambda>p. callOnInterrupt p = c) (pending s)\<rparr>"

definition posted :: "callback \<Rightarrow> 'w interrupt_scheme \<Rightarrow> nat" where
  "posted c s = length (filter (\<lambda>p. callOnInterrupt p = c) (pending s))"

lemma set_remove_first: "set (remove_first P xs) \<subseteq> set xs"
  by (induction xs) auto

lemma sorted_remove_first: "sorted_wrt R xs \<Longrightarrow> sorted_wrt R (remove_first P xs)"
  by (induction xs) (use set_remove_first in \<open>fastforce+\<close>)

lemma distinct_remove_first: "distinct xs \<Longrightarrow> distinct (remove_first P xs)"
  by (induction xs) (use set_remove_first in \<open>fastforce+\<close>)

lemma filter_remove_first: "(\<And>x. Q x \<Longrightarrow> \<not> P x) \<Longrightarrow> filter Q (remove_first P xs) = filter Q xs"
  by (induction xs) auto

lemma posted_take_other [simp]: "c' \<noteq> c \<Longrightarrow> posted c' (take_interrupt c s) = posted c' s"
  unfolding posted_def take_interrupt_def by (subst filter_remove_first [symmetric, where P = "\<lambda>p. callOnInterrupt p = c"]) auto

lemma posted_take [simp]: "posted c (take_interrupt c s) = posted c s - 1"
proof -
  have "length (filter P (remove_first P xs)) = length (filter P xs) - 1" for P :: "PendingInterrupt \<Rightarrow> bool" and xs
    by (induction xs) (auto simp: Suc_pred length_greater_0_conv filter_empty_conv)
  then show ?thesis by (simp add: posted_def take_interrupt_def)
qed

lemma intr_ok_take: "intr_ok s \<Longrightarrow> intr_ok (take_interrupt c s)"
  unfolding intr_ok_def pending_ok_def ticks_ok_def take_interrupt_def
  using set_remove_first by (fastforce simp: sorted_remove_first distinct_remove_first)

lemma posted_Schedule:
  assumes "intr_ok s" and "0 < fromNow"
  obtains s' where "Schedule c fromNow ty s = Inr s'" "intr_ok s'" "posted c' s' = posted c' s + (if c' = c then 1 else 0)"
    "s' = s\<lparr>nextAddress := nextAddress s', pending := pending s'\<rparr>"
proof -
  obtain p where p: "Schedule c fromNow ty s = Inr (s\<lparr>nextAddress := Suc (nextAddress s), pending := sorted_ins PendingCompare p (pending s)\<rparr>)"
    "callOnInterrupt p = c" "intr_ok (s\<lparr>nextAddress := Suc (nextAddress s), pending := sorted_ins PendingCompare p (pending s)\<rparr>)"
    using Schedule_ok [OF assms] by blast
  have f: "length (filter P xs) = size (filter_mset P (mset xs))" for P :: "PendingInterrupt \<Rightarrow> bool" and xs
    by (simp flip: mset_filter)
  show ?thesis using that p by (simp add: posted_def f)
qed

section \<open>Synchronous use of a device\<close>

text \<open>\<open>view\<close> is what the device stores for its users, \<open>effect\<close> what a request does to it.\<close>

locale one_request =
  fixes idle :: "'s \<Rightarrow> bool" and waiting :: "'s \<Rightarrow> bool" and legal :: "'r \<Rightarrow> bool"
    and view :: "'s \<Rightarrow> 'v" and effect :: "'r \<Rightarrow> 'v \<Rightarrow> 'v"
    and request :: "'r \<Rightarrow> 's \<Rightarrow> 's outcome" and finish :: "'s \<Rightarrow> 's outcome"
  assumes accepts: "idle s \<Longrightarrow> legal r \<Longrightarrow> returns (\<lambda>s'. waiting s' \<and> view s' = effect r (view s)) (request r s)"
    and finishes: "waiting s \<Longrightarrow> returns (\<lambda>s'. idle s' \<and> view s' = view s) (finish s)"
begin

lemma call: "idle s \<Longrightarrow> legal r \<Longrightarrow> returns (\<lambda>s'. idle s' \<and> view s' = effect r (view s)) (bindR (request r s) finish)"
  by (rule returns_bind [OF accepts], assumption+) (use finishes in \<open>fastforce simp: returns_iff\<close>)

lemma calls:
  "idle s \<Longrightarrow> \<forall>r \<in> set rs. legal r \<Longrightarrow>
    returns (\<lambda>s'. idle s' \<and> view s' = fold effect rs (view s)) (forR rs (\<lambda>r s. bindR (request r s) finish) s)"
proof (induction rs arbitrary: s)
  case (Cons r rs)
  then obtain s1 where s1: "bindR (request r s) finish = Inr s1" "idle s1" "view s1 = effect r (view s)" using call by (fastforce simp: returns_iff)
  then show ?case using Cons.IH [OF s1(2)] Cons.prems(2) by simp
qed simp

end

text \<open>The disk, with reads (\<open>Inl\<close>) and writes (\<open>Inr\<close>).\<close>

definition disk_request :: "int + int \<times> u8 list \<Rightarrow> 'w disk_scheme \<Rightarrow> 'w disk_scheme outcome" where
  "disk_request r s = (case r of Inl n \<Rightarrow> bindR (ReadRequest n s) (\<lambda>(s, _). Inr s) | Inr (n, data) \<Rightarrow> WriteRequest n data s)"

definition disk_legal :: "int + int \<times> u8 list \<Rightarrow> bool" where
  "disk_legal r = (case r of Inl n \<Rightarrow> 0 \<le> n \<and> n < NumSectors | Inr (n, data) \<Rightarrow> 0 \<le> n \<and> n < NumSectors \<and> length data = nat SectorSize)"

definition disk_finish :: "'w disk_scheme \<Rightarrow> 'w disk_scheme outcome" where
  "disk_finish s = Disk_CallBack Inr (take_interrupt DiskCall s)"

definition disk_idle :: "'w disk_scheme \<Rightarrow> bool" where
  "disk_idle s \<longleftrightarrow> disk_ok s \<and> \<not> active s \<and> posted DiskCall s = 0"

definition disk_waiting :: "'w disk_scheme \<Rightarrow> bool" where
  "disk_waiting s \<longleftrightarrow> disk_ok s \<and> active s \<and> posted DiskCall s = 1"

definition disk_view :: "'w disk_scheme \<Rightarrow> int \<Rightarrow> u8 list" where
  "disk_view s n = (if 0 \<le> n \<and> n < NumSectors then sector_data s n else [])"

definition disk_effect :: "int + int \<times> u8 list \<Rightarrow> (int \<Rightarrow> u8 list) \<Rightarrow> int \<Rightarrow> u8 list" where
  "disk_effect r d = (case r of Inl n \<Rightarrow> d | Inr (n, data) \<Rightarrow> d(n := data))"

lemma posted_request: "request_posted n s s' \<Longrightarrow> posted DiskCall s' = posted DiskCall s + 1"
proof -
  assume "request_posted n s s'"
  then obtain p where "pending s' = sorted_ins PendingCompare p (pending s)" "callOnInterrupt p = DiskCall" by (auto simp: request_posted_def)
  moreover have f: "length (filter P xs) = size (filter_mset P (mset xs))" for P :: "PendingInterrupt \<Rightarrow> bool" and xs
    by (simp flip: mset_filter)
  ultimately show ?thesis by (simp add: posted_def f)
qed

lemma disk_request_accepted:
  assumes i: "disk_idle s" and l: "disk_legal r"
  shows "returns (\<lambda>s'. disk_waiting s' \<and> disk_view s' = disk_effect r (disk_view s)) (disk_request r s)"
proof (cases r)
  case (Inl n)
  have s: "disk_ok s" "\<not> active s" "posted DiskCall s = 0" using i by (simp_all add: disk_idle_def)
  have n: "0 \<le> n" "n < NumSectors" using l Inl by (simp_all add: disk_legal_def)
  from ReadRequest_ok [OF s(1,2) n] obtain s' where "ReadRequest n s = Inr (s', sector_data s n)" "request_posted n s s'" "diskFile s' = diskFile s" by blast
  then show ?thesis using Inl posted_request [of n s s'] s(3)
    by (auto simp: disk_request_def disk_waiting_def request_posted_def disk_view_def disk_effect_def sector_data_def)
next
  case (Inr x)
  obtain n data where x: "x = (n, data)" by (cases x)
  have s: "disk_ok s" "\<not> active s" "posted DiskCall s = 0" using i by (simp_all add: disk_idle_def)
  have n: "0 \<le> n" "n < NumSectors" "length data = nat SectorSize" using l Inr x by (simp_all add: disk_legal_def)
  from WriteRequest_ok [OF s(1,2) n] obtain s' where s': "WriteRequest n data s = Inr s'" "request_posted n s s'"
    "diskFile s' = file_write (diskFile s) (SectorSize * n + MagicSize) data" by blast
  have "disk_view s' = disk_effect r (disk_view s)"
    using sector_write [OF s(1) n(1,2) _ _ n(3) s'(3)] n by (auto simp: disk_view_def disk_effect_def Inr x)
  then show ?thesis using Inr x s' posted_request [of n s s'] s(3) by (simp add: disk_request_def disk_waiting_def request_posted_def)
qed

interpretation sdisk: one_request disk_idle disk_waiting disk_legal disk_view disk_effect disk_request disk_finish
proof
  fix s :: "'a disk_scheme" and r
  assume "disk_idle s" "disk_legal r"
  then show "returns (\<lambda>s'. disk_waiting s' \<and> disk_view s' = disk_effect r (disk_view s)) (disk_request r s)" by (rule disk_request_accepted)
next
  fix s :: "'a disk_scheme"
  assume w: "disk_waiting s"
  have "intr_ok s" using w by (simp add: disk_waiting_def disk_ok_def)
  then have "intr_ok (take_interrupt DiskCall s)" by (rule intr_ok_take)
  moreover have "posted DiskCall (s'\<lparr>active := a\<rparr>) = posted DiskCall s'" for s' :: "'a disk_scheme" and a by (simp add: posted_def)
  moreover have "disk_view ((take_interrupt DiskCall s)\<lparr>active := a\<rparr>) = disk_view s" for a
    by (simp add: disk_view_def sector_data_def take_interrupt_def fun_eq_iff)
  ultimately show "returns (\<lambda>s'. disk_idle s' \<and> disk_view s' = disk_view s) (disk_finish s)"
    using w by (simp add: disk_finish_def Disk_CallBack_def disk_idle_def disk_waiting_def disk_ok_def) (simp add: take_interrupt_def)
qed

text \<open>
  Any sequence of legal reads and writes, each waiting for its interrupt before the next is issued,
  succeeds and leaves on the disk what the writes put there, in their order.
\<close>

theorem synch_disk_sequence:
  assumes "disk_idle s" and "\<forall>r \<in> set rs. disk_legal r"
  shows "returns (\<lambda>s'. disk_idle s' \<and> disk_view s' = fold disk_effect rs (disk_view s))
    (forR rs (\<lambda>r s. bindR (disk_request r s) disk_finish) s)"
  using assms by (rule sdisk.calls)

end
