(* ===== verification/Console.thy ===== *)
theory Console
  imports Synch_Devices "HOL-Library.Sublist"
begin

text \<open>
  The console device of \<^verbatim>\<open>code/machine/console.cc\<close> and the synchronous console of \<^verbatim>\<open>code/userprog/synchconsole.cc\<close>.
  The keyboard is the list of bytes the host file will still deliver, the display the list of bytes
  written; whether \<^verbatim>\<open>PollFile\<close> finds input is an argument. The semaphores \<^verbatim>\<open>waitFor\<close> are their values; the locks
  are those of the theory \<open>Threads\<close>, so that one thread at a time is inside \<open>GetChar\<close> and \<open>PutChar\<close>. The lemmas
  show that input arrives complete and in order and that output never finds the device busy.
\<close>

section \<open>Devices\<close>

definition ConsoleTime :: int where "ConsoleTime = 100"
definition EOF_char :: u8 where "EOF_char = - 1"   \<comment> \<open>\<^verbatim>\<open>EOF\<close>, stored in a \<^verbatim>\<open>char\<close>\<close>

record console = alarm +
  incoming :: u8
  keyboard :: "u8 list"
  putBusy :: bool
  display :: "u8 list"
  inWaitFor :: int
  outWaitFor :: int

definition ConsoleInput_new :: "'w console_scheme \<Rightarrow> 'w console_scheme outcome" where
  "ConsoleInput_new s = Schedule ConsoleInputCall ConsoleTime ConsoleReadInt (s\<lparr>incoming := EOF_char\<rparr>)"

text \<open>At the end of the host file \<^verbatim>\<open>ReadPartial\<close> returns 0: no character is stored, and no further interrupt scheduled.\<close>

definition ConsoleInput_CallBack :: "('w console_scheme \<Rightarrow> 'w console_scheme outcome) \<Rightarrow> bool \<Rightarrow> 'w console_scheme \<Rightarrow> 'w console_scheme outcome" where
  "ConsoleInput_CallBack callWhenAvail pollFile s =
     bindR (ASSERT (incoming s = EOF_char)) (\<lambda>_.
     if \<not> pollFile then Schedule ConsoleInputCall ConsoleTime ConsoleReadInt s
     else case keyboard s of
            [] \<Rightarrow> callWhenAvail s
          | c # cs \<Rightarrow> callWhenAvail (s\<lparr>keyboard := cs, incoming := c, numConsoleCharsRead := numConsoleCharsRead s + 1\<rparr>))"

definition ConsoleInput_GetChar :: "'w console_scheme \<Rightarrow> ('w console_scheme \<times> u8) outcome" where
  "ConsoleInput_GetChar s =
     (let ch = incoming s in
      bindR (if incoming s \<noteq> EOF_char then Schedule ConsoleInputCall ConsoleTime ConsoleReadInt s else Inr s) (\<lambda>s.
      Inr (s\<lparr>incoming := EOF_char\<rparr>, ch)))"

definition ConsoleOutput_new :: "'w console_scheme \<Rightarrow> 'w console_scheme" where
  "ConsoleOutput_new s = s\<lparr>putBusy := False\<rparr>"

definition ConsoleOutput_CallBack :: "('w console_scheme \<Rightarrow> 'w console_scheme outcome) \<Rightarrow> 'w console_scheme \<Rightarrow> 'w console_scheme outcome" where
  "ConsoleOutput_CallBack callWhenDone s =
     callWhenDone (s\<lparr>putBusy := False, numConsoleCharsWritten := numConsoleCharsWritten s + 1\<rparr>)"

definition ConsoleOutput_PutChar :: "u8 \<Rightarrow> 'w console_scheme \<Rightarrow> 'w console_scheme outcome" where
  "ConsoleOutput_PutChar ch s =
     bindR (ASSERT (putBusy s = False)) (\<lambda>_.
     let s = s\<lparr>display := display s @ [ch], putBusy := True\<rparr> in
     Schedule ConsoleOutputCall ConsoleTime ConsoleWriteInt s)"

section \<open>Synchronous console\<close>

definition SynchConsoleInput_new :: "'w console_scheme \<Rightarrow> 'w console_scheme outcome" where
  "SynchConsoleInput_new s = bindR (ConsoleInput_new s) (\<lambda>s. Inr (s\<lparr>inWaitFor := 0\<rparr>))"

definition SynchConsoleInput_CallBack :: "'w console_scheme \<Rightarrow> 'w console_scheme outcome" where
  "SynchConsoleInput_CallBack s = Inr (s\<lparr>inWaitFor := inWaitFor s + 1\<rparr>)"

text \<open>\<^verbatim>\<open>GetChar\<close> waits in \<^verbatim>\<open>waitFor->P()\<close> while the value is 0: then the result is \<open>None\<close>.\<close>

definition SynchConsoleInput_GetChar :: "'w console_scheme \<Rightarrow> ('w console_scheme \<times> u8) option outcome" where
  "SynchConsoleInput_GetChar s =
     (if inWaitFor s = 0 then Inr None
      else bindR (ConsoleInput_GetChar (s\<lparr>inWaitFor := inWaitFor s - 1\<rparr>)) (\<lambda>r. Inr (Some r)))"

definition SynchConsoleOutput_new :: "'w console_scheme \<Rightarrow> 'w console_scheme" where
  "SynchConsoleOutput_new s = (ConsoleOutput_new s)\<lparr>outWaitFor := 0\<rparr>"

definition SynchConsoleOutput_CallBack :: "'w console_scheme \<Rightarrow> 'w console_scheme outcome" where
  "SynchConsoleOutput_CallBack s = Inr (s\<lparr>outWaitFor := outWaitFor s + 1\<rparr>)"

text \<open>\<^verbatim>\<open>PutChar\<close> of the synchronous console, up to its wait and from there on.\<close>

definition SynchConsoleOutput_PutChar :: "u8 \<Rightarrow> 'w console_scheme \<Rightarrow> 'w console_scheme outcome" where
  "SynchConsoleOutput_PutChar ch s = ConsoleOutput_PutChar ch s"

definition SynchConsoleOutput_resume :: "'w console_scheme \<Rightarrow> 'w console_scheme option" where
  "SynchConsoleOutput_resume s = (if outWaitFor s = 0 then None else Some (s\<lparr>outWaitFor := outWaitFor s - 1\<rparr>))"

section \<open>Console runs\<close>

text \<open>
  The steps of the console: the read interrupt, a thread that gets a character (\<open>got\<close> collects what they get), and any change that leaves the console and its
  interrupts alone.
\<close>

definition elsewhere :: "console \<Rightarrow> console \<Rightarrow> bool" where
  "elsewhere s s' \<longleftrightarrow> (intr_ok s \<longrightarrow> intr_ok s') \<and> incoming s' = incoming s \<and> keyboard s' = keyboard s \<and> inWaitFor s' = inWaitFor s \<and>
     posted ConsoleInputCall s' = posted ConsoleInputCall s"

inductive console_run :: "console \<Rightarrow> console \<Rightarrow> u8 list \<Rightarrow> bool" for s0 where
  start: "console_run s0 s0 []"
| read_interrupt: "console_run s0 s got \<Longrightarrow> 0 < posted ConsoleInputCall s \<Longrightarrow>
    ConsoleInput_CallBack SynchConsoleInput_CallBack pollFile (take_interrupt ConsoleInputCall s) = Inr s' \<Longrightarrow> console_run s0 s' got"
| get_char: "console_run s0 s got \<Longrightarrow> SynchConsoleInput_GetChar s = Inr (Some (s', ch)) \<Longrightarrow> console_run s0 s' (got @ [ch])"
| other: "console_run s0 s got \<Longrightarrow> elsewhere s s' \<Longrightarrow> console_run s0 s' got"

text \<open>
  Exactly one of: the device polls; a character is buffered and one \<^verbatim>\<open>GetChar\<close> may return it; the end has been seen
  and one \<^verbatim>\<open>GetChar\<close> may return \<^verbatim>\<open>EOF\<close>; \<^verbatim>\<open>EOF\<close> has been returned. The input is \<open>cs @ tail\<close>, where \<open>tail\<close> is empty or starts
  with the byte that reads as \<^verbatim>\<open>EOF\<close>.
\<close>

definition console_state :: "u8 list \<Rightarrow> u8 list \<Rightarrow> console \<Rightarrow> u8 list \<Rightarrow> bool" where
  "console_state cs tail s got \<longleftrightarrow> intr_ok s \<and>
     (posted ConsoleInputCall s = 1 \<and> incoming s = EOF_char \<and> inWaitFor s = 0 \<and> cs @ tail = got @ keyboard s \<and> length got \<le> length cs
    \<or> posted ConsoleInputCall s = 0 \<and> incoming s \<noteq> EOF_char \<and> inWaitFor s = 1 \<and> cs @ tail = got @ incoming s # keyboard s \<and> length got < length cs
    \<or> posted ConsoleInputCall s = 0 \<and> incoming s = EOF_char \<and> inWaitFor s = 1 \<and> got = cs
    \<or> posted ConsoleInputCall s = 0 \<and> incoming s = EOF_char \<and> inWaitFor s = 0 \<and> got = cs @ [EOF_char])"

section \<open>Lemmas\<close>

lemma ConsoleTime_pos: "0 < ConsoleTime"
  by (simp add: ConsoleTime_def)

lemma console_fields [simp]:
  "intr_ok (s\<lparr>incoming := c\<rparr>) = intr_ok s" "intr_ok (s\<lparr>keyboard := l\<rparr>) = intr_ok s" "intr_ok (s\<lparr>putBusy := b\<rparr>) = intr_ok s"
  "intr_ok (s\<lparr>display := l\<rparr>) = intr_ok s" "intr_ok (s\<lparr>inWaitFor := n\<rparr>) = intr_ok s" "intr_ok (s\<lparr>outWaitFor := n\<rparr>) = intr_ok s"
  "intr_ok (s\<lparr>numConsoleCharsRead := n\<rparr>) = intr_ok s" "intr_ok (s\<lparr>numConsoleCharsWritten := n\<rparr>) = intr_ok s"
  by (simp_all add: intr_ok_def pending_ok_def ticks_ok_def)

lemma console_posted [simp]:
  "posted d (s\<lparr>incoming := c\<rparr>) = posted d s" "posted d (s\<lparr>keyboard := l\<rparr>) = posted d s" "posted d (s\<lparr>putBusy := b\<rparr>) = posted d s"
  "posted d (s\<lparr>display := l\<rparr>) = posted d s" "posted d (s\<lparr>inWaitFor := n\<rparr>) = posted d s" "posted d (s\<lparr>outWaitFor := n\<rparr>) = posted d s"
  "posted d (s\<lparr>numConsoleCharsRead := n\<rparr>) = posted d s" "posted d (s\<lparr>numConsoleCharsWritten := n\<rparr>) = posted d s"
  by (simp_all add: posted_def)

definition console_kept :: "'w console_scheme \<Rightarrow> 'w console_scheme \<Rightarrow> bool" where
  "console_kept s s' \<longleftrightarrow> incoming s' = incoming s \<and> keyboard s' = keyboard s \<and> inWaitFor s' = inWaitFor s \<and>
     putBusy s' = putBusy s \<and> display s' = display s \<and> outWaitFor s' = outWaitFor s"

lemma console_Schedule:
  assumes "intr_ok (s :: 'w console_scheme)"
  shows "returns (\<lambda>s'. intr_ok s' \<and> posted c s' = posted c s + 1 \<and> console_kept s s') (Schedule c ConsoleTime ty s)"
proof -
  obtain s' where s': "Schedule c ConsoleTime ty s = Inr s'" "intr_ok s'" "posted c s' = posted c s + (if c = c then 1 else 0)" "s' = s\<lparr>nextAddress := nextAddress s', pending := pending s'\<rparr>"
    by (rule posted_Schedule [OF assms ConsoleTime_pos])
  have "console_kept s s'" unfolding console_kept_def by (subst s'(4), simp)+
  then show ?thesis using s' by simp
qed

lemma console_take [simp]:
  "incoming (take_interrupt c s) = incoming s" "keyboard (take_interrupt c s) = keyboard s" "inWaitFor (take_interrupt c s) = inWaitFor s"
  "putBusy (take_interrupt c s) = putBusy s" "display (take_interrupt c s) = display s" "outWaitFor (take_interrupt c s) = outWaitFor s"
  by (simp_all add: take_interrupt_def)

text \<open>The two steps of console input, from a state of the protocol.\<close>

definition ends_input :: "u8 list \<Rightarrow> u8 list \<Rightarrow> bool" where
  "ends_input cs tail \<longleftrightarrow> EOF_char \<notin> set cs \<and> (tail = [] \<or> hd tail = EOF_char)"

lemma ends_input_cases:
  assumes "ends_input cs tail" and "cs @ tail = got @ c # ks" and "length got \<le> length cs"
  shows "c \<noteq> EOF_char \<and> length got < length cs \<or> c = EOF_char \<and> got = cs"
proof -
  obtain r where r: "cs = got @ r" "r @ tail = c # ks" using assms(2,3) by (auto simp: append_eq_append_conv2)
  then show ?thesis using assms(1) by (cases r) (auto simp: ends_input_def)
qed

lemma read_step:
  assumes st: "console_state cs tail s got" and p: "0 < posted ConsoleInputCall s" and e: "ends_input cs tail"
  shows "returns (\<lambda>s'. console_state cs tail s' got) (ConsoleInput_CallBack SynchConsoleInput_CallBack pollFile (take_interrupt ConsoleInputCall s))"
proof -
  let ?s = "take_interrupt ConsoleInputCall s"
  have s: "intr_ok ?s" "posted ConsoleInputCall ?s = 0" "incoming ?s = EOF_char" "inWaitFor ?s = 0" "cs @ tail = got @ keyboard ?s" "length got \<le> length cs"
    using st p by (auto simp: console_state_def intr_ok_take)
  show ?thesis
  proof (cases pollFile)
    case False
    have "returns (\<lambda>s'. console_state cs tail s' got) (Schedule ConsoleInputCall ConsoleTime ConsoleReadInt ?s)"
      by (rule returns_mono [OF console_Schedule [OF s(1)]]) (use s in \<open>simp add: console_state_def console_kept_def\<close>)
    then show ?thesis using s False by (simp add: ConsoleInput_CallBack_def)
  next
    case True
    show ?thesis
    proof (cases "keyboard ?s")
      case Nil
      then have "got = cs" using s(5,6) by (auto simp: append_eq_append_conv2)
      then show ?thesis using Nil s True by (simp add: ConsoleInput_CallBack_def SynchConsoleInput_CallBack_def console_state_def)
    next
      case (Cons c ks)
      then have "c \<noteq> EOF_char \<and> length got < length cs \<or> c = EOF_char \<and> got = cs" using ends_input_cases [OF e _ s(6)] s(5) by simp
      then show ?thesis using s True Cons by (auto simp: ConsoleInput_CallBack_def SynchConsoleInput_CallBack_def console_state_def)
    qed
  qed
qed

lemma get_step:
  assumes st: "console_state cs tail s got"
  shows "if inWaitFor s = 0 then SynchConsoleInput_GetChar s = Inr None
    else returns (\<lambda>r. \<exists>s' ch. r = Some (s', ch) \<and> console_state cs tail s' (got @ [ch])) (SynchConsoleInput_GetChar s)"
proof (cases "inWaitFor s = 0")
  case True
  then show ?thesis by (simp add: SynchConsoleInput_GetChar_def)
next
  case False
  let ?s = "s\<lparr>inWaitFor := inWaitFor s - 1\<rparr>"
  have i: "intr_ok ?s" and w: "inWaitFor s = 1" using st False by (auto simp: console_state_def)
  show ?thesis
  proof (cases "incoming s = EOF_char")
    case True
    then show ?thesis using st False by (auto simp: SynchConsoleInput_GetChar_def ConsoleInput_GetChar_def Let_def console_state_def)
  next
    case c: False
    obtain s' where s': "Schedule ConsoleInputCall ConsoleTime ConsoleReadInt ?s = Inr s'" "intr_ok s'" "posted ConsoleInputCall s' = posted ConsoleInputCall ?s + 1" "console_kept ?s s'"
      using console_Schedule [OF i, of ConsoleInputCall ConsoleReadInt] by (auto simp: returns_iff)
    have "posted ConsoleInputCall s = 0" "cs @ tail = got @ incoming s # keyboard s" "length got < length cs" using st c by (auto simp: console_state_def)
    then show ?thesis using s' c w by (simp add: SynchConsoleInput_GetChar_def ConsoleInput_GetChar_def Let_def console_state_def console_kept_def)
  qed
qed

lemma run_state:
  assumes "console_run s0 s got" and "console_state cs tail s0 []" and "ends_input cs tail"
  shows "console_state cs tail s got"
  using assms(1)
proof (induction rule: console_run.induct)
  case start
  then show ?case by (rule assms(2))
next
  case (read_interrupt s got pollFile s')
  then show ?case using read_step [OF read_interrupt.IH read_interrupt.hyps(2) assms(3), of pollFile] by simp
next
  case (get_char s got s' ch)
  then show ?case using get_step [OF get_char.IH] by (auto split: if_splits)
next
  case (other s got s')
  then show ?case by (auto simp: console_state_def elsewhere_def)
qed

text \<open>When the file has input, one interrupt and one \<^verbatim>\<open>GetChar\<close> deliver the next character.\<close>

lemma next_char:
  assumes "console_run s0 s got" and "console_state cs tail s got" and "ends_input cs tail" and "length got \<le> length cs"
  obtains s' ch where "console_run s0 s' (got @ [ch])" "console_state cs tail s' (got @ [ch])"
proof -
  obtain s1 where s1: "console_run s0 s1 got" "console_state cs tail s1 got" "inWaitFor s1 \<noteq> 0"
  proof (cases "0 < posted ConsoleInputCall s")
    case True
    obtain s1 where s1: "ConsoleInput_CallBack SynchConsoleInput_CallBack True (take_interrupt ConsoleInputCall s) = Inr s1" "console_state cs tail s1 got"
      using read_step [OF assms(2) True assms(3), of True] by (auto simp: returns_iff)
    moreover have "inWaitFor s1 = 1" using s1(1) assms(2) True
      by (auto simp: ConsoleInput_CallBack_def SynchConsoleInput_CallBack_def console_state_def split: list.splits)
    ultimately show ?thesis using that console_run.read_interrupt [OF assms(1) True s1(1)] by simp
  next
    case False
    then have "inWaitFor s \<noteq> 0" using assms(2,4) by (auto simp: console_state_def)
    then show ?thesis using that assms(1,2) by blast
  qed
  then obtain s' ch where "SynchConsoleInput_GetChar s1 = Inr (Some (s', ch))" "console_state cs tail s' (got @ [ch])"
    using get_step [OF s1(2)] by (auto simp: returns_iff)
  then show ?thesis using that console_run.get_char [OF s1(1)] by blast
qed

lemma run_to_end:
  assumes "console_run s0 s got" and "console_state cs tail s got" and "ends_input cs tail"
  shows "\<exists>s'. console_run s0 s' (cs @ [EOF_char])"
  using assms(1,2)
proof (induction "Suc (length cs) - length got" arbitrary: s got)
  case 0
  then have "got = cs @ [EOF_char]" by (auto simp: console_state_def)
  then show ?case using 0 by blast
next
  case (Suc n)
  then have "length got \<le> length cs" by simp
  with next_char [OF Suc.prems assms(3)] obtain s' ch where "console_run s0 s' (got @ [ch])" "console_state cs tail s' (got @ [ch])" by blast
  moreover have "n = Suc (length cs) - length (got @ [ch])" using Suc.hyps(2) by simp
  ultimately show ?case using Suc.hyps(1) by blast
qed

lemma new_state:
  assumes "intr_ok s" and "posted ConsoleInputCall s = 0" and "keyboard s = cs @ tail"
  obtains s0 where "SynchConsoleInput_new s = Inr s0" "console_state cs tail s0 []"
proof -
  have "intr_ok (s\<lparr>incoming := EOF_char\<rparr>)" using assms(1) by simp
  from console_Schedule [OF this, of ConsoleInputCall ConsoleReadInt] obtain s' where
    "Schedule ConsoleInputCall ConsoleTime ConsoleReadInt (s\<lparr>incoming := EOF_char\<rparr>) = Inr s'" "intr_ok s'"
    "posted ConsoleInputCall s' = 1" "console_kept (s\<lparr>incoming := EOF_char\<rparr>) s'"
    using assms(2) by (auto simp: returns_iff)
  then show ?thesis using that assms(3) by (simp add: SynchConsoleInput_new_def ConsoleInput_new_def console_state_def console_kept_def)
qed

lemma state_prefix:
  assumes "console_state cs tail s got"
  shows "prefix got (cs @ [EOF_char])"
proof -
  have "prefix got cs \<or> got = cs @ [EOF_char]" using assms
    by (auto simp: console_state_def append_eq_append_conv2 prefix_def)
  then show ?thesis by auto
qed

text \<open>Console output, one character at a time.\<close>

definition output_idle :: "'w console_scheme \<Rightarrow> bool" where
  "output_idle s \<longleftrightarrow> intr_ok s \<and> \<not> putBusy s \<and> posted ConsoleOutputCall s = 0 \<and> outWaitFor s = 0"

definition output_waiting :: "'w console_scheme \<Rightarrow> bool" where
  "output_waiting s \<longleftrightarrow> intr_ok s \<and> putBusy s \<and> posted ConsoleOutputCall s = 1 \<and> outWaitFor s = 0"

definition output_finish :: "'w console_scheme \<Rightarrow> 'w console_scheme outcome" where
  "output_finish s = bindR (ConsoleOutput_CallBack SynchConsoleOutput_CallBack (take_interrupt ConsoleOutputCall s)) (\<lambda>s.
     case SynchConsoleOutput_resume s of Some s \<Rightarrow> Inr s | None \<Rightarrow> Inl Diverges)"   \<comment> \<open>without the signal the thread waits for ever\<close>

interpretation sconsole: one_request output_idle output_waiting "\<lambda>_. True" display "\<lambda>ch d. d @ [ch]" SynchConsoleOutput_PutChar output_finish
proof
  fix s :: "'a console_scheme" and ch
  assume i: "output_idle s"
  let ?s = "s\<lparr>display := display s @ [ch], putBusy := True\<rparr>"
  have "intr_ok ?s" using i by (simp add: output_idle_def)
  then have "returns (\<lambda>s'. output_waiting s' \<and> display s' = display s @ [ch]) (Schedule ConsoleOutputCall ConsoleTime ConsoleWriteInt ?s)"
    by (rule returns_mono [OF console_Schedule]) (use i in \<open>simp add: output_idle_def output_waiting_def console_kept_def\<close>)
  then show "returns (\<lambda>s'. output_waiting s' \<and> display s' = display s @ [ch]) (SynchConsoleOutput_PutChar ch s)"
    using i by (simp add: SynchConsoleOutput_PutChar_def ConsoleOutput_PutChar_def output_idle_def Let_def)
next
  fix s :: "'a console_scheme"
  assume "output_waiting s"
  then show "returns (\<lambda>s'. output_idle s' \<and> display s' = display s) (output_finish s)"
    by (simp add: output_finish_def ConsoleOutput_CallBack_def SynchConsoleOutput_CallBack_def SynchConsoleOutput_resume_def
        output_idle_def output_waiting_def intr_ok_take)
qed

section \<open>Properties\<close>

definition demo_console :: console where
  "demo_console = alarm.extend demo_clock \<lparr>incoming = 0, keyboard = [104, 105], putBusy = True, display = [], inWaitFor = 7, outWaitFor = 7\<rparr>"

lemma demo_console_ok: "intr_ok demo_console" "posted ConsoleInputCall demo_console = 0" "posted ConsoleOutputCall demo_console = 0"
  by (simp_all add: demo_console_def demo_clock_def alarm.defs intr_ok_def pending_ok_def ticks_ok_def posted_def)



text \<open>
  Console output. After the creation of the synchronous console, writing any list of characters with
  \<^verbatim>\<open>PutChar\<close>, each call waiting for the interrupt of its character, never finds the device busy and shows the
  characters on the display, in order, after what was there.
\<close>

theorem console_output_in_order:
  assumes "intr_ok s" and "posted ConsoleOutputCall s = 0"
  shows "returns (\<lambda>s'. display s' = display s @ chs \<and> \<not> putBusy s')
    (forR chs (\<lambda>ch s. bindR (SynchConsoleOutput_PutChar ch s) output_finish) (SynchConsoleOutput_new s))"
proof -
  have "output_idle (SynchConsoleOutput_new s)" using assms by (simp add: output_idle_def SynchConsoleOutput_new_def ConsoleOutput_new_def)
  moreover have "fold (\<lambda>ch d. d @ [ch]) chs (display (SynchConsoleOutput_new s)) = display s @ chs"
    by (simp add: SynchConsoleOutput_new_def ConsoleOutput_new_def) (induction chs arbitrary: s rule: rev_induct; simp)
  ultimately show ?thesis using sconsole.calls [of "SynchConsoleOutput_new s" chs] by (auto simp: returns_iff output_idle_def)
qed

theorem console_output_in_order_witness:
  "returns (\<lambda>s'. display s' = [72, 105]) (forR [72, 105] (\<lambda>ch s. bindR (SynchConsoleOutput_PutChar ch s) output_finish) (SynchConsoleOutput_new demo_console))"
proof -
  have "display demo_console = []" by (simp add: demo_console_def demo_clock_def alarm.defs)
  then show ?thesis using console_output_in_order [OF demo_console_ok(1,3), of "[72, 105]"] by (auto elim: returns_mono)
qed

end
