(* ===== verification/Console_Test.thy ===== *)
theory Console_Test
  imports Console
begin

text \<open>
  \<^verbatim>\<open>Kernel::ConsoleTest\<close> of \<^verbatim>\<open>code/threads/kernel.cc\<close>: a thread that gets characters from the synchronous console
  and puts them back until it gets \<^verbatim>\<open>EOF\<close>. Its program counter is where it is in that loop; the interrupts of the two
  devices come at any time.
\<close>

section \<open>The echo loop\<close>

datatype echo_pc = Getting | Echo u8 | Putting | Ended

inductive ConsoleTest :: "console \<Rightarrow> echo_pc \<Rightarrow> console \<Rightarrow> u8 list \<Rightarrow> bool" for s0 where
  start: "ConsoleTest s0 Getting s0 []"
| get_char: "ConsoleTest s0 Getting s got \<Longrightarrow> SynchConsoleInput_GetChar s = Inr (Some (s', ch)) \<Longrightarrow>
    ConsoleTest s0 (if ch \<noteq> EOF_char then Echo ch else Ended) s' (got @ [ch])"
| put_char: "ConsoleTest s0 (Echo ch) s got \<Longrightarrow> SynchConsoleOutput_PutChar ch s = Inr s' \<Longrightarrow> ConsoleTest s0 Putting s' got"
| put_done: "ConsoleTest s0 Putting s got \<Longrightarrow> SynchConsoleOutput_resume s = Some s' \<Longrightarrow> ConsoleTest s0 Getting s' got"
| read_interrupt: "ConsoleTest s0 pc s got \<Longrightarrow> 0 < posted ConsoleInputCall s \<Longrightarrow>
    ConsoleInput_CallBack SynchConsoleInput_CallBack pollFile (take_interrupt ConsoleInputCall s) = Inr s' \<Longrightarrow> ConsoleTest s0 pc s' got"
| write_interrupt: "ConsoleTest s0 pc s got \<Longrightarrow> 0 < posted ConsoleOutputCall s \<Longrightarrow>
    ConsoleOutput_CallBack SynchConsoleOutput_CallBack (take_interrupt ConsoleOutputCall s) = Inr s' \<Longrightarrow> ConsoleTest s0 pc s' got"

section \<open>Input and output do not disturb each other\<close>

definition same_input :: "console \<Rightarrow> console \<Rightarrow> bool" where
  "same_input s s' \<longleftrightarrow> incoming s' = incoming s \<and> keyboard s' = keyboard s \<and> inWaitFor s' = inWaitFor s \<and> posted ConsoleInputCall s' = posted ConsoleInputCall s"

definition same_output :: "console \<Rightarrow> console \<Rightarrow> bool" where
  "same_output s s' \<longleftrightarrow> putBusy s' = putBusy s \<and> display s' = display s \<and> outWaitFor s' = outWaitFor s \<and> posted ConsoleOutputCall s' = posted ConsoleOutputCall s"

lemma Schedule_keeps:
  assumes "intr_ok s" and "Schedule c ConsoleTime ty s = Inr s'"
  shows "intr_ok s'" "d \<noteq> c \<Longrightarrow> posted d s' = posted d s" "console_kept s s'"
proof -
  obtain s1 where s1: "Schedule c ConsoleTime ty s = Inr s1" "intr_ok s1" "posted d s1 = posted d s + (if d = c then 1 else 0)"
    by (rule posted_Schedule [OF assms(1) ConsoleTime_pos])
  then show "intr_ok s'" "d \<noteq> c \<Longrightarrow> posted d s' = posted d s" using assms(2) by simp_all
  show "console_kept s s'" using console_Schedule [OF assms(1), of c ty] assms(2) by simp
qed

lemma read_interrupt_output:
  assumes "intr_ok s" and "ConsoleInput_CallBack SynchConsoleInput_CallBack pollFile (take_interrupt ConsoleInputCall s) = Inr s'"
  shows "same_output s s'"
proof -
  let ?s = "take_interrupt ConsoleInputCall s"
  have i: "intr_ok ?s" by (rule intr_ok_take [OF assms(1)])
  show ?thesis
  proof (cases pollFile)
    case False
    then have "Schedule ConsoleInputCall ConsoleTime ConsoleReadInt ?s = Inr s'"
      using assms(2) by (auto simp: ConsoleInput_CallBack_def ASSERT_def split: if_splits)
    from Schedule_keeps [OF i this] show ?thesis by (simp add: same_output_def console_kept_def)
  next
    case True
    then show ?thesis using assms(2)
      by (auto simp: ConsoleInput_CallBack_def SynchConsoleInput_CallBack_def ASSERT_def same_output_def split: if_splits list.splits)
  qed
qed

lemma get_char_output:
  assumes "intr_ok s" and "SynchConsoleInput_GetChar s = Inr (Some (s', ch))"
  shows "same_output s s'"
proof -
  let ?s = "s\<lparr>inWaitFor := inWaitFor s - 1\<rparr>"
  have i: "intr_ok ?s" using assms(1) by simp
  show ?thesis
  proof (cases "incoming s = EOF_char")
    case True
    then show ?thesis using assms(2) by (auto simp: SynchConsoleInput_GetChar_def ConsoleInput_GetChar_def Let_def same_output_def split: if_splits)
  next
    case False
    then obtain s1 where s1: "Schedule ConsoleInputCall ConsoleTime ConsoleReadInt ?s = Inr s1" "s' = s1\<lparr>incoming := EOF_char\<rparr>"
      using assms(2) by (cases "Schedule ConsoleInputCall ConsoleTime ConsoleReadInt ?s")
        (auto simp: SynchConsoleInput_GetChar_def ConsoleInput_GetChar_def Let_def split: if_splits)
    from Schedule_keeps [OF i s1(1)] show ?thesis using s1(2) by (simp add: same_output_def console_kept_def)
  qed
qed

lemma put_char_ok:
  assumes "intr_ok s" and "\<not> putBusy s"
  shows "returns (\<lambda>s'. intr_ok s' \<and> same_input s s' \<and> display s' = display s @ [ch] \<and> putBusy s' \<and> outWaitFor s' = outWaitFor s \<and>
    posted ConsoleOutputCall s' = posted ConsoleOutputCall s + 1) (SynchConsoleOutput_PutChar ch s)"
proof -
  let ?s = "s\<lparr>display := display s @ [ch], putBusy := True\<rparr>"
  have i: "intr_ok ?s" using assms(1) by simp
  obtain s' where s': "Schedule ConsoleOutputCall ConsoleTime ConsoleWriteInt ?s = Inr s'" "posted ConsoleOutputCall s' = posted ConsoleOutputCall ?s + 1"
    using console_Schedule [OF i, of ConsoleOutputCall ConsoleWriteInt] by (auto simp: returns_iff)
  from Schedule_keeps [OF i s'(1)] show ?thesis using s' assms(2)
    by (simp add: SynchConsoleOutput_PutChar_def ConsoleOutput_PutChar_def Let_def same_input_def console_kept_def)
qed

lemma state_same_input: "console_state cs tail s got \<Longrightarrow> same_input s s' \<Longrightarrow> intr_ok s' \<Longrightarrow> console_state cs tail s' got"
  by (auto simp: console_state_def same_input_def)

lemma state_intr: "console_state cs tail s got \<Longrightarrow> intr_ok s"
  by (simp add: console_state_def)

definition put_state :: "u8 list \<Rightarrow> echo_pc \<Rightarrow> console \<Rightarrow> u8 list \<Rightarrow> bool" where
  "put_state d pc s got \<longleftrightarrow>
     (case pc of Putting \<Rightarrow> putBusy s \<and> posted ConsoleOutputCall s = 1 \<and> outWaitFor s = 0 \<or> \<not> putBusy s \<and> posted ConsoleOutputCall s = 0 \<and> outWaitFor s = 1
      | _ \<Rightarrow> \<not> putBusy s \<and> posted ConsoleOutputCall s = 0 \<and> outWaitFor s = 0) \<and>
     (case pc of Echo ch \<Rightarrow> d @ got = display s @ [ch] | Ended \<Rightarrow> d @ got = display s @ [EOF_char] | _ \<Rightarrow> d @ got = display s) \<and>
     (if pc = Ended then got \<noteq> [] \<and> last got = EOF_char else EOF_char \<notin> set got)"

lemma put_state_same: "put_state d pc s got \<Longrightarrow> same_output s s' \<Longrightarrow> put_state d pc s' got"
  by (simp add: put_state_def same_output_def split: echo_pc.splits)

lemma echo_invariant:
  assumes "ConsoleTest s0 pc s got" and "console_state cs tail s0 []" and "ends_input cs tail" and "put_state (display s0) Getting s0 []"
  shows "console_state cs tail s got \<and> put_state (display s0) pc s got"
  using assms(1)
proof (induction rule: ConsoleTest.induct)
  case start
  then show ?case using assms by simp
next
  case (get_char s got s' ch)
  then have st: "console_state cs tail s got" and p: "put_state (display s0) Getting s got" by auto
  have "console_state cs tail s' (got @ [ch])" using get_step [OF st] get_char.hyps(2) by (auto split: if_splits)
  moreover have "same_output s s'" by (rule get_char_output [OF state_intr [OF st] get_char.hyps(2)])
  ultimately show ?case using p by (auto simp: put_state_def same_output_def)
next
  case (put_char ch s got s')
  then have st: "console_state cs tail s got" and p: "put_state (display s0) (Echo ch) s got" by auto
  from put_char_ok [OF state_intr [OF st], of ch] p put_char.hyps(2) have "intr_ok s'" "same_input s s'" "put_state (display s0) Putting s' got"
    by (simp_all add: put_state_def)
  then show ?case using state_same_input [OF st] by blast
next
  case (put_done s got s')
  then have st: "console_state cs tail s got" and p: "put_state (display s0) Putting s got" by auto
  have "same_input s s'" "intr_ok s'" using put_done.hyps(2) state_intr [OF st] by (auto simp: SynchConsoleOutput_resume_def same_input_def split: if_splits)
  then have "console_state cs tail s' got" by (rule state_same_input [OF st])
  moreover have "put_state (display s0) Getting s' got" using p put_done.hyps(2) by (auto simp: SynchConsoleOutput_resume_def put_state_def split: if_splits)
  ultimately show ?case by blast
next
  case (read_interrupt pc s got pollFile s')
  then have st: "console_state cs tail s got" and p: "put_state (display s0) pc s got" by auto
  have "console_state cs tail s' got" using read_step [OF st read_interrupt.hyps(2) assms(3), of pollFile] read_interrupt.hyps(3) by simp
  moreover have "same_output s s'" by (rule read_interrupt_output [OF state_intr [OF st] read_interrupt.hyps(3)])
  ultimately show ?case using put_state_same [OF p] by blast
next
  case (write_interrupt pc s got s')
  then have st: "console_state cs tail s got" and p: "put_state (display s0) pc s got" by auto
  have s': "same_input s s'" "intr_ok s'" using write_interrupt.hyps(3) intr_ok_take [OF state_intr [OF st], of ConsoleOutputCall]
    by (auto simp: ConsoleOutput_CallBack_def SynchConsoleOutput_CallBack_def same_input_def)
  have "put_state (display s0) pc s' got" using p write_interrupt.hyps(2,3)
    by (auto simp: ConsoleOutput_CallBack_def SynchConsoleOutput_CallBack_def put_state_def split: echo_pc.splits)
  then show ?case using state_same_input [OF st s'] by blast
qed

section \<open>The loop can always end\<close>

definition echo_run :: "u8 list \<Rightarrow> u8 list \<Rightarrow> console \<Rightarrow> echo_pc \<Rightarrow> console \<Rightarrow> u8 list \<Rightarrow> bool" where
  "echo_run cs tail s0 pc s got \<longleftrightarrow> ConsoleTest s0 pc s got \<and> console_state cs tail s0 [] \<and> ends_input cs tail \<and> put_state (display s0) Getting s0 []"

lemma echo_run_inv:
  assumes "echo_run cs tail s0 pc s got"
  shows "console_state cs tail s got" "put_state (display s0) pc s got" "ends_input cs tail"
  using assms echo_invariant by (auto simp: echo_run_def)

lemma putting_done:
  assumes r: "echo_run cs tail s0 Putting s got"
  shows "\<exists>s'. echo_run cs tail s0 Getting s' got"
proof -
  note inv = echo_run_inv [OF r]
  obtain s1 where s1: "echo_run cs tail s0 Putting s1 got" "outWaitFor s1 = 1"
  proof (cases "putBusy s")
    case True
    then have "0 < posted ConsoleOutputCall s" "outWaitFor s = 0" using inv(2) by (auto simp: put_state_def)
    moreover obtain s1 where "ConsoleOutput_CallBack SynchConsoleOutput_CallBack (take_interrupt ConsoleOutputCall s) = Inr s1" "outWaitFor s1 = outWaitFor s + 1"
      by (simp add: ConsoleOutput_CallBack_def SynchConsoleOutput_CallBack_def)
    ultimately show ?thesis using that [of s1] r ConsoleTest.write_interrupt [of s0 Putting s got s1] by (simp add: echo_run_def)
  next
    case False
    then show ?thesis using that [of s] r inv(2) by (auto simp: put_state_def)
  qed
  then obtain s' where "SynchConsoleOutput_resume s1 = Some s'" by (auto simp: SynchConsoleOutput_resume_def)
  then show ?thesis using s1(1) ConsoleTest.put_done [of s0 s1 got s'] by (auto simp: echo_run_def)
qed

lemma echo_done:
  assumes r: "echo_run cs tail s0 (Echo ch) s got"
  shows "\<exists>s'. echo_run cs tail s0 Getting s' got"
proof -
  note inv = echo_run_inv [OF r]
  have "\<not> putBusy s" using inv(2) by (simp add: put_state_def)
  then obtain s1 where "SynchConsoleOutput_PutChar ch s = Inr s1" using put_char_ok [OF state_intr [OF inv(1)], of ch] by (auto simp: returns_iff)
  then have "echo_run cs tail s0 Putting s1 got" using r ConsoleTest.put_char [of s0 ch s got s1] by (simp add: echo_run_def)
  then show ?thesis by (rule putting_done)
qed

lemma getting_next:
  assumes r: "echo_run cs tail s0 Getting s got"
  shows "\<exists>s' ch. echo_run cs tail s0 (if ch \<noteq> EOF_char then Echo ch else Ended) s' (got @ [ch])"
proof -
  note inv = echo_run_inv [OF r]
  have no: "EOF_char \<notin> set got" using inv(2) by (simp add: put_state_def)
  obtain s1 where s1: "echo_run cs tail s0 Getting s1 got" "inWaitFor s1 \<noteq> 0"
  proof (cases "0 < posted ConsoleInputCall s")
    case True
    obtain s1 where c: "ConsoleInput_CallBack SynchConsoleInput_CallBack True (take_interrupt ConsoleInputCall s) = Inr s1"
      using read_step [OF inv(1) True inv(3), of True] by (auto simp: returns_iff)
    moreover have "inWaitFor s1 = 1" using c inv(1) True
      by (auto simp: ConsoleInput_CallBack_def SynchConsoleInput_CallBack_def console_state_def split: list.splits)
    ultimately show ?thesis using that [of s1] r ConsoleTest.read_interrupt [of s0 Getting s got True s1] True by (simp add: echo_run_def)
  next
    case False
    then have "inWaitFor s \<noteq> 0" using inv(1) no by (auto simp: console_state_def)
    then show ?thesis using that r by blast
  qed
  then obtain s' ch where "SynchConsoleInput_GetChar s1 = Inr (Some (s', ch))" using get_step [OF echo_run_inv(1) [OF s1(1)]] by (auto simp: returns_iff)
  then have "ConsoleTest s0 (if ch \<noteq> EOF_char then Echo ch else Ended) s' (got @ [ch])" using s1(1) ConsoleTest.get_char [of s0 s1 got s' ch] by (simp add: echo_run_def)
  then have "echo_run cs tail s0 (if ch \<noteq> EOF_char then Echo ch else Ended) s' (got @ [ch])" using s1(1) unfolding echo_run_def by blast
  then show ?thesis by blast
qed

lemma getting_ends: "echo_run cs tail s0 Getting s got \<Longrightarrow> \<exists>s' got'. echo_run cs tail s0 Ended s' got'"
proof (induction "Suc (length cs) - length got" arbitrary: s got rule: less_induct)
  case less
  obtain s1 ch where s1: "echo_run cs tail s0 (if ch \<noteq> EOF_char then Echo ch else Ended) s1 (got @ [ch])" using getting_next [OF less.prems] by blast
  show ?case
  proof (cases "ch = EOF_char")
    case False
    then obtain s2 where s2: "echo_run cs tail s0 Getting s2 (got @ [ch])" using s1 echo_done [of cs tail s0 ch s1 "got @ [ch]"] by auto
    have "length (got @ [ch]) \<le> Suc (length cs)" using prefix_length_le [OF state_prefix [OF echo_run_inv(1) [OF s2]]] by simp
    then show ?thesis using less.hyps [OF _ s2] by simp
  qed (use s1 in auto)
qed

lemma can_end: "echo_run cs tail s0 pc s got \<Longrightarrow> \<exists>s' got'. echo_run cs tail s0 Ended s' got'"
  by (cases pc; simp) (blast dest: getting_ends echo_done putting_done)+

lemma ended_got:
  assumes r: "echo_run cs tail s0 Ended s got"
  shows "got = cs @ [EOF_char]" "display s = display s0 @ cs"
proof -
  note inv = echo_run_inv [OF r]
  have d: "display s0 @ got = display s @ [EOF_char]" using inv(2) by (simp add: put_state_def)
  have p: "prefix got (cs @ [EOF_char])" by (rule state_prefix [OF inv(1)])
  have "EOF_char \<notin> set cs" using inv(3) by (simp add: ends_input_def)
  moreover have "got \<noteq> []" "last got = EOF_char" using inv(2) by (simp_all add: put_state_def)
  ultimately show g: "got = cs @ [EOF_char]" using p by (metis last_in_set prefix_snoc set_mono_prefix subsetD)
  then show "display s = display s0 @ cs" using d by simp
qed

section \<open>Properties\<close>



end
