(* ===== verification/Post_Office.thy ===== *)
theory Post_Office
  imports Synch_Devices File_Header "HOL-Library.Sublist"
begin

text \<open>
  The network device of \<^verbatim>\<open>code/machine/network.cc\<close> and the post office of \<^verbatim>\<open>code/network/post.cc\<close>. Headers are
  stored in a packet as little-endian words, as the C++ objects are on the host. The socket of a machine is the
  queue of 64-byte packets that have arrived there. Whether \<^verbatim>\<open>Send\<close> drops a packet (a random
  percentage at least \<^verbatim>\<open>chanceToWork * 100\<close>) is an argument, and so are the bytes of fresh buffers. A
  function that would wait on a semaphore or for a message returns \<open>None\<close>. A run
  interleaves the interrupts, the postal workers and the threads of all machines; the theorems show that each mailbox is a
  queue of the messages sent to it and not dropped.
\<close>

section \<open>Packets\<close>

definition NetworkTime :: int where "NetworkTime = 100"
definition MaxWireSize :: nat where "MaxWireSize = 64"

record PacketHeader =
  pkt_to :: u32
  pkt_from :: u32
  pkt_length :: u32

record MailHeader =
  mail_to :: u32
  mail_from :: u32
  mail_length :: u32

definition sizeof_PacketHeader :: nat where "sizeof_PacketHeader = 12"
definition sizeof_MailHeader :: nat where "sizeof_MailHeader = 12"
definition MaxPacketSize :: nat where "MaxPacketSize = MaxWireSize - sizeof_PacketHeader"
definition MaxMailSize :: nat where "MaxMailSize = MaxPacketSize - sizeof_MailHeader"

definition pkt_to_bytes :: "PacketHeader \<Rightarrow> u8 list" where
  "pkt_to_bytes h = concat (map int_bytes [pkt_to h, pkt_from h, pkt_length h])"

definition pkt_of_bytes :: "u8 list \<Rightarrow> PacketHeader" where
  "pkt_of_bytes b = \<lparr>pkt_to = word_at_byte b 0, pkt_from = word_at_byte b 1, pkt_length = word_at_byte b 2\<rparr>"

definition mail_to_bytes :: "MailHeader \<Rightarrow> u8 list" where
  "mail_to_bytes h = concat (map int_bytes [mail_to h, mail_from h, mail_length h])"

definition mail_of_bytes :: "u8 list \<Rightarrow> MailHeader" where
  "mail_of_bytes b = \<lparr>mail_to = word_at_byte b 0, mail_from = word_at_byte b 1, mail_length = word_at_byte b 2\<rparr>"

definition overlay :: "u8 list \<Rightarrow> u8 list \<Rightarrow> u8 list" where   \<comment> \<open>\<open>b\<close> copied to the start of \<open>buffer\<close>\<close>
  "overlay b buffer = b @ drop (length b) buffer"

record mail =
  pktHdr :: PacketHeader
  mailHdr :: MailHeader
  mdata :: "u8 list"

record post_office = alarm +
  hostName :: u32
  inHdr :: PacketHeader
  inbox :: "u8 list"
  sendBusy :: bool
  messageAvailable :: int
  numBoxes :: int
  boxes :: "mail list list"
  workerBuffer :: "u8 list"
  sendLock :: bool
  messageSent :: int

section \<open>Network device\<close>

definition NetworkInput_new :: "post_office \<Rightarrow> post_office outcome" where
  "NetworkInput_new s =
     Schedule NetworkInputCall NetworkTime NetworkRecvInt (s\<lparr>inHdr := (inHdr s)\<lparr>pkt_length := 0\<rparr>\<rparr>)"

definition NetworkInput_CallBack ::
    "(post_office \<Rightarrow> post_office outcome) \<Rightarrow> u8 list list \<Rightarrow> post_office \<Rightarrow> (post_office \<times> u8 list list) outcome" where
  "NetworkInput_CallBack callWhenAvail sock s =
     bindR (Schedule NetworkInputCall NetworkTime NetworkRecvInt s) (\<lambda>s.
     if pkt_length (inHdr s) \<noteq> 0 then Inr (s, sock)
     else case sock of [] \<Rightarrow> Inr (s, sock)
     | buffer # sock \<Rightarrow>
         let s = s\<lparr>inHdr := pkt_of_bytes buffer\<rparr> in
         bindR (ASSERT (pkt_to (inHdr s) = hostName s \<and> unat (pkt_length (inHdr s)) \<le> MaxPacketSize)) (\<lambda>_.
         let s = s\<lparr>inbox := overlay (take (unat (pkt_length (inHdr s))) (drop sizeof_PacketHeader buffer)) (inbox s),
                   numPacketsRecvd := numPacketsRecvd s + 1\<rparr> in
         bindR (callWhenAvail s) (\<lambda>s. Inr (s, sock))))"

definition NetworkInput_Receive :: "u8 list \<Rightarrow> post_office \<Rightarrow> post_office \<times> PacketHeader \<times> u8 list" where
  "NetworkInput_Receive data s =
     (let h = inHdr s in
      (s\<lparr>inHdr := (inHdr s)\<lparr>pkt_length := 0\<rparr>\<rparr>, h,
       if pkt_length h \<noteq> 0 then overlay (take (unat (pkt_length h)) (inbox s)) data else data))"

definition NetworkOutput_new :: "post_office \<Rightarrow> post_office" where
  "NetworkOutput_new s = s\<lparr>sendBusy := False\<rparr>"

definition NetworkOutput_CallBack :: "(post_office \<Rightarrow> post_office outcome) \<Rightarrow> post_office \<Rightarrow> post_office outcome" where
  "NetworkOutput_CallBack callWhenDone s =
     callWhenDone (s\<lparr>sendBusy := False, numPacketsSent := numPacketsSent s + 1\<rparr>)"

text \<open>The result has the packet for the socket of the machine \<open>pkt_to h\<close>, unless it is dropped.\<close>

definition NetworkOutput_Send ::
    "bool \<Rightarrow> u8 list \<Rightarrow> PacketHeader \<Rightarrow> u8 list \<Rightarrow> post_office \<Rightarrow> (post_office \<times> (u32 \<times> u8 list) option) outcome" where
  "NetworkOutput_Send lost fresh h data s =
     bindR (ASSERT (sendBusy s = False \<and> pkt_length h > 0 \<and> unat (pkt_length h) \<le> MaxPacketSize \<and> pkt_from h = hostName s)) (\<lambda>_.
     bindR (Schedule NetworkOutputCall NetworkTime NetworkSendInt s) (\<lambda>s.
     if lost then Inr (s, None)
     else if length data < unat (pkt_length h) then Inl OutOfBounds
     else Inr (s, Some (pkt_to h, overlay (pkt_to_bytes h @ take (unat (pkt_length h)) data) fresh))))"

section \<open>Post office\<close>

definition Mail_new :: "PacketHeader \<Rightarrow> MailHeader \<Rightarrow> u8 list \<Rightarrow> mail outcome" where
  "Mail_new pktH mailH msgData =
     bindR (ASSERT (unat (mail_length mailH) \<le> MaxMailSize)) (\<lambda>_.
     if length msgData < unat (mail_length mailH) then Inl OutOfBounds
     else Inr \<lparr>pktHdr = pktH, mailHdr = mailH, mdata = take (unat (mail_length mailH)) msgData\<rparr>)"

definition MailBox_new :: "mail list" where "MailBox_new = []"

definition MailBox_Put :: "PacketHeader \<Rightarrow> MailHeader \<Rightarrow> u8 list \<Rightarrow> mail list \<Rightarrow> mail list outcome" where
  "MailBox_Put pktH mailH data messages = bindR (Mail_new pktH mailH data) (\<lambda>m. Inr (messages @ [m]))"

definition MailBox_Get :: "mail list \<Rightarrow> (mail list \<times> PacketHeader \<times> MailHeader \<times> u8 list) option" where
  "MailBox_Get messages = (case messages of [] \<Rightarrow> None
     | m # ms \<Rightarrow> Some (ms, pktHdr m, mailHdr m, take (unat (mail_length (mailHdr m))) (mdata m)))"

definition PostOfficeInput_new :: "int \<Rightarrow> post_office \<Rightarrow> post_office outcome" where
  "PostOfficeInput_new nBoxes s =
     NetworkInput_new (s\<lparr>messageAvailable := 0, numBoxes := nBoxes, boxes := replicate (nat nBoxes) MailBox_new\<rparr>)"

definition PostOfficeInput_CallBack :: "post_office \<Rightarrow> post_office outcome" where
  "PostOfficeInput_CallBack s = Inr (s\<lparr>messageAvailable := messageAvailable s + 1\<rparr>)"

text \<open>One turn of the postal worker's loop; its buffer is kept from turn to turn.\<close>

definition PostalDelivery :: "post_office \<Rightarrow> post_office option outcome" where
  "PostalDelivery s =
     (if messageAvailable s = 0 then Inr None
      else let s = s\<lparr>messageAvailable := messageAvailable s - 1\<rparr>;
               (s, pktH, buffer) = NetworkInput_Receive (workerBuffer s) s;
               s = s\<lparr>workerBuffer := buffer\<rparr>;
               mailH = mail_of_bytes buffer in
           bindR (ASSERT (0 \<le> sint (mail_to mailH) \<and> sint (mail_to mailH) < numBoxes s)) (\<lambda>_.
           bindR (ASSERT (unat (mail_length mailH) \<le> MaxMailSize)) (\<lambda>_.
           let b = nat (sint (mail_to mailH)) in
           bindR (MailBox_Put pktH mailH (drop sizeof_MailHeader buffer) (boxes s ! b)) (\<lambda>box.
           Inr (Some (s\<lparr>boxes := (boxes s)[b := box]\<rparr>))))))"

definition PostOfficeInput_Receive ::
    "int \<Rightarrow> post_office \<Rightarrow> (post_office \<times> PacketHeader \<times> MailHeader \<times> u8 list) option outcome" where
  "PostOfficeInput_Receive box s =
     bindR (ASSERT (box \<ge> 0 \<and> box < numBoxes s)) (\<lambda>_.
     case MailBox_Get (boxes s ! nat box) of None \<Rightarrow> Inr None
     | Some (messages, pktH, mailH, data) \<Rightarrow>
         bindR (ASSERT (unat (mail_length mailH) \<le> MaxMailSize)) (\<lambda>_.
         Inr (Some (s\<lparr>boxes := (boxes s)[nat box := messages]\<rparr>, pktH, mailH, data))))"

definition PostOfficeOutput_new :: "post_office \<Rightarrow> post_office" where
  "PostOfficeOutput_new s = NetworkOutput_new (s\<lparr>messageSent := 0, sendLock := False\<rparr>)"

definition PostOfficeOutput_CallBack :: "post_office \<Rightarrow> post_office outcome" where
  "PostOfficeOutput_CallBack s = Inr (s\<lparr>messageSent := messageSent s + 1\<rparr>)"

text \<open>\<^verbatim>\<open>Send\<close> up to \<^verbatim>\<open>messageSent->P()\<close>, once it has the lock, and from there on.\<close>

definition PostOfficeOutput_Send ::
    "bool \<Rightarrow> u8 list \<Rightarrow> u8 list \<Rightarrow> PacketHeader \<Rightarrow> MailHeader \<Rightarrow> u8 list \<Rightarrow> post_office \<Rightarrow>
       (post_office \<times> (u32 \<times> u8 list) option) option outcome" where
  "PostOfficeOutput_Send lost fresh buffer pktH mailH data s =
     bindR (ASSERT (unat (mail_length mailH) \<le> MaxMailSize)) (\<lambda>_.
     bindR (ASSERT (0 \<le> sint (mail_to mailH))) (\<lambda>_.
     let pktH = pktH\<lparr>pkt_from := hostName s, pkt_length := mail_length mailH + of_nat sizeof_MailHeader\<rparr> in
     if length data < unat (mail_length mailH) then Inl OutOfBounds
     else let buffer = overlay (mail_to_bytes mailH @ take (unat (mail_length mailH)) data) buffer in
     if sendLock s then Inr None
     else bindR (NetworkOutput_Send lost fresh pktH buffer (s\<lparr>sendLock := True\<rparr>)) (\<lambda>r. Inr (Some r))))"

definition PostOfficeOutput_resume :: "post_office \<Rightarrow> post_office option" where
  "PostOfficeOutput_resume s =
     (if messageSent s = 0 then None else Some (s\<lparr>messageSent := messageSent s - 1, sendLock := False\<rparr>))"

section \<open>Runs of a network\<close>

record network =
  hosts :: "u32 \<Rightarrow> post_office option"
  sockets :: "u32 \<Rightarrow> u8 list list"

type_synonym mail_log = "u32 \<Rightarrow> int \<Rightarrow> mail list"

definition log_add :: "u32 \<Rightarrow> int \<Rightarrow> mail \<Rightarrow> mail_log \<Rightarrow> mail_log" where
  "log_add h b m l = l(h := (l h)(b := l h b @ [m]))"

definition deliver :: "(u32 \<times> u8 list) option \<Rightarrow> network \<Rightarrow> network" where
  "deliver p N = (case p of None \<Rightarrow> N
     | Some (h, packet) \<Rightarrow> if hosts N h = None then N else N\<lparr>sockets := (sockets N)(h := sockets N h @ [packet])\<rparr>)"

definition set_host :: "u32 \<Rightarrow> post_office \<Rightarrow> network \<Rightarrow> network" where
  "set_host h s N = N\<lparr>hosts := (hosts N)(h \<mapsto> s)\<rparr>"

text \<open>What a message looks like when it arrives: the headers as \<^verbatim>\<open>Send\<close> completes them, and the data.\<close>

definition sent_mail :: "u32 \<Rightarrow> PacketHeader \<Rightarrow> MailHeader \<Rightarrow> u8 list \<Rightarrow> mail" where
  "sent_mail h pktH mailH data = \<lparr>pktHdr = pktH\<lparr>pkt_from := h, pkt_length := mail_length mailH + 12\<rparr>, mailHdr = mailH,
     mdata = take (unat (mail_length mailH)) data\<rparr>"

text \<open>A message for a mailbox that exists on its machine.\<close>

definition legal_mail :: "network \<Rightarrow> PacketHeader \<Rightarrow> MailHeader \<Rightarrow> u8 list \<Rightarrow> bool" where
  "legal_mail N pktH mailH data \<longleftrightarrow> unat (mail_length mailH) \<le> MaxMailSize \<and> unat (mail_length mailH) \<le> length data \<and>
     0 \<le> sint (mail_to mailH) \<and> (case hosts N (pkt_to pktH) of None \<Rightarrow> True | Some s \<Rightarrow> sint (mail_to mailH) < numBoxes s)"

definition elsewhere_on_host :: "post_office \<Rightarrow> post_office \<Rightarrow> bool" where
  "elsewhere_on_host s s' \<longleftrightarrow> (intr_ok s \<longrightarrow> intr_ok s') \<and> alarm.more s' = alarm.more s \<and>
     posted NetworkInputCall s' = posted NetworkInputCall s \<and> posted NetworkOutputCall s' = posted NetworkOutputCall s"

definition created :: "u32 \<Rightarrow> post_office \<Rightarrow> bool" where
  "created h s \<longleftrightarrow> (\<exists>s0 n s1. intr_ok s0 \<and> posted NetworkInputCall s0 = 0 \<and> posted NetworkOutputCall s0 = 0 \<and> hostName s0 = h \<and>
     length (inbox s0) = MaxPacketSize \<and> length (workerBuffer s0) = MaxPacketSize \<and>
     PostOfficeInput_new n s0 = Inr s1 \<and> s = PostOfficeOutput_new s1)"

definition net_start :: "network \<Rightarrow> bool" where
  "net_start N \<longleftrightarrow> (\<forall>h. sockets N h = [] \<and> (\<forall>s. hosts N h = Some s \<longrightarrow> created h s))"

text \<open>\<open>sent\<close> and \<open>got\<close> collect, for each machine and mailbox, the messages put on the wire and the messages received.\<close>

inductive net_run :: "network \<Rightarrow> mail_log \<Rightarrow> mail_log \<Rightarrow> bool" where
  start: "net_start N \<Longrightarrow> net_run N (\<lambda>_ _. []) (\<lambda>_ _. [])"
| send: "net_run N sent got \<Longrightarrow> hosts N h = Some s \<Longrightarrow> legal_mail N pktH mailH data \<Longrightarrow>
    length fresh = MaxWireSize \<Longrightarrow> length buffer = MaxPacketSize \<Longrightarrow>
    PostOfficeOutput_Send lost fresh buffer pktH mailH data s = Inr (Some (s', p)) \<Longrightarrow>
    net_run (deliver p (set_host h s' N))
      (if p = None \<or> hosts N (pkt_to pktH) = None then sent
       else log_add (pkt_to pktH) (sint (mail_to mailH)) (sent_mail h pktH mailH data) sent) got"
| sent_interrupt: "net_run N sent got \<Longrightarrow> hosts N h = Some s \<Longrightarrow> 0 < posted NetworkOutputCall s \<Longrightarrow>
    NetworkOutput_CallBack PostOfficeOutput_CallBack (take_interrupt NetworkOutputCall s) = Inr s' \<Longrightarrow>
    net_run (set_host h s' N) sent got"
| send_done: "net_run N sent got \<Longrightarrow> hosts N h = Some s \<Longrightarrow> PostOfficeOutput_resume s = Some s' \<Longrightarrow> net_run (set_host h s' N) sent got"
| receive_interrupt: "net_run N sent got \<Longrightarrow> hosts N h = Some s \<Longrightarrow> 0 < posted NetworkInputCall s \<Longrightarrow>
    NetworkInput_CallBack PostOfficeInput_CallBack (sockets N h) (take_interrupt NetworkInputCall s) = Inr (s', sock) \<Longrightarrow>
    net_run ((set_host h s' N)\<lparr>sockets := (sockets N)(h := sock)\<rparr>) sent got"
| worker: "net_run N sent got \<Longrightarrow> hosts N h = Some s \<Longrightarrow> PostalDelivery s = Inr (Some s') \<Longrightarrow> net_run (set_host h s' N) sent got"
| receive: "net_run N sent got \<Longrightarrow> hosts N h = Some s \<Longrightarrow>
    PostOfficeInput_Receive b s = Inr (Some (s', pktH, mailH, data)) \<Longrightarrow>
    net_run (set_host h s' N) sent (log_add h b \<lparr>pktHdr = pktH, mailHdr = mailH, mdata = data\<rparr> got)"
| other: "net_run N sent got \<Longrightarrow> hosts N h = Some s \<Longrightarrow> elsewhere_on_host s s' \<Longrightarrow> net_run (set_host h s' N) sent got"

section \<open>Lemmas\<close>

lemma net_sizes [simp]: "MaxWireSize = 64" "MaxPacketSize = 52" "MaxMailSize = 40" "sizeof_PacketHeader = 12" "sizeof_MailHeader = 12"
  by (simp_all add: MaxWireSize_def MaxPacketSize_def MaxMailSize_def sizeof_PacketHeader_def sizeof_MailHeader_def)

lemma length_header_bytes [simp]: "length (pkt_to_bytes h) = 12" "length (mail_to_bytes m) = 12"
  by (simp_all add: pkt_to_bytes_def mail_to_bytes_def)

lemma word_at_byte_append: "4 * i + 4 \<le> length xs \<Longrightarrow> word_at_byte (xs @ ys) i = word_at_byte xs i"
  by (simp add: word_at_byte_def nth_append)

lemma header_bytes_roundtrip: "pkt_of_bytes (pkt_to_bytes h @ ys) = h" "mail_of_bytes (mail_to_bytes m @ ys) = m"
  using words_of_bytes [of _ "[pkt_to h, pkt_from h, pkt_length h]"] words_of_bytes [of _ "[mail_to m, mail_from m, mail_length m]"]
  by (simp_all add: pkt_of_bytes_def mail_of_bytes_def word_at_byte_append)
    (simp_all add: pkt_to_bytes_def mail_to_bytes_def)

text \<open>The message a packet carries.\<close>

definition packet_mail :: "PacketHeader \<Rightarrow> u8 list \<Rightarrow> mail" where
  "packet_mail h payload = \<lparr>pktHdr = h, mailHdr = mail_of_bytes payload,
     mdata = take (unat (mail_length (mail_of_bytes payload))) (drop 12 payload)\<rparr>"

definition wire_mail :: "u8 list \<Rightarrow> mail" where
  "wire_mail p = packet_mail (pkt_of_bytes p) (drop 12 p)"

definition payload_ok :: "int \<Rightarrow> PacketHeader \<Rightarrow> u8 list \<Rightarrow> bool" where
  "payload_ok n h payload \<longleftrightarrow> unat (pkt_length h) = 12 + unat (mail_length (mail_of_bytes payload)) \<and>
     unat (mail_length (mail_of_bytes payload)) \<le> 40 \<and> unat (pkt_length h) \<le> length payload \<and>
     0 \<le> sint (mail_to (mail_of_bytes payload)) \<and> sint (mail_to (mail_of_bytes payload)) < n"

lemma mail_of_bytes_cong: "take 12 x = take 12 y \<Longrightarrow> 12 \<le> length x \<Longrightarrow> 12 \<le> length y \<Longrightarrow> mail_of_bytes x = mail_of_bytes y"
proof -
  assume a: "take 12 x = take 12 y" "12 \<le> length x" "12 \<le> length y"
  have "word_at_byte x i = word_at_byte y i" if "i < 3" for i
  proof -
    have "4 * i + 4 \<le> 12" using that by simp
    then have z: "word_at_byte z i = word_at_byte (take 12 z) i" if "12 \<le> length z" for z
      using that word_at_byte_append [of i "take 12 z" "drop 12 z"] by simp
    show ?thesis unfolding z [OF a(2)] z [OF a(3)] a(1) ..
  qed
  then show ?thesis by (simp add: mail_of_bytes_def)
qed

lemma copy_payload:
  assumes "payload_ok n h x" and "y = overlay (take (unat (pkt_length h)) x) z"
  shows "packet_mail h y = packet_mail h x" "payload_ok n h y"
proof -
  let ?n = "unat (pkt_length h)"
  have n: "12 \<le> ?n" "?n \<le> length x" and ml: "unat (mail_length (mail_of_bytes x)) = ?n - 12" using assms(1) by (auto simp: payload_ok_def)
  have l: "12 \<le> length y" "?n \<le> length y" and t: "take ?n y = take ?n x" using n assms(2) by (simp_all add: overlay_def)
  have "take 12 y = take 12 x" using t n by (metis min.absorb1 take_take)
  then have m: "mail_of_bytes y = mail_of_bytes x" using l n by (intro mail_of_bytes_cong) auto
  have "take (?n - 12) (drop 12 y) = take (?n - 12) (drop 12 x)" using t by (metis drop_take)
  then show "packet_mail h y = packet_mail h x" using m ml by (simp add: packet_mail_def)
  show "payload_ok n h y" using m l assms(1) by (simp add: payload_ok_def)
qed

text \<open>The packet that \<open>Send\<close> builds carries the message.\<close>

lemma sent_packet:
  assumes "unat (mail_length mailH) \<le> 40" and "unat (mail_length mailH) \<le> length data" and "0 \<le> sint (mail_to mailH)" and "sint (mail_to mailH) < n"
    and "length fresh = 64" and "length buffer = 52"
    and h: "h = pktH\<lparr>pkt_from := f, pkt_length := mail_length mailH + 12\<rparr>"
    and b: "b = overlay (mail_to_bytes mailH @ take (unat (mail_length mailH)) data) buffer"
    and p: "p = overlay (pkt_to_bytes h @ take (unat (pkt_length h)) b) fresh"
  shows "unat (pkt_length h) = 12 + unat (mail_length mailH)" "length b = 52" "pkt_of_bytes p = h" "payload_ok n h (drop 12 p)"
    "wire_mail p = sent_mail f pktH mailH data"
proof -
  show l: "unat (pkt_length h) = 12 + unat (mail_length mailH)"
    using assms(1) by (simp add: h unat_word_ariths(1)) 
  show lb: "length b = 52" using assms(1,2,6) by (simp add: b overlay_def)
  show hp: "pkt_of_bytes p = h" unfolding p overlay_def append_assoc by (rule header_bytes_roundtrip(1))
  have mb: "mail_of_bytes b = mailH" unfolding b overlay_def append_assoc by (rule header_bytes_roundtrip(2))
  have ok: "payload_ok n h b" using assms l lb mb by (simp add: payload_ok_def)
  have d: "drop 12 p = overlay (take (unat (pkt_length h)) b) (drop 12 fresh)"
    using l lb assms(1,5) by (simp add: p overlay_def add.commute)
  show "payload_ok n h (drop 12 p)" by (rule copy_payload(2) [OF ok d])
  have "wire_mail p = packet_mail h b" unfolding wire_mail_def hp by (rule copy_payload(1) [OF ok d])
  then show "wire_mail p = sent_mail f pktH mailH data"
    using mb assms(2) by (simp add: packet_mail_def sent_mail_def h b overlay_def)
qed

lemma NetworkTime_pos: "0 < NetworkTime"
  by (simp add: NetworkTime_def)

lemma office_fields:
  assumes "alarm.more s' = alarm.more (s :: post_office)"
  shows "hostName s' = hostName s" "inHdr s' = inHdr s" "inbox s' = inbox s" "sendBusy s' = sendBusy s" "messageAvailable s' = messageAvailable s"
    "numBoxes s' = numBoxes s" "boxes s' = boxes s" "workerBuffer s' = workerBuffer s" "sendLock s' = sendLock s" "messageSent s' = messageSent s"
  using assms by (cases s; cases s'; simp)+

lemma office_intr_ok [simp]:
  "intr_ok (s\<lparr>inHdr := a\<rparr>) = intr_ok s" "intr_ok (s\<lparr>inbox := b\<rparr>) = intr_ok s" "intr_ok (s\<lparr>sendBusy := c\<rparr>) = intr_ok s"
  "intr_ok (s\<lparr>messageAvailable := d\<rparr>) = intr_ok s" "intr_ok (s\<lparr>numBoxes := e\<rparr>) = intr_ok s" "intr_ok (s\<lparr>boxes := f\<rparr>) = intr_ok s"
  "intr_ok (s\<lparr>workerBuffer := g\<rparr>) = intr_ok s" "intr_ok (s\<lparr>sendLock := i\<rparr>) = intr_ok s" "intr_ok (s\<lparr>messageSent := j\<rparr>) = intr_ok s"
  "intr_ok (s\<lparr>numPacketsSent := n\<rparr>) = intr_ok s" "intr_ok (s\<lparr>numPacketsRecvd := n\<rparr>) = intr_ok s"
  by (simp_all add: intr_ok_def pending_ok_def ticks_ok_def)

lemma office_posted [simp]:
  "posted q (s\<lparr>inHdr := a\<rparr>) = posted q s" "posted q (s\<lparr>inbox := b\<rparr>) = posted q s" "posted q (s\<lparr>sendBusy := c\<rparr>) = posted q s"
  "posted q (s\<lparr>messageAvailable := d\<rparr>) = posted q s" "posted q (s\<lparr>numBoxes := e\<rparr>) = posted q s" "posted q (s\<lparr>boxes := f\<rparr>) = posted q s"
  "posted q (s\<lparr>workerBuffer := g\<rparr>) = posted q s" "posted q (s\<lparr>sendLock := i\<rparr>) = posted q s" "posted q (s\<lparr>messageSent := j\<rparr>) = posted q s"
  "posted q (s\<lparr>numPacketsSent := n\<rparr>) = posted q s" "posted q (s\<lparr>numPacketsRecvd := n\<rparr>) = posted q s"
  by (simp_all add: posted_def)

lemma office_take [simp]:
  "hostName (take_interrupt q s) = hostName s" "inHdr (take_interrupt q s) = inHdr s" "inbox (take_interrupt q s) = inbox s"
  "sendBusy (take_interrupt q s) = sendBusy s" "messageAvailable (take_interrupt q s) = messageAvailable s" "numBoxes (take_interrupt q s) = numBoxes s"
  "boxes (take_interrupt q s) = boxes s" "workerBuffer (take_interrupt q s) = workerBuffer s" "sendLock (take_interrupt q s) = sendLock s"
  "messageSent (take_interrupt q s) = messageSent s"
  by (simp_all add: take_interrupt_def)

lemma network_Schedule:
  assumes "intr_ok s"
  shows "returns (\<lambda>s'. intr_ok s' \<and> (\<forall>d. posted d s' = posted d s + (if d = c then 1 else 0)) \<and> alarm.more s' = alarm.more (s :: post_office)) (Schedule c NetworkTime ty s)"
proof -
  have "\<exists>s'. Schedule c NetworkTime ty s = Inr s' \<and> intr_ok s' \<and> posted d s' = posted d s + (if d = c then 1 else 0) \<and> alarm.more s' = alarm.more s" for d
  proof -
    obtain s' where s': "Schedule c NetworkTime ty s = Inr s'" "intr_ok s'" "posted d s' = posted d s + (if d = c then 1 else 0)"
        "s' = s\<lparr>nextAddress := nextAddress s', pending := pending s'\<rparr>" by (rule posted_Schedule [OF assms NetworkTime_pos])
    have "alarm.more s' = alarm.more s" by (subst s'(4), simp)
    then show ?thesis using s' by blast
  qed
  then show ?thesis by (cases "Schedule c NetworkTime ty s") auto
qed

section \<open>One machine\<close>

definition buffered :: "post_office \<Rightarrow> mail list" where
  "buffered s = (if pkt_length (inHdr s) = 0 then [] else [packet_mail (inHdr s) (inbox s)])"

definition for_box :: "int \<Rightarrow> mail list \<Rightarrow> mail list" where
  "for_box b ms = filter (\<lambda>m. sint (mail_to (mailHdr m)) = b) ms"

text \<open>The messages on their way to mailbox \<open>b\<close>, oldest first: in the box, in the device's buffer, in the socket.\<close>

definition transit :: "post_office \<Rightarrow> u8 list list \<Rightarrow> int \<Rightarrow> mail list" where
  "transit s sock b = boxes s ! nat b @ for_box b (buffered s @ map wire_mail sock)"

definition wire_ok :: "post_office \<Rightarrow> u8 list \<Rightarrow> bool" where
  "wire_ok s p \<longleftrightarrow> pkt_to (pkt_of_bytes p) = hostName s \<and> payload_ok (numBoxes s) (pkt_of_bytes p) (drop 12 p)"

definition mail_ok :: "mail \<Rightarrow> bool" where
  "mail_ok m \<longleftrightarrow> unat (mail_length (mailHdr m)) \<le> 40 \<and> length (mdata m) = unat (mail_length (mailHdr m))"

definition output_ok :: "post_office \<Rightarrow> bool" where
  "output_ok s \<longleftrightarrow> \<not> sendBusy s \<and> 0 \<le> messageSent s \<and> int (posted NetworkOutputCall s) + messageSent s = (if sendLock s then 1 else 0)"

definition input_ok :: "post_office \<Rightarrow> u8 list list \<Rightarrow> bool" where
  "input_ok s sock \<longleftrightarrow> posted NetworkInputCall s = 1 \<and> length (inbox s) = 52 \<and> length (workerBuffer s) = 52 \<and> length (boxes s) = nat (numBoxes s) \<and>
     messageAvailable s = (if pkt_length (inHdr s) = 0 then 0 else 1) \<and>
     (pkt_length (inHdr s) \<noteq> 0 \<longrightarrow> payload_ok (numBoxes s) (inHdr s) (inbox s)) \<and>
     (\<forall>p \<in> set sock. wire_ok s p) \<and> (\<forall>box \<in> set (boxes s). \<forall>m \<in> set box. mail_ok m)"

definition post_ok :: "post_office \<Rightarrow> u8 list list \<Rightarrow> bool" where
  "post_ok s sock \<longleftrightarrow> intr_ok s \<and> output_ok s \<and> input_ok s sock"

lemma boxes_update: "\<forall>x \<in> set bs. \<forall>m \<in> set x. mail_ok m \<Longrightarrow> \<forall>m \<in> set b. mail_ok m \<Longrightarrow> \<forall>x \<in> set (bs[i := b]). \<forall>m \<in> set x. mail_ok m"
  using set_update_subset_insert [of bs i b] by blast

lemma payload_ok_mail: "payload_ok n h x \<Longrightarrow> mail_ok (packet_mail h x)"
  by (auto simp: payload_ok_def packet_mail_def mail_ok_def)

lemma post_ok_more:
  assumes "post_ok s sock" and "alarm.more s' = alarm.more s" and "intr_ok s'"
    and "posted NetworkInputCall s' = posted NetworkInputCall s" and "posted NetworkOutputCall s' = posted NetworkOutputCall s"
  shows "post_ok s' sock" "transit s' sock = transit s sock" "hostName s' = hostName s" "numBoxes s' = numBoxes s"
  using assms by (simp_all add: post_ok_def output_ok_def input_ok_def wire_ok_def transit_def buffered_def fun_eq_iff office_fields [OF assms(2)])

lemma receive_interrupt_ok:
  assumes ok: "post_ok s sock"
  shows "returns (\<lambda>(s', sock'). post_ok s' sock' \<and> transit s' sock' = transit s sock \<and> hostName s' = hostName s \<and> numBoxes s' = numBoxes s \<and>
      (buffered s = [] \<longrightarrow> sock \<noteq> [] \<longrightarrow> buffered s' \<noteq> [] \<and> sock' = tl sock) \<and> (buffered s \<noteq> [] \<or> sock = [] \<longrightarrow> buffered s' = buffered s \<and> sock' = sock))
    (NetworkInput_CallBack PostOfficeInput_CallBack sock (take_interrupt NetworkInputCall s))"
proof -
  let ?s = "take_interrupt NetworkInputCall s"
  have "intr_ok ?s" using ok by (simp add: post_ok_def intr_ok_take)
  from network_Schedule [OF this, of NetworkInputCall NetworkRecvInt] obtain s1 where
    s1: "Schedule NetworkInputCall NetworkTime NetworkRecvInt ?s = Inr s1" "intr_ok s1" "alarm.more s1 = alarm.more ?s"
      "\<forall>d. posted d s1 = posted d ?s + (if d = NetworkInputCall then 1 else 0)" by (auto simp: returns_iff)
  have m: "alarm.more ?s = alarm.more s" by (simp add: take_interrupt_def)
  have p: "posted NetworkInputCall s = 1" using ok by (simp add: post_ok_def input_ok_def)
  have k: "post_ok s1 sock" "transit s1 sock = transit s sock" "hostName s1 = hostName s" "numBoxes s1 = numBoxes s" "buffered s1 = buffered s"
    using post_ok_more [OF ok, of s1] s1 m p office_fields [of s1 s] by (simp_all add: buffered_def)
  show ?thesis
  proof (cases "pkt_length (inHdr s1) \<noteq> 0 \<or> sock = []")
    case True
    then show ?thesis using k s1(1) by (auto simp: NetworkInput_CallBack_def buffered_def split: list.splits)
  next
    case False
    then obtain p ps where sock: "sock = p # ps" and b: "buffered s1 = []" by (auto simp: neq_Nil_conv buffered_def)
    let ?h = "pkt_of_bytes p"
    let ?y = "overlay (take (unat (pkt_length ?h)) (drop 12 p)) (inbox s1)"
    let ?s2 = "s1\<lparr>inHdr := ?h, inbox := ?y, numPacketsRecvd := numPacketsRecvd s1 + 1, messageAvailable := messageAvailable s1 + 1\<rparr>"
    have w: "pkt_to ?h = hostName s1" "payload_ok (numBoxes s1) ?h (drop 12 p)" using k(1) sock by (simp_all add: post_ok_def input_ok_def wire_ok_def)
    then have c: "packet_mail ?h ?y = wire_mail p" "payload_ok (numBoxes s1) ?h ?y" using copy_payload [OF w(2) refl] by (simp_all add: wire_mail_def)
    have n: "pkt_length ?h \<noteq> 0" "unat (pkt_length ?h) \<le> 52" "unat (pkt_length ?h) \<le> length (drop 12 p)"
      using w(2) unat_0 by (auto simp: payload_ok_def simp del: length_drop)
    have run: "NetworkInput_CallBack PostOfficeInput_CallBack sock ?s = Inr (?s2, ps)"
      using s1(1) False w(1) n(2) sock by (simp add: NetworkInput_CallBack_def PostOfficeInput_CallBack_def)
    have "length ?y = 52" using n k(1) by (simp add: overlay_def post_ok_def input_ok_def)
    then have "post_ok ?s2 ps" using k(1) n False c sock by (auto simp: post_ok_def output_ok_def input_ok_def wire_ok_def)
    moreover have "transit ?s2 ps = transit s1 sock" using n(1) c(1) b sock by (auto simp: transit_def buffered_def fun_eq_iff split: if_splits)
    moreover have "buffered ?s2 \<noteq> []" using n(1) by (simp add: buffered_def)
    ultimately show ?thesis using run k sock b by simp
  qed
qed

lemma worker_ok:
  assumes ok: "post_ok s sock"
  shows "returns (\<lambda>r. case r of None \<Rightarrow> buffered s = []
      | Some s' \<Rightarrow> post_ok s' sock \<and> (\<forall>b. 0 \<le> b \<longrightarrow> b < numBoxes s \<longrightarrow> transit s' sock b = transit s sock b) \<and> hostName s' = hostName s \<and> numBoxes s' = numBoxes s \<and>
          buffered s' = []) (PostalDelivery s)"
proof (cases "messageAvailable s = 0")
  case True
  then show ?thesis using ok by (auto simp: PostalDelivery_def post_ok_def input_ok_def buffered_def split: if_splits)
next
  case False
  let ?h = "inHdr s" and ?y = "overlay (take (unat (pkt_length (inHdr s))) (inbox s)) (workerBuffer s)"
  have a: "messageAvailable s = 1" "pkt_length ?h \<noteq> 0" "payload_ok (numBoxes s) ?h (inbox s)" "length (boxes s) = nat (numBoxes s)"
    "length (inbox s) = 52" "length (workerBuffer s) = 52"
    using ok False by (auto simp: post_ok_def input_ok_def split: if_splits)
  have y: "packet_mail ?h ?y = packet_mail ?h (inbox s)" "payload_ok (numBoxes s) ?h ?y" using copy_payload [OF a(3) refl] by simp_all
  let ?m = "mail_of_bytes ?y" and ?b = "nat (sint (mail_to (mail_of_bytes ?y)))"
  have yl: "length ?y = 52" using a(5,6) by (simp add: overlay_def)
  have m: "unat (mail_length ?m) \<le> 40" "0 \<le> sint (mail_to ?m)" "sint (mail_to ?m) < numBoxes s" "?b < length (boxes s)"
    using y(2) a(4) by (auto simp: payload_ok_def)
  have "Mail_new ?h ?m (drop 12 ?y) = Inr (packet_mail ?h ?y)" using m(1) yl by (simp add: Mail_new_def packet_mail_def)
  then have put: "MailBox_Put ?h ?m (drop 12 ?y) (boxes s ! ?b) = Inr (boxes s ! ?b @ [packet_mail ?h (inbox s)])" using y(1) by (simp add: MailBox_Put_def)
  let ?s' = "s\<lparr>messageAvailable := 0, inHdr := ?h\<lparr>pkt_length := 0\<rparr>, workerBuffer := ?y, boxes := (boxes s)[?b := boxes s ! ?b @ [packet_mail ?h (inbox s)]]\<rparr>"
  have run: "PostalDelivery s = Inr (Some ?s')"
    using a m put by (simp add: PostalDelivery_def NetworkInput_Receive_def Let_def)
  have mk: "mail_ok (packet_mail ?h (inbox s))" by (rule payload_ok_mail [OF a(3)])
  have "\<forall>box \<in> set ((boxes s)[?b := boxes s ! ?b @ [packet_mail ?h (inbox s)]]). \<forall>m \<in> set box. mail_ok m"
    by (rule boxes_update) (use ok mk nth_mem [OF m(4)] in \<open>auto simp: post_ok_def input_ok_def\<close>)
  then have "post_ok ?s' sock" using ok yl by (simp add: post_ok_def output_ok_def input_ok_def wire_ok_def)
  moreover have "transit ?s' sock b = transit s sock b" if "0 \<le> b" "b < numBoxes s" for b
  proof -
    have "mail_to (mailHdr (packet_mail ?h (inbox s))) = mail_to ?m" using y(1) by (simp add: packet_mail_def)
    moreover have "(b = sint (mail_to ?m)) = (nat b = ?b)" using that m(2) by (simp add: eq_nat_nat_iff)
    ultimately show ?thesis using that a(2) m(4) by (auto simp: transit_def buffered_def for_box_def nth_list_update)
  qed
  ultimately show ?thesis using run by (simp add: buffered_def)
qed

lemma receive_ok:
  assumes ok: "post_ok s sock" and b: "0 \<le> b" "b < numBoxes s"
  shows "returns (\<lambda>r. case r of None \<Rightarrow> boxes s ! nat b = []
      | Some (s', pktH, mailH, data) \<Rightarrow> post_ok s' sock \<and> transit s sock b = \<lparr>pktHdr = pktH, mailHdr = mailH, mdata = data\<rparr> # transit s' sock b \<and>
          (\<forall>c. 0 \<le> c \<longrightarrow> c < numBoxes s \<longrightarrow> c \<noteq> b \<longrightarrow> transit s' sock c = transit s sock c) \<and> hostName s' = hostName s \<and> numBoxes s' = numBoxes s \<and>
          buffered s' = buffered s \<and> boxes s' ! nat b = tl (boxes s ! nat b)) (PostOfficeInput_Receive b s)"
proof (cases "boxes s ! nat b")
  case Nil
  then show ?thesis using b by (simp add: PostOfficeInput_Receive_def MailBox_Get_def)
next
  case (Cons m ms)
  have l: "length (boxes s) = nat (numBoxes s)" and i: "nat b < length (boxes s)" using ok b by (auto simp: post_ok_def input_ok_def)
  then have box: "boxes s ! nat b \<in> set (boxes s)" by simp
  then have m: "mail_ok m" using ok Cons by (auto simp: post_ok_def input_ok_def)
  let ?s' = "s\<lparr>boxes := (boxes s)[nat b := ms]\<rparr>"
  have run: "PostOfficeInput_Receive b s = Inr (Some (?s', pktHdr m, mailHdr m, mdata m))"
    using Cons b m by (simp add: PostOfficeInput_Receive_def MailBox_Get_def mail_ok_def)
  have "\<forall>x \<in> set ((boxes s)[nat b := ms]). \<forall>m \<in> set x. mail_ok m"
    by (rule boxes_update) (use ok box Cons in \<open>auto simp: post_ok_def input_ok_def\<close>)
  then have "post_ok ?s' sock" using ok by (simp add: post_ok_def output_ok_def input_ok_def wire_ok_def)
  moreover have "transit s sock b = m # transit ?s' sock b" using Cons i by (simp add: transit_def buffered_def)
  moreover have "transit ?s' sock c = transit s sock c" if "0 \<le> c" "c \<noteq> b" for c
    using that b by (simp add: transit_def buffered_def nth_list_update eq_nat_nat_iff)
  ultimately show ?thesis using run Cons i by (simp add: buffered_def)
qed

lemma send_ok:
  assumes ok: "post_ok s sock" and m: "unat (mail_length mailH) \<le> 40" "unat (mail_length mailH) \<le> length data" "0 \<le> sint (mail_to mailH)"
    and l: "length fresh = 64" "length buffer = 52"
  shows "returns (\<lambda>r. case r of None \<Rightarrow> sendLock s
      | Some (s', p) \<Rightarrow> \<not> sendLock s \<and> post_ok s' sock \<and> transit s' sock = transit s sock \<and> hostName s' = hostName s \<and> numBoxes s' = numBoxes s \<and>
          (case p of None \<Rightarrow> lost | Some (d, packet) \<Rightarrow> \<not> lost \<and> d = pkt_to pktH \<and> pkt_to (pkt_of_bytes packet) = d \<and>
             wire_mail packet = sent_mail (hostName s) pktH mailH data \<and>
             (\<forall>n. sint (mail_to mailH) < n \<longrightarrow> payload_ok n (pkt_of_bytes packet) (drop 12 packet))))
    (PostOfficeOutput_Send lost fresh buffer pktH mailH data s)"
proof (cases "sendLock s")
  case True
  then show ?thesis using m by (simp add: PostOfficeOutput_Send_def Let_def)
next
  case False
  let ?h = "pktH\<lparr>pkt_from := hostName s, pkt_length := mail_length mailH + 12\<rparr>"
  let ?b = "overlay (mail_to_bytes mailH @ take (unat (mail_length mailH)) data) buffer"
  let ?p = "overlay (pkt_to_bytes ?h @ take (unat (pkt_length ?h)) ?b) fresh"
  have n: "unat (pkt_length ?h) = 12 + unat (mail_length mailH)" "length ?b = 52"
    and pk: "pkt_of_bytes ?p = ?h" "wire_mail ?p = sent_mail (hostName s) pktH mailH data"
    by (rule sent_packet [OF m less_add_one l refl refl refl])+
  have pl: "payload_ok n ?h (drop 12 ?p)" if "sint (mail_to mailH) < n" for n by (rule sent_packet(4) [OF m that l refl refl refl])
  from n(1) have "pkt_length ?h \<noteq> 0" using unat_0 by (metis add_is_0 zero_neq_numeral)
  then have n0: "0 < pkt_length ?h" by (simp add: word_gt_0)
  have i: "intr_ok (s\<lparr>sendLock := True\<rparr>)" using ok by (simp add: post_ok_def)
  from network_Schedule [OF this, of NetworkOutputCall NetworkSendInt] obtain s1 where
    s1: "Schedule NetworkOutputCall NetworkTime NetworkSendInt (s\<lparr>sendLock := True\<rparr>) = Inr s1" "intr_ok s1" "alarm.more s1 = alarm.more (s\<lparr>sendLock := True\<rparr>)"
      "\<forall>d. posted d s1 = posted d s + (if d = NetworkOutputCall then 1 else 0)" by (auto simp: returns_iff)
  have k: "post_ok s1 sock" "transit s1 sock = transit s sock" "hostName s1 = hostName s" "numBoxes s1 = numBoxes s"
    using ok s1(2,4) False by (simp_all add: post_ok_def output_ok_def input_ok_def wire_ok_def transit_def buffered_def fun_eq_iff office_fields [OF s1(3)])
  have "\<not> sendBusy s" using ok by (simp add: post_ok_def output_ok_def)
  then have "PostOfficeOutput_Send lost fresh buffer pktH mailH data s = Inr (Some (s1, if lost then None else Some (pkt_to pktH, ?p)))"
    using m False n n0 s1(1) by (simp add: PostOfficeOutput_Send_def NetworkOutput_Send_def Let_def)
  then show ?thesis using k False pk pl by simp
qed

lemma sent_interrupt_ok:
  assumes ok: "post_ok s sock" and p: "0 < posted NetworkOutputCall s"
  shows "returns (\<lambda>s'. post_ok s' sock \<and> transit s' sock = transit s sock \<and> hostName s' = hostName s \<and> numBoxes s' = numBoxes s)
    (NetworkOutput_CallBack PostOfficeOutput_CallBack (take_interrupt NetworkOutputCall s))"
  using assms by (auto simp: NetworkOutput_CallBack_def PostOfficeOutput_CallBack_def post_ok_def output_ok_def input_ok_def wire_ok_def
      transit_def buffered_def fun_eq_iff intr_ok_take split: if_splits)

lemma resume_ok:
  assumes ok: "post_ok s sock" and r: "PostOfficeOutput_resume s = Some s'"
  shows "post_ok s' sock" "transit s' sock = transit s sock" "hostName s' = hostName s" "numBoxes s' = numBoxes s"
  using assms by (auto simp: PostOfficeOutput_resume_def post_ok_def output_ok_def input_ok_def wire_ok_def transit_def buffered_def fun_eq_iff split: if_splits)

lemma created_ok:
  assumes "created h s"
  shows "hostName s = h" "post_ok s []" "0 \<le> b \<Longrightarrow> b < numBoxes s \<Longrightarrow> transit s [] b = []"
proof -
  obtain s0 n s1 where c: "intr_ok s0" "posted NetworkInputCall s0 = 0" "posted NetworkOutputCall s0 = 0" "hostName s0 = h"
     "length (inbox s0) = 52" "length (workerBuffer s0) = 52" "PostOfficeInput_new n s0 = Inr s1" "s = PostOfficeOutput_new s1"
    using assms by (auto simp: created_def)
  let ?s = "s0\<lparr>messageAvailable := 0, numBoxes := n, boxes := replicate (nat n) [], inHdr := (inHdr s0)\<lparr>pkt_length := 0\<rparr>\<rparr>"
  have "intr_ok ?s" using c(1) by simp
  from network_Schedule [OF this, of NetworkInputCall NetworkRecvInt] obtain s2 where
    s2: "Schedule NetworkInputCall NetworkTime NetworkRecvInt ?s = Inr s2" "intr_ok s2" "alarm.more s2 = alarm.more ?s"
      "\<forall>d. posted d s2 = posted d ?s + (if d = NetworkInputCall then 1 else 0)" by (auto simp: returns_iff)
  have e: "s1 = s2" using c(7) s2(1) by (simp add: PostOfficeInput_new_def NetworkInput_new_def MailBox_new_def)
  note f = office_fields [OF s2(3)]
  show "hostName s = h" using c e f by (simp add: PostOfficeOutput_new_def NetworkOutput_new_def)
  show "post_ok s []" using c e s2(2,4) f
    by (simp add: PostOfficeOutput_new_def NetworkOutput_new_def post_ok_def output_ok_def input_ok_def)
  show "0 \<le> b \<Longrightarrow> b < numBoxes s \<Longrightarrow> transit s [] b = []" using c e f
    by (simp add: PostOfficeOutput_new_def NetworkOutput_new_def transit_def buffered_def for_box_def)
qed

section \<open>The network\<close>

definition net_inv :: "network \<Rightarrow> mail_log \<Rightarrow> mail_log \<Rightarrow> bool" where
  "net_inv N sent got \<longleftrightarrow> (\<forall>h s. hosts N h = Some s \<longrightarrow> hostName s = h \<and> post_ok s (sockets N h) \<and>
     (\<forall>b. 0 \<le> b \<longrightarrow> b < numBoxes s \<longrightarrow> sent h b = got h b @ transit s (sockets N h) b))"

lemma inv_host:
  assumes "net_inv N sent got" and "hosts N h = Some s" and "post_ok s' sock'" and "hostName s' = hostName s" and "numBoxes s' = numBoxes s"
    and "\<And>b. 0 \<le> b \<Longrightarrow> b < numBoxes s \<Longrightarrow> transit s' sock' b = transit s (sockets N h) b"
  shows "net_inv ((set_host h s' N)\<lparr>sockets := (sockets N)(h := sock')\<rparr>) sent got"
  using assms unfolding net_inv_def by (auto simp: set_host_def)

lemma inv_host_local:
  assumes "net_inv N sent got" and "hosts N h = Some s" and "post_ok s' (sockets N h)" and "hostName s' = hostName s" and "numBoxes s' = numBoxes s"
    and "\<And>b. 0 \<le> b \<Longrightarrow> b < numBoxes s \<Longrightarrow> transit s' (sockets N h) b = transit s (sockets N h) b"
  shows "net_inv (set_host h s' N) sent got"
  using inv_host [OF assms] by (simp add: set_host_def)

lemma inv_receive:
  assumes inv: "net_inv N sent got" and h: "hosts N h = Some s" and r: "PostOfficeInput_Receive b s = Inr (Some (s', pktH, mailH, data))"
  shows "net_inv (set_host h s' N) sent (log_add h b \<lparr>pktHdr = pktH, mailHdr = mailH, mdata = data\<rparr> got)"
proof -
  have s: "hostName s = h" "post_ok s (sockets N h)" "\<And>b. 0 \<le> b \<Longrightarrow> b < numBoxes s \<Longrightarrow> sent h b = got h b @ transit s (sockets N h) b"
    using inv h by (auto simp: net_inv_def)
  have b: "0 \<le> b" "b < numBoxes s" using r by (auto simp: PostOfficeInput_Receive_def ASSERT_def split: if_splits)
  note k = receive_ok [OF s(2) b, unfolded r, simplified]
  have "sent h c = log_add h b \<lparr>pktHdr = pktH, mailHdr = mailH, mdata = data\<rparr> got h c @ transit s' (sockets N h) c" if "0 \<le> c" "c < numBoxes s" for c
    using k s(3) [OF that] that by (cases "c = b") (simp_all add: log_add_def)
  then show ?thesis using inv k s(1) h unfolding net_inv_def by (auto simp: set_host_def log_add_def)
qed

lemma transit_append: "transit s (sock @ [p]) b = transit s sock b @ for_box b [wire_mail p]"
  by (simp add: transit_def for_box_def)

lemma inv_deliver:
  assumes inv: "net_inv N sent got" and d: "hosts N d = Some s" and p: "wire_mail p = m" "pkt_to (pkt_of_bytes p) = d" "payload_ok (numBoxes s) (pkt_of_bytes p) (drop 12 p)"
    and b: "sint (mail_to (mailHdr m)) = b"
  shows "net_inv (deliver (Some (d, p)) N) (log_add d b m sent) got"
proof -
  have s: "hostName s = d" "post_ok s (sockets N d)" "\<And>b. 0 \<le> b \<Longrightarrow> b < numBoxes s \<Longrightarrow> sent d b = got d b @ transit s (sockets N d) b"
    using inv d by (auto simp: net_inv_def)
  have "wire_ok s p" using p s(1) by (simp add: wire_ok_def)
  then have "post_ok s (sockets N d @ [p])" using s(2) by (auto simp: post_ok_def input_ok_def)
  moreover have "log_add d b m sent d c = got d c @ transit s (sockets N d @ [p]) c" if "0 \<le> c" "c < numBoxes s" for c
    using s(3) [OF that] p(1) b by (auto simp: log_add_def transit_append for_box_def)
  ultimately show ?thesis using inv d s(1) unfolding net_inv_def by (auto simp: deliver_def log_add_def)
qed

lemma inv_send:
  assumes inv: "net_inv N sent got" and h: "hosts N h = Some s" and m: "legal_mail N pktH mailH data"
    and l: "length fresh = 64" "length buffer = 52"
    and r: "PostOfficeOutput_Send lost fresh buffer pktH mailH data s = Inr (Some (s', p))"
  shows "net_inv (deliver p (set_host h s' N))
    (if p = None \<or> hosts N (pkt_to pktH) = None then sent
     else log_add (pkt_to pktH) (sint (mail_to mailH)) (sent_mail h pktH mailH data) sent) got"
proof -
  have s: "hostName s = h" "post_ok s (sockets N h)" using inv h by (auto simp: net_inv_def)
  have m': "unat (mail_length mailH) \<le> 40" "unat (mail_length mailH) \<le> length data" "0 \<le> sint (mail_to mailH)" using m by (simp_all add: legal_mail_def)
  note k = send_ok [OF s(2) m' l, of lost pktH, unfolded r, simplified]
  have i: "net_inv (set_host h s' N) sent got" using inv_host_local [OF inv h] k by simp
  show ?thesis
  proof (cases "p = None \<or> hosts N (pkt_to pktH) = None")
    case True
    then have "deliver p (set_host h s' N) = set_host h s' N" using k h by (auto simp: deliver_def set_host_def split: option.splits)
    then show ?thesis using i True by simp
  next
    case False
    then obtain packet sd where p: "p = Some (pkt_to pktH, packet)" and sd: "hosts N (pkt_to pktH) = Some sd" using k by auto
    obtain sd' where sd': "hosts (set_host h s' N) (pkt_to pktH) = Some sd'" "numBoxes sd' = numBoxes sd"
      using sd h k by (cases "pkt_to pktH = h") (simp_all add: set_host_def)
    have "sint (mail_to mailH) < numBoxes sd'" using m sd sd'(2) by (simp add: legal_mail_def)
    then show ?thesis using inv_deliver [OF i sd'(1), of packet "sent_mail h pktH mailH data" "sint (mail_to mailH)"] k p s(1) sd
      by (simp add: sent_mail_def)
  qed
qed

lemma net_invariant: "net_run N sent got \<Longrightarrow> net_inv N sent got"
proof (induction rule: net_run.induct)
  case (start N)
  then have c: "sockets N h = []" "hosts N h = Some s \<Longrightarrow> created h s" for h s by (auto simp: net_start_def)
  show ?case using created_ok [OF c(2)] by (auto simp: net_inv_def c(1))
next
  case (send N sent got h s pktH mailH data fresh buffer lost s' p)
  then show ?case using inv_send by simp
next
  case (sent_interrupt N sent got h s s')
  then have "post_ok s (sockets N h)" by (auto simp: net_inv_def)
  from sent_interrupt_ok [OF this sent_interrupt.hyps(3)] show ?case using inv_host_local [OF sent_interrupt.IH sent_interrupt.hyps(2)] sent_interrupt.hyps(4) by simp
next
  case (send_done N sent got h s s')
  then have "post_ok s (sockets N h)" by (auto simp: net_inv_def)
  from resume_ok [OF this send_done.hyps(3)] show ?case using inv_host_local [OF send_done.IH send_done.hyps(2)] by simp
next
  case (receive_interrupt N sent got h s s' sock)
  then have "post_ok s (sockets N h)" by (auto simp: net_inv_def)
  from receive_interrupt_ok [OF this] show ?case using inv_host [OF receive_interrupt.IH receive_interrupt.hyps(2)] receive_interrupt.hyps(4) by simp
next
  case (worker N sent got h s s')
  then have "post_ok s (sockets N h)" by (auto simp: net_inv_def)
  from worker_ok [OF this] show ?case using inv_host_local [OF worker.IH worker.hyps(2)] worker.hyps(3) by simp
next
  case (receive N sent got h s b s' pktH mailH data)
  then show ?case using inv_receive by simp
next
  case (other N sent got h s s')
  then have "post_ok s (sockets N h)" by (auto simp: net_inv_def)
  moreover from this have "intr_ok s'" using other.hyps(3) by (simp add: elsewhere_on_host_def post_ok_def)
  ultimately show ?case using post_ok_more [of s "sockets N h" s'] inv_host_local [OF other.IH other.hyps(2)] other.hyps(3) by (simp add: elsewhere_on_host_def)
qed

text \<open>A machine can always empty its socket, and then a thread can empty each mailbox.\<close>

lemma drain_socket:
  assumes "net_run N sent got" and "hosts N h = Some s"
  shows "\<exists>N' s'. net_run N' sent got \<and> hosts N' h = Some s' \<and> numBoxes s' = numBoxes s \<and> sockets N' h = [] \<and> buffered s' = []"
  using assms
proof (induction "2 * length (sockets N h) + length (buffered s)" arbitrary: N s rule: less_induct)
  case less
  have inv: "net_inv N sent got" by (rule net_invariant [OF less.prems(1)])
  then have ok: "post_ok s (sockets N h)" using less.prems(2) by (auto simp: net_inv_def)
  consider (buf) "buffered s \<noteq> []" | (sock) "buffered s = []" "sockets N h \<noteq> []" | (empty) "buffered s = []" "sockets N h = []" by blast
  then show ?case
  proof cases
    case buf
    then obtain s' where s': "PostalDelivery s = Inr (Some s')" "buffered s' = []" "numBoxes s' = numBoxes s"
      using worker_ok [OF ok] by (auto simp: returns_iff split: option.splits)
    have "net_run (set_host h s' N) sent got" "hosts (set_host h s' N) h = Some s'" "sockets (set_host h s' N) h = sockets N h"
      using net_run.worker [OF less.prems s'(1)] by (simp_all add: set_host_def)
    then show ?thesis using less.hyps [of "set_host h s' N" s'] s' buf by simp
  next
    case sock
    have "0 < posted NetworkInputCall s" using ok by (simp add: post_ok_def input_ok_def)
    moreover obtain s' where s': "NetworkInput_CallBack PostOfficeInput_CallBack (sockets N h) (take_interrupt NetworkInputCall s) = Inr (s', tl (sockets N h))" "numBoxes s' = numBoxes s"
      using receive_interrupt_ok [OF ok] sock by (auto simp: returns_iff)
    let ?N = "(set_host h s' N)\<lparr>sockets := (sockets N)(h := tl (sockets N h))\<rparr>"
    have "net_run ?N sent got" "hosts ?N h = Some s'" "sockets ?N h = tl (sockets N h)"
      using net_run.receive_interrupt [OF less.prems calculation s'(1)] by (simp_all add: set_host_def)
    moreover have "2 * length (tl (sockets N h)) + length (buffered s') < 2 * length (sockets N h) + length (buffered s)"
      using sock by (cases "sockets N h") (simp_all add: buffered_def)
    ultimately show ?thesis using less.hyps [of ?N s'] s'(2) by simp
  next
    case empty
    then show ?thesis using less.prems by blast
  qed
qed

lemma empty_box:
  assumes "net_run N sent got" and "hosts N h = Some s" and "sockets N h = []" and "buffered s = []" and "0 \<le> b" and "b < numBoxes s"
  shows "\<exists>N' got'. net_run N' sent got' \<and> got' h b = sent h b"
  using assms
proof (induction "length (boxes s ! nat b)" arbitrary: N s got)
  case 0
  have "net_inv N sent got" by (rule net_invariant [OF 0(2)])
  then have "sent h b = got h b @ transit s (sockets N h) b" using 0 by (auto simp: net_inv_def)
  then have "got h b = sent h b" using 0 by (simp add: transit_def for_box_def)
  then show ?case using 0(2) by blast
next
  case (Suc n)
  have "net_inv N sent got" by (rule net_invariant [OF Suc.prems(1)])
  then have ok: "post_ok s (sockets N h)" using Suc.prems(2) by (auto simp: net_inv_def)
  have ne: "boxes s ! nat b \<noteq> []" using Suc.hyps(2) by auto
  then obtain s' pktH mailH data where r: "PostOfficeInput_Receive b s = Inr (Some (s', pktH, mailH, data))" "numBoxes s' = numBoxes s"
      "buffered s' = buffered s" "boxes s' ! nat b = tl (boxes s ! nat b)"
    using receive_ok [OF ok Suc.prems(5,6)] by (auto simp: returns_iff split: option.splits)
  let ?N = "set_host h s' N"
  have "net_run ?N sent (log_add h b \<lparr>pktHdr = pktH, mailHdr = mailH, mdata = data\<rparr> got)" "hosts ?N h = Some s'" "sockets ?N h = []"
    using net_run.receive [OF Suc.prems(1,2) r(1)] Suc.prems(3) by (simp_all add: set_host_def)
  moreover have "n = length (boxes s' ! nat b)" using Suc.hyps(2) r(4) ne by simp
  moreover have "buffered s' = []" "b < numBoxes s'" using r Suc.prems by simp_all
  ultimately show ?case using Suc.hyps(1) [of s' ?N] Suc.prems(5) by blast
qed

text \<open>Reading in a packet and delivering it, whatever mailbox it names.\<close>

lemma read_packet:
  assumes ok: "post_ok s sock" and e: "buffered s = []" and t: "pkt_to (pkt_of_bytes p) = hostName s" and w: "payload_ok n (pkt_of_bytes p) (drop 12 p)"
  shows "\<exists>s'. NetworkInput_CallBack PostOfficeInput_CallBack (p # ps) (take_interrupt NetworkInputCall s) = Inr (s', ps) \<and>
    messageAvailable s' = 1 \<and> numBoxes s' = numBoxes s \<and> inHdr s' = pkt_of_bytes p \<and>
    inbox s' = overlay (take (unat (pkt_length (pkt_of_bytes p))) (drop 12 p)) (inbox s)"
proof -
  let ?s = "take_interrupt NetworkInputCall s"
  have "intr_ok ?s" using ok by (simp add: post_ok_def intr_ok_take)
  from network_Schedule [OF this, of NetworkInputCall NetworkRecvInt] obtain s1 where
    s1: "Schedule NetworkInputCall NetworkTime NetworkRecvInt ?s = Inr s1" "alarm.more s1 = alarm.more ?s" by (auto simp: returns_iff)
  have z: "pkt_length (inHdr s) = 0" "messageAvailable s = 0" using e ok by (auto simp: buffered_def post_ok_def input_ok_def split: if_splits)
  have "unat (pkt_length (pkt_of_bytes p)) \<le> 52" using w by (simp add: payload_ok_def)
  then show ?thesis using s1(1) z t office_fields [OF s1(2)] by (simp add: NetworkInput_CallBack_def PostOfficeInput_CallBack_def)
qed

lemma bad_delivery:
  assumes w: "payload_ok n h x" and "inHdr s = h" and "inbox s = overlay (take (unat (pkt_length h)) x) z" and "messageAvailable s = 1"
    and "numBoxes s \<le> sint (mail_to (mailHdr (packet_mail h x)))"
  shows "PostalDelivery s = Inl AssertFailed"
proof -
  note c1 = copy_payload [OF w assms(3)]
  note c2 = copy_payload [OF c1(2) refl, of "workerBuffer s"]
  have "pkt_length h \<noteq> 0" using w unat_0 by (auto simp: payload_ok_def)
  moreover have "mail_of_bytes (overlay (take (unat (pkt_length h)) (inbox s)) (workerBuffer s)) = mailHdr (packet_mail h x)"
    using c1(1) c2(1) by (simp add: packet_mail_def)
  ultimately show ?thesis using assms(2,4,5) by (simp add: PostalDelivery_def NetworkInput_Receive_def Let_def ASSERT_def)
qed

section \<open>Properties\<close>

definition demo_office :: "u32 \<Rightarrow> post_office" where
  "demo_office h = alarm.extend demo_clock \<lparr>hostName = h, inHdr = \<lparr>pkt_to = 3, pkt_from = 4, pkt_length = 5\<rparr>, inbox = replicate 52 0,
     sendBusy = True, messageAvailable = 6, numBoxes = 0, boxes = [], workerBuffer = replicate 52 0, sendLock = True, messageSent = 7\<rparr>"

lemma demo_office_ok: "intr_ok (demo_office h)" "posted NetworkInputCall (demo_office h) = 0" "posted NetworkOutputCall (demo_office h) = 0"
  "hostName (demo_office h) = h" "length (inbox (demo_office h)) = MaxPacketSize" "length (workerBuffer (demo_office h)) = MaxPacketSize"
  by (simp_all add: demo_office_def demo_clock_def alarm.defs intr_ok_def pending_ok_def ticks_ok_def posted_def)

definition demo_created :: "u32 \<Rightarrow> post_office" where
  "demo_created h = (case PostOfficeInput_new 2 (demo_office h) of Inr s \<Rightarrow> PostOfficeOutput_new s | Inl _ \<Rightarrow> demo_office h)"

definition demo_net :: network where
  "demo_net = \<lparr>hosts = [0 \<mapsto> demo_created 0, 1 \<mapsto> demo_created 1], sockets = (\<lambda>_. [])\<rparr>"

lemma demo_created_ok: "created h (demo_created h)" "numBoxes (demo_created h) = 2" "\<not> sendLock (demo_created h)" "buffered (demo_created h) = []"
proof -
  let ?s = "(demo_office h)\<lparr>messageAvailable := 0, numBoxes := 2, boxes := [[], []], inHdr := (inHdr (demo_office h))\<lparr>pkt_length := 0\<rparr>\<rparr>"
  have "intr_ok ?s" using demo_office_ok by simp
  from network_Schedule [OF this, of NetworkInputCall NetworkRecvInt] obtain s1 where
    s1: "PostOfficeInput_new 2 (demo_office h) = Inr s1" "alarm.more s1 = alarm.more ?s"
    by (auto simp: returns_iff PostOfficeInput_new_def NetworkInput_new_def MailBox_new_def numeral_2_eq_2)
  note f = office_fields [OF s1(2)]
  show "created h (demo_created h)" using s1(1) demo_office_ok unfolding created_def demo_created_def
    by (intro exI [of _ "demo_office h"] exI [of _ 2] exI [of _ s1]) simp
  show "numBoxes (demo_created h) = 2" "\<not> sendLock (demo_created h)" "buffered (demo_created h) = []"
    using s1(1) f by (simp_all add: demo_created_def PostOfficeOutput_new_def NetworkOutput_new_def buffered_def)
qed

lemma demo_net_run: "net_run demo_net (\<lambda>_ _. []) (\<lambda>_ _. [])" "hosts demo_net 0 = Some (demo_created 0)" "hosts demo_net 1 = Some (demo_created 1)"
proof -
  have "net_start demo_net" using demo_created_ok(1) by (auto simp: net_start_def demo_net_def split: if_splits)
  then show "net_run demo_net (\<lambda>_ _. []) (\<lambda>_ _. [])" by (rule net_run.start)
qed (simp_all add: demo_net_def)

definition demo_pkt :: PacketHeader where "demo_pkt = \<lparr>pkt_to = 1, pkt_from = 9, pkt_length = 9\<rparr>"
definition demo_mail :: MailHeader where "demo_mail = \<lparr>mail_to = 1, mail_from = 0, mail_length = 2\<rparr>"

lemma demo_send:
  obtains N s where "net_run N (log_add 1 1 (sent_mail 0 demo_pkt demo_mail [72, 105]) (\<lambda>_ _. [])) (\<lambda>_ _. [])" "hosts N 1 = Some s" "numBoxes s = 2"
proof -
  let ?f = "replicate 64 (0::u8)" and ?b = "replicate 52 (0::u8)"
  have ok: "post_ok (demo_created 0) []" "hostName (demo_created 0) = 0" using created_ok [OF demo_created_ok(1)] by simp_all
  have m: "legal_mail demo_net demo_pkt demo_mail [72, 105]"
    using demo_created_ok(2) by (simp add: legal_mail_def demo_net_def demo_pkt_def demo_mail_def)
  then have m': "unat (mail_length demo_mail) \<le> 40" "unat (mail_length demo_mail) \<le> length [72, 105::u8]" "0 \<le> sint (mail_to demo_mail)" by (simp_all add: legal_mail_def)
  obtain s' p where r: "PostOfficeOutput_Send False ?f ?b demo_pkt demo_mail [72, 105] (demo_created 0) = Inr (Some (s', Some (1, p)))"
    using send_ok [OF ok(1) m', of ?f ?b False demo_pkt] demo_created_ok(3) [of 0]
    by (cases "PostOfficeOutput_Send False ?f ?b demo_pkt demo_mail [72, 105] (demo_created 0)") (auto simp: demo_pkt_def split: option.split_asm)
  have "net_run (deliver (Some (1, p)) (set_host 0 s' demo_net)) (log_add 1 1 (sent_mail 0 demo_pkt demo_mail [72, 105]) (\<lambda>_ _. [])) (\<lambda>_ _. [])"
    using net_run.send [OF demo_net_run(1,2) m _ _ r] demo_net_run(3) by (simp add: demo_pkt_def demo_mail_def)
  moreover have "hosts (deliver (Some (1, p)) (set_host 0 s' demo_net)) 1 = Some (demo_created 1)" by (simp add: deliver_def set_host_def demo_net_def)
  ultimately show ?thesis using that demo_created_ok(2) by blast
qed



text \<open>
  The sender does not know how many mailboxes the other machine has. A message to a mailbox number the
  destination does not have passes every check of the sender, is put into the destination's socket, and makes
  the postal worker there fail its assertion when it has been read in.
\<close>

theorem bad_mailbox_stops_receiver:
  assumes run: "net_run N sent got" and h: "hosts N h = Some s" and d: "hosts N (pkt_to pktH) = Some sd"
    and m: "unat (mail_length mailH) \<le> MaxMailSize" "unat (mail_length mailH) \<le> length data" "numBoxes sd \<le> sint (mail_to mailH)" "0 \<le> sint (mail_to mailH)"
    and l: "length fresh = MaxWireSize" "length buffer = MaxPacketSize" and free: "\<not> sendLock s" and empty: "buffered sd = []"
  shows "\<exists>s' p. PostOfficeOutput_Send False fresh buffer pktH mailH data s = Inr (Some (s', Some (pkt_to pktH, p))) \<and>
    (\<forall>sock. \<exists>sd'. NetworkInput_CallBack PostOfficeInput_CallBack (p # sock) (take_interrupt NetworkInputCall sd) = Inr (sd', sock) \<and>
       PostalDelivery sd' = Inl AssertFailed)"
proof -
  have inv: "net_inv N sent got" by (rule net_invariant [OF run])
  have ok: "post_ok s (sockets N h)" and okd: "post_ok sd (sockets N (pkt_to pktH))" "hostName sd = pkt_to pktH" using inv h d by (auto simp: net_inv_def)
  have "unat (mail_length mailH) \<le> 40" "length fresh = 64" "length buffer = 52" using m(1) l by simp_all
  from send_ok [OF ok this(1) m(2,4) this(2,3), of False pktH] free obtain s' p where
    send: "PostOfficeOutput_Send False fresh buffer pktH mailH data s = Inr (Some (s', Some (pkt_to pktH, p)))" and
    p: "pkt_to (pkt_of_bytes p) = pkt_to pktH" "wire_mail p = sent_mail (hostName s) pktH mailH data"
       "\<forall>n. sint (mail_to mailH) < n \<longrightarrow> payload_ok n (pkt_of_bytes p) (drop 12 p)"
    by (cases "PostOfficeOutput_Send False fresh buffer pktH mailH data s") (auto split: option.split_asm)
  have w: "payload_ok (sint (mail_to mailH) + 1) (pkt_of_bytes p) (drop 12 p)" using p(3) by simp
  have "PostalDelivery sd' = Inl AssertFailed" if "messageAvailable sd' = 1" "numBoxes sd' = numBoxes sd" "inHdr sd' = pkt_of_bytes p"
    "inbox sd' = overlay (take (unat (pkt_length (pkt_of_bytes p))) (drop 12 p)) z" for sd' z
    using bad_delivery [OF w that(3,4,1)] p(2) m(3) that(2) by (simp add: wire_mail_def packet_mail_def sent_mail_def)
  moreover have "\<exists>sd'. NetworkInput_CallBack PostOfficeInput_CallBack (p # sock) (take_interrupt NetworkInputCall sd) = Inr (sd', sock) \<and>
      messageAvailable sd' = 1 \<and> numBoxes sd' = numBoxes sd \<and> inHdr sd' = pkt_of_bytes p \<and>
      inbox sd' = overlay (take (unat (pkt_length (pkt_of_bytes p))) (drop 12 p)) (inbox sd)" for sock
    by (rule read_packet [OF okd(1) empty _ w]) (simp add: okd(2) p(1))
  ultimately show ?thesis using send by blast
qed

theorem bad_mailbox_stops_receiver_witness:
  "\<exists>s' p. PostOfficeOutput_Send False (replicate 64 0) (replicate 52 0) demo_pkt (demo_mail\<lparr>mail_to := 7\<rparr>) [72, 105] (demo_created 0) = Inr (Some (s', Some (1, p))) \<and>
    (\<exists>sd'. NetworkInput_CallBack PostOfficeInput_CallBack [p] (take_interrupt NetworkInputCall (demo_created 1)) = Inr (sd', []) \<and>
       PostalDelivery sd' = Inl AssertFailed)"
proof -
  have d: "hosts demo_net (pkt_to demo_pkt) = Some (demo_created 1)" using demo_net_run(3) by (simp add: demo_pkt_def)
  show ?thesis using bad_mailbox_stops_receiver [OF demo_net_run(1,2) d, of "demo_mail\<lparr>mail_to := 7\<rparr>" "[72, 105]" "replicate 64 0" "replicate 52 0"]
    demo_created_ok(2-4) by (simp add: demo_mail_def) (auto simp: demo_pkt_def)
qed

end
