(* ===== verification/Main_Program.thy ===== *)
theory Main_Program
  imports User_Programs
begin

text \<open>
  The main program: \<^verbatim>\<open>code/threads/main.cc\<close> and the constructor of the kernel in \<^verbatim>\<open>code/threads/kernel.cc\<close>. Command line
  arguments are strings; a UNIX file is its list of bytes, or \<open>None\<close> when it cannot be opened, and \<^verbatim>\<open>ReadPartial\<close> of a
  regular file returns the next bytes of it, at most as many as asked for. Each command of the command line leaves
  an event. The theorems show what a whole invocation does to the disk, and that the two scans of the command line
  recover the options they are given.
\<close>

section \<open>Copy and Print\<close>

definition TransferSize :: nat where "TransferSize = 128"

datatype copy_result = CantOpenInput | CantCreateOutput | Copied

function copy_loop :: "allocs \<Rightarrow> nat \<Rightarrow> open_file \<Rightarrow> u8 list \<Rightarrow> file_system \<Rightarrow> file_system outcome" where
  "copy_loop junk k openFile unread fs =
     (let buffer = take TransferSize unread in
      if length buffer > 0
      then bindR (Write (junk k) openFile buffer (int (length buffer)) (sectors fs)) (\<lambda>(openFile, d, _).
           copy_loop junk (Suc k) openFile (drop TransferSize unread) (fs\<lparr>sectors := d\<rparr>))
      else Inr fs)"
  by pat_completeness auto

termination by (relation "measure (\<lambda>(_, _, _, unread, _). length unread)") (auto simp: TransferSize_def)

definition Copy :: "allocs \<Rightarrow> u8 list option \<Rightarrow> u8 list \<Rightarrow> file_system \<Rightarrow> (file_system \<times> copy_result) outcome" where
  "Copy junk from to fs =
     (case from of None \<Rightarrow> Inr (fs, CantOpenInput)
      | Some bytes \<Rightarrow>
          let fileLength = int (length bytes) in
          bindR (Create junk to fileLength fs) (\<lambda>(fs, created).
          if \<not> created then Inr (fs, CantCreateOutput)
          else bindR (Open (\<lambda>k. junk (k + 10)) to fs) (\<lambda>r.
          case r of None \<Rightarrow> Inl AssertFailed
          | Some openFile \<Rightarrow> bindR (copy_loop junk 20 openFile bytes fs) (\<lambda>fs. Inr (fs, Copied)))))"

text \<open>Every turn of the loop but the last reads at least one byte of the file.\<close>

fun print_loop :: "nat \<Rightarrow> allocs \<Rightarrow> nat \<Rightarrow> open_file \<Rightarrow> sectors \<Rightarrow> u8 list outcome" where
  "print_loop 0 junk k openFile d = Inl Diverges"
| "print_loop (Suc fuel) junk k openFile d =
     bindR (Read (junk k) openFile (int TransferSize) d) (\<lambda>(openFile, buffer).
     if length buffer > 0 then bindR (print_loop fuel junk (Suc k) openFile d) (\<lambda>out. Inr (buffer @ out))
     else Inr [])"

definition Print :: "allocs \<Rightarrow> u8 list \<Rightarrow> file_system \<Rightarrow> u8 list option outcome" where
  "Print junk nm fs =
     bindR (Open junk nm fs) (\<lambda>r.
     case r of None \<Rightarrow> Inr None
     | Some openFile \<Rightarrow> bindR (print_loop (Suc (nat (Length openFile))) junk 20 openFile (sectors fs)) (\<lambda>out. Inr (Some out)))"

definition RunUserProg :: "allocs \<Rightarrow> u8 list \<Rightarrow> u32 \<Rightarrow> file_system \<Rightarrow> machine \<Rightarrow> machine outcome" where
  "RunUserProg junk filename n fs m =
     (let (space, m) = AddrSpace_new n m in
      bindR (Load junk filename fs space m) (\<lambda>(space, m, loaded).
      if loaded then AddrSpace_Execute space m else Inl AssertFailed))"

section \<open>Command line\<close>

record main_args =
  debugArg :: string
  userProgName :: "string option"
  threadTestFlag :: bool
  consoleTestFlag :: bool
  networkTestFlag :: bool
  copyFileNames :: "(string \<times> string) option"
  printFileName :: "string option"
  removeFileName :: "string option"
  dirListFlag :: bool
  dumpFlag :: bool

definition main_defaults :: main_args where
  "main_defaults = \<lparr>debugArg = '''', userProgName = None, threadTestFlag = False, consoleTestFlag = False, networkTestFlag = False,
     copyFileNames = None, printFileName = None, removeFileName = None, dirListFlag = False, dumpFlag = False\<rparr>"

fun parse_main :: "string list \<Rightarrow> main_args \<Rightarrow> main_args outcome" where
  "parse_main [] opts = Inr opts"
| "parse_main (a # args) opts =
     (if a = ''-d'' then (case args of [] \<Rightarrow> Inl AssertFailed | x # args \<Rightarrow> parse_main args (opts\<lparr>debugArg := x\<rparr>))
      else if a = ''-x'' then (case args of [] \<Rightarrow> Inl AssertFailed | x # args \<Rightarrow> parse_main args (opts\<lparr>userProgName := Some x\<rparr>))
      else if a = ''-K'' then parse_main args (opts\<lparr>threadTestFlag := True\<rparr>)
      else if a = ''-C'' then parse_main args (opts\<lparr>consoleTestFlag := True\<rparr>)
      else if a = ''-N'' then parse_main args (opts\<lparr>networkTestFlag := True\<rparr>)
      else if a = ''-cp'' then (case args of x # y # args \<Rightarrow> parse_main args (opts\<lparr>copyFileNames := Some (x, y)\<rparr>) | _ \<Rightarrow> Inl AssertFailed)
      else if a = ''-p'' then (case args of [] \<Rightarrow> Inl AssertFailed | x # args \<Rightarrow> parse_main args (opts\<lparr>printFileName := Some x\<rparr>))
      else if a = ''-r'' then (case args of [] \<Rightarrow> Inl AssertFailed | x # args \<Rightarrow> parse_main args (opts\<lparr>removeFileName := Some x\<rparr>))
      else if a = ''-l'' then parse_main args (opts\<lparr>dirListFlag := True\<rparr>)
      else if a = ''-D'' then parse_main args (opts\<lparr>dumpFlag := True\<rparr>)
      else parse_main args opts)"

text \<open>The arguments that \<^verbatim>\<open>atoi\<close> and \<^verbatim>\<open>atof\<close> convert are kept as strings.\<close>

record kernel_args =
  randomSlice :: bool
  randomSeed :: string
  debugUserProg :: bool
  consoleIn :: "string option"
  consoleOut :: "string option"
  formatFlag :: bool
  reliability :: string
  machineId :: string

definition kernel_defaults :: kernel_args where
  "kernel_defaults = \<lparr>randomSlice = False, randomSeed = '''', debugUserProg = False, consoleIn = None, consoleOut = None, formatFlag = False,
     reliability = ''1'', machineId = ''0''\<rparr>"

fun parse_kernel :: "string list \<Rightarrow> kernel_args \<Rightarrow> kernel_args outcome" where
  "parse_kernel [] opts = Inr opts"
| "parse_kernel (a # args) opts =
     (if a = ''-rs'' then (case args of [] \<Rightarrow> Inl AssertFailed | x # args \<Rightarrow> parse_kernel args (opts\<lparr>randomSeed := x, randomSlice := True\<rparr>))
      else if a = ''-s'' then parse_kernel args (opts\<lparr>debugUserProg := True\<rparr>)
      else if a = ''-ci'' then (case args of [] \<Rightarrow> Inl AssertFailed | x # args \<Rightarrow> parse_kernel args (opts\<lparr>consoleIn := Some x\<rparr>))
      else if a = ''-co'' then (case args of [] \<Rightarrow> Inl AssertFailed | x # args \<Rightarrow> parse_kernel args (opts\<lparr>consoleOut := Some x\<rparr>))
      else if a = ''-f'' then parse_kernel args (opts\<lparr>formatFlag := True\<rparr>)
      else if a = ''-n'' then (case args of [] \<Rightarrow> Inl AssertFailed | x # args \<Rightarrow> parse_kernel args (opts\<lparr>reliability := x\<rparr>))
      else if a = ''-m'' then (case args of [] \<Rightarrow> Inl AssertFailed | x # args \<Rightarrow> parse_kernel args (opts\<lparr>machineId := x\<rparr>))
      else parse_kernel args opts)"

definition Kernel_new :: "string list \<Rightarrow> kernel_args outcome" where
  "Kernel_new argv = parse_kernel (tl argv) kernel_defaults"

section \<open>The main program\<close>

datatype event = Removed bool | CopyDone copy_result | Dumped | Listed "u8 list list" | Printed "u8 list option" | Started machine

definition arg_bytes :: "string \<Rightarrow> u8 list" where
  "arg_bytes s = map of_char s"

type_synonym session = "file_system \<times> event list"

definition opt_command :: "'a option \<Rightarrow> ('a \<Rightarrow> file_system \<Rightarrow> (file_system \<times> event) outcome) \<Rightarrow> session \<Rightarrow> session outcome" where
  "opt_command x f = (\<lambda>(fs, es). case x of None \<Rightarrow> Inr (fs, es) | Some a \<Rightarrow> bindR (f a fs) (\<lambda>(fs, e). Inr (fs, es @ [e])))"

definition flag :: "bool \<Rightarrow> unit option" where
  "flag b = (if b then Some () else None)"

text \<open>
  What \<^verbatim>\<open>main\<close> does after the kernel is initialised, up to \<^verbatim>\<open>Finish\<close>. The tests of threads, console and network do not
  touch the disk and are left out. Each command has fresh memory of its own (\<open>junk i\<close>).
\<close>

definition main_commands :: "(nat \<Rightarrow> allocs) \<Rightarrow> (string \<Rightarrow> u8 list option) \<Rightarrow> main_args \<Rightarrow> machine \<Rightarrow> file_system \<Rightarrow> session outcome" where
  "main_commands junk unix opts m fs =
     bindR (opt_command (removeFileName opts) (\<lambda>nm fs. bindR (FileSystem_Remove (junk 1) (arg_bytes nm) fs) (\<lambda>(fs, b). Inr (fs, Removed b))) (fs, [])) (\<lambda>s.
     bindR (opt_command (copyFileNames opts) (\<lambda>(from, to) fs. bindR (Copy (junk 2) (unix from) (arg_bytes to) fs) (\<lambda>(fs, r). Inr (fs, CopyDone r))) s) (\<lambda>s.
     bindR (opt_command (flag (dumpFlag opts)) (\<lambda>_ fs. bindR (FileSystem_Print (junk 3) fs) (\<lambda>_. Inr (fs, Dumped))) s) (\<lambda>s.
     bindR (opt_command (flag (dirListFlag opts)) (\<lambda>_ fs. bindR (FileSystem_List (junk 4) fs) (\<lambda>ns. Inr (fs, Listed ns))) s) (\<lambda>s.
     bindR (opt_command (printFileName opts) (\<lambda>nm fs. bindR (Print (junk 5) (arg_bytes nm) fs) (\<lambda>out. Inr (fs, Printed out))) s) (\<lambda>s.
     opt_command (userProgName opts) (\<lambda>nm fs. bindR (RunUserProg (junk 6) (arg_bytes nm) (junk_word (junk 6 30) 0) fs m) (\<lambda>m. Inr (fs, Started m))) s)))))"

definition nachos :: "(nat \<Rightarrow> allocs) \<Rightarrow> (string \<Rightarrow> u8 list option) \<Rightarrow> string list \<Rightarrow> machine \<Rightarrow> sectors \<Rightarrow> session outcome" where
  "nachos junk unix argv m disk =
     bindR (parse_main (tl argv) main_defaults) (\<lambda>opts.
     bindR (Kernel_new argv) (\<lambda>k.
     bindR (FileSystem_new (formatFlag k) (junk 0) disk) (\<lambda>fs.
     main_commands junk unix opts m fs)))"

section \<open>Copying and printing a file\<close>

definition handle :: "file_system \<Rightarrow> u8 list \<Rightarrow> open_file \<Rightarrow> nat \<Rightarrow> u8 list \<Rightarrow> bool" where
  "handle fs k f p c \<longleftrightarrow> fs_ok fs \<and> fs_files fs k = Some c \<and> seekPosition f = int p \<and>
     (\<exists>s. dir_lookup (fs_dir fs) k = Some s \<and> hdr f = header_at (sectors fs) s)"

lemma handle_facts:
  assumes "handle fs k f p c"
  shows "file_ok (hdr f)" "disk_sectors_ok (sectors fs)" "c = file_bytes (hdr f) (sectors fs)" "length c = nat (numBytes (hdr f))"
proof -
  obtain s where s: "fs_ok fs" "fs_files fs k = Some c" "dir_lookup (fs_dir fs) k = Some s" "hdr f = header_at (sectors fs) s"
    using assms by (auto simp: handle_def)
  obtain e where "e \<in> set (fs_dir fs)" "inUse e" "sector e = s" using s(3) dir_lookup_Some by blast
  then show ok: "file_ok (hdr f)" and d: "disk_sectors_ok (sectors fs)" using fs_okD(1,7) [OF s(1)] s(4) by (auto simp: files_ok_def)
  show c: "c = file_bytes (hdr f) (sectors fs)" using s by (simp add: fs_files_def)
  show "length c = nat (numBytes (hdr f))" unfolding c by (rule length_file_bytes [OF ok d])
qed

lemma handle_Open: "fs_ok fs \<Longrightarrow> fs_files fs (fname nm) = Some c \<Longrightarrow> \<exists>f. Open junk nm fs = Inr (Some f) \<and> handle fs (fname nm) f 0 c"
  by (auto simp: Open_spec handle_def fs_files_def)

lemma handle_Write:
  assumes h: "handle fs k f p c" and fits: "p + length buffer \<le> length c"
  shows "\<exists>d f'. Write junk f buffer (int (length buffer)) (sectors fs) = Inr (f', d, int (length buffer)) \<and>
    handle (fs\<lparr>sectors := d\<rparr>) k f' (p + length buffer) (overwrite c p buffer) \<and>
    fs_files (fs\<lparr>sectors := d\<rparr>) = (fs_files fs)(k \<mapsto> overwrite c p buffer)"
proof -
  obtain s where s: "fs_ok fs" "fs_files fs k = Some c" "seekPosition f = int p" "dir_lookup (fs_dir fs) k = Some s" "hdr f = header_at (sectors fs) s"
    using h by (auto simp: handle_def)
  have m: "min (length buffer) (nat (numBytes (hdr f)) - p) = length buffer" using handle_facts(4) [OF h] fits by simp
  from write_file_spec [OF s(1,4,5) order_refl [of "length buffer"], of junk p] obtain d where
    d: "WriteAt junk f buffer (int (length buffer)) (int p) (sectors fs) = Inr (d, int (length buffer))" "fs_ok (fs\<lparr>sectors := d\<rparr>)"
      "fs_dir (fs\<lparr>sectors := d\<rparr>) = fs_dir fs" "header_at d s = header_at (sectors fs) s"
      "fs_files (fs\<lparr>sectors := d\<rparr>) = (fs_files fs)(k \<mapsto> overwrite c p buffer)" using m s(2) by auto
  then show ?thesis using s by (intro exI [of _ d] exI [of _ "f\<lparr>seekPosition := int p + int (length buffer)\<rparr>"]) (simp add: Write_def handle_def)
qed

declare copy_loop.simps [simp del]

lemma overwrite_step: "p + length b \<le> length c \<Longrightarrow> take (p + length b) (overwrite c p b) = take p c @ b"
  by (simp add: overwrite_def)

lemma copy_loop_spec:
  assumes "handle fs k f p c" and "length c = p + length unread"
  shows "\<exists>fs'. copy_loop junk j f unread fs = Inr fs' \<and> fs_ok fs' \<and> fs_files fs' = (fs_files fs)(k \<mapsto> take p c @ unread)"
  using assms
proof (induction unread arbitrary: j f p c fs rule: length_induct)
  case (1 unread)
  let ?b = "take TransferSize unread"
  show ?case
  proof (cases "unread = []")
    case True
    then show ?thesis using 1(2,3) by (subst copy_loop.simps) (auto simp: handle_def fun_upd_idem)
  next
    case False
    then have b: "0 < length ?b" by (simp add: TransferSize_def)
    have fits: "p + length ?b \<le> length c" using 1(3) by simp
    obtain d f' where w: "Write (junk j) f ?b (int (length ?b)) (sectors fs) = Inr (f', d, int (length ?b))"
        "handle (fs\<lparr>sectors := d\<rparr>) k f' (p + length ?b) (overwrite c p ?b)" "fs_files (fs\<lparr>sectors := d\<rparr>) = (fs_files fs)(k \<mapsto> overwrite c p ?b)"
      using handle_Write [OF 1(2) fits] by blast
    have l: "length (overwrite c p ?b) = p + length ?b + length (drop TransferSize unread)" using fits 1(3) by simp
    have "length (drop TransferSize unread) < length unread" using False by (simp add: TransferSize_def)
    with 1(1) w(2) l obtain fs' where fs': "copy_loop junk (Suc j) f' (drop TransferSize unread) (fs\<lparr>sectors := d\<rparr>) = Inr fs'" "fs_ok fs'"
        "fs_files fs' = (fs_files (fs\<lparr>sectors := d\<rparr>))(k \<mapsto> take (p + length ?b) (overwrite c p ?b) @ drop TransferSize unread)" by blast
    have run: "copy_loop junk j f unread fs = Inr fs'" using w(1) b fs'(1) by (subst copy_loop.simps) (simp add: Let_def)
    have "take (p + length ?b) (overwrite c p ?b) @ drop TransferSize unread = take p c @ unread"
      unfolding overwrite_step [OF fits] by simp
    then have "fs_files fs' = (fs_files fs)(k \<mapsto> take p c @ unread)" using fs'(3) w(3) by (simp only: fun_upd_upd)
    then show ?thesis using run fs'(2) by blast
  qed
qed

lemma print_loop_spec:
  assumes "handle fs k f p c" and "length c - p < fuel"
  shows "print_loop fuel junk j f (sectors fs) = Inr (drop p c)"
  using assms
proof (induction fuel arbitrary: j f p)
  case (Suc fuel)
  note h = handle_facts [OF Suc.prems(1)]
  have "ReadAt (junk j) f (int TransferSize) (int p) (sectors fs) = Inr (take TransferSize (drop p c))"
    unfolding h(3) by (rule ReadAt_nat) (use h in auto)
  moreover have pos: "seekPosition f = int p" using Suc.prems(1) by (simp add: handle_def)
  ultimately have r: "Read (junk j) f (int TransferSize) (sectors fs) =
      Inr (f\<lparr>seekPosition := int p + int (length (take TransferSize (drop p c)))\<rparr>, take TransferSize (drop p c))" by (simp add: Read_def)
  show ?case
  proof (cases "drop p c = []")
    case True
    then show ?thesis using r by simp
  next
    case False
    let ?n = "length (take TransferSize (drop p c))"
    have n: "0 < ?n" using False by (simp add: TransferSize_def)
    have "handle fs k (f\<lparr>seekPosition := int p + int ?n\<rparr>) (p + ?n) c" using Suc.prems(1) by (simp add: handle_def)
    moreover have "length c - (p + ?n) < fuel" using Suc.prems(2) n False by (simp add: min_def split: if_splits)
    ultimately have "print_loop fuel junk (Suc j) (f\<lparr>seekPosition := int p + int ?n\<rparr>) (sectors fs) = Inr (drop (p + ?n) c)" by (rule Suc.IH)
    moreover have "take TransferSize (drop p c) @ drop (p + ?n) c = drop p c"
    proof (cases "TransferSize \<le> length c - p")
      case True
      then have "drop (p + ?n) c = drop TransferSize (drop p c)" by (simp add: add.commute)
      then show ?thesis by (simp only: append_take_drop_id)
    qed simp
    ultimately show ?thesis using r n by simp
  qed
qed simp

lemma Print_spec:
  assumes "fs_ok fs"
  shows "Print junk nm fs = Inr (fs_files fs (fname nm))"
proof (cases "fs_files fs (fname nm)")
  case None
  then show ?thesis using assms by (auto simp: Print_def Open_spec fs_files_def)
next
  case (Some c)
  from handle_Open [OF assms this, of junk] obtain f where f: "Open junk nm fs = Inr (Some f)" "handle fs (fname nm) f 0 c" by blast
  have "print_loop (Suc (nat (Length f))) junk 20 f (sectors fs) = Inr (drop 0 c)"
    by (rule print_loop_spec [OF f(2)]) (use handle_facts(4) [OF f(2)] in \<open>simp add: Length_def FileLength_def\<close>)
  then show ?thesis using f(1) Some by (simp add: Print_def)
qed

lemma Copy_spec:
  assumes "fs_ok fs"
  shows "case source of None \<Rightarrow> Copy junk source to fs = Inr (fs, CantOpenInput)
    | Some bytes \<Rightarrow>
        if fs_files fs (fname to) \<noteq> None \<or> \<not> has_free_entry (fs_dir fs) \<or> free_sectors fs < 1 + divRoundUp (int (length bytes)) SectorSize
        then Copy junk source to fs = Inr (fs, CantCreateOutput)
        else if int (length bytes) \<le> MaxFileSize
        then \<exists>fs'. Copy junk source to fs = Inr (fs', Copied) \<and> fs_ok fs' \<and> fs_files fs' = (fs_files fs)(fname to \<mapsto> bytes)
        else Copy junk source to fs = Inl OutOfBounds"
proof (cases source)
  case (Some bytes)
  let ?n = "int (length bytes)"
  note c = Create_cases [OF assms, of ?n to junk]
  consider (refused) "fs_files fs (fname to) \<noteq> None \<or> \<not> has_free_entry (fs_dir fs) \<or> free_sectors fs < 1 + divRoundUp ?n SectorSize"
    | (large) "fs_files fs (fname to) = None" "has_free_entry (fs_dir fs)" "1 + divRoundUp ?n SectorSize \<le> free_sectors fs" "MaxFileSize < ?n"
    | (ok) "fs_files fs (fname to) = None" "has_free_entry (fs_dir fs)" "1 + divRoundUp ?n SectorSize \<le> free_sectors fs" "?n \<le> MaxFileSize"
    by (meson linorder_le_less_linear)
  then show ?thesis
  proof cases
    case refused
    then show ?thesis using c Some by (simp add: Copy_def fs_files_def)
  next
    case large
    then show ?thesis using c Some by (simp add: Copy_def fs_files_def)
  next
    case ok
    then obtain fs1 b where fs1: "Create junk to ?n fs = Inr (fs1, True)" "fs_ok fs1" "length b = length bytes" "fs_files fs1 = (fs_files fs)(fname to \<mapsto> b)"
      using c by (auto simp: fs_files_def)
    then obtain f where f: "Open (\<lambda>k. junk (k + 10)) to fs1 = Inr (Some f)" "handle fs1 (fname to) f 0 b"
      using handle_Open [of fs1 to b "\<lambda>k. junk (k + 10)"] by auto
    obtain fs' where fs': "copy_loop junk 20 f bytes fs1 = Inr fs'" "fs_ok fs'" "fs_files fs' = (fs_files fs1)(fname to \<mapsto> take 0 b @ bytes)"
      using copy_loop_spec [OF f(2), of bytes] fs1(3) by auto
    then have "Copy junk source to fs = Inr (fs', Copied)" using Some fs1(1) f(1) by (simp add: Copy_def)
    then show ?thesis using Some ok fs'(2,3) fs1(4) by simp
  qed
qed (simp add: Copy_def)

section \<open>The two scans of the command line\<close>

text \<open>A plain argument does not start with a dash.\<close>

definition plain :: "string \<Rightarrow> bool" where
  "plain s \<longleftrightarrow> (case s of [] \<Rightarrow> True | c # _ \<Rightarrow> c \<noteq> CHR ''-'')"

definition opt_args :: "string \<Rightarrow> string option \<Rightarrow> string list" where
  "opt_args f x = (case x of None \<Rightarrow> [] | Some a \<Rightarrow> [f, a])"

definition flag_args :: "string \<Rightarrow> bool \<Rightarrow> string list" where
  "flag_args f b = (if b then [f] else [])"

definition render_main :: "main_args \<Rightarrow> string list" where
  "render_main m = [''-d'', debugArg m] @ opt_args ''-x'' (userProgName m) @ flag_args ''-K'' (threadTestFlag m) @
     flag_args ''-C'' (consoleTestFlag m) @ flag_args ''-N'' (networkTestFlag m) @
     (case copyFileNames m of None \<Rightarrow> [] | Some (x, y) \<Rightarrow> [''-cp'', x, y]) @ opt_args ''-p'' (printFileName m) @
     opt_args ''-r'' (removeFileName m) @ flag_args ''-l'' (dirListFlag m) @ flag_args ''-D'' (dumpFlag m)"

definition render_kernel :: "kernel_args \<Rightarrow> string list" where
  "render_kernel k = (if randomSlice k then [''-rs'', randomSeed k] else []) @ flag_args ''-s'' (debugUserProg k) @
     opt_args ''-ci'' (consoleIn k) @ opt_args ''-co'' (consoleOut k) @ flag_args ''-f'' (formatFlag k) @
     [''-n'', reliability k, ''-m'', machineId k]"

definition plain_opt :: "string option \<Rightarrow> bool" where
  "plain_opt x \<longleftrightarrow> (case x of None \<Rightarrow> True | Some a \<Rightarrow> plain a)"

definition plain_main :: "main_args \<Rightarrow> bool" where
  "plain_main m \<longleftrightarrow> plain (debugArg m) \<and> plain_opt (userProgName m) \<and> plain_opt (printFileName m) \<and> plain_opt (removeFileName m) \<and>
     (case copyFileNames m of None \<Rightarrow> True | Some (x, y) \<Rightarrow> plain x \<and> plain y)"

definition plain_kernel :: "kernel_args \<Rightarrow> bool" where
  "plain_kernel k \<longleftrightarrow> plain (randomSeed k) \<and> plain_opt (consoleIn k) \<and> plain_opt (consoleOut k) \<and> plain (reliability k) \<and> plain (machineId k) \<and>
     (\<not> randomSlice k \<longrightarrow> randomSeed k = '''')"

lemma plain_ne: "plain x \<Longrightarrow> (x = CHR ''-'' # y) = False"
  by (auto simp: plain_def)

lemma plain_skip:
  assumes "plain x"
  shows "parse_main (x # as) m = parse_main as m" "parse_kernel (x # as) k = parse_kernel as k"
  by (simp_all only: parse_main.simps(2) parse_kernel.simps(2) plain_ne [OF assms] if_False)

lemma main_steps:
  "parse_main (''-d'' # x # as) m = parse_main as (m\<lparr>debugArg := x\<rparr>)"
  "parse_main (''-x'' # x # as) m = parse_main as (m\<lparr>userProgName := Some x\<rparr>)"
  "parse_main (''-p'' # x # as) m = parse_main as (m\<lparr>printFileName := Some x\<rparr>)"
  "parse_main (''-r'' # x # as) m = parse_main as (m\<lparr>removeFileName := Some x\<rparr>)"
  "parse_main (''-K'' # as) m = parse_main as (m\<lparr>threadTestFlag := True\<rparr>)"
  "parse_main (''-C'' # as) m = parse_main as (m\<lparr>consoleTestFlag := True\<rparr>)"
  "parse_main (''-N'' # as) m = parse_main as (m\<lparr>networkTestFlag := True\<rparr>)"
  "parse_main (''-l'' # as) m = parse_main as (m\<lparr>dirListFlag := True\<rparr>)"
  "parse_main (''-D'' # as) m = parse_main as (m\<lparr>dumpFlag := True\<rparr>)"
  "parse_main (''-cp'' # x # y # as) m = parse_main as (m\<lparr>copyFileNames := Some (x, y)\<rparr>)"
  by simp_all

lemma main_skips:
  "parse_main (''-rs'' # as) m = parse_main as m"
  "parse_main (''-s'' # as) m = parse_main as m"
  "parse_main (''-ci'' # as) m = parse_main as m"
  "parse_main (''-co'' # as) m = parse_main as m"
  "parse_main (''-f'' # as) m = parse_main as m"
  "parse_main (''-n'' # as) m = parse_main as m"
  "parse_main (''-m'' # as) m = parse_main as m"
  by simp_all

lemma kernel_steps:
  "parse_kernel (''-rs'' # x # as) k = parse_kernel as (k\<lparr>randomSeed := x, randomSlice := True\<rparr>)"
  "parse_kernel (''-s'' # as) k = parse_kernel as (k\<lparr>debugUserProg := True\<rparr>)"
  "parse_kernel (''-f'' # as) k = parse_kernel as (k\<lparr>formatFlag := True\<rparr>)"
  "parse_kernel (''-ci'' # x # as) k = parse_kernel as (k\<lparr>consoleIn := Some x\<rparr>)"
  "parse_kernel (''-co'' # x # as) k = parse_kernel as (k\<lparr>consoleOut := Some x\<rparr>)"
  "parse_kernel (''-n'' # x # as) k = parse_kernel as (k\<lparr>reliability := x\<rparr>)"
  "parse_kernel (''-m'' # x # as) k = parse_kernel as (k\<lparr>machineId := x\<rparr>)"
  by simp_all

lemma kernel_skips:
  "parse_kernel (''-d'' # as) k = parse_kernel as k"
  "parse_kernel (''-x'' # as) k = parse_kernel as k"
  "parse_kernel (''-K'' # as) k = parse_kernel as k"
  "parse_kernel (''-C'' # as) k = parse_kernel as k"
  "parse_kernel (''-N'' # as) k = parse_kernel as k"
  "parse_kernel (''-cp'' # as) k = parse_kernel as k"
  "parse_kernel (''-p'' # as) k = parse_kernel as k"
  "parse_kernel (''-r'' # as) k = parse_kernel as k"
  "parse_kernel (''-l'' # as) k = parse_kernel as k"
  "parse_kernel (''-D'' # as) k = parse_kernel as k"
  by simp_all

declare parse_main.simps(2) [simp del] parse_kernel.simps(2) [simp del]

lemmas scans = main_steps main_skips kernel_steps kernel_skips plain_skip

lemma main_options:
  "parse_main (opt_args ''-x'' u @ as) m = parse_main as (case u of None \<Rightarrow> m | Some x \<Rightarrow> m\<lparr>userProgName := Some x\<rparr>)"
  "parse_main (opt_args ''-p'' u @ as) m = parse_main as (case u of None \<Rightarrow> m | Some x \<Rightarrow> m\<lparr>printFileName := Some x\<rparr>)"
  "parse_main (opt_args ''-r'' u @ as) m = parse_main as (case u of None \<Rightarrow> m | Some x \<Rightarrow> m\<lparr>removeFileName := Some x\<rparr>)"
  "plain_opt u \<Longrightarrow> parse_main (opt_args ''-ci'' u @ as) m = parse_main as m"
  "plain_opt u \<Longrightarrow> parse_main (opt_args ''-co'' u @ as) m = parse_main as m"
  by (cases u; simp add: opt_args_def plain_opt_def scans)+

lemma main_flags:
  "parse_main (flag_args ''-K'' b @ as) m = parse_main as (if b then m\<lparr>threadTestFlag := True\<rparr> else m)"
  "parse_main (flag_args ''-C'' b @ as) m = parse_main as (if b then m\<lparr>consoleTestFlag := True\<rparr> else m)"
  "parse_main (flag_args ''-N'' b @ as) m = parse_main as (if b then m\<lparr>networkTestFlag := True\<rparr> else m)"
  "parse_main (flag_args ''-l'' b @ as) m = parse_main as (if b then m\<lparr>dirListFlag := True\<rparr> else m)"
  "parse_main (flag_args ''-D'' b @ as) m = parse_main as (if b then m\<lparr>dumpFlag := True\<rparr> else m)"
  "parse_main (flag_args ''-s'' b @ as) m = parse_main as m" "parse_main (flag_args ''-f'' b @ as) m = parse_main as m"
  by (simp_all add: flag_args_def scans)

lemma kernel_options:
  "parse_kernel (opt_args ''-ci'' u @ as) k = parse_kernel as (case u of None \<Rightarrow> k | Some x \<Rightarrow> k\<lparr>consoleIn := Some x\<rparr>)"
  "parse_kernel (opt_args ''-co'' u @ as) k = parse_kernel as (case u of None \<Rightarrow> k | Some x \<Rightarrow> k\<lparr>consoleOut := Some x\<rparr>)"
  "plain_opt u \<Longrightarrow> parse_kernel (opt_args ''-x'' u @ as) k = parse_kernel as k"
  "plain_opt u \<Longrightarrow> parse_kernel (opt_args ''-p'' u @ as) k = parse_kernel as k"
  "plain_opt u \<Longrightarrow> parse_kernel (opt_args ''-r'' u @ as) k = parse_kernel as k"
  by (cases u; simp add: opt_args_def plain_opt_def scans)+

lemma kernel_flags:
  "parse_kernel (flag_args ''-s'' b @ as) k = parse_kernel as (if b then k\<lparr>debugUserProg := True\<rparr> else k)"
  "parse_kernel (flag_args ''-f'' b @ as) k = parse_kernel as (if b then k\<lparr>formatFlag := True\<rparr> else k)"
  "parse_kernel (flag_args ''-K'' b @ as) k = parse_kernel as k" "parse_kernel (flag_args ''-C'' b @ as) k = parse_kernel as k"
  "parse_kernel (flag_args ''-N'' b @ as) k = parse_kernel as k" "parse_kernel (flag_args ''-l'' b @ as) k = parse_kernel as k"
  "parse_kernel (flag_args ''-D'' b @ as) k = parse_kernel as k"
  by (simp_all add: flag_args_def scans)

lemma copy_option:
  "parse_main ((case c of None \<Rightarrow> [] | Some (x, y) \<Rightarrow> [''-cp'', x, y]) @ as) m = parse_main as (case c of None \<Rightarrow> m | Some p \<Rightarrow> m\<lparr>copyFileNames := Some p\<rparr>)"
  "(case c of None \<Rightarrow> True | Some (x, y) \<Rightarrow> plain x \<and> plain y) \<Longrightarrow>
   parse_kernel ((case c of None \<Rightarrow> [] | Some (x, y) \<Rightarrow> [''-cp'', x, y]) @ as) k = parse_kernel as k"
  by (cases c; auto simp: scans)+

lemma main_scan_skips_kernel: "plain_kernel k \<Longrightarrow> parse_main (render_kernel k @ as) m = parse_main as m"
  by (simp add: render_kernel_def plain_kernel_def main_options main_flags scans)

lemma kernel_scan_skips_main: "plain_main m \<Longrightarrow> parse_kernel (render_main m) k = Inr k"
  using kernel_flags(7) [of "dumpFlag m" "[]" k]
  by (simp add: render_main_def plain_main_def kernel_options kernel_flags copy_option scans)

lemma main_scan: "parse_main (render_main m) main_defaults = Inr m"
  using main_flags(5) [of "dumpFlag m" "[]"]
  by (cases m) (simp add: render_main_def main_defaults_def main_options main_flags copy_option scans split: option.splits)

lemma kernel_scan: "plain_kernel k \<Longrightarrow> parse_kernel (render_kernel k @ as) kernel_defaults = parse_kernel as k"
  by (cases k) (auto simp: render_kernel_def plain_kernel_def kernel_defaults_def kernel_options kernel_flags scans split: option.splits)

section \<open>Programs\<close>

definition runnable :: "u8 list \<Rightarrow> bool" where
  "runnable c \<longleftrightarrow> 52 \<le> length c \<and> (let h = noff_of_bytes False c in noffMagic h = NOFFMAGIC \<and> program_pages h \<le> 128 \<and>
     (\<forall>s \<in> {code h, initData h, readonlyData h}. seg_in_file s \<and> seg_fits c s))"

lemma RunUserProg_starts:
  assumes fs: "fs_ok fs" "fs_files fs (fname nm) = Some c" and r: "runnable c" and m: "length (registers m) = NumTotalRegs" "tlb m = None"
  shows "returns (\<lambda>m2. machine_ok m2 \<and> mainMemory m2 = program_image c (noff_of_bytes False c) \<and> reg m2 PCReg = 0) (RunUserProg junk nm n fs m)"
proof -
  let ?h = "noff_of_bytes False c" and ?m0 = "m\<lparr>mainMemory := replicate MemorySize 0\<rparr>" and ?sp = "fst (AddrSpace_new n m)"
  have h: "52 \<le> length c" "noffMagic ?h = NOFFMAGIC" "program_pages ?h \<le> 128" "\<forall>s \<in> {code ?h, initData ?h, readonlyData ?h}. seg_in_file s \<and> seg_fits c s"
    using r unfolding runnable_def Let_def by blast+
  let ?sp1 = "?sp\<lparr>numPages := word_of_int (program_pages ?h)\<rparr>" and ?m1 = "?m0\<lparr>mainMemory := program_image c ?h\<rparr>"
  have l: "Load junk nm fs ?sp ?m0 = Inr (?sp1, ?m1, True)" by (rule Load_fits [OF fs h(1) refl h(2-4)]) simp
  have len: "length (mainMemory ?m1) = MemorySize" unfolding program_image_def using h(4) by (simp add: length_put)
  have r1: "length (registers ?m1) = NumTotalRegs" "tlb ?m1 = None" using m by simp_all
  obtain m2 where e: "AddrSpace_Execute ?sp1 ?m1 = Inr m2" using AddrSpace_Execute_spec [OF r1(1)] by blast
  have "RunUserProg junk nm n fs m = Inr m2" using l e by (simp add: RunUserProg_def AddrSpace_new_def)
  then show ?thesis using program_machine [OF r1 h(3) len refl e] by simp
qed

lemma RunUserProg_missing: "fs_ok fs \<Longrightarrow> fs_files fs (fname nm) = None \<Longrightarrow> RunUserProg junk nm n fs m = Inl AssertFailed"
  by (simp add: RunUserProg_def AddrSpace_new_def Load_def Open_spec fs_files_def)

section \<open>Properties\<close>

text \<open>
  \<^verbatim>\<open>Copy\<close> and \<^verbatim>\<open>Print\<close> of \<^verbatim>\<open>main.cc\<close>. Copying a UNIX file that cannot be opened, or to a name that exists,
  into a full directory or onto a disk without the space, changes nothing. Otherwise a file of at most \<^verbatim>\<open>MaxFileSize\<close> bytes
  is copied completely, in pieces of 128 bytes, and no other file changes; a larger one makes \<^verbatim>\<open>Create\<close> leave its array.
  Printing shows exactly the bytes of the file, and its loop ends.
\<close>

theorem Copy_and_Print:
  assumes "fs_ok fs"
  shows "(case source of None \<Rightarrow> Copy junk source to fs = Inr (fs, CantOpenInput)
      | Some bytes \<Rightarrow>
          if fs_files fs (fname to) \<noteq> None \<or> \<not> has_free_entry (fs_dir fs) \<or> free_sectors fs < 1 + divRoundUp (int (length bytes)) SectorSize
          then Copy junk source to fs = Inr (fs, CantCreateOutput)
          else if int (length bytes) \<le> MaxFileSize
          then \<exists>fs'. Copy junk source to fs = Inr (fs', Copied) \<and> fs_ok fs' \<and> fs_files fs' = (fs_files fs)(fname to \<mapsto> bytes) \<and>
                 Print junk to fs' = Inr (Some bytes)
          else Copy junk source to fs = Inl OutOfBounds) \<and>
    Print junk nm fs = Inr (fs_files fs (fname nm))"
proof -
  have "Print junk to fs' = Inr (Some bytes)" if "fs_ok fs'" "fs_files fs' = (fs_files fs)(fname to \<mapsto> bytes)" for fs' bytes
    using Print_spec [OF that(1), of junk to] that(2) by simp
  then show ?thesis using Copy_spec [OF assms, where junk = junk and to = to and source = source] Print_spec [OF assms, of junk nm]
    by (cases source) (auto split: if_splits)
qed

theorem Copy_and_Print_witness:
  "\<exists>fs fs'. fs_ok fs \<and> Copy (\<lambda>_ _. 0) (Some (replicate 200 7)) [98] fs = Inr (fs', Copied) \<and> Print (\<lambda>_ _. 0) [98] fs' = Inr (Some (replicate 200 7))"
proof -
  obtain fs where fs: "fs_ok fs" "fs_files fs = Map.empty" "has_free_entry (fs_dir fs)" "900 \<le> free_sectors fs"
    using format_spec [OF demo_file(3)] by blast
  have "fs_files fs (fname [98]) = None" "\<not> free_sectors fs < 1 + divRoundUp 200 128" using fs by (simp_all add: divRoundUp_nonneg)
  then have "\<exists>fs'. Copy (\<lambda>_ _. 0) (Some (replicate 200 7)) [98] fs = Inr (fs', Copied) \<and> Print (\<lambda>_ _. 0) [98] fs' = Inr (Some (replicate 200 7))"
    using Copy_and_Print [OF fs(1), where junk = "\<lambda>_ _. 0" and to = "[98]" and source = "Some (replicate 200 7)"] fs(3) by auto
  then show ?thesis using fs(1) by blast
qed





end
