(* ===== verification/Coff2noff.thy ===== *)
theory Coff2noff
  imports User_Programs
begin

text \<open>
  The converter \<^verbatim>\<open>src/coff2noff/coff2noff.c\<close>, which makes Nachos object files from the COFF files of the MIPS
  compiler, in its 32-bit build with \<^verbatim>\<open>RDATA\<close>. The input is the list of bytes of the COFF file; \<open>pos\<close> is the position of
  the descriptor \<^verbatim>\<open>fdIn\<close>. An error that removes the output and exits is a value of \<open>coff_error\<close>. The fields of the NOFF header
  that the program does not initialise are those of the argument \<open>junk\<close>. The byte order of the host is the argument \<open>big\<close>.
  The theorems show that the output is the same on every host, and that loading it puts every section at its address.
\<close>

section \<open>COFF files\<close>

datatype coff_error =
    CantOpen | TooShort | NotMipsel | NotOmagic | BothBss | UnknownSegment
  | NegativeSize   \<comment> \<open>a section size that is negative as an \<^verbatim>\<open>int\<close>: what \<^verbatim>\<open>malloc\<close> and \<^verbatim>\<open>read\<close> do is up to the host\<close>

definition bindC :: "coff_error + 'a \<Rightarrow> ('a \<Rightarrow> coff_error + 'b) \<Rightarrow> coff_error + 'b" where
  "bindC m f = (case m of Inl e \<Rightarrow> Inl e | Inr x \<Rightarrow> f x)"

lemma bindC_simps [simp]: "bindC (Inl e) f = Inl e" "bindC (Inr x) f = f x"
  by (simp_all add: bindC_def)

definition MIPSELMAGIC :: u16 where "MIPSELMAGIC = 0x0162"
definition OMAGIC :: u16 where "OMAGIC = 0x107"   \<comment> \<open>\<^verbatim>\<open>0407\<close>\<close>

definition sizeof_filehdr :: nat where "sizeof_filehdr = 20"
definition sizeof_aouthdr :: nat where "sizeof_aouthdr = 56"
definition sizeof_scnhdr :: nat where "sizeof_scnhdr = 40"

text \<open>The fields of \<^verbatim>\<open>struct scnhdr\<close> that the program uses, converted to the order of the host.\<close>

record scnhdr =
  s_name :: "u8 list"
  s_paddr :: u32
  s_size :: u32
  s_scnptr :: u32

definition scnhdr_of_bytes :: "bool \<Rightarrow> u8 list \<Rightarrow> nat \<Rightarrow> scnhdr" where
  "scnhdr_of_bytes big b i =
     (let off = sizeof_scnhdr * i in
      \<lparr>s_name = take 8 (drop off b), s_paddr = WordToHost big (host_load32 big b (off + 8)),
       s_size = WordToHost big (host_load32 big b (off + 16)), s_scnptr = WordToHost big (host_load32 big b (off + 20))\<rparr>)"

definition coff_Read :: "u8 list \<Rightarrow> nat \<Rightarrow> int \<Rightarrow> coff_error + (u8 list \<times> nat)" where
  "coff_Read input pos nBytes =
     (if nBytes < 0 then Inl NegativeSize
      else if pos + nat nBytes \<le> length input then Inr (take (nat nBytes) (drop pos input), pos + nat nBytes)
      else if nBytes = 0 then Inr ([], pos)
      else Inl TooShort)"

section \<open>Conversion\<close>

record coff_state =
  noffH :: NoffHeader
  inNoffFile :: u32
  written :: "u8 list"   \<comment> \<open>the bytes of the output after the header\<close>
  inPos :: nat

definition copy_section :: "u8 list \<Rightarrow> scnhdr \<Rightarrow> coff_state \<Rightarrow> coff_error + coff_state" where
  "copy_section input s st =
     (let pos = (if sint (s_scnptr s) < 0 then inPos st else nat (sint (s_scnptr s))) in
      bindC (coff_Read input pos (sint (s_size s))) (\<lambda>(buffer, pos).
      Inr (st\<lparr>written := written st @ buffer, inPos := pos, inNoffFile := inNoffFile st + s_size s\<rparr>)))"

definition new_segment :: "scnhdr \<Rightarrow> coff_state \<Rightarrow> Segment" where
  "new_segment s st = \<lparr>virtualAddr = s_paddr s, inFileAddr = inNoffFile st, segSize = s_size s\<rparr>"

definition is_name :: "string \<Rightarrow> scnhdr \<Rightarrow> bool" where
  "is_name nm s \<longleftrightarrow> cstr (s_name s) = map of_char nm"

definition convert_section :: "u8 list \<Rightarrow> scnhdr \<Rightarrow> coff_state \<Rightarrow> coff_error + coff_state" where
  "convert_section input s st =
     (if s_size s = 0 then Inr st
      else if is_name ''.text'' s then copy_section input s (st\<lparr>noffH := (noffH st)\<lparr>code := new_segment s st\<rparr>\<rparr>)
      else if is_name ''.data'' s then copy_section input s (st\<lparr>noffH := (noffH st)\<lparr>initData := new_segment s st\<rparr>\<rparr>)
      else if is_name ''.rdata'' s then copy_section input s (st\<lparr>noffH := (noffH st)\<lparr>readonlyData := new_segment s st\<rparr>\<rparr>)
      else if is_name ''.bss'' s then
        let u = uninitData (noffH st) in
        if segSize u \<noteq> 0 then
          if s_paddr s = virtualAddr u + segSize u then Inl BothBss
          else Inr (st\<lparr>noffH := (noffH st)\<lparr>uninitData := u\<lparr>segSize := segSize u + s_size s\<rparr>\<rparr>\<rparr>)
        else Inr (st\<lparr>noffH := (noffH st)\<lparr>uninitData := u\<lparr>virtualAddr := s_paddr s, segSize := s_size s\<rparr>\<rparr>\<rparr>)
      else Inl UnknownSegment)"

fun convert_sections :: "u8 list \<Rightarrow> scnhdr list \<Rightarrow> coff_state \<Rightarrow> coff_error + coff_state" where
  "convert_sections input [] st = Inr st"
| "convert_sections input (s # sections) st = bindC (convert_section input s st) (convert_sections input sections)"

definition init_header :: "NoffHeader \<Rightarrow> NoffHeader" where
  "init_header junk = junk\<lparr>noffMagic := NOFFMAGIC, code := (code junk)\<lparr>segSize := 0\<rparr>, initData := (initData junk)\<lparr>segSize := 0\<rparr>,
     uninitData := (uninitData junk)\<lparr>segSize := 0\<rparr>, readonlyData := (readonlyData junk)\<lparr>segSize := 0\<rparr>\<rparr>"

text \<open>The bytes of the header object on the host.\<close>

definition host_bytes :: "bool \<Rightarrow> u32 \<Rightarrow> u8 list" where
  "host_bytes big w = (if big then rev (int_bytes w) else int_bytes w)"

definition noff_words :: "NoffHeader \<Rightarrow> u32 list" where
  "noff_words h = noffMagic h # concat (map (\<lambda>s. [virtualAddr s, inFileAddr s, segSize s]) [code h, initData h, readonlyData h, uninitData h])"

definition noff_to_bytes :: "bool \<Rightarrow> NoffHeader \<Rightarrow> u8 list" where
  "noff_to_bytes big h = concat (map (host_bytes big) (noff_words h))"

definition read_sections :: "bool \<Rightarrow> u8 list \<Rightarrow> coff_error + (scnhdr list \<times> nat)" where
  "read_sections big input =
     bindC (coff_Read input 0 (int sizeof_filehdr)) (\<lambda>(fileh, pos).
     if ShortToHost big (host_load16 big fileh 0) \<noteq> MIPSELMAGIC then Inl NotMipsel
     else let numsections = unat (ShortToHost big (host_load16 big fileh 2)) in
     bindC (coff_Read input pos (int sizeof_aouthdr)) (\<lambda>(systemh, pos).
     if ShortToHost big (host_load16 big systemh 0) \<noteq> OMAGIC then Inl NotOmagic
     else bindC (coff_Read input pos (int (numsections * sizeof_scnhdr))) (\<lambda>(b, pos).
     Inr (map (scnhdr_of_bytes big b) [0..<numsections], pos))))"

definition coff2noff :: "bool \<Rightarrow> NoffHeader \<Rightarrow> u8 list option \<Rightarrow> coff_error + u8 list" where
  "coff2noff big junk input =
     (case input of None \<Rightarrow> Inl CantOpen
      | Some input \<Rightarrow>
          bindC (read_sections big input) (\<lambda>(sections, pos).
          bindC (convert_sections input sections
            \<lparr>noffH = init_header junk, inNoffFile = of_nat sizeof_NoffHeader, written = [], inPos = pos\<rparr>) (\<lambda>st.
          Inr (noff_to_bytes big (SwapHeader big (noffH st)) @ written st))))"

section \<open>Byte order\<close>

lemma host_bytes_swapped: "host_bytes big (WordToHost big w) = int_bytes w"
proof (cases big)
  case True
  then have "WordToHost big w = le32 (byte_of 3 w) (byte_of 2 w) (byte_of 1 w) (byte_of 0 w)" by (simp add: WordToHost_bytes)
  then show ?thesis using True by (simp add: host_bytes_def int_bytes_def)
qed (simp add: host_bytes_def WordToHost_def)

lemma noff_to_bytes_swapped: "noff_to_bytes big (SwapHeader big h) = concat (map int_bytes (noff_words h))"
  by (simp add: noff_to_bytes_def noff_words_def SwapHeader_def swap_segment_def host_bytes_swapped)

lemma read_sections_host: "read_sections big input = read_sections False input"
  by (simp add: read_sections_def load16_le scnhdr_of_bytes_def [abs_def] load32_le Let_def cong: if_cong)

lemma length_noff_words [simp]: "length (noff_words h) = 13"
  by (simp add: noff_words_def)

lemma header_read_back:
  assumes "c = concat (map int_bytes (noff_words h)) @ w"
  shows "noff_of_bytes False c = h" "length c = 52 + length w" "drop 52 c = w"
proof -
  let ?b = "concat (map int_bytes (noff_words h))"
  have len: "length ?b = 52" using length_concat_uniform [of "noff_words h" int_bytes 4] by simp
  then show "length c = 52 + length w" "drop 52 c = w" using assms by simp_all
  have w: "host_load32 False c (4 * i) = noff_words h ! i" if "i < 13" for i
  proof -
    have "host_load32 False c (4 * i) = word_at_byte ?b i"
      using that len by (simp add: host_load32_def word_at_byte_def assms nth_append)
    then show ?thesis using words_of_bytes [of i "noff_words h"] that by simp
  qed
  show "noff_of_bytes False c = h"
    using w [of 0] w [of 1] w [of 2] w [of 3] w [of 4] w [of 5] w [of 6] w [of 7] w [of 8] w [of 9] w [of 10] w [of 11] w [of 12]
    by (simp add: noff_of_bytes_def segment_of_bytes_def noff_words_def)
qed

section \<open>Sections and segments\<close>

definition section_bytes :: "u8 list \<Rightarrow> scnhdr \<Rightarrow> u8 list" where
  "section_bytes input s = take (nat (sint (s_size s))) (drop (nat (sint (s_scnptr s))) input)"

definition last_section :: "string \<Rightarrow> scnhdr list \<Rightarrow> scnhdr option" where
  "last_section nm sections = find (\<lambda>s. is_name nm s \<and> s_size s \<noteq> 0) (rev sections)"

lemma last_section_simps [simp]:
  "last_section nm [] = None"
  "last_section nm (ss @ [s]) = (if is_name nm s \<and> s_size s \<noteq> 0 then Some s else last_section nm ss)"
  by (simp_all add: last_section_def)

text \<open>A segment of the output, whose bytes after the header are \<open>w\<close>, is the last section of that name.\<close>

definition is_section :: "u8 list \<Rightarrow> u8 list \<Rightarrow> scnhdr option \<Rightarrow> Segment \<Rightarrow> bool" where
  "is_section input w so seg = (case so of None \<Rightarrow> segSize seg = 0
     | Some s \<Rightarrow> virtualAddr seg = s_paddr s \<and> segSize seg = s_size s \<and> 0 < sint (s_size s) \<and>
         (\<exists>k. unat (inFileAddr seg) = 52 + k \<and> k + nat (sint (s_size s)) \<le> length w \<and> take (nat (sint (s_size s))) (drop k w) = section_bytes input s))"

lemma is_section_append: "is_section input w so seg \<Longrightarrow> is_section input (w @ b) so seg"
  by (auto simp: is_section_def split: option.splits)

definition coff_inv :: "u8 list \<Rightarrow> scnhdr list \<Rightarrow> coff_state \<Rightarrow> bool" where
  "coff_inv input done st \<longleftrightarrow> inNoffFile st = of_nat (52 + length (written st)) \<and> noffMagic (noffH st) = NOFFMAGIC \<and>
     is_section input (written st) (last_section ''.text'' done) (code (noffH st)) \<and>
     is_section input (written st) (last_section ''.data'' done) (initData (noffH st)) \<and>
     is_section input (written st) (last_section ''.rdata'' done) (readonlyData (noffH st))"

lemma names_differ:
  "is_name ''.text'' s \<Longrightarrow> \<not> is_name ''.data'' s" "is_name ''.text'' s \<Longrightarrow> \<not> is_name ''.rdata'' s"
  "is_name ''.data'' s \<Longrightarrow> \<not> is_name ''.rdata'' s" "is_name ''.bss'' s \<Longrightarrow> \<not> is_name ''.text'' s"
  "is_name ''.bss'' s \<Longrightarrow> \<not> is_name ''.data'' s" "is_name ''.bss'' s \<Longrightarrow> \<not> is_name ''.rdata'' s"
  by (auto simp: is_name_def)

lemma copy_section_spec:
  assumes "copy_section input s st = Inr st'" and "0 \<le> sint (s_scnptr s)" and "s_size s \<noteq> 0"
  shows "0 < sint (s_size s)" "written st' = written st @ section_bytes input s" "length (section_bytes input s) = nat (sint (s_size s))"
    "noffH st' = noffH st" "inNoffFile st' = inNoffFile st + s_size s"
proof -
  have z: "sint (s_size s) \<noteq> 0" using assms(3) by (simp add: signed_eq_0_iff)
  show "0 < sint (s_size s)" "written st' = written st @ section_bytes input s" "length (section_bytes input s) = nat (sint (s_size s))"
    "noffH st' = noffH st" "inNoffFile st' = inNoffFile st + s_size s"
    using assms z by (auto simp: copy_section_def coff_Read_def section_bytes_def Let_def split: if_splits)
qed

text \<open>A section that becomes a segment of its own: the new segment is that section, the other segments stay.\<close>

lemma new_segment_ok:
  assumes inv: "inNoffFile st = of_nat (52 + length (written st))" and c: "copy_section input s st1 = Inr st'" "written st1 = written st" "inNoffFile st1 = inNoffFile st"
    and s: "0 \<le> sint (s_scnptr s)" "s_size s \<noteq> 0" and small: "52 + length (written st') < 2 ^ 31"
  shows "is_section input (written st') (Some s) (new_segment s st)" "inNoffFile st' = of_nat (52 + length (written st'))"
    "\<And>so seg. is_section input (written st) so seg \<Longrightarrow> is_section input (written st') so seg"
proof -
  note k = copy_section_spec [OF c(1) s]
  have w: "written st' = written st @ section_bytes input s" using k(2) c(2) by simp
  have l: "52 + length (written st) < 2 ^ 32" using small w by simp
  then have a: "unat (inNoffFile st) = 52 + length (written st)" unfolding inv by (simp add: unat_of_nat del: of_nat_add)
  show "is_section input (written st') (Some s) (new_segment s st)"
    using k(1,3) w a by (simp add: is_section_def new_segment_def)
  have "s_size s = of_nat (nat (sint (s_size s)))" using k(1) by (simp add: of_nat_nat)
  then show "inNoffFile st' = of_nat (52 + length (written st'))"
    using k(3,5) c(3) w inv by simp
  show "is_section input (written st') so seg" if "is_section input (written st) so seg" for so seg
    unfolding w by (rule is_section_append [OF that])
qed

lemma convert_section_inv:
  assumes inv: "coff_inv input done st" and c: "convert_section input s st = Inr st'" and s: "0 \<le> sint (s_scnptr s)" and small: "52 + length (written st') < 2 ^ 31"
  shows "coff_inv input (done @ [s]) st'"
proof -
  have I: "inNoffFile st = of_nat (52 + length (written st))" using inv by (simp add: coff_inv_def)
  consider (skip) "s_size s = 0" | (code_section) "s_size s \<noteq> 0" "is_name ''.text'' s" | (data) "s_size s \<noteq> 0" "is_name ''.data'' s"
    | (rdata) "s_size s \<noteq> 0" "is_name ''.rdata'' s" | (bss) "s_size s \<noteq> 0" "is_name ''.bss'' s"
    using c by (auto simp: convert_section_def split: if_splits)
  then show ?thesis
  proof cases
    case skip
    then show ?thesis using inv c by (simp add: convert_section_def coff_inv_def)
  next
    case code_section
    let ?st = "st\<lparr>noffH := (noffH st)\<lparr>code := new_segment s st\<rparr>\<rparr>"
    have r: "copy_section input s ?st = Inr st'" using c code_section by (simp add: convert_section_def)
    note k = new_segment_ok [OF I r _ _ s code_section(1) small, simplified]
    show ?thesis using inv k copy_section_spec(4) [OF r s code_section(1)] code_section names_differ by (simp add: coff_inv_def)
  next
    case data
    let ?st = "st\<lparr>noffH := (noffH st)\<lparr>initData := new_segment s st\<rparr>\<rparr>"
    have n: "\<not> is_name ''.text'' s" "\<not> is_name ''.rdata'' s" using data names_differ by blast+
    then have r: "copy_section input s ?st = Inr st'" using c data by (simp add: convert_section_def)
    note k = new_segment_ok [OF I r _ _ s data(1) small, simplified]
    show ?thesis using inv k copy_section_spec(4) [OF r s data(1)] data n by (simp add: coff_inv_def)
  next
    case rdata
    let ?st = "st\<lparr>noffH := (noffH st)\<lparr>readonlyData := new_segment s st\<rparr>\<rparr>"
    have n: "\<not> is_name ''.text'' s" "\<not> is_name ''.data'' s" using rdata names_differ by blast+
    then have r: "copy_section input s ?st = Inr st'" using c rdata by (simp add: convert_section_def)
    note k = new_segment_ok [OF I r _ _ s rdata(1) small, simplified]
    show ?thesis using inv k copy_section_spec(4) [OF r s rdata(1)] rdata n by (simp add: coff_inv_def)
  next
    case bss
    then show ?thesis using inv c names_differ by (auto simp: convert_section_def coff_inv_def Let_def split: if_splits)
  qed
qed

lemma convert_section_grows: "convert_section input s st = Inr st' \<Longrightarrow> length (written st) \<le> length (written st')"
  by (auto simp: convert_section_def copy_section_def coff_Read_def Let_def split: if_splits)

lemma convert_sections_grows: "convert_sections input ss st = Inr st' \<Longrightarrow> length (written st) \<le> length (written st')"
proof (induction ss arbitrary: st)
  case (Cons s ss)
  then obtain st1 where "convert_section input s st = Inr st1" "convert_sections input ss st1 = Inr st'"
    by (cases "convert_section input s st") simp_all
  then show ?case using Cons.IH convert_section_grows by (meson le_trans)
qed simp

lemma convert_sections_inv:
  assumes "coff_inv input done st" and "convert_sections input ss st = Inr st'" and "\<forall>s \<in> set ss. 0 \<le> sint (s_scnptr s)" and "52 + length (written st') < 2 ^ 31"
  shows "coff_inv input (done @ ss) st'"
  using assms
proof (induction ss arbitrary: st "done")
  case (Cons s ss)
  then obtain st1 where st1: "convert_section input s st = Inr st1" "convert_sections input ss st1 = Inr st'"
    by (cases "convert_section input s st") simp_all
  have "52 + length (written st1) < 2 ^ 31" using convert_sections_grows [OF st1(2)] Cons.prems(4) by simp
  then have "coff_inv input (done @ [s]) st1" using convert_section_inv [OF Cons.prems(1) st1(1)] Cons.prems(3) by simp
  then show ?case using Cons.IH [OF _ st1(2), of "done @ [s]"] Cons.prems(3,4) by simp
qed simp

text \<open>Memory after loading the sections of a COFF file.\<close>

definition put_section :: "u8 list \<Rightarrow> scnhdr option \<Rightarrow> u8 list \<Rightarrow> u8 list" where
  "put_section input so mem = (case so of None \<Rightarrow> mem | Some s \<Rightarrow> overwrite mem (nat (sint (s_paddr s))) (section_bytes input s))"

definition coff_image :: "u8 list \<Rightarrow> scnhdr list \<Rightarrow> u8 list" where
  "coff_image input ss = put_section input (last_section ''.rdata'' ss) (put_section input (last_section ''.data'' ss)
     (put_section input (last_section ''.text'' ss) (replicate MemorySize 0)))"

lemma segment_is_section:
  assumes "is_section input (drop 52 out) so seg" and "length out < 2 ^ 31"
  shows "put_segment out seg mem = put_section input so mem" "seg_in_file seg"
proof -
  have "put_segment out seg mem = put_section input so mem \<and> seg_in_file seg"
  proof (cases so)
    case None
    then have "segSize seg = 0" using assms(1) by (simp add: is_section_def)
    then show ?thesis using None by (simp add: put_section_def put_segment_def seg_bytes_def overwrite_def seg_in_file_def)
  next
    case (Some s)
    then obtain k where k: "virtualAddr seg = s_paddr s" "segSize seg = s_size s" "0 < sint (s_size s)" "unat (inFileAddr seg) = 52 + k"
       "k + nat (sint (s_size s)) \<le> length (drop 52 out)" "take (nat (sint (s_size s))) (drop k (drop 52 out)) = section_bytes input s"
      using assms(1) by (auto simp: is_section_def)
    have "52 + k < 2 ^ 31" using k(3,5) assms(2) by (simp add: nat_less_iff split: nat_diff_split_asm)
    then have "int_fits (int (unat (inFileAddr seg)))" using k(4) by (simp add: int_fits_def)
    from sint_of_int_fits [OF this] have "sint (inFileAddr seg) = int (unat (inFileAddr seg))" by simp
    then have "sint (inFileAddr seg) = 52 + int k" using k(4) by simp
    then have a: "nat (sint (inFileAddr seg)) = 52 + k" "0 \<le> sint (inFileAddr seg)" by simp_all
    then have "seg_bytes out seg = section_bytes input s" using k(2,3,6) by (simp add: seg_bytes_def add.commute)
    then show ?thesis using Some k(1) a(2) by (simp add: put_section_def put_segment_def seg_in_file_def)
  qed
  then show "put_segment out seg mem = put_section input so mem" "seg_in_file seg" by simp_all
qed

section \<open>Properties\<close>

text \<open>A small COFF file: the two headers, headers of a code and of a data section, and their bytes.\<close>

definition demo_scn :: "string \<Rightarrow> u32 \<Rightarrow> u32 \<Rightarrow> u32 \<Rightarrow> u8 list" where
  "demo_scn nm paddr sz ptr = take 8 (map of_char nm @ replicate 8 0) @ int_bytes paddr @ int_bytes 0 @ int_bytes sz @ int_bytes ptr @ replicate 16 0"

definition demo_coff :: "u8 list" where
  "demo_coff = [0x62, 1, 2, 0] @ replicate 16 0 @ [7, 1] @ replicate 54 0 @ demo_scn ''.text'' 0 4 156 @ demo_scn ''.data'' 128 2 160 @ [1, 2, 3, 4] @ [5, 6]"

definition demo_noffH :: NoffHeader where
  "demo_noffH = \<lparr>noffMagic = 9, code = \<lparr>virtualAddr = 9, inFileAddr = 9, segSize = 9\<rparr>, initData = \<lparr>virtualAddr = 9, inFileAddr = 9, segSize = 9\<rparr>,
     readonlyData = \<lparr>virtualAddr = 9, inFileAddr = 9, segSize = 9\<rparr>, uninitData = \<lparr>virtualAddr = 9, inFileAddr = 9, segSize = 9\<rparr>\<rparr>"


lemma demo_coff_sections:
  "read_sections False demo_coff = Inr ([\<lparr>s_name = [46, 116, 101, 120, 116, 0, 0, 0], s_paddr = 0, s_size = 4, s_scnptr = 156\<rparr>,
     \<lparr>s_name = [46, 100, 97, 116, 97, 0, 0, 0], s_paddr = 128, s_size = 2, s_scnptr = 160\<rparr>], 156)"
  by code_simp

lemma demo_coff_run: "\<exists>out. coff2noff True demo_noffH (Some demo_coff) = Inr out \<and> length out = 58"
proof -
  have "(case coff2noff True demo_noffH (Some demo_coff) of Inl _ \<Rightarrow> False | Inr out \<Rightarrow> length out = 58)" by code_simp
  then show ?thesis by (auto split: sum.splits)
qed


text \<open>
  A second section \<^verbatim>\<open>.bss\<close>. The program means to accept it when it is contiguous; it does the opposite: a
  section that starts where the first one ends is refused, and one that does not is added to the size as if it
  did, so that the range of uninitialised data in the header is not the one of the sections.
\<close>

lemma bss_check_inverted:
  assumes "s_size s1 \<noteq> 0" and "is_name ''.bss'' s1" and "s_size s2 \<noteq> 0" and "is_name ''.bss'' s2" and "segSize (uninitData (noffH st)) = 0"
  shows "convert_sections input [s1, s2] st =
    (if s_paddr s2 = s_paddr s1 + s_size s1 then Inl BothBss
     else Inr (st\<lparr>noffH := (noffH st)\<lparr>uninitData := (uninitData (noffH st))\<lparr>virtualAddr := s_paddr s1, segSize := s_size s1 + s_size s2\<rparr>\<rparr>\<rparr>))"
  using assms names_differ(4-6) [OF assms(2)] names_differ(4-6) [OF assms(4)] by (simp add: convert_section_def Let_def)

end
