(* ===== verification/Synch_Disk.thy ===== *)
theory Synch_Disk
  imports File_Header Synch_Devices
begin

text \<open>
  The synchronous disk of \<^verbatim>\<open>code/filesys/synchdisk.cc\<close> used by many threads at once: a lock around the device, and a
  semaphore that the disk interrupt signals. A call of \<^verbatim>\<open>ReadSector\<close> or \<^verbatim>\<open>WriteSector\<close> is at one of the four lines of
  its body; a run interleaves the lines of all threads with the disk interrupt in any way. \<open>File_Header\<close>
  treats the two methods as functions on the sectors; the property shows that every run is a sequential execution of those functions.
\<close>

section \<open>The object\<close>

text \<open>A request is a sector to read (\<open>Inl\<close>) or a sector and the bytes to write (\<open>Inr\<close>).\<close>

type_synonym sector_request = "int + int \<times> u8 list"

text \<open>The lines of the two methods, with the contents of the caller's buffer once the request has been issued.\<close>

datatype sector_pc = AtAcquire | AtRequest | AtP "u8 list" | AtRelease "u8 list"

record synch_disk =
  raw_disk :: disk
  diskSem :: int
  diskLock :: "nat option"
  diskCalls :: "nat \<Rightarrow> (sector_request \<times> sector_pc) option"

definition SynchDisk_new :: "u8 list option \<Rightarrow> disk \<Rightarrow> synch_disk outcome" where
  "SynchDisk_new existing d =
     bindR (Disk_new existing d) (\<lambda>d. Inr \<lparr>raw_disk = d, diskSem = 0, diskLock = None, diskCalls = (\<lambda>_. None)\<rparr>)"

text \<open>
  One line of thread \<open>t\<close>'s call: \<open>None\<close> when the thread has to wait there, otherwise the new state and the next line
  (\<open>None\<close> after the return). Releasing a lock asserts that the caller holds it.
\<close>

definition sector_line :: "(disk \<Rightarrow> (disk \<times> u8 list) outcome) \<Rightarrow> nat \<Rightarrow> sector_pc \<Rightarrow> synch_disk \<Rightarrow> (synch_disk \<times> sector_pc option) option outcome" where
  "sector_line issue t pc s = (case pc of
     AtAcquire \<Rightarrow> Inr (if diskLock s = None then Some (s\<lparr>diskLock := Some t\<rparr>, Some AtRequest) else None)
   | AtRequest \<Rightarrow> bindR (issue (raw_disk s)) (\<lambda>(d, buf). Inr (Some (s\<lparr>raw_disk := d\<rparr>, Some (AtP buf))))
   | AtP buf \<Rightarrow> Inr (if 0 < diskSem s then Some (s\<lparr>diskSem := diskSem s - 1\<rparr>, Some (AtRelease buf)) else None)
   | AtRelease buf \<Rightarrow> bindR (ASSERT (diskLock s = Some t)) (\<lambda>_. Inr (Some (s\<lparr>diskLock := None\<rparr>, None))))"

definition SynchDisk_ReadSector :: "int \<Rightarrow> nat \<Rightarrow> sector_pc \<Rightarrow> synch_disk \<Rightarrow> (synch_disk \<times> sector_pc option) option outcome" where
  "SynchDisk_ReadSector n = sector_line (ReadRequest n)"

definition SynchDisk_WriteSector :: "int \<Rightarrow> u8 list \<Rightarrow> nat \<Rightarrow> sector_pc \<Rightarrow> synch_disk \<Rightarrow> (synch_disk \<times> sector_pc option) option outcome" where
  "SynchDisk_WriteSector n data = sector_line (\<lambda>d. bindR (WriteRequest n data d) (\<lambda>d. Inr (d, data)))"

definition SynchDisk_CallBack :: "synch_disk \<Rightarrow> synch_disk" where
  "SynchDisk_CallBack s = s\<lparr>diskSem := diskSem s + 1\<rparr>"

text \<open>The disk interrupt: the device is idle again, and calls back.\<close>

definition disk_interrupt :: "synch_disk \<Rightarrow> synch_disk outcome" where
  "disk_interrupt s = bindR (disk_finish (raw_disk s)) (\<lambda>d. Inr (SynchDisk_CallBack (s\<lparr>raw_disk := d\<rparr>)))"

section \<open>Runs\<close>

definition resume :: "nat \<Rightarrow> synch_disk \<Rightarrow> synch_disk option outcome" where
  "resume t s = (case diskCalls s t of
     None \<Rightarrow> Inr None
   | Some (r, pc) \<Rightarrow>
       bindR (case r of Inl n \<Rightarrow> SynchDisk_ReadSector n t pc s | Inr (n, data) \<Rightarrow> SynchDisk_WriteSector n data t pc s)
         (\<lambda>next. Inr (map_option (\<lambda>(s', pc'). s'\<lparr>diskCalls := (diskCalls s')(t := map_option (Pair r) pc')\<rparr>) next)))"

text \<open>The request that a step issues, with the buffer after it.\<close>

definition issued :: "nat \<Rightarrow> synch_disk \<Rightarrow> synch_disk \<Rightarrow> (sector_request \<times> u8 list) list" where
  "issued t s s' = (case (diskCalls s t, diskCalls s' t) of
     (Some (r, AtRequest), Some (_, AtP buf)) \<Rightarrow> [(r, buf)] | _ \<Rightarrow> [])"

text \<open>What the rest of the system does leaves the disk and its interrupts alone.\<close>

definition disk_untouched :: "disk \<Rightarrow> disk \<Rightarrow> bool" where
  "disk_untouched d d' \<longleftrightarrow> (disk_ok d \<longrightarrow> disk_ok d') \<and> active d' = active d \<and> diskFile d' = diskFile d \<and>
     posted DiskCall d' = posted DiskCall d"

inductive sd_run :: "disk \<Rightarrow> synch_disk \<Rightarrow> (sector_request \<times> u8 list) list \<Rightarrow> bool" for d0 where
  start: "sd_run d0 \<lparr>raw_disk = d0, diskSem = 0, diskLock = None, diskCalls = (\<lambda>_. None)\<rparr> []"
| call: "sd_run d0 s log \<Longrightarrow> diskCalls s t = None \<Longrightarrow> disk_legal r \<Longrightarrow>
    sd_run d0 (s\<lparr>diskCalls := (diskCalls s)(t \<mapsto> (r, AtAcquire))\<rparr>) log"
| line: "sd_run d0 s log \<Longrightarrow> resume t s = Inr (Some s') \<Longrightarrow> sd_run d0 s' (log @ issued t s s')"
| interrupt: "sd_run d0 s log \<Longrightarrow> 0 < posted DiskCall (raw_disk s) \<Longrightarrow> disk_interrupt s = Inr s' \<Longrightarrow> sd_run d0 s' log"
| other: "sd_run d0 s log \<Longrightarrow> disk_untouched (raw_disk s) d \<Longrightarrow> sd_run d0 (s\<lparr>raw_disk := d\<rparr>) log"

text \<open>The sequential execution of a list of requests on the sectors, with the bytes each read returns.\<close>

fun sequential :: "sectors \<Rightarrow> (sector_request \<times> u8 list) list \<Rightarrow> sectors \<Rightarrow> bool" where
  "sequential d [] d' \<longleftrightarrow> d' = d"
| "sequential d ((Inl n, buf) # l) d' \<longleftrightarrow> ReadSector n d = Inr buf \<and> sequential d l d'"
| "sequential d ((Inr (n, data), buf) # l) d' \<longleftrightarrow> (case WriteSector n data d of Inl _ \<Rightarrow> False | Inr d1 \<Rightarrow> buf = data \<and> sequential d1 l d')"

lemma sequential_append:
  "sequential d xs d1 \<Longrightarrow> sequential d1 ys d2 \<Longrightarrow> sequential d (xs @ ys) d2"
  by (induction d xs d1 rule: sequential.induct) (auto split: sum.splits)

section \<open>Invariant\<close>

text \<open>What holds of the device and the semaphore while the holder of the lock is at a line, and the last request it made.\<close>

definition holder_ok :: "disk \<Rightarrow> int \<Rightarrow> (sector_request \<times> u8 list) list \<Rightarrow> sector_request \<times> sector_pc \<Rightarrow> bool" where
  "holder_ok d n log c \<longleftrightarrow> (case c of
     (r, AtAcquire) \<Rightarrow> False
   | (r, AtRequest) \<Rightarrow> disk_idle d \<and> n = 0
   | (r, AtP buf) \<Rightarrow> (disk_waiting d \<and> n = 0 \<or> disk_idle d \<and> n = 1) \<and> log \<noteq> [] \<and> last log = (r, buf)
   | (r, AtRelease buf) \<Rightarrow> disk_idle d \<and> n = 0 \<and> log \<noteq> [] \<and> last log = (r, buf))"

definition sd_inv :: "synch_disk \<Rightarrow> (sector_request \<times> u8 list) list \<Rightarrow> bool" where
  "sd_inv s log \<longleftrightarrow>
     (\<forall>t r pc. diskCalls s t = Some (r, pc) \<longrightarrow> disk_legal r \<and> (pc \<noteq> AtAcquire \<longrightarrow> diskLock s = Some t)) \<and>
     (case diskLock s of None \<Rightarrow> disk_idle (raw_disk s) \<and> diskSem s = 0
      | Some t \<Rightarrow> (\<exists>c. diskCalls s t = Some c \<and> holder_ok (raw_disk s) (diskSem s) log c))"

definition issue :: "sector_request \<Rightarrow> disk \<Rightarrow> (disk \<times> u8 list) outcome" where
  "issue r = (case r of Inl n \<Rightarrow> ReadRequest n | Inr (n, data) \<Rightarrow> (\<lambda>d. bindR (WriteRequest n data d) (\<lambda>d. Inr (d, data))))"

lemma resume_eq:
  "resume t s = (case diskCalls s t of None \<Rightarrow> Inr None
   | Some (r, pc) \<Rightarrow> bindR (sector_line (issue r) t pc s)
       (\<lambda>next. Inr (map_option (\<lambda>(s', pc'). s'\<lparr>diskCalls := (diskCalls s')(t := map_option (Pair r) pc')\<rparr>) next)))"
  by (auto simp: resume_def SynchDisk_ReadSector_def SynchDisk_WriteSector_def issue_def split: option.splits sum.splits)

lemma issue_ok:
  assumes i: "disk_idle d" and l: "disk_legal r"
  obtains d' buf where "issue r d = Inr (d', buf)" "disk_waiting d'" "sequential (sectors_of d) [(r, buf)] (sectors_of d')"
proof -
  have w: "returns disk_waiting (disk_request r d)" using disk_request_accepted [OF i l] by (auto simp: returns_iff)
  have d: "disk_ok d" "\<not> active d" using i by (simp_all add: disk_idle_def)
  show ?thesis
  proof (cases r)
    case (Inl n)
    then have n: "0 \<le> n" "n < NumSectors" using l by (simp_all add: disk_legal_def)
    have len: "length (replicate 128 (0::u8)) = nat SectorSize" by simp
    from synch_disk_requests(1) [OF d n len] obtain d' where "ReadRequest n d = Inr (d', sector_data d n)"
      "ReadSector n (sectors_of d) = Inr (sector_data d n)" "sectors_of d' = sectors_of d" by blast
    then show ?thesis using that [of d' "sector_data d n"] w Inl by (simp add: issue_def disk_request_def)
  next
    case (Inr x)
    obtain n data where x: "x = (n, data)" by (cases x)
    then have n: "0 \<le> n" "n < NumSectors" "length data = nat SectorSize" using l Inr by (simp_all add: disk_legal_def)
    from synch_disk_requests(2) [OF d n] obtain d' where "WriteRequest n data d = Inr d'"
      "WriteSector n data (sectors_of d) = Inr (sectors_of d')" by blast
    then show ?thesis using that [of d' data] w Inr x by (simp add: issue_def disk_request_def)
  qed
qed

text \<open>Where a thread waits: it is in no call, another thread has the lock, or the disk has not finished.\<close>

definition waits :: "nat \<Rightarrow> synch_disk \<Rightarrow> bool" where
  "waits t s \<longleftrightarrow> (case diskCalls s t of None \<Rightarrow> True | Some (r, pc) \<Rightarrow>
     (case pc of AtAcquire \<Rightarrow> diskLock s \<noteq> None | AtP _ \<Rightarrow> disk_waiting (raw_disk s) | _ \<Rightarrow> False))"

lemma sd_inv_call: "sd_inv s log \<Longrightarrow> diskCalls s t = Some (r, pc) \<Longrightarrow> disk_legal r \<and> (pc \<noteq> AtAcquire \<longrightarrow> diskLock s = Some t)"
  by (simp add: sd_inv_def)

lemma sd_inv_holder: "sd_inv s log \<Longrightarrow> diskCalls s t = Some (r, pc) \<Longrightarrow> pc \<noteq> AtAcquire \<Longrightarrow> holder_ok (raw_disk s) (diskSem s) log (r, pc)"
  by (fastforce simp: sd_inv_def)

text \<open>The holder of the lock moves to another line, or leaves.\<close>

lemma sd_inv_move:
  assumes s: "sd_inv s log" and t: "diskCalls s t = Some (r, pc)"
    and l: "diskLock s = Some t \<or> diskLock s = None"
    and h: "case pc' of None \<Rightarrow> disk_idle d \<and> n = 0 | Some p \<Rightarrow> holder_ok d n log' (r, p)"
  shows "sd_inv (s\<lparr>raw_disk := d, diskSem := n, diskLock := map_option (\<lambda>_. t) pc', diskCalls := (diskCalls s)(t := map_option (Pair r) pc')\<rparr>) log'"
proof -
  have "disk_legal r" using sd_inv_call [OF s t] by simp
  moreover have "disk_legal r' \<and> p = AtAcquire" if "u \<noteq> t" "diskCalls s u = Some (r', p)" for u r' p
    using sd_inv_call [OF s that(2)] that(1) l by auto
  ultimately show ?thesis using h by (cases pc') (auto simp: sd_inv_def split: option.splits)
qed

lemma sector_resume_ok:
  assumes s: "sd_inv s log"
  shows "\<exists>x. resume t s = Inr x \<and> (case x of None \<Rightarrow> waits t s
    | Some s' \<Rightarrow> \<not> waits t s \<and> sd_inv s' (log @ issued t s s') \<and> sequential (sectors_of (raw_disk s)) (issued t s s') (sectors_of (raw_disk s')))"
proof (cases "diskCalls s t")
  case None
  then show ?thesis by (simp add: resume_def waits_def)
next
  case (Some c)
  obtain r pc where c: "diskCalls s t = Some (r, pc)" using Some by (cases c) simp
  note move = sd_inv_move [OF s c] and hold = sd_inv_holder [OF s c] and legal = sd_inv_call [OF s c]
  show ?thesis
  proof (cases pc)
    case AtAcquire
    show ?thesis
    proof (cases "diskLock s")
      case None
      then have "disk_idle (raw_disk s) \<and> diskSem s = 0" using s by (simp add: sd_inv_def)
      then show ?thesis using c AtAcquire None move [of "raw_disk s" "diskSem s" log "Some AtRequest"]
        by (cases s) (simp add: resume_eq sector_line_def issued_def waits_def holder_ok_def)
    next
      case (Some u)
      then show ?thesis using c AtAcquire by (simp add: resume_eq sector_line_def waits_def)
    qed
  next
    case AtRequest
    then have i: "disk_idle (raw_disk s)" "diskSem s = 0" "diskLock s = Some t" using hold legal by (simp_all add: holder_ok_def)
    obtain d buf where d: "issue r (raw_disk s) = Inr (d, buf)" "disk_waiting d" "sequential (sectors_of (raw_disk s)) [(r, buf)] (sectors_of d)"
      using issue_ok [OF i(1)] legal by blast
    then show ?thesis using c AtRequest i move [of d 0 "log @ [(r, buf)]" "Some (AtP buf)"]
      by (cases s) (simp add: resume_eq sector_line_def issued_def waits_def holder_ok_def del: sequential.simps)
  next
    case (AtP buf)
    then have i: "disk_waiting (raw_disk s) \<and> diskSem s = 0 \<or> disk_idle (raw_disk s) \<and> diskSem s = 1" "log \<noteq> []" "last log = (r, buf)" "diskLock s = Some t"
      using hold legal by (simp_all add: holder_ok_def)
    have n: "\<not> (disk_waiting (raw_disk s) \<and> disk_idle (raw_disk s))" by (simp add: disk_waiting_def disk_idle_def)
    show ?thesis using c AtP i n move [of "raw_disk s" 0 log "Some (AtRelease buf)"]
      by (cases s) (auto simp: resume_eq sector_line_def issued_def waits_def holder_ok_def)
  next
    case (AtRelease buf)
    then have i: "disk_idle (raw_disk s)" "diskSem s = 0" "diskLock s = Some t" using hold legal by (simp_all add: holder_ok_def)
    then show ?thesis using c AtRelease move [of "raw_disk s" 0 log None]
      by (cases s) (simp add: resume_eq sector_line_def issued_def waits_def)
  qed
qed

lemma sectors_finish: "disk_waiting d \<Longrightarrow> \<exists>d'. disk_finish d = Inr d' \<and> disk_idle d' \<and> sectors_of d' = sectors_of d"
  using sdisk.finishes [of d] by (auto simp: returns_iff disk_finish_def Disk_CallBack_def sectors_of_def sector_data_def take_interrupt_def)

lemma disk_interrupt_ok:
  assumes s: "sd_inv s log" and p: "0 < posted DiskCall (raw_disk s)"
  shows "\<exists>s'. disk_interrupt s = Inr s' \<and> sd_inv s' log \<and> sectors_of (raw_disk s') = sectors_of (raw_disk s)"
proof -
  have n: "\<not> disk_idle (raw_disk s)" using p by (simp add: disk_idle_def)
  obtain t c where t: "diskLock s = Some t" "diskCalls s t = Some c" "holder_ok (raw_disk s) (diskSem s) log c"
    using s n by (auto simp: sd_inv_def split: option.splits)
  obtain r buf where c: "c = (r, AtP buf)" "disk_waiting (raw_disk s)" "diskSem s = 0" "log \<noteq> []" "last log = (r, buf)"
    using t(3) n by (cases c) (auto simp: holder_ok_def split: sector_pc.splits)
  obtain d where d: "disk_finish (raw_disk s) = Inr d" "disk_idle d" "sectors_of d = sectors_of (raw_disk s)" using sectors_finish [OF c(2)] by blast
  have "(diskCalls s)(t \<mapsto> (r, AtP buf)) = diskCalls s" using t(2) c(1) by (simp add: fun_upd_idem)
  then show ?thesis using sd_inv_move [OF s t(2) [unfolded c(1)], of d 1 log "Some (AtP buf)"] t(1) c d
    by (cases s) (simp add: disk_interrupt_def SynchDisk_CallBack_def holder_ok_def)
qed

lemma sd_inv_other:
  assumes "sd_inv s log" and "disk_untouched (raw_disk s) d"
  shows "sd_inv (s\<lparr>raw_disk := d\<rparr>) log"
proof -
  have "disk_idle (raw_disk s) \<Longrightarrow> disk_idle d" "disk_waiting (raw_disk s) \<Longrightarrow> disk_waiting d"
    using assms(2) by (auto simp: disk_untouched_def disk_idle_def disk_waiting_def)
  then have "holder_ok (raw_disk s) n log c \<Longrightarrow> holder_ok d n log c" for n c
    by (cases c) (auto simp: holder_ok_def split: sector_pc.splits)
  then show ?thesis using assms(1) \<open>disk_idle (raw_disk s) \<Longrightarrow> disk_idle d\<close> by (auto simp: sd_inv_def split: option.splits)
qed

lemma sd_run_inv: "sd_run d0 s log \<Longrightarrow> disk_idle d0 \<Longrightarrow> sd_inv s log \<and> sequential (sectors_of d0) log (sectors_of (raw_disk s))"
proof (induction rule: sd_run.induct)
  case start
  then show ?case by (simp add: sd_inv_def)
next
  case (call s log t r)
  then have "sd_inv s log" by simp
  then show ?case using call by (auto simp: sd_inv_def split: option.splits)
next
  case (line s log t s')
  then show ?case using sector_resume_ok [of s log t] sequential_append by fastforce
next
  case (interrupt s log s')
  then show ?case using disk_interrupt_ok [of s log] by fastforce
next
  case (other s log d)
  moreover have "sectors_of d = sectors_of (raw_disk s)" using other(2) by (simp add: disk_untouched_def sectors_of_def sector_data_def)
  ultimately show ?case using sd_inv_other [of s log d] by simp
qed

section \<open>Properties\<close>

lemma sd_progress:
  assumes s: "sd_inv s log" and t: "diskCalls s t \<noteq> None"
  shows "(\<exists>u. \<not> waits u s) \<or> 0 < posted DiskCall (raw_disk s)"
proof (cases "diskLock s")
  case None
  then have "\<not> waits t s" using s t by (auto simp: sd_inv_def waits_def split: sector_pc.splits)
  then show ?thesis by blast
next
  case (Some u)
  then obtain r pc where "diskCalls s u = Some (r, pc)" "holder_ok (raw_disk s) (diskSem s) log (r, pc)" using s by (auto simp: sd_inv_def)
  then have "waits u s \<longrightarrow> disk_waiting (raw_disk s)" by (auto simp: waits_def holder_ok_def split: sector_pc.splits)
  then show ?thesis by (auto simp: disk_waiting_def)
qed

text \<open>
  C33: Let any number of threads call \<^verbatim>\<open>ReadSector\<close> and \<^verbatim>\<open>WriteSector\<close> on an idle disk, their lines interleaved in any way with the
  disk interrupt. The requests, in the order they reach the disk, are a sequential execution of the functions on sectors that the file system
  is built on, ending with the sectors that are on the disk; a call returns the buffer of its own request. No line
  fails an assertion, the interrupt never does, and unless all threads are outside some thread can go on or the disk interrupt is pending.
\<close>

theorem synch_disk_linearizes:
  assumes "disk_idle d0" and "sd_run d0 s log"
  shows "sequential (sectors_of d0) log (sectors_of (raw_disk s)) \<and>
    (\<forall>t. diskCalls s t = Some (r, AtRelease buf) \<longrightarrow> log \<noteq> [] \<and> last log = (r, buf)) \<and>
    (\<exists>x. resume t s = Inr x \<and> (x = None \<longleftrightarrow> waits t s)) \<and>
    (0 < posted DiskCall (raw_disk s) \<longrightarrow> (\<exists>s'. disk_interrupt s = Inr s')) \<and>
    (diskCalls s t \<noteq> None \<longrightarrow> (\<exists>u. \<not> waits u s) \<or> 0 < posted DiskCall (raw_disk s))"
proof -
  have inv: "sd_inv s log" and seq: "sequential (sectors_of d0) log (sectors_of (raw_disk s))" using sd_run_inv [OF assms(2,1)] by simp_all
  obtain x where x: "resume t s = Inr x" "x = None \<longleftrightarrow> waits t s" using sector_resume_ok [OF inv, of t] by (force split: option.splits)
  have "\<forall>t. diskCalls s t = Some (r, AtRelease buf) \<longrightarrow> log \<noteq> [] \<and> last log = (r, buf)"
    using sd_inv_holder [OF inv] by (fastforce simp: holder_ok_def)
  then show ?thesis using seq x disk_interrupt_ok [OF inv] sd_progress [OF inv, of t] by blast
qed

text \<open>A thread calls \<^verbatim>\<open>WriteSector\<close> and has issued its request; another calls \<^verbatim>\<open>ReadSector\<close> and waits for the lock.\<close>

definition demo_calls :: "nat \<Rightarrow> (sector_request \<times> sector_pc) option" where
  "demo_calls = [0 \<mapsto> (Inr (7, replicate 128 1), AtAcquire), 1 \<mapsto> (Inl 7, AtAcquire)]"

lemma demo_disk_idle: "disk_idle demo_disk"
  using demo_disk_ok by (simp add: disk_idle_def) (simp add: demo_disk_def posted_def)

lemma synch_disk_example:
  "\<exists>s. sd_run demo_disk s [(Inr (7, replicate 128 1), replicate 128 1)] \<and> waits 1 s \<and> diskCalls s 1 = Some (Inl 7, AtAcquire)"
proof -
  let ?r = "Inr (7, replicate 128 1) :: sector_request"
  define s1 where "s1 = \<lparr>raw_disk = demo_disk, diskSem = 0, diskLock = None, diskCalls = demo_calls\<rparr>"
  define s2 where "s2 = s1\<lparr>diskLock := Some 0, diskCalls := demo_calls(0 \<mapsto> (?r, AtRequest))\<rparr>"
  have l: "disk_legal ?r" "disk_legal (Inl 7)" by (simp_all add: disk_legal_def)
  have "sd_run demo_disk s1 []"
    using sd_run.call [OF sd_run.call [OF sd_run.start _ l(1), of demo_disk 0] _ l(2), of 1] by (simp add: s1_def demo_calls_def)
  moreover have "resume 0 s1 = Inr (Some s2)" by (simp add: resume_eq sector_line_def s1_def s2_def demo_calls_def)
  ultimately have "sd_run demo_disk s2 ([] @ issued 0 s1 s2)" by (rule sd_run.line)
  then have 2: "sd_run demo_disk s2 []" by (simp add: issued_def s1_def demo_calls_def)
  obtain d' buf where "issue ?r demo_disk = Inr (d', buf)" using issue_ok [OF demo_disk_idle l(1)] by blast
  then have d: "issue ?r demo_disk = Inr (d', replicate 128 1)" by (auto simp: issue_def bindR_def split: sum.splits)
  define s3 where "s3 = s2\<lparr>raw_disk := d', diskCalls := demo_calls(0 \<mapsto> (?r, AtP (replicate 128 1)))\<rparr>"
  have "resume 0 s2 = Inr (Some s3)" using d by (simp add: resume_eq sector_line_def s1_def s2_def s3_def demo_calls_def)
  with 2 have "sd_run demo_disk s3 ([] @ issued 0 s2 s3)" by (rule sd_run.line)
  then show ?thesis by (intro exI [of _ s3]) (simp add: issued_def s1_def s2_def s3_def waits_def demo_calls_def)
qed

theorem synch_disk_linearizes_witness:
  "\<exists>s. sd_run demo_disk s [(Inr (7, replicate 128 1), replicate 128 1)] \<and> resume 1 s = Inr None \<and>
     sequential (sectors_of demo_disk) [(Inr (7, replicate 128 1), replicate 128 1)] (sectors_of (raw_disk s))"
proof -
  obtain s where s: "sd_run demo_disk s [(Inr (7, replicate 128 1), replicate 128 1)]" "waits 1 s" using synch_disk_example by blast
  show ?thesis using synch_disk_linearizes [OF demo_disk_idle s(1), of _ _ 1] s by (intro exI [of _ s]) blast
qed

end
