(* ===== verification/Context_Switch.thy ===== *)
theory Context_Switch
  imports Threads
begin

text \<open>
  The context switch on the x86: the stack that \<^verbatim>\<open>Thread::StackAllocate\<close> prepares (\<^verbatim>\<open>code/threads/thread.cc\<close>), the offsets of
  \<^verbatim>\<open>switch.h\<close> and the routines \<^verbatim>\<open>SWITCH\<close> and \<^verbatim>\<open>ThreadRoot\<close> of \<^verbatim>\<open>switch.S\<close>, instruction by instruction. Memory is a map from the addresses
  of 32-bit words, all of them multiples of four; a thread object has \<^verbatim>\<open>stackTop\<close> at offset 0 and \<^verbatim>\<open>machineState\<close> from offset 4.
  The model \<open>Threads\<close> treats a switch as leaving one list of frames for another; the properties here show that the machine code does that.
\<close>

section \<open>The processor\<close>

datatype xreg = EAX | EBX | ECX | EDX | ESI | EDI | EBP | ESP

record x86 =
  xregs :: "xreg \<Rightarrow> u32"
  xmem :: "u32 \<Rightarrow> u32"
  eax_save :: u32
  eip :: u32
  called :: "(u32 \<times> u32) list"

text \<open>\<open>called\<close> is the history of calls: the function and the first word of its arguments.\<close>

datatype xinstr =
    SaveEax xreg              \<comment> \<open>\<^verbatim>\<open>movl %r,_eax_save\<close>\<close>
  | GetEax xreg               \<comment> \<open>\<^verbatim>\<open>movl _eax_save,%r\<close>\<close>
  | MovLoad u32 xreg xreg     \<comment> \<open>\<^verbatim>\<open>movl d(%b),%r\<close>\<close>
  | MovStore xreg u32 xreg    \<comment> \<open>\<^verbatim>\<open>movl %r,d(%b)\<close>\<close>
  | MovReg xreg xreg          \<comment> \<open>\<^verbatim>\<open>movl %a,%b\<close>\<close>
  | Pushl xreg
  | CallReg xreg              \<comment> \<open>\<^verbatim>\<open>call *%r\<close>\<close>
  | Ret

definition set_xreg :: "xreg \<Rightarrow> u32 \<Rightarrow> x86 \<Rightarrow> x86" where
  "set_xreg r v s = s\<lparr>xregs := (xregs s)(r := v)\<rparr>"

definition set_xmem :: "u32 \<Rightarrow> u32 \<Rightarrow> x86 \<Rightarrow> x86" where
  "set_xmem a v s = s\<lparr>xmem := (xmem s)(a := v)\<rparr>"

text \<open>\<open>fn a s\<close> is the state after the function at address \<open>a\<close> was called in state \<open>s\<close> and has returned.\<close>

primrec xstep :: "(u32 \<Rightarrow> x86 \<Rightarrow> x86) \<Rightarrow> xinstr \<Rightarrow> x86 \<Rightarrow> x86" where
  "xstep fn (SaveEax r) s = s\<lparr>eax_save := xregs s r\<rparr>"
| "xstep fn (GetEax r) s = set_xreg r (eax_save s) s"
| "xstep fn (MovLoad d b r) s = set_xreg r (xmem s (xregs s b + d)) s"
| "xstep fn (MovStore r d b) s = set_xmem (xregs s b + d) (xregs s r) s"
| "xstep fn (MovReg a b) s = set_xreg b (xregs s a) s"
| "xstep fn (Pushl r) s = set_xmem (xregs s ESP - 4) (xregs s r) (set_xreg ESP (xregs s ESP - 4) s)"
| "xstep fn (CallReg r) s = fn (xregs s r) (s\<lparr>called := called s @ [(xregs s r, xmem s (xregs s ESP))]\<rparr>)"
| "xstep fn Ret s = (set_xreg ESP (xregs s ESP + 4) s)\<lparr>eip := xmem s (xregs s ESP)\<rparr>"

definition xrun :: "(u32 \<Rightarrow> x86 \<Rightarrow> x86) \<Rightarrow> xinstr list \<Rightarrow> x86 \<Rightarrow> x86" where
  "xrun fn = fold (xstep fn)"

section \<open>Offsets\<close>

definition off_ESP :: u32 where "off_ESP = 0"
definition off_EAX :: u32 where "off_EAX = 4"
definition off_EBX :: u32 where "off_EBX = 8"
definition off_ECX :: u32 where "off_ECX = 12"
definition off_EDX :: u32 where "off_EDX = 16"
definition off_EBP :: u32 where "off_EBP = 20"
definition off_ESI :: u32 where "off_ESI = 24"
definition off_EDI :: u32 where "off_EDI = 28"
definition off_PC :: u32 where "off_PC = 32"

lemmas offs = off_ESP_def off_EAX_def off_EBX_def off_ECX_def off_EDX_def off_EBP_def off_ESI_def off_EDI_def off_PC_def

definition PCState :: u32 where "PCState = off_PC div 4 - 1"
definition InitialPCState :: u32 where "InitialPCState = off_ESI div 4 - 1"
definition InitialArgState :: u32 where "InitialArgState = off_EDX div 4 - 1"
definition WhenDonePCState :: u32 where "WhenDonePCState = off_EDI div 4 - 1"
definition StartupPCState :: u32 where "StartupPCState = off_ECX div 4 - 1"

definition InitialPC :: xreg where "InitialPC = ESI"
definition InitialArg :: xreg where "InitialArg = EDX"
definition WhenDonePC :: xreg where "WhenDonePC = EDI"
definition StartupPC :: xreg where "StartupPC = ECX"

lemmas states = PCState_def InitialPCState_def InitialArgState_def WhenDonePCState_def StartupPCState_def
  InitialPC_def InitialArg_def WhenDonePC_def StartupPC_def

section \<open>The routines\<close>

definition SWITCH_save :: "xinstr list" where
  "SWITCH_save =
     [SaveEax EAX,
      MovLoad 4 ESP EAX,
      MovStore EBX off_EBX EAX,
      MovStore ECX off_ECX EAX,
      MovStore EDX off_EDX EAX,
      MovStore ESI off_ESI EAX,
      MovStore EDI off_EDI EAX,
      MovStore EBP off_EBP EAX,
      MovStore ESP off_ESP EAX,
      GetEax EBX,
      MovStore EBX off_EAX EAX,
      MovLoad 0 ESP EBX,
      MovStore EBX off_PC EAX]"

definition SWITCH_restore :: "xinstr list" where
  "SWITCH_restore =
     [MovLoad 8 ESP EAX,
      MovLoad off_EAX EAX EBX,
      SaveEax EBX,
      MovLoad off_EBX EAX EBX,
      MovLoad off_ECX EAX ECX,
      MovLoad off_EDX EAX EDX,
      MovLoad off_ESI EAX ESI,
      MovLoad off_EDI EAX EDI,
      MovLoad off_EBP EAX EBP,
      MovLoad off_ESP EAX ESP,
      MovLoad off_PC EAX EAX,
      MovStore EAX 4 ESP,
      GetEax EAX,
      Ret]"

definition SWITCH :: "xinstr list" where
  "SWITCH = SWITCH_save @ SWITCH_restore"

definition ThreadRoot_code :: "xinstr list" where
  "ThreadRoot_code =
     [Pushl EBP,
      MovReg ESP EBP,
      Pushl InitialArg,
      CallReg StartupPC,
      CallReg InitialPC,
      CallReg WhenDonePC]"

section \<open>Thread objects and stacks\<close>

definition STACK_FENCEPOST :: u32 where "STACK_FENCEPOST = 0xdedbeef"
definition StackSize :: u32 where "StackSize = 8 * 1024"

text \<open>Addresses of the functions, and the object's fields: \<^verbatim>\<open>machineState[i]\<close> and \<^verbatim>\<open>stackTop\<close>.\<close>

record addresses =
  ThreadRoot :: u32
  ThreadBegin :: u32
  ThreadFinish :: u32

definition set_machineState :: "u32 \<Rightarrow> u32 \<Rightarrow> u32 \<Rightarrow> (u32 \<Rightarrow> u32) \<Rightarrow> u32 \<Rightarrow> u32" where
  "set_machineState t i v m = m(t + 4 + 4 * i := v)"

text \<open>\<open>stack\<close> is what \<^verbatim>\<open>AllocBoundedArray\<close> returns, \<open>t\<close> the address of the thread; words are written through \<^verbatim>\<open>int *\<close>.\<close>

definition StackAllocate :: "addresses \<Rightarrow> u32 \<Rightarrow> u32 \<Rightarrow> u32 \<Rightarrow> u32 \<Rightarrow> (u32 \<Rightarrow> u32) \<Rightarrow> u32 \<Rightarrow> u32" where
  "StackAllocate A stack t func arg m =
     (let stackTop = stack + 4 * (StackSize - 4);
          stackTop = stackTop - 4;
          m = m(stackTop := ThreadRoot A);
          m = m(t := stackTop);
          m = m(stack := STACK_FENCEPOST);
          m = set_machineState t PCState (ThreadRoot A) m;
          m = set_machineState t StartupPCState (ThreadBegin A) m;
          m = set_machineState t InitialPCState func m;
          m = set_machineState t InitialArgState arg m
      in set_machineState t WhenDonePCState (ThreadFinish A) m)"

definition CheckOverflow :: "u32 \<Rightarrow> (u32 \<Rightarrow> u32) \<Rightarrow> unit outcome" where
  "CheckOverflow stack m = (if stack \<noteq> 0 then ASSERT (m stack = STACK_FENCEPOST) else Inr ())"

definition MachineStateSize :: nat where "MachineStateSize = 75"

text \<open>The constructor: \<^verbatim>\<open>stackTop\<close> and every word of \<^verbatim>\<open>machineState\<close> are cleared in memory; the other results are the field \<^verbatim>\<open>stack\<close> and the fields that
  \<open>Threads\<close> knows, of which \<^verbatim>\<open>userRegisters\<close> stays as \<^verbatim>\<open>new\<close> left it. The name is for messages only.\<close>

definition Thread_new :: "u32 list \<Rightarrow> u32 \<Rightarrow> (u32 \<Rightarrow> u32) \<Rightarrow> (u32 \<Rightarrow> u32) \<times> u32 \<times> thread" where
  "Thread_new junk t m =
     (fold (\<lambda>i. set_machineState t (of_nat i) 0) [0..<MachineStateSize] (m(t := 0)), 0, \<lparr>tstatus = JUST_CREATED, space = None, userRegisters = junk\<rparr>)"

text \<open>The destructor, which says whether it gives back the stack.\<close>

definition Thread_delete :: "u32 \<Rightarrow> u32 \<Rightarrow> u32 \<Rightarrow> bool outcome" where
  "Thread_delete t current stack = bindR (ASSERT (t \<noteq> current)) (\<lambda>_. Inr (stack \<noteq> 0))"

section \<open>Saving and restoring\<close>

definition object :: "u32 \<Rightarrow> u32 set" where
  "object t = {t, t + 4, t + 8, t + 12, t + 16, t + 20, t + 24, t + 28, t + 32}"

lemmas xrun_simps = xrun_def set_xreg_def set_xmem_def offs

text \<open>The saved state of a thread: its object has the registers, the word at its stack pointer the return address.\<close>

definition saved_in :: "(u32 \<Rightarrow> u32) \<Rightarrow> u32 \<Rightarrow> (xreg \<Rightarrow> u32) \<Rightarrow> u32 \<Rightarrow> bool" where
  "saved_in m t R pc \<longleftrightarrow> m (t + off_EAX) = R EAX \<and> m (t + off_EBX) = R EBX \<and> m (t + off_ECX) = R ECX \<and> m (t + off_EDX) = R EDX \<and>
     m (t + off_ESI) = R ESI \<and> m (t + off_EDI) = R EDI \<and> m (t + off_EBP) = R EBP \<and> m t = R ESP \<and> m (t + off_PC) = pc \<and> m (R ESP) = pc"

lemma save_correct:
  assumes "xmem s (xregs s ESP + 4) = t1" and "{xregs s ESP, xregs s ESP + 4, xregs s ESP + 8} \<inter> object t1 = {}"
    and "s' = xrun fn SWITCH_save s"
  shows "saved_in (xmem s') t1 (xregs s) (xmem s (xregs s ESP))" and "xregs s' ESP = xregs s ESP"
    and "a \<notin> object t1 \<Longrightarrow> xmem s' a = xmem s a" and "called s' = called s"
  using assms by (auto simp: SWITCH_save_def xrun_simps saved_in_def object_def)

lemma restore_correct:
  assumes "saved_in (xmem s) t2 R pc" and "xmem s (xregs s ESP + 8) = t2" and "s' = xrun fn SWITCH_restore s"
  shows "xregs s' = R(ESP := R ESP + 4)" and "eip s' = pc" and "xmem s' = (xmem s)(R ESP + 4 := pc)" and "called s' = called s"
proof -
  show "xregs s' = R(ESP := R ESP + 4)"
  proof
    fix r show "xregs s' r = (R(ESP := R ESP + 4)) r" using assms by (cases r) (simp_all add: SWITCH_restore_def xrun_simps saved_in_def)
  qed
  show "eip s' = pc" "xmem s' = (xmem s)(R ESP + 4 := pc)" "called s' = called s"
    using assms by (simp_all add: SWITCH_restore_def xrun_simps saved_in_def)
qed

text \<open>
  \<^verbatim>\<open>ret\<close> takes the word at the new stack pointer; the word of \<^verbatim>\<open>machineState[PCState]\<close> is stored one word above it and not used.
\<close>

lemma restore_ignores_PC:
  "xmem s (xregs s ESP + 8) = t2 \<Longrightarrow> esp = xmem s t2 \<Longrightarrow> s' = xrun fn SWITCH_restore s \<Longrightarrow>
     eip s' = xmem s esp \<and> xmem s' = (xmem s)(esp + 4 := xmem s (t2 + off_PC))"
  by (simp add: SWITCH_restore_def xrun_simps)

section \<open>Properties\<close>

text \<open>
  The words that belong to a thread that is not running: its object, and the return address and first argument of its call of \<^verbatim>\<open>SWITCH\<close>.
  \<open>P\<close> maps each of these threads to its registers and return address; \<open>apart\<close> says that their words are apart from each
  other and from those of the running thread.
\<close>

definition footprint :: "u32 \<Rightarrow> u32 \<Rightarrow> u32 set" where
  "footprint t esp = object t \<union> {esp, esp + 4}"

definition all_saved :: "(u32 \<Rightarrow> u32) \<Rightarrow> (u32 \<rightharpoonup> (xreg \<Rightarrow> u32) \<times> u32) \<Rightarrow> bool" where
  "all_saved m P \<longleftrightarrow> (\<forall>t R pc. P t = Some (R, pc) \<longrightarrow> saved_in m t R pc)"

definition apart :: "(u32 \<rightharpoonup> (xreg \<Rightarrow> u32) \<times> u32) \<Rightarrow> u32 set \<Rightarrow> bool" where
  "apart P W \<longleftrightarrow> (\<forall>t R pc. P t = Some (R, pc) \<longrightarrow> footprint t (R ESP) \<inter> W = {}) \<and>
     (\<forall>t R pc t' R' pc'. P t = Some (R, pc) \<longrightarrow> P t' = Some (R', pc') \<longrightarrow> t \<noteq> t' \<longrightarrow> footprint t (R ESP) \<inter> footprint t' (R' ESP) = {})"

lemma saved_frame: "saved_in m t R pc \<Longrightarrow> (\<And>a. a \<in> insert (R ESP) (object t) \<Longrightarrow> m' a = m a) \<Longrightarrow> saved_in m' t R pc"
  unfolding saved_in_def object_def offs by simp

lemma xrun_append: "xrun fn (xs @ ys) s = xrun fn ys (xrun fn xs s)"
  by (simp add: xrun_def)

lemma SWITCH_steps:
  assumes a: "xmem s (xregs s ESP + 4) = t1" "xmem s (xregs s ESP + 8) = t2"
    and own: "{xregs s ESP, xregs s ESP + 4, xregs s ESP + 8} \<inter> object t1 = {}"
    and t2: "saved_in (xmem s) t2 R pc" "insert (R ESP) (object t2) \<inter> object t1 = {}"
    and s': "s' = xrun fn SWITCH s"
  shows "xregs s' = R(ESP := R ESP + 4)" and "eip s' = pc" and "called s' = called s"
    and "R ESP + 4 \<notin> insert (xregs s ESP) (object t1) \<Longrightarrow> saved_in (xmem s') t1 (xregs s) (xmem s (xregs s ESP))"
    and "w \<notin> object t1 \<Longrightarrow> xmem s' w = (if w = R ESP + 4 then pc else xmem s w)"
proof -
  define s1 where "s1 = xrun fn SWITCH_save s"
  note save = save_correct [OF a(1) own s1_def]
  have 2: "saved_in (xmem s1) t2 R pc" by (rule saved_frame [OF t2(1)]) (use t2(2) save(3) in blast)
  have 8: "xmem s1 (xregs s1 ESP + 8) = t2" using own save(2,3) a(2) by simp
  have "s' = xrun fn SWITCH_restore s1" using s' by (simp add: SWITCH_def xrun_append s1_def)
  note restore = restore_correct [OF 2 8 this]
  show "xregs s' = R(ESP := R ESP + 4)" "eip s' = pc" "called s' = called s" using restore save(4) by simp_all
  show "w \<notin> object t1 \<Longrightarrow> xmem s' w = (if w = R ESP + 4 then pc else xmem s w)" using restore(3) save(3) by simp
  show "saved_in (xmem s') t1 (xregs s) (xmem s (xregs s ESP))" if "R ESP + 4 \<notin> insert (xregs s ESP) (object t1)"
    by (rule saved_frame [OF save(1)]) (use that restore(3) in auto)
qed

text \<open>
  C11: \<^verbatim>\<open>SWITCH(t1, t2)\<close> saves the running thread \<open>t1\<close> and continues thread \<open>t2\<close> with exactly the registers it had when it called \<^verbatim>\<open>SWITCH\<close>, at its return
  address; from then on \<open>t1\<close> is one of the saved threads, with its own registers and return address, and all other
  threads stay saved as they were, provided that the thread objects and stacks do not overlap. Only the object of \<open>t1\<close> and one word of the stack of \<open>t2\<close>
  are written.
\<close>

theorem SWITCH_correct:
  assumes "xmem s (xregs s ESP + 4) = t1" and "xmem s (xregs s ESP + 8) = t2"
    and "{xregs s ESP, xregs s ESP + 4, xregs s ESP + 8} \<inter> object t1 = {}"
    and "all_saved (xmem s) P" and "apart P (object t1 \<union> {xregs s ESP, xregs s ESP + 4, xregs s ESP + 8})" and "P t2 = Some (R, pc)"
  shows "let s' = xrun fn SWITCH s in
    xregs s' = R(ESP := R ESP + 4) \<and> eip s' = pc \<and>
    all_saved (xmem s') (P(t2 := None, t1 \<mapsto> (xregs s, xmem s (xregs s ESP)))) \<and>
    (\<forall>w. w \<notin> object t1 \<longrightarrow> w \<noteq> R ESP + 4 \<longrightarrow> xmem s' w = xmem s w)"
proof -
  define s' where "s' = xrun fn SWITCH s"
  have t2: "saved_in (xmem s) t2 R pc" using assms(4,6) by (simp add: all_saved_def)
  have f: "footprint t2 (R ESP) \<inter> (object t1 \<union> {xregs s ESP, xregs s ESP + 4, xregs s ESP + 8}) = {}" using assms(5,6) by (simp add: apart_def)
  have f1: "insert (R ESP) (object t2) \<inter> object t1 = {}" and f2: "R ESP + 4 \<notin> insert (xregs s ESP) (object t1)"
    using f by (auto simp: footprint_def)
  note steps = SWITCH_steps [OF assms(1-3) t2 f1 s'_def]
  have "saved_in (xmem s') t R' pc'" if t: "P t = Some (R', pc')" "t \<noteq> t2" for t R' pc'
  proof (rule saved_frame)
    show "saved_in (xmem s) t R' pc'" using assms(4) t(1) by (simp add: all_saved_def)
    have "footprint t (R' ESP) \<inter> object t1 = {}" using assms(5) t(1) unfolding apart_def by blast
    moreover have "footprint t (R' ESP) \<inter> footprint t2 (R ESP) = {}" using assms(5,6) t unfolding apart_def by blast
    ultimately have "a \<notin> object t1" "a \<noteq> R ESP + 4" if "a \<in> insert (R' ESP) (object t)" for a using that by (auto simp: footprint_def)
    then show "xmem s' a = xmem s a" if "a \<in> insert (R' ESP) (object t)" for a using that steps(5) by simp
  qed
  then have "all_saved (xmem s') (P(t2 := None, t1 \<mapsto> (xregs s, xmem s (xregs s ESP))))"
    using steps(4) [OF f2] by (simp add: all_saved_def)
  then show ?thesis using steps unfolding Let_def s'_def [symmetric] by simp
qed

definition demo_mem :: "u32 \<Rightarrow> u32" where
  "demo_mem = (\<lambda>_. 0)(0x8000 := 0x77, 0x8004 := 0x1000, 0x8008 := 0x2000, 0x2000 := 0x9000, 0x2020 := 0x55, 0x9000 := 0x55)"

definition demo_x86 :: x86 where
  "demo_x86 = \<lparr>xregs = (\<lambda>_. 1)(ESP := 0x8000), xmem = demo_mem, eax_save = 0, eip = 0, called = []\<rparr>"

definition demo_regs :: "xreg \<Rightarrow> u32" where
  "demo_regs = (\<lambda>_. 0)(ESP := 0x9000)"

theorem SWITCH_correct_witness:
  "let s' = xrun (\<lambda>_. id) SWITCH demo_x86 in xregs s' = demo_regs(ESP := 0x9004) \<and> eip s' = 0x55 \<and> saved_in (xmem s') 0x1000 (xregs demo_x86) 0x77"
proof -
  let ?P = "[0x2000 \<mapsto> (demo_regs, 0x55)] :: u32 \<rightharpoonup> (xreg \<Rightarrow> u32) \<times> u32"
  have "all_saved (xmem demo_x86) ?P" by (simp add: all_saved_def saved_in_def demo_x86_def demo_mem_def demo_regs_def offs)
  moreover have "apart ?P (object 0x1000 \<union> {0x8000, 0x8004, 0x8008})" by (auto simp: apart_def footprint_def object_def demo_regs_def)
  ultimately show ?thesis
    using SWITCH_correct [of demo_x86 "0x1000" "0x2000" ?P demo_regs "0x55" "\<lambda>_. id"]
    by (simp add: demo_x86_def demo_mem_def object_def all_saved_def demo_regs_def Let_def)
qed

text \<open>What a new thread finds in its registers; the others have what the object contained.\<close>

definition first_regs :: "addresses \<Rightarrow> u32 \<Rightarrow> u32 \<Rightarrow> u32 \<Rightarrow> u32 \<Rightarrow> (u32 \<Rightarrow> u32) \<Rightarrow> xreg \<Rightarrow> u32" where
  "first_regs A stack t func arg m r = (case r of
     ESP \<Rightarrow> stack + 32748 | ECX \<Rightarrow> ThreadBegin A | EDX \<Rightarrow> arg | ESI \<Rightarrow> func | EDI \<Rightarrow> ThreadFinish A
   | EAX \<Rightarrow> m (t + 4) | EBX \<Rightarrow> m (t + 8) | EBP \<Rightarrow> m (t + 20))"

lemma StackAllocate_saved:
  assumes "{stack, stack + 32748} \<inter> object t = {}"
  shows "saved_in (StackAllocate A stack t func arg m) t (first_regs A stack t func arg m) (ThreadRoot A)"
    and "CheckOverflow stack (StackAllocate A stack t func arg m) = Inr ()"
    and "w \<notin> object t \<Longrightarrow> w \<noteq> stack \<Longrightarrow> w \<noteq> stack + 32748 \<Longrightarrow> StackAllocate A stack t func arg m w = m w"
proof -
  have e: "StackAllocate A stack t func arg m = m(stack + 32748 := ThreadRoot A, t := stack + 32748, stack := STACK_FENCEPOST,
      t + 32 := ThreadRoot A, t + 12 := ThreadBegin A, t + 24 := func, t + 16 := arg, t + 28 := ThreadFinish A)"
    by (simp add: StackAllocate_def set_machineState_def states offs StackSize_def Let_def add.assoc) (simp add: add.commute)
  show "saved_in (StackAllocate A stack t func arg m) t (first_regs A stack t func arg m) (ThreadRoot A)"
    using assms unfolding e by (auto simp: saved_in_def first_regs_def offs object_def)
  show "CheckOverflow stack (StackAllocate A stack t func arg m) = Inr ()"
    using assms unfolding e by (auto simp: CheckOverflow_def ASSERT_def object_def)
  show "w \<notin> object t \<Longrightarrow> w \<noteq> stack \<Longrightarrow> w \<noteq> stack + 32748 \<Longrightarrow> StackAllocate A stack t func arg m w = m w"
    unfolding e by (auto simp: object_def)
qed

lemma Thread_new_object: "fst (Thread_new junk t m) a = (if a = t \<or> (\<exists>i<75. a = t + 4 + 4 * of_nat i) then 0 else m a)"
proof -
  have "fold (\<lambda>i. set_machineState t (of_nat i) 0) [0..<k] (m(t := 0)) a = (if a = t \<or> (\<exists>i<k. a = t + 4 + 4 * of_nat i) then 0 else m a)" for k
    by (induction k) (auto simp: set_machineState_def less_Suc_eq)
  then show ?thesis by (simp add: Thread_new_def MachineStateSize_def)
qed

text \<open>A forked thread starts with the four registers that \<^verbatim>\<open>StackAllocate\<close> sets and zero in the others.\<close>

lemma forked_regs:
  "first_regs A stack t func arg (fst (Thread_new junk t m)) =
     (\<lambda>_. 0)(ESP := stack + 32748, ECX := ThreadBegin A, EDX := arg, ESI := func, EDI := ThreadFinish A)"
proof
  have z: "fst (Thread_new junk t m) (t + 4) = 0" "fst (Thread_new junk t m) (t + 8) = 0" "fst (Thread_new junk t m) (t + 20) = 0"
    using Thread_new_object [of junk t m "t + 4"] Thread_new_object [of junk t m "t + 8"] Thread_new_object [of junk t m "t + 20"]
      exI [of "\<lambda>i. i < 75 \<and> t + 4 = t + 4 + 4 * of_nat i" 0] exI [of "\<lambda>i. i < 75 \<and> t + 8 = t + 4 + 4 * of_nat i" 1]
      exI [of "\<lambda>i. i < 75 \<and> t + 20 = t + 4 + 4 * of_nat i" 4] by simp_all
  fix r show "first_regs A stack t func arg (fst (Thread_new junk t m)) r =
     ((\<lambda>_. 0)(ESP := stack + 32748, ECX := ThreadBegin A, EDX := arg, ESI := func, EDI := ThreadFinish A)) r"
    using z by (cases r) (simp_all add: first_regs_def)
qed

text \<open>
  The calling convention: a function that has returned has restored the registers its caller owns, and the words of the caller's stack from
  its parameters on; \<^verbatim>\<open>ThreadBegin\<close> has no parameters.
\<close>

definition cdecl :: "(u32 \<Rightarrow> x86 \<Rightarrow> x86) \<Rightarrow> addresses \<Rightarrow> bool" where
  "cdecl fn A \<longleftrightarrow> (\<forall>a s. called (fn a s) = called s \<and> (\<forall>r \<in> {EBX, ESI, EDI, EBP, ESP}. xregs (fn a s) r = xregs s r)) \<and>
     (\<forall>s. xmem (fn (ThreadBegin A) s) (xregs s ESP) = xmem s (xregs s ESP))"

lemma ThreadRoot_calls:
  assumes "cdecl fn A" and "xregs s ECX = ThreadBegin A"
  obtains x where "called (xrun fn ThreadRoot_code s) =
    called s @ [(ThreadBegin A, xregs s EDX), (xregs s ESI, xregs s EDX), (xregs s EDI, x)]"
proof -
  define u where "u = s\<lparr>xregs := (xregs s)(EBP := xregs s ESP - 4, ESP := xregs s ESP - 8),
    xmem := (xmem s)(xregs s ESP - 4 := xregs s EBP, xregs s ESP - 8 := xregs s EDX), called := called s @ [(ThreadBegin A, xregs s EDX)]\<rparr>"
  have u: "xregs u ESP = xregs s ESP - 8" "xmem u (xregs s ESP - 8) = xregs s EDX" by (simp_all add: u_def)
  have fn: "called (fn a z) = called z" "xregs (fn a z) ESI = xregs z ESI" "xregs (fn a z) EDI = xregs z EDI" "xregs (fn a z) ESP = xregs z ESP" for a z
    using assms(1) by (simp_all add: cdecl_def)
  have "xmem (fn (ThreadBegin A) u) (xregs u ESP) = xmem u (xregs u ESP)" using assms(1) by (simp add: cdecl_def)
  then have "xmem (fn (ThreadBegin A) u) (xregs s ESP - 8) = xregs s EDX" by (simp add: u)
  then show ?thesis using that assms(2) fn by (simp add: ThreadRoot_code_def xrun_simps states u_def)
qed

text \<open>
  C12: The first \<^verbatim>\<open>SWITCH\<close> to a thread that \<^verbatim>\<open>StackAllocate(func, arg)\<close> has prepared enters \<^verbatim>\<open>ThreadRoot\<close> with the stack pointer inside
  the new stack, and there the thread calls \<^verbatim>\<open>ThreadBegin\<close>, then \<^verbatim>\<open>func\<close> with the argument \<open>arg\<close>, then \<^verbatim>\<open>ThreadFinish\<close>, for every behaviour of these
  functions that keeps the calling convention. The check for stack overflow passes after the preparation and after the switch, although the switch writes
  a word of the new stack.
\<close>

theorem new_thread_starts:
  assumes "xmem s = StackAllocate A stack t2 func arg m"
    and "{stack, stack + 32748, stack + 32752} \<inter> (object t1 \<union> object t2 \<union> {xregs s ESP}) = {}" and "object t1 \<inter> object t2 = {}"
    and "xmem s (xregs s ESP + 4) = t1" and "xmem s (xregs s ESP + 8) = t2"
    and "{xregs s ESP, xregs s ESP + 4, xregs s ESP + 8} \<inter> object t1 = {}" and "cdecl fn A"
  shows "let s' = xrun fn SWITCH s in
    eip s' = ThreadRoot A \<and> xregs s' ESP = stack + 4 * (StackSize - 4) \<and>
    CheckOverflow stack (xmem s) = Inr () \<and> CheckOverflow stack (xmem s') = Inr () \<and>
    (\<exists>x. called (xrun fn ThreadRoot_code s') = called s @ [(ThreadBegin A, arg), (func, arg), (ThreadFinish A, x)])"
proof -
  define s' where "s' = xrun fn SWITCH s"
  let ?R = "first_regs A stack t2 func arg m"
  have d: "{stack, stack + 32748} \<inter> object t2 = {}" using assms(2) by auto
  note alloc = StackAllocate_saved [OF d, where A = A and func = func and arg = arg and m = m, folded assms(1)]
  have f: "insert (?R ESP) (object t2) \<inter> object t1 = {}" using assms(2,3) by (auto simp: first_regs_def)
  note steps = SWITCH_steps [OF assms(4-6) alloc(1) f s'_def]
  have "stack \<notin> object t1" "stack \<noteq> ?R ESP + 4" using assms(2) by (auto simp: first_regs_def)
  then have c: "CheckOverflow stack (xmem s') = Inr ()" using alloc(2) steps(5) [of stack] by (simp add: CheckOverflow_def split: if_splits)
  have "xregs s' ECX = ThreadBegin A" "xregs s' EDX = arg" "xregs s' ESI = func" "xregs s' EDI = ThreadFinish A"
    using steps(1) by (simp_all add: first_regs_def)
  then have "\<exists>x. called (xrun fn ThreadRoot_code s') = called s @ [(ThreadBegin A, arg), (func, arg), (ThreadFinish A, x)]"
    using ThreadRoot_calls [OF assms(7), of s'] steps(3) by metis
  then show ?thesis using steps(1,2) alloc(2) c unfolding Let_def s'_def [symmetric] by (simp add: first_regs_def StackSize_def)
qed

definition demo_addresses :: addresses where
  "demo_addresses = \<lparr>ThreadRoot = 0x100, ThreadBegin = 0x200, ThreadFinish = 0x300\<rparr>"

definition demo_new :: x86 where
  "demo_new = demo_x86\<lparr>xmem := StackAllocate demo_addresses 0x10000 0x2000 0x400 5 demo_mem\<rparr>"

theorem new_thread_starts_witness:
  "let s' = xrun (\<lambda>_. id) SWITCH demo_new in eip s' = 0x100 \<and>
     (\<exists>x. called (xrun (\<lambda>_. id) ThreadRoot_code s') = [(0x200, 5), (0x400, 5), (0x300, x)])"
proof -
  have m: "xmem demo_new = StackAllocate demo_addresses 0x10000 0x2000 0x400 5 demo_mem" by (simp add: demo_new_def)
  have e: "xregs demo_new ESP = 0x8000" "called demo_new = []" by (simp_all add: demo_new_def demo_x86_def)
  have w: "xmem demo_new 0x8004 = 0x1000" "xmem demo_new 0x8008 = 0x2000"
    by (simp_all add: demo_new_def StackAllocate_def set_machineState_def states offs StackSize_def demo_mem_def)
  have "cdecl (\<lambda>_. id) demo_addresses" by (simp add: cdecl_def)
  then show ?thesis using new_thread_starts [OF m, of "0x1000" "\<lambda>_. id"] e w
    by (simp add: object_def Let_def) (simp add: demo_addresses_def)
qed

end
