(* ===== verification/Stack_Classes.thy ===== *)
theory Stack_Classes
  imports Linked_List
begin

text \<open>
  The stacks of \<^verbatim>\<open>c++example\<close>: an array with a top index (\<^verbatim>\<open>stack.cc\<close>, \<^verbatim>\<open>templatestack.cc\<close> and the class
  \<^verbatim>\<open>ArrayStack\<close> of \<^verbatim>\<open>inheritstack.cc\<close>, which have the same methods), and a linked list (\<^verbatim>\<open>list.cc\<close> and the class \<^verbatim>\<open>ListStack\<close>), both behind the abstract class
  \<^verbatim>\<open>Stack\<close>. The abstract class is the locale \<open>stack_class\<close>, its virtual methods the fixed operations; \<^verbatim>\<open>SelfTest\<close>, which the
  source shares among all derived classes, is a function of those methods and is verified once, inside the locale. What the program prints is
  a list of lines. The type of the items and its \<^verbatim>\<open>++\<close> are parameters, as in the template.
\<close>

section \<open>Array stacks\<close>

record 'a array_stack =
  asize :: int
  atop :: int
  astack :: "'a list"

text \<open>\<open>junk\<close> is what the array from \<^verbatim>\<open>new\<close> contains.\<close>

definition ArrayStack_new :: "(nat \<Rightarrow> 'a) \<Rightarrow> int \<Rightarrow> 'a array_stack outcome" where
  "ArrayStack_new junk sz = bindR (ASSERT (sz \<ge> 1)) (\<lambda>_. Inr \<lparr>asize = sz, atop = 0, astack = map junk [0..<nat sz]\<rparr>)"

definition ArrayStack_Full :: "'a array_stack \<Rightarrow> bool" where
  "ArrayStack_Full s \<longleftrightarrow> atop s = asize s"

definition ArrayStack_Empty :: "'a array_stack \<Rightarrow> bool" where
  "ArrayStack_Empty s \<longleftrightarrow> atop s = 0"

definition ArrayStack_Push :: "'a \<Rightarrow> 'a array_stack \<Rightarrow> 'a array_stack outcome" where
  "ArrayStack_Push v s =
     bindR (ASSERT (\<not> ArrayStack_Full s)) (\<lambda>_.
     if 0 \<le> atop s \<and> atop s < int (length (astack s))
     then Inr (s\<lparr>astack := (astack s)[nat (atop s) := v], atop := atop s + 1\<rparr>) else Inl OutOfBounds)"

definition ArrayStack_Pop :: "'a array_stack \<Rightarrow> ('a array_stack \<times> 'a) outcome" where
  "ArrayStack_Pop s =
     bindR (ASSERT (\<not> ArrayStack_Empty s)) (\<lambda>_.
     let s = s\<lparr>atop := atop s - 1\<rparr> in
     if 0 \<le> atop s \<and> atop s < int (length (astack s)) then Inr (s, astack s ! nat (atop s)) else Inl OutOfBounds)"

section \<open>List stacks\<close>

text \<open>The list object and the store of its elements; an access through a null or dangling pointer is a fault.\<close>

record 'a int_list =
  store :: "nat \<rightharpoonup> 'a cell"
  next_cell :: nat
  first :: "nat option"
  last_element :: "nat option"

definition List_init :: "(nat \<rightharpoonup> 'a cell) \<Rightarrow> nat \<Rightarrow> 'a int_list" where
  "List_init h b = \<lparr>store = h, next_cell = b, first = None, last_element = None\<rparr>"

definition List_Empty :: "'a int_list \<Rightarrow> bool" where
  "List_Empty l \<longleftrightarrow> first l = None"

definition access :: "'a int_list \<Rightarrow> nat option \<Rightarrow> (nat \<times> 'a cell) outcome" where
  "access l p = (case p of None \<Rightarrow> Inl NullPointer
     | Some a \<Rightarrow> (case store l a of None \<Rightarrow> Inl NullPointer | Some c \<Rightarrow> Inr (a, c)))"

definition List_Prepend :: "'a \<Rightarrow> 'a int_list \<Rightarrow> 'a int_list outcome" where
  "List_Prepend v l =
     (let element = next_cell l;
          l = l\<lparr>store := (store l)(element \<mapsto> \<lparr>item = v, nxt = None\<rparr>), next_cell := Suc element\<rparr>
      in if List_Empty l then Inr (l\<lparr>first := Some element, last_element := Some element\<rparr>)
         else bindR (access l (Some element)) (\<lambda>(a, c).
              Inr (l\<lparr>store := (store l)(a \<mapsto> c\<lparr>nxt := first l\<rparr>), first := Some element\<rparr>)))"

definition List_Remove :: "'a int_list \<Rightarrow> ('a int_list \<times> 'a) outcome" where
  "List_Remove l =
     bindR (ASSERT (\<not> List_Empty l)) (\<lambda>_.
     bindR (access l (first l)) (\<lambda>(a, c).
     let l = (if first l = last_element l then l\<lparr>first := None, last_element := None\<rparr> else l\<lparr>first := nxt c\<rparr>)
     in Inr (l\<lparr>store := (store l)(a := None)\<rparr>, item c)))"

partial_function (option) List_delete :: "'a int_list \<Rightarrow> 'a int_list outcome option" where
  "List_delete l = (if List_Empty l then Some (Inr l)
     else case List_Remove l of Inl e \<Rightarrow> Some (Inl e) | Inr (l', _) \<Rightarrow> List_delete l')"

definition ListStack_Push :: "'a \<Rightarrow> 'a int_list \<Rightarrow> 'a int_list outcome" where
  "ListStack_Push = List_Prepend"

definition ListStack_Full :: "'a int_list \<Rightarrow> bool" where
  "ListStack_Full l = False"

definition ListStack_Empty :: "'a int_list \<Rightarrow> bool" where
  "ListStack_Empty = List_Empty"

definition ListStack_Pop :: "'a int_list \<Rightarrow> ('a int_list \<times> 'a) outcome" where
  "ListStack_Pop l = bindR (ASSERT (\<not> ListStack_Empty l)) (\<lambda>_. List_Remove l)"

section \<open>Self tests\<close>

datatype 'a line = Pushing 'a | Popping 'a | Testing string

text \<open>The loops of the two self tests; they end when the condition does, so a loop that never ends has the value \<open>None\<close>.\<close>

partial_function (option) pop_all :: "('s \<Rightarrow> ('s \<times> 'a) outcome) \<Rightarrow> ('s \<Rightarrow> bool) \<Rightarrow> 's \<Rightarrow> 'a line list \<Rightarrow> ('s \<times> 'a line list) outcome option" where
  "pop_all Pop Empty s out = (if Empty s then Some (Inr (s, out))
     else case Pop s of Inl e \<Rightarrow> Some (Inl e) | Inr (s', v) \<Rightarrow> pop_all Pop Empty s' (out @ [Popping v]))"

partial_function (option) push_all :: "('a \<Rightarrow> 'a) \<Rightarrow> ('a \<Rightarrow> 's \<Rightarrow> 's outcome) \<Rightarrow> ('s \<Rightarrow> bool) \<Rightarrow> 'a \<Rightarrow> 's \<Rightarrow> 'a line list \<Rightarrow> ('s \<times> 'a line list) outcome option" where
  "push_all incr Push Full n s out = (if Full s then Some (Inr (s, out))
     else case Push n s of Inl e \<Rightarrow> Some (Inl e) | Inr s' \<Rightarrow> push_all incr Push Full (incr n) s' (out @ [Pushing n]))"

text \<open>\<^verbatim>\<open>Stack<T>::SelfTest\<close> of \<^verbatim>\<open>templatestack.cc\<close>; that of \<^verbatim>\<open>stack.cc\<close> starts with 17.\<close>

definition Stack_SelfTest :: "('a \<Rightarrow> 'a) \<Rightarrow> 'a \<Rightarrow> 'a array_stack \<Rightarrow> 'a line list \<Rightarrow> ('a array_stack \<times> 'a line list) outcome option" where
  "Stack_SelfTest incr start s out =
     (case push_all incr ArrayStack_Push ArrayStack_Full start s out of
        None \<Rightarrow> None
      | Some (Inl e) \<Rightarrow> Some (Inl e)
      | Some (Inr (s, out)) \<Rightarrow> pop_all ArrayStack_Pop ArrayStack_Empty s out)"

text \<open>\<^verbatim>\<open>Stack::SelfTest\<close> of \<^verbatim>\<open>inheritstack.cc\<close>: the virtual methods are those of the object's class.\<close>

definition push_body :: "('a \<Rightarrow> 'a) \<Rightarrow> ('a \<Rightarrow> 's \<Rightarrow> 's outcome) \<Rightarrow> ('s \<Rightarrow> bool) \<Rightarrow> 'a \<times> 's \<times> 'a line list \<Rightarrow> ('a \<times> 's \<times> 'a line list) outcome" where
  "push_body incr Push Full = (\<lambda>(count, s, out).
     bindR (ASSERT (\<not> Full s)) (\<lambda>_. bindR (Push count s) (\<lambda>s. Inr (incr count, s, out @ [Pushing count]))))"

definition SelfTest :: "('a \<Rightarrow> 'a) \<Rightarrow> ('a \<Rightarrow> 's \<Rightarrow> 's outcome) \<Rightarrow> ('s \<Rightarrow> ('s \<times> 'a) outcome) \<Rightarrow> ('s \<Rightarrow> bool) \<Rightarrow> ('s \<Rightarrow> bool) \<Rightarrow> 'a \<Rightarrow>
    int \<Rightarrow> 's \<Rightarrow> 'a line list \<Rightarrow> ('s \<times> 'a line list) outcome option" where
  "SelfTest incr Push Pop Full Empty start numToPush s out =
     (case forR [0..<nat numToPush] (\<lambda>i. push_body incr Push Full) (start, s, out) of
        Inl e \<Rightarrow> Some (Inl e)
      | Inr (_, s, out) \<Rightarrow> pop_all Pop Empty s out)"

text \<open>The \<^verbatim>\<open>main\<close> functions; a stack whose self test has failed is not deleted.\<close>

definition stack_main :: "(nat \<Rightarrow> int) \<Rightarrow> int line list outcome option" where
  "stack_main junk = (case ArrayStack_new junk 10 of Inl e \<Rightarrow> Some (Inl e)
     | Inr s \<Rightarrow> map_option (map_sum id snd) (Stack_SelfTest (\<lambda>n. n + 1) 17 s []))"

definition inherit_main :: "(nat \<Rightarrow> int) \<Rightarrow> (nat \<rightharpoonup> int cell) \<Rightarrow> nat \<Rightarrow> int line list outcome option" where
  "inherit_main junk h b = (case ArrayStack_new junk 10 of Inl e \<Rightarrow> Some (Inl e)
     | Inr s1 \<Rightarrow> let s2 = List_init h b in
       (case SelfTest (\<lambda>n. n + 1) ArrayStack_Push ArrayStack_Pop ArrayStack_Full ArrayStack_Empty 17 10 s1 [Testing ''ArrayStack''] of
          None \<Rightarrow> None
        | Some (Inl e) \<Rightarrow> Some (Inl e)
        | Some (Inr (s1, out)) \<Rightarrow>
            (case SelfTest (\<lambda>n. n + 1) ListStack_Push ListStack_Pop ListStack_Full ListStack_Empty 17 10 s2 (out @ [Testing ''ListStack'']) of
               None \<Rightarrow> None
             | Some (Inl e) \<Rightarrow> Some (Inl e)
             | Some (Inr (s2, out)) \<Rightarrow> map_option (map_sum id (\<lambda>_. out)) (List_delete s2))))"

text \<open>\<^verbatim>\<open>Stack<char>\<close>: a \<^verbatim>\<open>char\<close> is a byte, and \<^verbatim>\<open>++\<close> wraps around.\<close>

definition template_main :: "(nat \<Rightarrow> int) \<Rightarrow> (nat \<Rightarrow> u8) \<Rightarrow> (int line list \<times> u8 line list) outcome option" where
  "template_main junk cjunk =
     (case (ArrayStack_new junk 10, ArrayStack_new cjunk 10) of
        (Inr s1, Inr s2) \<Rightarrow>
          (case Stack_SelfTest (\<lambda>n. n + 1) 17 s1 [Testing ''Stack<int>''] of
             None \<Rightarrow> None
           | Some (Inl e) \<Rightarrow> Some (Inl e)
           | Some (Inr (_, out)) \<Rightarrow> map_option (map_sum id (\<lambda>(_, chars). (out, chars))) (Stack_SelfTest (\<lambda>n. n + 1) 97 s2 [Testing ''Stack<char>'']))
      | (Inl e, _) \<Rightarrow> Some (Inl e)
      | (_, Inl e) \<Rightarrow> Some (Inl e))"

section \<open>The abstract class\<close>

text \<open>\<open>count_up\<close> lists the items counted up from \<open>n\<close>. \<open>rep s xs\<close>: the object \<open>s\<close> holds the items \<open>xs\<close>, the top first; \<open>capacity\<close> is \<open>None\<close> for a stack that never overflows.\<close>

definition count_up :: "('a \<Rightarrow> 'a) \<Rightarrow> 'a \<Rightarrow> nat \<Rightarrow> 'a list" where
  "count_up incr n k = map (\<lambda>i. (incr ^^ i) n) [0..<k]"

lemma count_up_simps [simp]: "count_up incr n 0 = []" "count_up incr n (Suc k) = count_up incr n k @ [(incr ^^ k) n]" "length (count_up incr n k) = k"
  by (simp_all add: count_up_def)

lemma count_up_Cons: "count_up incr n (Suc k) = n # count_up incr (incr n) k"
  by (induction k) (simp_all add: funpow_swap1)

locale stack_class =
  fixes Push :: "'a \<Rightarrow> 's \<Rightarrow> 's outcome" and Pop :: "'s \<Rightarrow> ('s \<times> 'a) outcome" and Full :: "'s \<Rightarrow> bool" and Empty :: "'s \<Rightarrow> bool"
    and rep :: "'s \<Rightarrow> 'a list \<Rightarrow> bool" and capacity :: "'s \<Rightarrow> nat option"
  assumes empty: "rep s xs \<Longrightarrow> Empty s \<longleftrightarrow> xs = []"
    and full: "rep s xs \<Longrightarrow> Full s \<longleftrightarrow> capacity s = Some (length xs)"
    and push: "rep s xs \<Longrightarrow> \<not> Full s \<Longrightarrow> returns (\<lambda>s'. rep s' (x # xs) \<and> capacity s' = capacity s) (Push x s)"
    and pop: "rep s (x # xs) \<Longrightarrow> returns (\<lambda>(s', v). v = x \<and> rep s' xs \<and> capacity s' = capacity s) (Pop s)"
    and pop_empty: "rep s [] \<Longrightarrow> Pop s = Inl AssertFailed"
begin

lemma pop_all: "rep s xs \<Longrightarrow> \<exists>s'. pop_all Pop Empty s out = Some (Inr (s', out @ map Popping xs)) \<and> rep s' [] \<and> capacity s' = capacity s"
proof (induction xs arbitrary: s out)
  case Nil
  then show ?case using empty by (subst pop_all.simps) auto
next
  case (Cons x xs)
  obtain s1 where s1: "Pop s = Inr (s1, x)" "rep s1 xs" "capacity s1 = capacity s" using pop [OF Cons.prems] by (auto simp: returns_iff)
  show ?case using Cons.IH [OF s1(2), of "out @ [Popping x]"] s1 empty [OF Cons.prems] by (subst pop_all.simps) simp
qed

lemma push_loop:
  assumes "rep s xs" and "\<forall>c. capacity s = Some c \<longrightarrow> length xs + k \<le> c"
  shows "\<exists>s'. forR [0..<k] (\<lambda>i. push_body incr Push Full) (n, s, out) =
        Inr ((incr ^^ k) n, s', out @ map Pushing (count_up incr n k)) \<and>
      rep s' (rev (count_up incr n k) @ xs) \<and> capacity s' = capacity s"
  using assms(2)
proof (induction k)
  case 0
  then show ?case using assms(1) by simp
next
  case (Suc k)
  then obtain s1 where s1: "forR [0..<k] (\<lambda>i. push_body incr Push Full) (n, s, out) =
        Inr ((incr ^^ k) n, s1, out @ map Pushing (count_up incr n k))"
    "rep s1 (rev (count_up incr n k) @ xs)" "capacity s1 = capacity s" using Suc.IH by fastforce
  have nf: "\<not> Full s1" using Suc.prems full [OF s1(2)] s1(3) by auto
  obtain s2 where "Push ((incr ^^ k) n) s1 = Inr s2" "rep s2 ((incr ^^ k) n # rev (count_up incr n k) @ xs)" "capacity s2 = capacity s1"
    using push [OF s1(2) nf] by (auto simp: returns_iff)
  then show ?case using s1 nf by (simp add: forR_append push_body_def)
qed

lemma self_test:
  assumes "rep s []" and "\<forall>c. capacity s = Some c \<longrightarrow> nat k \<le> c"
  shows "\<exists>s'. SelfTest incr Push Pop Full Empty n k s out =
      Some (Inr (s', out @ map Pushing (count_up incr n (nat k)) @ map Popping (rev (count_up incr n (nat k))))) \<and> rep s' [] \<and> capacity s' = capacity s"
proof -
  obtain s1 where s1: "forR [0..<nat k] (\<lambda>i. push_body incr Push Full) (n, s, out) =
        Inr ((incr ^^ nat k) n, s1, out @ map Pushing (count_up incr n (nat k)))"
    "rep s1 (rev (count_up incr n (nat k)))" "capacity s1 = capacity s" using push_loop [OF assms(1), of "nat k" incr n out] assms(2) by auto
  show ?thesis using pop_all [OF s1(2), of "out @ map Pushing (count_up incr n (nat k))"] s1(1,3) by (simp add: SelfTest_def)
qed

text \<open>More items than the stack has room for fail the assertion.\<close>

lemma self_test_overflow:
  assumes "rep s []" and "capacity s = Some c" and "c < nat k"
  shows "SelfTest incr Push Pop Full Empty n k s out = Some (Inl AssertFailed)"
proof -
  obtain s1 where s1: "forR [0..<c] (\<lambda>i. push_body incr Push Full) (n, s, out) =
        Inr ((incr ^^ c) n, s1, out @ map Pushing (count_up incr n c))"
    "rep s1 (rev (count_up incr n c))" "capacity s1 = capacity s" using push_loop [OF assms(1), of c incr n out] assms(2) by auto
  have f: "Full s1" using full [OF s1(2)] s1(3) assms(2) by simp
  have "[0..<nat k] = [0..<c] @ c # [Suc c..<nat k]" using assms(3) by (metis le_add_diff_inverse less_imp_le_nat upt_add_eq_append upt_conv_Cons zero_le)
  then show ?thesis using s1(1) f by (simp add: SelfTest_def forR_append push_body_def)
qed

lemma fill:
  "rep s xs \<Longrightarrow> capacity s = Some (length xs + k) \<Longrightarrow> \<exists>s'. push_all incr Push Full n s out = Some (Inr (s', out @ map Pushing (count_up incr n k))) \<and>
     rep s' (rev (count_up incr n k) @ xs) \<and> capacity s' = capacity s"
proof (induction k arbitrary: s xs n out)
  case 0
  then show ?case using full by (subst push_all.simps) simp
next
  case (Suc k)
  have nf: "\<not> Full s" using full [OF Suc.prems(1)] Suc.prems(2) by simp
  obtain s1 where s1: "Push n s = Inr s1" "rep s1 (n # xs)" "capacity s1 = capacity s" using push [OF Suc.prems(1) nf] by (auto simp: returns_iff)
  have "capacity s1 = Some (length (n # xs) + k)" using s1(3) Suc.prems(2) by simp
  from Suc.IH [OF s1(2) this, of "incr n" "out @ [Pushing n]"] show ?case using s1 nf
    by (subst push_all.simps) (simp add: count_up_Cons del: count_up_simps(2))
qed

end

section \<open>The classes\<close>

definition array_rep :: "'a array_stack \<Rightarrow> 'a list \<Rightarrow> bool" where
  "array_rep s xs \<longleftrightarrow> asize s = int (length (astack s)) \<and> 0 \<le> atop s \<and> atop s \<le> asize s \<and> xs = rev (take (nat (atop s)) (astack s))"

definition array_capacity :: "'a array_stack \<Rightarrow> nat option" where
  "array_capacity s = Some (nat (asize s))"

lemma array_push:
  assumes "array_rep s xs" and "\<not> ArrayStack_Full s"
  shows "returns (\<lambda>s'. array_rep s' (x # xs) \<and> array_capacity s' = array_capacity s) (ArrayStack_Push x s)"
proof -
  have t: "nat (atop s) < length (astack s)" using assms by (auto simp: array_rep_def ArrayStack_Full_def)
  have "nat (atop s + 1) = Suc (nat (atop s))" using assms(1) by (auto simp: array_rep_def)
  then show ?thesis using assms t by (auto simp: ArrayStack_Push_def array_rep_def array_capacity_def take_Suc_conv_app_nth)
qed

lemma array_pop:
  assumes "array_rep s (x # xs)"
  shows "returns (\<lambda>(s', v). v = x \<and> array_rep s' xs \<and> array_capacity s' = array_capacity s) (ArrayStack_Pop s)"
proof -
  define k where "k = nat (atop s - 1)"
  have e: "rev (take (nat (atop s)) (astack s)) = x # xs" using assms by (simp add: array_rep_def)
  then have "0 < nat (atop s)" by (cases "nat (atop s)") auto
  then have k: "nat (atop s) = Suc k" "0 < atop s" by (simp_all add: k_def)
  have "k < length (astack s)" using assms k by (auto simp: array_rep_def)
  then have "astack s ! k = x" "rev (take k (astack s)) = xs" using e k(1) by (simp_all add: take_Suc_conv_app_nth)
  then show ?thesis using assms k k_def by (auto simp: ArrayStack_Pop_def ArrayStack_Empty_def array_rep_def array_capacity_def)
qed

interpretation array: stack_class ArrayStack_Push ArrayStack_Pop ArrayStack_Full ArrayStack_Empty array_rep array_capacity
proof
  fix s :: "'a array_stack" and xs
  assume r: "array_rep s xs"
  then show "ArrayStack_Empty s \<longleftrightarrow> xs = []" by (auto simp: array_rep_def ArrayStack_Empty_def)
  show "ArrayStack_Full s \<longleftrightarrow> array_capacity s = Some (length xs)" using r by (auto simp: array_rep_def ArrayStack_Full_def array_capacity_def)
next
  fix s :: "'a array_stack" assume "array_rep s []"
  then show "ArrayStack_Pop s = Inl AssertFailed" by (auto simp: array_rep_def ArrayStack_Pop_def ArrayStack_Empty_def)
qed (fact array_push array_pop)+

text \<open>The list stack holds cells of its own; the rest of the store is \<open>F\<close>.\<close>

definition list_stack_rep :: "(nat \<rightharpoonup> 'a cell) \<Rightarrow> 'a int_list \<Rightarrow> 'a list \<Rightarrow> bool" where
  "list_stack_rep F l xs \<longleftrightarrow> (\<exists>as. map snd as = xs \<and> lseg (store l) (first l) as None \<and> distinct (map fst as) \<and>
     (\<forall>a. a \<in> fst ` set as \<longrightarrow> F a = None) \<and> (\<forall>a. a \<notin> fst ` set as \<longrightarrow> store l a = F a) \<and> dom (store l) \<subseteq> {..<next_cell l} \<and>
     last_element l = (if as = [] then None else Some (fst (last as))))"

lemma list_push: "list_stack_rep F l xs \<Longrightarrow> returns (\<lambda>l'. list_stack_rep F l' (x # xs)) (ListStack_Push x l)"
proof -
  assume "list_stack_rep F l xs"
  then obtain as where as: "map snd as = xs" "lseg (store l) (first l) as None" "distinct (map fst as)"
    "\<forall>a. a \<in> fst ` set as \<longrightarrow> F a = None" "\<forall>a. a \<notin> fst ` set as \<longrightarrow> store l a = F a" "dom (store l) \<subseteq> {..<next_cell l}"
    "last_element l = (if as = [] then None else Some (fst (last as)))" by (auto simp: list_stack_rep_def)
  define n where "n = next_cell l"
  have n: "store l n = None" "n \<notin> fst ` set as" using as(6) lseg_dom [OF as(2)] by (force simp: n_def)+
  then have "F n = None" using as(5) by simp
  have e: "first l = None \<longleftrightarrow> as = []" using as(2) by (cases as) auto
  have own: "\<And>a x. (a, x) \<in> set as \<Longrightarrow> F a = None" using as(4) by force
  show "returns (\<lambda>l'. list_stack_rep F l' (x # xs)) (ListStack_Push x l)"
  proof (cases "as = []")
    case True
    then show ?thesis using as n e \<open>F n = None\<close>
      by (auto simp: ListStack_Push_def List_Prepend_def List_Empty_def list_stack_rep_def n_def [symmetric] Let_def intro!: exI [of _ "[(n, x)]"])
  next
    case False
    then show ?thesis using as n e \<open>F n = None\<close> own
      by (auto simp: ListStack_Push_def List_Prepend_def List_Empty_def list_stack_rep_def access_def n_def [symmetric] Let_def intro!: exI [of _ "(n, x) # as"])
  qed
qed

lemma list_pop: "list_stack_rep F l (x # xs) \<Longrightarrow> returns (\<lambda>(l', v). v = x \<and> list_stack_rep F l' xs) (ListStack_Pop l)"
proof -
  assume "list_stack_rep F l (x # xs)"
  then obtain a as n where as: "map snd as = xs" "first l = Some a" "store l a = Some \<lparr>item = x, nxt = n\<rparr>" "lseg (store l) n as None"
    "a \<notin> fst ` set as" "distinct (map fst as)" "F a = None" "\<forall>b. b \<in> fst ` set as \<longrightarrow> F b = None" "\<forall>b. b \<noteq> a \<longrightarrow> b \<notin> fst ` set as \<longrightarrow> store l b = F b"
    "dom (store l) \<subseteq> {..<next_cell l}" "last_element l = Some (fst (last ((a, x) # as)))"
    by (auto simp: list_stack_rep_def Cons_eq_map_conv)
  have e: "first l = last_element l \<longleftrightarrow> as = []" using as(2,5,11) last_in_set [of as] by (auto simp: image_iff)
  have u: "\<forall>b. b \<notin> fst ` set as \<longrightarrow> ((store l)(a := None)) b = F b" using as(7,9) by simp
  show "returns (\<lambda>(l', v). v = x \<and> list_stack_rep F l' xs) (ListStack_Pop l)"
  proof (cases "as = []")
    case True
    then show ?thesis using as e u by (auto simp: ListStack_Pop_def ListStack_Empty_def List_Empty_def List_Remove_def access_def list_stack_rep_def)
  next
    case False
    then show ?thesis using as e u
      by (auto simp: ListStack_Pop_def ListStack_Empty_def List_Empty_def List_Remove_def access_def list_stack_rep_def Let_def intro!: exI [of _ as])
  qed
qed

interpretation lists: stack_class ListStack_Push ListStack_Pop ListStack_Full ListStack_Empty "list_stack_rep F" "\<lambda>_. None"
proof
  fix l :: "'a int_list" and xs assume "list_stack_rep F l xs"
  then obtain as where "map snd as = xs" "lseg (store l) (first l) as None" by (auto simp: list_stack_rep_def)
  then show "ListStack_Empty l \<longleftrightarrow> xs = []" by (cases as) (auto simp: ListStack_Empty_def List_Empty_def)
next
  fix l :: "'a int_list" assume "list_stack_rep F l []"
  then show "ListStack_Pop l = Inl AssertFailed" by (auto simp: list_stack_rep_def ListStack_Pop_def ListStack_Empty_def List_Empty_def)
qed (use list_push list_pop in \<open>simp_all add: ListStack_Full_def\<close>)

section \<open>Properties\<close>

lemma ArrayStack_new_rep: "1 \<le> sz \<Longrightarrow> \<exists>s. ArrayStack_new junk sz = Inr s \<and> array_rep s [] \<and> array_capacity s = Some (nat sz)"
  by (simp add: ArrayStack_new_def array_rep_def array_capacity_def)

lemma List_init_rep: "dom h \<subseteq> {..<b} \<Longrightarrow> list_stack_rep h (List_init h b) []"
  by (auto simp: list_stack_rep_def List_init_def)

text \<open>The destructor frees every element, and nothing else.\<close>

lemma List_delete_frees: "list_stack_rep F l xs \<Longrightarrow> \<exists>l'. List_delete l = Some (Inr l') \<and> store l' = F"
proof (induction xs arbitrary: l)
  case Nil
  then show ?case by (subst List_delete.simps) (auto simp: list_stack_rep_def List_Empty_def)
next
  case (Cons x xs)
  have e: "\<not> List_Empty l" using lists.empty [OF Cons.prems] by (simp add: ListStack_Empty_def)
  then obtain l' where "List_Remove l = Inr (l', x)" "list_stack_rep F l' xs"
    using lists.pop [OF Cons.prems] by (auto simp: returns_iff ListStack_Pop_def ListStack_Empty_def)
  then show ?case using e Cons.IH by (subst List_delete.simps) simp
qed

text \<open>
  C39: Both derived classes implement the abstract stack. On an object that holds \<open>xs\<close>, \<^verbatim>\<open>Push\<close> puts the item on top, unless the array is full, when it fails its assertion
  and a list stack never does; \<^verbatim>\<open>Pop\<close> returns the top or fails its assertion on an empty stack; no other fault is possible, and
  no cell of the store outside the list stack is touched.
\<close>

theorem stack_classes_refine:
  assumes "array_rep s xs" and "list_stack_rep F l ys"
  shows "refines (\<lambda>s' zs. array_rep s' zs \<and> asize s' = asize s) (ArrayStack_Push x s) (if int (length xs) = asize s then Inl AssertFailed else Inr (x # xs)) \<and>
    refines (\<lambda>(s', v) (w, zs). v = w \<and> array_rep s' zs) (ArrayStack_Pop s) (case xs of [] \<Rightarrow> Inl AssertFailed | w # zs \<Rightarrow> Inr (w, zs)) \<and>
    refines (list_stack_rep F) (ListStack_Push x l) (Inr (x # ys)) \<and>
    refines (\<lambda>(l', v) (w, zs). v = w \<and> list_stack_rep F l' zs) (ListStack_Pop l) (case ys of [] \<Rightarrow> Inl AssertFailed | w # zs \<Rightarrow> Inr (w, zs))"
proof -
  have f: "ArrayStack_Full s \<longleftrightarrow> int (length xs) = asize s" using array.full [OF assms(1)] assms(1) by (auto simp: array_capacity_def array_rep_def)
  have "refines (\<lambda>s' zs. array_rep s' zs \<and> asize s' = asize s) (ArrayStack_Push x s) (if int (length xs) = asize s then Inl AssertFailed else Inr (x # xs))"
  proof (cases "ArrayStack_Full s")
    case True
    then show ?thesis using f by (simp add: ArrayStack_Push_def)
  next
    case False
    moreover have "0 \<le> asize s" using assms(1) by (simp add: array_rep_def)
    moreover obtain s' where "ArrayStack_Push x s = Inr s'" "array_rep s' (x # xs)" "nat (asize s') = nat (asize s)"
      using array.push [OF assms(1) False, of x] by (auto simp: returns_iff array_capacity_def)
    moreover then have "0 \<le> asize s'" by (simp add: array_rep_def)
    ultimately show ?thesis using f by simp
  qed
  moreover have "refines (\<lambda>(s', v) (w, zs). v = w \<and> array_rep s' zs) (ArrayStack_Pop s) (case xs of [] \<Rightarrow> Inl AssertFailed | w # zs \<Rightarrow> Inr (w, zs))"
    using assms(1) array.pop array.pop_empty by (cases xs) (fastforce simp: returns_iff)+
  moreover have "refines (list_stack_rep F) (ListStack_Push x l) (Inr (x # ys))" using list_push [OF assms(2), of x] by (auto simp: returns_iff)
  moreover have "refines (\<lambda>(l', v) (w, zs). v = w \<and> list_stack_rep F l' zs) (ListStack_Pop l) (case ys of [] \<Rightarrow> Inl AssertFailed | w # zs \<Rightarrow> Inr (w, zs))"
    using assms(2) lists.pop lists.pop_empty by (cases ys) (fastforce simp: returns_iff)+
  ultimately show ?thesis by blast
qed

theorem stack_classes_refine_witness:
  "\<exists>s l. array_rep s [] \<and> list_stack_rep Map.empty l ([] :: int list) \<and> ArrayStack_Pop s = (Inl AssertFailed :: (int array_stack \<times> int) outcome) \<and>
     refines (list_stack_rep Map.empty) (ListStack_Push 5 l) (Inr [5])"
proof -
  obtain s :: "int array_stack" where s: "array_rep s []" using ArrayStack_new_rep [of 3 "\<lambda>_. 0"] by auto
  have l: "list_stack_rep Map.empty (List_init Map.empty 0) ([] :: int list)" by (rule List_init_rep) simp
  show ?thesis using s l stack_classes_refine [OF s l, of 5] by (intro exI [of _ s] exI [of _ "List_init Map.empty 0"]) simp
qed

lemma array_self_tests:
  assumes "ArrayStack_new junk sz = Inr s"
  shows "k \<le> sz \<Longrightarrow> \<exists>s'. SelfTest incr ArrayStack_Push ArrayStack_Pop ArrayStack_Full ArrayStack_Empty n k s out =
      Some (Inr (s', out @ map Pushing (count_up incr n (nat k)) @ map Popping (rev (count_up incr n (nat k))))) \<and> array_rep s' []"
    and "\<not> k \<le> sz \<Longrightarrow> SelfTest incr ArrayStack_Push ArrayStack_Pop ArrayStack_Full ArrayStack_Empty n k s out = Some (Inl AssertFailed)"
    and "\<exists>s'. Stack_SelfTest incr n s out =
      Some (Inr (s', out @ map Pushing (count_up incr n (nat sz)) @ map Popping (rev (count_up incr n (nat sz))))) \<and> array_rep s' []"
proof -
  have sz: "1 \<le> sz" using assms by (auto simp: ArrayStack_new_def bindR_eq_Inr)
  have s: "array_rep s []" "array_capacity s = Some (nat sz)" using ArrayStack_new_rep [OF sz, of junk] assms by auto
  show "\<exists>s'. SelfTest incr ArrayStack_Push ArrayStack_Pop ArrayStack_Full ArrayStack_Empty n k s out =
      Some (Inr (s', out @ map Pushing (count_up incr n (nat k)) @ map Popping (rev (count_up incr n (nat k))))) \<and> array_rep s' []" if "k \<le> sz"
  proof -
    have "\<forall>c. array_capacity s = Some c \<longrightarrow> nat k \<le> c" using s(2) that by (simp add: nat_mono)
    from array.self_test [OF s(1) this, of incr n out] show ?thesis by blast
  qed
  show "SelfTest incr ArrayStack_Push ArrayStack_Pop ArrayStack_Full ArrayStack_Empty n k s out = Some (Inl AssertFailed)" if "\<not> k \<le> sz"
    using array.self_test_overflow [OF s, of k] sz that by simp
  obtain s1 where s1: "push_all incr ArrayStack_Push ArrayStack_Full n s out = Some (Inr (s1, out @ map Pushing (count_up incr n (nat sz))))"
    "array_rep s1 (rev (count_up incr n (nat sz)))" using array.fill [OF s(1), of "nat sz" incr n out] s(2) by auto
  then show "\<exists>s'. Stack_SelfTest incr n s out =
      Some (Inr (s', out @ map Pushing (count_up incr n (nat sz)) @ map Popping (rev (count_up incr n (nat sz))))) \<and> array_rep s' []"
    using array.pop_all [OF s1(2), of "out @ map Pushing (count_up incr n (nat sz))"] by (auto simp: Stack_SelfTest_def)
qed

lemma list_self_tests:
  assumes "dom h \<subseteq> {..<b}"
  obtains l l' where "SelfTest incr ListStack_Push ListStack_Pop ListStack_Full ListStack_Empty n k (List_init h b) out =
      Some (Inr (l, out @ map Pushing (count_up incr n (nat k)) @ map Popping (rev (count_up incr n (nat k)))))"
    "List_delete l = Some (Inr l')" "store l' = h"
proof -
  from lists.self_test [OF List_init_rep [OF assms], of k incr n out] obtain l where
    l: "SelfTest incr ListStack_Push ListStack_Pop ListStack_Full ListStack_Empty n k (List_init h b) out =
      Some (Inr (l, out @ map Pushing (count_up incr n (nat k)) @ map Popping (rev (count_up incr n (nat k)))))" "list_stack_rep h l []" by auto
  then show ?thesis using that List_delete_frees by blast
qed

text \<open>
  The shared self test: on a new stack of either class it ends, prints the numbers counted up from the start as they are pushed and then the same
  numbers in the opposite order as they are popped, exactly when they fit; an array stack that is too small fails
  the assertion. The test of the template fills the array, whatever its size; and deleting the list stack gives back all its elements.
\<close>

theorem stack_self_tests:
  assumes "1 \<le> sz" and "dom h \<subseteq> {..<b}"
  shows "(\<exists>s. ArrayStack_new junk sz = Inr s \<and>
      (if k \<le> sz
       then \<exists>s'. SelfTest incr ArrayStack_Push ArrayStack_Pop ArrayStack_Full ArrayStack_Empty n k s out =
              Some (Inr (s', out @ map Pushing (count_up incr n (nat k)) @ map Popping (rev (count_up incr n (nat k))))) \<and> array_rep s' []
       else SelfTest incr ArrayStack_Push ArrayStack_Pop ArrayStack_Full ArrayStack_Empty n k s out = Some (Inl AssertFailed)) \<and>
      (\<exists>s'. Stack_SelfTest incr n s out =
         Some (Inr (s', out @ map Pushing (count_up incr n (nat sz)) @ map Popping (rev (count_up incr n (nat sz))))) \<and> array_rep s' [])) \<and>
    (\<exists>l l'. SelfTest incr ListStack_Push ListStack_Pop ListStack_Full ListStack_Empty n k (List_init h b) out =
       Some (Inr (l, out @ map Pushing (count_up incr n (nat k)) @ map Popping (rev (count_up incr n (nat k))))) \<and>
       List_delete l = Some (Inr l') \<and> store l' = h)"
proof (rule conjI, goal_cases)
  case 1
  obtain s where "ArrayStack_new junk sz = Inr s" using ArrayStack_new_rep [OF assms(1)] by blast
  then show ?case using array_self_tests [of junk sz s] by simp
next
  case 2
  show ?case by (rule list_self_tests [OF assms(2), of incr n k out]) blast
qed

theorem stack_self_tests_witness:
  "\<exists>l l'. SelfTest (\<lambda>n. n + 1) ListStack_Push ListStack_Pop ListStack_Full ListStack_Empty (17 :: int) 3 (List_init Map.empty 0) [] =
     Some (Inr (l, [Pushing 17, Pushing 18, Pushing 19, Popping 19, Popping 18, Popping 17])) \<and> List_delete l = Some (Inr l')"
proof -
  have "count_up (\<lambda>n. n + 1) (17 :: int) (nat 3) = [17, 18, 19]" by code_simp
  then show ?thesis using stack_self_tests [of 1 Map.empty 0 "\<lambda>_. 0" 3 "\<lambda>n. n + 1" "17 :: int" "[]"] by auto
qed

text \<open>The programs run to the end and print the numbers 17 to 26, the template also the characters \<open>a\<close> to \<open>j\<close>.\<close>

lemma stack_programs:
  assumes "dom h \<subseteq> {..<b}"
  defines "test \<equiv> map Pushing [17..26] @ map Popping (rev [17..26])"
  shows "stack_main junk = Some (Inr test)"
    and "inherit_main junk h b = Some (Inr (Testing ''ArrayStack'' # test @ Testing ''ListStack'' # test))"
    and "template_main junk cjunk = Some (Inr (Testing ''Stack<int>'' # test, Testing ''Stack<char>'' # map Pushing (map (\<lambda>i. 97 + of_nat i) [0..<10]) @ map Popping (rev (map (\<lambda>i. 97 + of_nat i) [0..<10]))))"
proof -
  have c: "count_up (\<lambda>n. n + 1) 17 (nat 10) = [17..26::int]" by code_simp
  have "((\<lambda>n. n + 1) ^^ i) 97 = (97 + of_nat i :: u8)" for i by (induction i) simp_all
  then have d: "count_up (\<lambda>n. n + 1) (97 :: u8) (nat 10) = map (\<lambda>i. 97 + of_nat i) [0..<10]" by (simp add: count_up_def)
  obtain s where s: "ArrayStack_new junk 10 = Inr s" using ArrayStack_new_rep [of 10 junk] by auto
  obtain cs where cs: "ArrayStack_new cjunk 10 = Inr cs" using ArrayStack_new_rep [of 10 cjunk] by auto
  have t: "\<exists>s'. SelfTest (\<lambda>n. n + 1) ArrayStack_Push ArrayStack_Pop ArrayStack_Full ArrayStack_Empty 17 10 s out = Some (Inr (s', out @ test))"
      "\<exists>s'. Stack_SelfTest (\<lambda>n. n + 1) 17 s out = Some (Inr (s', out @ test))" for out
    using array_self_tests(1) [OF s, of 10 "\<lambda>n. n + 1" 17 out] array_self_tests(3) [OF s, of "\<lambda>n. n + 1" 17 out] unfolding c test_def by auto
  have ct: "\<exists>s'. Stack_SelfTest (\<lambda>n. n + 1) (97 :: u8) cs [Testing ''Stack<char>''] =
      Some (Inr (s', Testing ''Stack<char>'' # map Pushing (map (\<lambda>i. 97 + of_nat i) [0..<10]) @ map Popping (rev (map (\<lambda>i. 97 + of_nat i) [0..<10]))))"
    using array_self_tests(3) [OF cs, of "\<lambda>n. n + 1" 97 "[Testing ''Stack<char>'']"] unfolding d by auto
  show "stack_main junk = Some (Inr test)" using s t(2) [of "[]"] by (auto simp: stack_main_def)
  show "template_main junk cjunk = Some (Inr (Testing ''Stack<int>'' # test, Testing ''Stack<char>'' # map Pushing (map (\<lambda>i. 97 + of_nat i) [0..<10]) @ map Popping (rev (map (\<lambda>i. 97 + of_nat i) [0..<10]))))"
    using s t(2) [of "[Testing ''Stack<int>'']"] cs ct by (auto simp: template_main_def)
  obtain l l' where "SelfTest (\<lambda>n. n + 1) ListStack_Push ListStack_Pop ListStack_Full ListStack_Empty 17 10 (List_init h b) (Testing ''ArrayStack'' # test @ [Testing ''ListStack'']) =
      Some (Inr (l, Testing ''ArrayStack'' # test @ Testing ''ListStack'' # test))" "List_delete l = Some (Inr l')"
    by (rule list_self_tests [OF assms(1), of "\<lambda>n. n + 1" 17 10 "Testing ''ArrayStack'' # test @ [Testing ''ListStack'']", unfolded c, folded test_def]) simp
  then show "inherit_main junk h b = Some (Inr (Testing ''ArrayStack'' # test @ Testing ''ListStack'' # test))"
    using s t(1) [of "[Testing ''ArrayStack'']"] by (auto simp: inherit_main_def)
qed

end
