(* ===== verification/Host_Interface.thy ===== *)
theory Host_Interface
  imports Disk
begin

text \<open>
  The interface to the host, \<^verbatim>\<open>code/lib/sysdep.cc\<close>, as compiled for Linux. The system calls are not part of the program: they
  are the functions of the record \<open>host\<close>, on a state of the host that stays abstract, and every routine of the file is defined from them. The named
  hypothesis \<open>regular_file\<close> states what POSIX documents of \<^verbatim>\<open>lseek\<close>, \<^verbatim>\<open>read\<close> and \<^verbatim>\<open>write\<close> on the descriptor of a regular file. The theorems show that the
  wrappers give exactly the operations on byte lists that the model of the disk uses, or abort, and what the retry loop of \<^verbatim>\<open>SendToSocket\<close> does.
\<close>

section \<open>System calls\<close>

record 'h host =
  sys_open_create :: "string \<Rightarrow> 'h \<Rightarrow> 'h \<times> int"          \<comment> \<open>\<^verbatim>\<open>open(name, O_RDWR|O_CREAT|O_TRUNC, 0666)\<close>\<close>
  sys_open :: "string \<Rightarrow> 'h \<Rightarrow> 'h \<times> int"                 \<comment> \<open>\<^verbatim>\<open>open(name, O_RDWR, 0)\<close>\<close>
  sys_read :: "int \<Rightarrow> int \<Rightarrow> 'h \<Rightarrow> 'h \<times> int \<times> u8 list"   \<comment> \<open>the result and the bytes put into the buffer\<close>
  sys_write :: "int \<Rightarrow> u8 list \<Rightarrow> 'h \<Rightarrow> 'h \<times> int"
  sys_lseek :: "int \<Rightarrow> int \<Rightarrow> int \<Rightarrow> 'h \<Rightarrow> 'h \<times> int"
  sys_close :: "int \<Rightarrow> 'h \<Rightarrow> 'h \<times> int"
  sys_unlink :: "string \<Rightarrow> 'h \<Rightarrow> 'h \<times> int"
  sys_select :: "int \<Rightarrow> int \<Rightarrow> 'h \<Rightarrow> 'h \<times> int"            \<comment> \<open>number of descriptors looked at, the one asked for\<close>
  sys_socket :: "'h \<Rightarrow> 'h \<times> int"
  sys_bind :: "int \<Rightarrow> string \<Rightarrow> 'h \<Rightarrow> 'h \<times> int"
  sys_recvfrom :: "int \<Rightarrow> int \<Rightarrow> 'h \<Rightarrow> 'h \<times> int \<times> u8 list"
  sys_sendto :: "int \<Rightarrow> u8 list \<Rightarrow> string \<Rightarrow> 'h \<Rightarrow> 'h \<times> int"
  sys_sleep :: "int \<Rightarrow> 'h \<Rightarrow> 'h"
  sys_srand :: "u32 \<Rightarrow> 'h \<Rightarrow> 'h"
  sys_rand :: "'h \<Rightarrow> 'h \<times> int"

definition SEEK_SET :: int where "SEEK_SET = 0"
definition SEEK_CUR :: int where "SEEK_CUR = 1"

section \<open>Routines\<close>

definition Delay :: "'h host \<Rightarrow> int \<Rightarrow> 'h \<Rightarrow> 'h" where
  "Delay H seconds h = sys_sleep H (uint (word_of_int seconds :: u32)) h"

definition RandomInit :: "'h host \<Rightarrow> u32 \<Rightarrow> 'h \<Rightarrow> 'h" where
  "RandomInit H seed h = sys_srand H seed h"

definition host_RandomNumber :: "'h host \<Rightarrow> 'h \<Rightarrow> 'h \<times> u32" where
  "host_RandomNumber H h = (let (h, r) = sys_rand H h in (h, word_of_int r))"

text \<open>\<^verbatim>\<open>AllocBoundedArray\<close> where the host has no \<^verbatim>\<open>mprotect\<close>: the array is plain memory, with what \<^verbatim>\<open>new\<close> leaves in it.\<close>

definition AllocBoundedArray :: "(nat \<Rightarrow> u8) \<Rightarrow> int \<Rightarrow> u8 list" where
  "AllocBoundedArray junk sz = map junk [0..<nat sz]"

definition PollFile :: "'h host \<Rightarrow> int \<Rightarrow> 'h \<Rightarrow> ('h \<times> bool) outcome" where
  "PollFile H fd h =
     (let (h, retVal) = sys_select H 32 fd h in
      bindR (ASSERT (retVal = 0 \<or> retVal = 1)) (\<lambda>_. if retVal = 0 then Inr (h, False) else Inr (h, True)))"

definition OpenForWrite :: "'h host \<Rightarrow> string \<Rightarrow> 'h \<Rightarrow> ('h \<times> int) outcome" where
  "OpenForWrite H name h = (let (h, fd) = sys_open_create H name h in bindR (ASSERT (fd \<ge> 0)) (\<lambda>_. Inr (h, fd)))"

definition OpenForReadWrite :: "'h host \<Rightarrow> string \<Rightarrow> bool \<Rightarrow> 'h \<Rightarrow> ('h \<times> int) outcome" where
  "OpenForReadWrite H name crashOnError h =
     (let (h, fd) = sys_open H name h in bindR (ASSERT (\<not> crashOnError \<or> fd \<ge> 0)) (\<lambda>_. Inr (h, fd)))"

definition host_Read :: "'h host \<Rightarrow> int \<Rightarrow> int \<Rightarrow> 'h \<Rightarrow> ('h \<times> u8 list) outcome" where
  "host_Read H fd nBytes h = (let (h, retVal, buffer) = sys_read H fd nBytes h in bindR (ASSERT (retVal = nBytes)) (\<lambda>_. Inr (h, buffer)))"

definition ReadPartial :: "'h host \<Rightarrow> int \<Rightarrow> int \<Rightarrow> 'h \<Rightarrow> 'h \<times> int \<times> u8 list" where
  "ReadPartial H fd nBytes h = sys_read H fd nBytes h"

definition WriteFile :: "'h host \<Rightarrow> int \<Rightarrow> u8 list \<Rightarrow> 'h \<Rightarrow> 'h outcome" where
  "WriteFile H fd buffer h = (let (h, retVal) = sys_write H fd buffer h in bindR (ASSERT (retVal = int (length buffer))) (\<lambda>_. Inr h))"

definition Lseek :: "'h host \<Rightarrow> int \<Rightarrow> int \<Rightarrow> int \<Rightarrow> 'h \<Rightarrow> 'h outcome" where
  "Lseek H fd offset whence h = (let (h, retVal) = sys_lseek H fd offset whence h in bindR (ASSERT (retVal \<ge> 0)) (\<lambda>_. Inr h))"

definition Tell :: "'h host \<Rightarrow> int \<Rightarrow> 'h \<Rightarrow> 'h \<times> int" where
  "Tell H fd h = sys_lseek H fd 0 SEEK_CUR h"

definition host_Close :: "'h host \<Rightarrow> int \<Rightarrow> 'h \<Rightarrow> ('h \<times> int) outcome" where
  "host_Close H fd h = (let (h, retVal) = sys_close H fd h in bindR (ASSERT (retVal \<ge> 0)) (\<lambda>_. Inr (h, retVal)))"

text \<open>\<^verbatim>\<open>unlink\<close> returns 0 when it succeeds, so the \<^verbatim>\<open>bool\<close> is true when the file could not be deleted.\<close>

definition Unlink :: "'h host \<Rightarrow> string \<Rightarrow> 'h \<Rightarrow> 'h \<times> bool" where
  "Unlink H name h = (let (h, r) = sys_unlink H name h in (h, r \<noteq> 0))"

definition OpenSocket :: "'h host \<Rightarrow> 'h \<Rightarrow> ('h \<times> int) outcome" where
  "OpenSocket H h = (let (h, sockID) = sys_socket H h in bindR (ASSERT (sockID \<ge> 0)) (\<lambda>_. Inr (h, sockID)))"

definition CloseSocket :: "'h host \<Rightarrow> int \<Rightarrow> 'h \<Rightarrow> 'h" where
  "CloseSocket H sockID h = fst (sys_close H sockID h)"

text \<open>\<^verbatim>\<open>strcpy\<close> into the 108 bytes of \<^verbatim>\<open>sun_path\<close>, with the terminating zero.\<close>

definition InitSocketName :: "string \<Rightarrow> string outcome" where
  "InitSocketName name = (if length name < 108 then Inr name else Inl OutOfBounds)"

definition AssignNameToSocket :: "'h host \<Rightarrow> string \<Rightarrow> int \<Rightarrow> 'h \<Rightarrow> 'h outcome" where
  "AssignNameToSocket H socketName sockID h =
     (let (h, _) = sys_unlink H socketName h in
      bindR (InitSocketName socketName) (\<lambda>uName.
      let (h, retVal) = sys_bind H sockID uName h in
      bindR (ASSERT (retVal \<ge> 0)) (\<lambda>_. Inr h)))"

definition DeAssignNameToSocket :: "'h host \<Rightarrow> string \<Rightarrow> 'h \<Rightarrow> 'h" where
  "DeAssignNameToSocket H socketName h = fst (sys_unlink H socketName h)"

definition PollSocket :: "'h host \<Rightarrow> int \<Rightarrow> 'h \<Rightarrow> ('h \<times> bool) outcome" where
  "PollSocket = PollFile"

definition ReadFromSocket :: "'h host \<Rightarrow> int \<Rightarrow> int \<Rightarrow> 'h \<Rightarrow> ('h \<times> u8 list) outcome" where
  "ReadFromSocket H sockID packetSize h =
     (let (h, retVal, buffer) = sys_recvfrom H sockID packetSize h in
      bindR (ASSERT (retVal = packetSize)) (\<lambda>_. Inr (h, buffer)))"

text \<open>The loop of \<^verbatim>\<open>SendToSocket\<close>, with the attempts that are left.\<close>

fun send_retry :: "nat \<Rightarrow> 'h host \<Rightarrow> int \<Rightarrow> u8 list \<Rightarrow> string \<Rightarrow> 'h \<Rightarrow> 'h outcome" where
  "send_retry 0 H sockID buffer uName h = Inr h"
| "send_retry (Suc left) H sockID buffer uName h =
     (let (h, retVal) = sys_sendto H sockID buffer uName h in
      if retVal = int (length buffer) then Inr h
      else bindR (ASSERT (retVal < 0)) (\<lambda>_. send_retry left H sockID buffer uName (Delay H 1 h)))"

definition SendToSocket :: "'h host \<Rightarrow> int \<Rightarrow> u8 list \<Rightarrow> string \<Rightarrow> 'h \<Rightarrow> 'h outcome" where
  "SendToSocket H sockID buffer toName h =
     bindR (InitSocketName toName) (\<lambda>uName. send_retry 10 H sockID buffer uName h)"

section \<open>Regular files\<close>

text \<open>
  \<open>at fd h\<close> is the contents and the offset behind the descriptor \<open>fd\<close>. POSIX: \<^verbatim>\<open>lseek\<close> sets the offset and returns it; \<^verbatim>\<open>read\<close> returns fewer bytes than asked
  for only at the end of a regular file; \<^verbatim>\<open>write\<close> writes some first part of the data (all of it unless the host runs out of space), filling a gap
  with zeros, or returns -1 and changes nothing.
\<close>

definition regular_file :: "'h host \<Rightarrow> (int \<Rightarrow> 'h \<Rightarrow> (u8 list \<times> int) option) \<Rightarrow> int \<Rightarrow> bool" where
  "regular_file H at fd \<longleftrightarrow> (\<forall>h f off.
     at fd h = Some (f, off) \<longrightarrow>
     (\<forall>new. 0 \<le> new \<longrightarrow> (\<exists>h'. sys_lseek H fd new SEEK_SET h = (h', new) \<and> at fd h' = Some (f, new))) \<and>
     (\<exists>h'. sys_lseek H fd 0 SEEK_CUR h = (h', off) \<and> at fd h' = Some (f, off)) \<and>
     (\<forall>n. 0 \<le> n \<longrightarrow> 0 \<le> off \<longrightarrow> (\<exists>h'. sys_read H fd n h = (h', int (length (file_read f off n)), file_read f off n) \<and>
        at fd h' = Some (f, off + int (length (file_read f off n))))) \<and>
     (\<forall>data. 0 \<le> off \<longrightarrow> (\<exists>h'. (\<exists>k \<le> length data. sys_write H fd data h = (h', int k) \<and>
          at fd h' = Some (if k = 0 then f else file_write f off (take k data), off + int k)) \<or>
        sys_write H fd data h = (h', - 1) \<and> at fd h' = Some (f, off))))"

lemma file_read_short: "0 \<le> off \<Longrightarrow> 0 \<le> n \<Longrightarrow> int (length (file_read f off n)) = n \<longleftrightarrow> n = 0 \<or> off + n \<le> int (length f)"
  by (auto simp: file_read_def nat_le_iff)

lemma regular_fileD:
  assumes "regular_file H at fd" and "at fd h = Some (f, off)"
  shows "0 \<le> new \<Longrightarrow> \<exists>h'. sys_lseek H fd new SEEK_SET h = (h', new) \<and> at fd h' = Some (f, new)"
    and "\<exists>h'. sys_lseek H fd 0 SEEK_CUR h = (h', off) \<and> at fd h' = Some (f, off)"
    and "0 \<le> n \<Longrightarrow> 0 \<le> off \<Longrightarrow> \<exists>h'. sys_read H fd n h = (h', int (length (file_read f off n)), file_read f off n) \<and>
        at fd h' = Some (f, off + int (length (file_read f off n)))"
    and "0 \<le> off \<Longrightarrow> \<exists>h'. (\<exists>k \<le> length data. sys_write H fd data h = (h', int k) \<and>
          at fd h' = Some (if k = 0 then f else file_write f off (take k data), off + int k)) \<or>
        sys_write H fd data h = (h', - 1) \<and> at fd h' = Some (f, off)"
  using assms unfolding regular_file_def by blast+

lemma file_read_write_any: "0 \<le> off \<Longrightarrow> file_read (file_write f off d) off (int (length d)) = d"
  by (simp add: file_read_def file_write_def Let_def)

lemma seek_read:
  assumes "regular_file H at fd" and "at fd h = Some (f, p)" and "0 \<le> off" and "0 \<le> n"
  shows "if n = 0 \<or> off + n \<le> int (length f)
    then \<exists>h'. bindR (Lseek H fd off SEEK_SET h) (host_Read H fd n) = Inr (h', file_read f off n) \<and> at fd h' = Some (f, off + n)
    else bindR (Lseek H fd off SEEK_SET h) (host_Read H fd n) = Inl AssertFailed"
proof -
  obtain h1 where h1: "sys_lseek H fd off SEEK_SET h = (h1, off)" "at fd h1 = Some (f, off)" using regular_fileD(1) [OF assms(1-3)] by blast
  obtain h2 where "sys_read H fd n h1 = (h2, int (length (file_read f off n)), file_read f off n)"
    "at fd h2 = Some (f, off + int (length (file_read f off n)))" using regular_fileD(3) [OF assms(1) h1(2) assms(4,3)] by blast
  then show ?thesis using h1(1) assms(3) file_read_short [OF assms(3,4), of f] by (auto simp: Lseek_def host_Read_def)
qed

lemma seek_write:
  assumes "regular_file H at fd" and "at fd h = Some (f, p)" and "0 \<le> off"
  shows "bindR (Lseek H fd off SEEK_SET h) (WriteFile H fd data) = Inl AssertFailed \<or>
    (\<exists>h'. bindR (Lseek H fd off SEEK_SET h) (WriteFile H fd data) = Inr h' \<and>
       at fd h' = Some (if data = [] then f else file_write f off data, off + int (length data)))"
proof -
  obtain h1 where h1: "sys_lseek H fd off SEEK_SET h = (h1, off)" "at fd h1 = Some (f, off)" using regular_fileD(1) [OF assms(1-3)] by blast
  then have l: "Lseek H fd off SEEK_SET h = Inr h1" using assms(3) by (simp add: Lseek_def)
  from regular_fileD(4) [OF assms(1) h1(2) assms(3), of data] show ?thesis
  proof (elim exE disjE conjE)
    fix h2 k assume k: "k \<le> length data" "sys_write H fd data h1 = (h2, int k)"
      "at fd h2 = Some (if k = 0 then f else file_write f off (take k data), off + int k)"
    then show ?thesis using l by (cases "k = length data") (simp_all add: WriteFile_def)
  next
    fix h2 assume "sys_write H fd data h1 = (h2, - 1)"
    then show ?thesis using l by (simp add: WriteFile_def)
  qed
qed

section \<open>Properties\<close>


text \<open>A host with one file of at most 1000 bytes behind descriptor 3; a longer write is cut off.\<close>

definition demo_host :: "(u8 list \<times> int) host" where
  "demo_host = \<lparr>sys_open_create = (\<lambda>_ h. (h, - 1)), sys_open = (\<lambda>_ h. (h, 3)),
     sys_read = (\<lambda>_ n (f, off). ((f, off + int (length (file_read f off n))), int (length (file_read f off n)), file_read f off n)),
     sys_write = (\<lambda>_ data (f, off). if off + int (length data) \<le> 1000 \<and> data \<noteq> [] then ((file_write f off data, off + int (length data)), int (length data)) else ((f, off), 0)),
     sys_lseek = (\<lambda>_ new whence (f, off). let off = (if whence = SEEK_SET then new else off + new) in ((f, off), off)),
     sys_close = (\<lambda>_ h. (h, 0)), sys_unlink = (\<lambda>_ h. (h, 0)), sys_select = (\<lambda>_ _ h. (h, 0)), sys_socket = (\<lambda>h. (h, - 1)),
     sys_bind = (\<lambda>_ _ h. (h, - 1)), sys_recvfrom = (\<lambda>_ _ h. (h, - 1, [])), sys_sendto = (\<lambda>_ _ _ h. (h, - 1)), sys_sleep = (\<lambda>_ h. h),
     sys_srand = (\<lambda>_ h. h), sys_rand = (\<lambda>h. (h, 0))\<rparr>"

lemma demo_host_regular: "regular_file demo_host (\<lambda>fd h. if fd = 3 then Some h else None) 3"
  unfolding regular_file_def by (auto simp: demo_host_def SEEK_SET_def SEEK_CUR_def Let_def intro: exI [of _ 0])


text \<open>The state before the attempt with number \<open>k\<close> to send a packet, and the result of that attempt, when those before have failed.\<close>

definition attempt_state :: "'h host \<Rightarrow> int \<Rightarrow> u8 list \<Rightarrow> string \<Rightarrow> 'h \<Rightarrow> nat \<Rightarrow> 'h" where
  "attempt_state H sock buffer name h k = ((\<lambda>h. Delay H 1 (fst (sys_sendto H sock buffer name h))) ^^ k) h"

definition attempt_result :: "'h host \<Rightarrow> int \<Rightarrow> u8 list \<Rightarrow> string \<Rightarrow> 'h \<Rightarrow> nat \<Rightarrow> int" where
  "attempt_result H sock buffer name h k = snd (sys_sendto H sock buffer name (attempt_state H sock buffer name h k))"

lemma attempt_Suc:
  "attempt_state H sock buffer name h (Suc k) = attempt_state H sock buffer name (Delay H 1 (fst (sys_sendto H sock buffer name h))) k"
  "attempt_result H sock buffer name h (Suc k) = attempt_result H sock buffer name (Delay H 1 (fst (sys_sendto H sock buffer name h))) k"
  by (simp_all add: attempt_state_def attempt_result_def funpow_Suc_right del: funpow.simps(2))

lemma send_retry_cases:
  "(\<exists>k<m. (\<forall>j<k. attempt_result H sock buffer name h j < 0) \<and> attempt_result H sock buffer name h k = int (length buffer) \<and>
       send_retry m H sock buffer name h = Inr (fst (sys_sendto H sock buffer name (attempt_state H sock buffer name h k)))) \<or>
   (\<forall>j<m. attempt_result H sock buffer name h j < 0) \<and> send_retry m H sock buffer name h = Inr (attempt_state H sock buffer name h m) \<or>
   (\<exists>k<m. (\<forall>j<k. attempt_result H sock buffer name h j < 0) \<and> 0 \<le> attempt_result H sock buffer name h k \<and>
       attempt_result H sock buffer name h k \<noteq> int (length buffer) \<and> send_retry m H sock buffer name h = Inl AssertFailed)"
proof (induction m arbitrary: h)
  case 0
  show ?case by (simp add: attempt_state_def)
next
  case (Suc m)
  obtain h1 r where r: "sys_sendto H sock buffer name h = (h1, r)" by (cases "sys_sendto H sock buffer name h")
  have z: "attempt_result H sock buffer name h 0 = r" "attempt_state H sock buffer name h 0 = h" using r by (simp_all add: attempt_result_def attempt_state_def)
  consider "r = int (length buffer)" | "r \<noteq> int (length buffer)" "0 \<le> r" | "r < 0" by linarith
  then show ?case
  proof cases
    case 1
    then show ?thesis using r z by (intro disjI1 exI [of _ 0]) simp
  next
    case 2
    then show ?thesis using r z by (intro disjI2 exI [of _ 0]) simp
  next
    case 3
    let ?h = "Delay H 1 h1"
    have s: "attempt_state H sock buffer name h (Suc k) = attempt_state H sock buffer name ?h k"
      "attempt_result H sock buffer name h (Suc k) = attempt_result H sock buffer name ?h k" for k using r by (simp_all add: attempt_Suc)
    have all: "(\<forall>j<Suc k. attempt_result H sock buffer name h j < 0) \<longleftrightarrow> (\<forall>j<k. attempt_result H sock buffer name ?h j < 0)" for k
      using 3 z by (simp add: All_less_Suc2 s)
    have e: "send_retry (Suc m) H sock buffer name h = send_retry m H sock buffer name ?h" using 3 r by simp
    show ?thesis unfolding Ex_less_Suc2 all s e using Suc.IH [of ?h] by blast
  qed
qed

text \<open>
  C37: \<^verbatim>\<open>SendToSocket\<close> makes at most ten attempts, with a pause after each that fails, and always returns unless an assertion fails: it stops at the first attempt that sends the whole
  packet, drops the packet when all ten fail, and fails its assertion at an attempt that sends a part of it. A socket name of 108 characters or more overflows
  the address structure.
\<close>

theorem SendToSocket_retries:
  "if length toName < 108 then
     (\<exists>k<10. (\<forall>j<k. attempt_result H sock buffer toName h j < 0) \<and> attempt_result H sock buffer toName h k = int (length buffer) \<and>
        SendToSocket H sock buffer toName h = Inr (fst (sys_sendto H sock buffer toName (attempt_state H sock buffer toName h k)))) \<or>
     (\<forall>j<10. attempt_result H sock buffer toName h j < 0) \<and> SendToSocket H sock buffer toName h = Inr (attempt_state H sock buffer toName h 10) \<or>
     (\<exists>k<10. (\<forall>j<k. attempt_result H sock buffer toName h j < 0) \<and> 0 \<le> attempt_result H sock buffer toName h k \<and>
        attempt_result H sock buffer toName h k \<noteq> int (length buffer) \<and> SendToSocket H sock buffer toName h = Inl AssertFailed)
   else SendToSocket H sock buffer toName h = Inl OutOfBounds"
  using send_retry_cases [of 10 H sock buffer toName h] by (simp add: SendToSocket_def InitSocketName_def)

theorem SendToSocket_retries_witness:
  "SendToSocket demo_host 4 [1] ''SOCKET_1'' ([], 0) = Inr (attempt_state demo_host 4 [1] ''SOCKET_1'' ([], 0) 10)"
proof -
  have "attempt_result demo_host 4 [1] ''SOCKET_1'' ([], 0) j = - 1" for j by (simp add: attempt_result_def demo_host_def)
  then show ?thesis using SendToSocket_retries [of "''SOCKET_1''" demo_host 4 "[1]" "([], 0)"] by simp
qed

end
