(* ===== verification/Machine_Run.thy ===== *)
theory Machine_Run
  imports Interrupt
begin

text \<open>
  The loop that runs user programs: \<^verbatim>\<open>Machine::Run\<close> of \<^verbatim>\<open>code/machine/mipssim.cc\<close>, which executes an instruction and advances the clock for
  ever, the command loop of \<^verbatim>\<open>Machine::Debugger\<close> (\<^verbatim>\<open>machine.cc\<close>), and the flags of \<^verbatim>\<open>debug.cc\<close>. The loop never returns, so it is defined by the number
  of its iterations and the properties hold for every number. The debugger reads the stream \<^verbatim>\<open>cin\<close>; a failed read of an
  \<^verbatim>\<open>istream\<close> makes all later ones fail until the state is cleared, which nothing here does. Its number is taken to fit an \<^verbatim>\<open>int\<close>.
\<close>

section \<open>Debug flags\<close>

text \<open>\<^verbatim>\<open>strchr\<close> also finds the zero that ends the string.\<close>

definition strchr_found :: "string \<Rightarrow> char \<Rightarrow> bool" where
  "strchr_found str c \<longleftrightarrow> c \<in> set str \<or> c = CHR 0x00"

definition IsEnabled :: "string option \<Rightarrow> char \<Rightarrow> bool" where
  "IsEnabled enableFlags flag =
     (case enableFlags of Some fs \<Rightarrow> strchr_found fs flag \<or> strchr_found fs CHR ''+'' | None \<Rightarrow> False)"

section \<open>The debugger\<close>

record istream =
  input :: string
  failed :: bool

text \<open>\<^verbatim>\<open>cin.get(buf, 80)\<close>: at most 79 characters, up to the newline; it fails when it stores none.\<close>

definition get_line :: "istream \<Rightarrow> string \<times> istream" where
  "get_line i =
     (if failed i then ([], i)
      else let line = take 79 (takeWhile (\<lambda>c. c \<noteq> CHR 0x0A) (input i))
           in (line, i\<lparr>input := drop (length line) (input i), failed := line = []\<rparr>))"

definition get_char :: "istream \<Rightarrow> istream" where
  "get_char i = (if failed i \<or> input i = [] then i\<lparr>failed := True\<rparr> else i\<lparr>input := tl (input i)\<rparr>)"

text \<open>\<^verbatim>\<open>sscanf(buf, "%d", &num)\<close>: white space, a sign, digits.\<close>

definition is_space :: "char \<Rightarrow> bool" where
  "is_space c \<longleftrightarrow> c \<in> set [CHR '' '', CHR 0x09, CHR 0x0A, CHR 0x0B, CHR 0x0C, CHR 0x0D]"

definition is_digit :: "char \<Rightarrow> bool" where
  "is_digit c \<longleftrightarrow> 48 \<le> (of_char c :: nat) \<and> (of_char c :: nat) \<le> 57"

definition digits_value :: "string \<Rightarrow> int" where
  "digits_value ds = foldl (\<lambda>n c. 10 * n + (int (of_char c) - 48)) 0 ds"

definition scan_int :: "string \<Rightarrow> int option" where
  "scan_int buf =
     (let s = dropWhile is_space buf;
          (sign, s) = (case s of c # cs \<Rightarrow> if c = CHR ''-'' then (- 1, cs) else if c = CHR ''+'' then (1, cs) else (1, s) | [] \<Rightarrow> (1, s));
          ds = takeWhile is_digit s
      in if ds = [] then None else Some (sign * digits_value ds))"

text \<open>The \<^verbatim>\<open>while (!done)\<close> loop: the rest of the input, \<^verbatim>\<open>runUntilTime\<close> and \<^verbatim>\<open>singleStep\<close>.\<close>

function debugger_loop :: "istream \<Rightarrow> bool \<Rightarrow> istream \<times> int \<times> bool" where
  "debugger_loop i step =
     (let (buf, i) = get_line i in
      case scan_int buf of
        Some num \<Rightarrow> (get_char i, num, step)
      | None \<Rightarrow>
          (case buf of
             [] \<Rightarrow> (get_char i, 0, step)
           | c # _ \<Rightarrow> if c = CHR ''c'' then (get_char i, 0, False) else debugger_loop (get_char i) step))"
  by pat_completeness auto

lemma get_char_shorter: "length (input (get_char i)) \<le> length (input i)"
  by (simp add: get_char_def)

lemma get_line_shorter: "get_line i = (c # cs, i') \<Longrightarrow> length (input i') < length (input i)"
proof -
  assume g: "get_line i = (c # cs, i')"
  let ?l = "take 79 (takeWhile (\<lambda>c. c \<noteq> CHR 0x0A) (input i))"
  have e: "?l = c # cs" "input i' = drop (length ?l) (input i)" using g by (auto simp: get_line_def Let_def split: if_splits)
  then have "input i \<noteq> []" by auto
  then show "length (input i') < length (input i)" unfolding e(2) e(1) by simp
qed

termination debugger_loop
proof (relation "measure (\<lambda>(i, _). length (input i))", goal_cases)
  case (2 i step x buf i' c cs)
  then show ?case using get_line_shorter [of i c cs i'] get_char_shorter [of i'] by (metis case_prod_conv in_measure le_less_trans)
qed simp

declare debugger_loop.simps [simp del]

record user_run = alarm +
  runUntilTime :: int
  cin :: istream

definition Debugger :: "'w user_run_scheme \<Rightarrow> machine \<Rightarrow> 'w user_run_scheme" where
  "Debugger s m =
     (let (i, until, step) = debugger_loop (cin s) (singleStep m)
      in s\<lparr>cin := i, runUntilTime := until, kmachine := Some (m\<lparr>singleStep := step\<rparr>)\<rparr>)"

section \<open>The loop\<close>

text \<open>One iteration; \<open>H\<close> is the exception handler, \<open>yield\<close> the context switch. The mode is one field of the interrupt object, which the instruction may have changed.\<close>

definition run_once :: "handler \<Rightarrow> (user_run \<Rightarrow> user_run outcome) \<Rightarrow> user_run \<Rightarrow> user_run outcome" where
  "run_once H yield s =
     (case kmachine s of
        None \<Rightarrow> Inl NullPointer
      | Some m \<Rightarrow>
          bindR (OneInstruction H m) (\<lambda>m.
          bindR (OneTick alarm_call yield (s\<lparr>kmachine := Some m, istatus := status m\<rparr>)) (\<lambda>s.
          case kmachine s of
            None \<Rightarrow> Inl NullPointer
          | Some m \<Rightarrow> Inr (if singleStep m \<and> runUntilTime s \<le> totalTicks s then Debugger s m else s))))"

definition set_user_mode :: "user_run \<Rightarrow> user_run" where
  "set_user_mode s = s\<lparr>istatus := UserMode, kmachine := map_option (\<lambda>m. m\<lparr>status := UserMode\<rparr>) (kmachine s)\<rparr>"

text \<open>The first \<open>n\<close> iterations of \<^verbatim>\<open>Run\<close>.\<close>

definition Machine_Run :: "handler \<Rightarrow> (user_run \<Rightarrow> user_run outcome) \<Rightarrow> nat \<Rightarrow> user_run \<Rightarrow> user_run outcome" where
  "Machine_Run H yield n s = forR [0..<n] (\<lambda>_. run_once H yield) (set_user_mode s)"

section \<open>Invariant of the loop\<close>

lemma kmachine_Schedule: "Schedule c n ty s = Inr s' \<Longrightarrow> kmachine s' = kmachine s"
  by (auto simp: Schedule_def bindR_eq_Inr Let_def)

lemma kmachine_alarm: "alarm_call c s = Inr s' \<Longrightarrow> kmachine s' = kmachine s"
  by (auto simp: alarm_call_def Timer_CallBack_def Alarm_CallBack_def YieldOnReturn_def SetInterrupt_def RandomNumber_def bindR_eq_Inr Let_def
      split: callback.splits if_splits prod.splits dest: kmachine_Schedule)

lemma kmachine_fire: "fire_loop n alarm_call s = Inr s' \<Longrightarrow> kmachine s' = kmachine s"
proof (induction n arbitrary: s)
  case (Suc n)
  obtain rest p where p: "list_RemoveFront (pending s) = Inr (rest, p)" using Suc.prems by (auto simp: bindR_eq_Inr)
  then obtain s1 where s1: "alarm_call (callOnInterrupt p) (s\<lparr>pending := rest\<rparr>) = Inr s1" using Suc.prems by (auto simp: bindR_eq_Inr)
  then have "s' = s1 \<or> fire_loop n alarm_call s1 = Inr s'" using Suc.prems p by (auto split: if_splits)
  then show ?case using Suc.IH [of s1] kmachine_alarm [OF s1] by auto
qed simp

lemma kmachine_CheckIfDue: "CheckIfDue alarm_call b s = Inr (s', fired) \<Longrightarrow> kmachine s' = None \<longleftrightarrow> kmachine s = None"
  by (auto simp: CheckIfDue_def machine_DelayedLoad_def bindR_eq_Inr Let_def split: list.splits if_splits option.splits
      simp del: fire_loop.simps dest!: kmachine_fire)

definition run_ok :: "'w alarm_scheme \<Rightarrow> bool" where
  "run_ok s \<longleftrightarrow> intr_ok s \<and> timer_only s \<and> \<not> inHandler s \<and> kmachine s \<noteq> None"

text \<open>What the loop asks of a context switch: when the thread runs again, the system is well formed and the clock has not gone back.\<close>

definition yield_ok :: "('w alarm_scheme \<Rightarrow> 'w alarm_scheme outcome) \<Rightarrow> bool" where
  "yield_ok yield \<longleftrightarrow> (\<forall>s. run_ok s \<longrightarrow> returns (\<lambda>s'. run_ok s' \<and> totalTicks s \<le> totalTicks s') (yield s))"

lemma run_ok_fields [simp]:
  "run_ok (s\<lparr>yieldOnReturn := b\<rparr>) = run_ok s" "run_ok (s\<lparr>istatus := st\<rparr>) = run_ok s"
  by (simp_all add: run_ok_def timer_only_def)

lemma OneTick_run:
  assumes s: "run_ok s" and y: "yield_ok yield"
  shows "returns (\<lambda>s'. run_ok s' \<and> totalTicks s < totalTicks s') (OneTick alarm_call yield s)"
proof -
  define s0 where "s0 = ChangeLevel IntOn IntOff (if istatus s = SystemMode
      then s\<lparr>totalTicks := totalTicks s + SystemTick, systemTicks := systemTicks s + SystemTick\<rparr>
      else s\<lparr>totalTicks := totalTicks s + UserTick, userTicks := userTicks s + UserTick\<rparr>)"
  have s0: "intr_ok s0" "timer_only s0" "level s0 = IntOff" "\<not> inHandler s0" "kmachine s0 \<noteq> None" "totalTicks s < totalTicks s0"
    using s by (auto simp: s0_def run_ok_def ChangeLevel_def intr_ok_def ticks_ok_def pending_ok_def timer_only_def SystemTick_def UserTick_def)
  obtain s1 b where c: "CheckIfDue alarm_call False s0 = Inr (s1, b)" "intr_ok s1" "timer_only s1" "\<not> inHandler s1" "totalTicks s1 = totalTicks s0"
    using clock.CheckIfDue_ok [OF s0(1-4), of False] by (auto simp: returns_iff clock.next_time_def)
  define s2 where "s2 = ChangeLevel IntOff IntOn s1"
  have s2: "run_ok s2" "totalTicks s < totalTicks s2"
    using c s0(5,6) kmachine_CheckIfDue [OF c(1)] by (auto simp: s2_def run_ok_def ChangeLevel_def timer_only_def)
  have e: "OneTick alarm_call yield s = (if yieldOnReturn s2
      then bindR (yield (s2\<lparr>yieldOnReturn := False, istatus := SystemMode\<rparr>)) (\<lambda>s'. Inr (s'\<lparr>istatus := istatus s\<rparr>)) else Inr s2)"
    using c(1) by (simp add: OneTick_def s0_def s2_def Let_def)
  have "returns (\<lambda>s'. run_ok s' \<and> totalTicks s2 \<le> totalTicks s') (yield (s2\<lparr>yieldOnReturn := False, istatus := SystemMode\<rparr>))"
    using y [unfolded yield_ok_def, rule_format, of "s2\<lparr>yieldOnReturn := False, istatus := SystemMode\<rparr>"] s2(1) by simp
  then show ?thesis unfolding e using s2 by (auto simp: returns_iff)
qed

lemma machine_ok_step [simp]: "machine_ok (m\<lparr>singleStep := b\<rparr>) = machine_ok m" "machine_ok (m\<lparr>status := st\<rparr>) = machine_ok m"
proof -
  have t: "translation_ok (m\<lparr>singleStep := b\<rparr>) = translation_ok m" by (simp add: translation_ok_def split: option.splits)
  have r: "reg (m\<lparr>singleStep := b\<rparr>) k = reg m k" "reg (m\<lparr>status := st\<rparr>) k = reg m k" for k by (simp_all add: reg_def)
  show "machine_ok (m\<lparr>singleStep := b\<rparr>) = machine_ok m" "machine_ok (m\<lparr>status := st\<rparr>) = machine_ok m"
    unfolding machine_ok_def machine_shape_def t r translation_ok_regs by simp_all
qed

lemma Debugger_ok: "run_ok s \<Longrightarrow> kmachine s = Some m \<Longrightarrow> run_ok (Debugger s m) \<and> totalTicks (Debugger s m) = totalTicks s"
  by (auto simp: Debugger_def run_ok_def intr_ok_def pending_ok_def ticks_ok_def timer_only_def split: prod.splits)

text \<open>The next instruction is \<^verbatim>\<open>DIV\<close> of the smallest integer by -1.\<close>

definition at_div_trap :: "'w alarm_scheme \<Rightarrow> bool" where
  "at_div_trap s \<longleftrightarrow> (\<exists>m i. kmachine s = Some m \<and> fetch m = Some i \<and> div_traps i m)"

lemma run_once_ok:
  assumes s: "run_ok s" and h: "handler_ok H" and y: "yield_ok yield"
  shows "(\<exists>s'. run_once H yield s = Inr s' \<and> run_ok s' \<and> totalTicks s < totalTicks s') \<or> run_once H yield s = Inl HostTrap \<and> at_div_trap s"
proof -
  obtain m where m: "kmachine s = Some m" "machine_ok m" using s by (auto simp: run_ok_def intr_ok_def)
  show ?thesis
  proof (cases "\<exists>i. fetch m = Some i \<and> div_traps i m")
    case True
    then show ?thesis using OneInstruction_div [OF m(2)] m(1) by (auto simp: run_once_def at_div_trap_def)
  next
    case False
    then obtain m1 where m1: "OneInstruction H m = Inr m1" "machine_ok m1"
      using OneInstruction_step [OF h m(2)] by (auto simp: returns_iff step_ok_def)
    have "run_ok (s\<lparr>kmachine := Some m1, istatus := status m1\<rparr>)"
      using s m1(2) by (simp add: run_ok_def intr_ok_def pending_ok_def ticks_ok_def timer_only_def)
    from OneTick_run [OF this y] obtain s1 where s1: "OneTick alarm_call yield (s\<lparr>kmachine := Some m1, istatus := status m1\<rparr>) = Inr s1"
      "run_ok s1" "totalTicks s < totalTicks s1" by (auto simp: returns_iff)
    obtain m2 where "kmachine s1 = Some m2" using s1(2) by (auto simp: run_ok_def)
    then show ?thesis using m(1) m1(1) s1 Debugger_ok [OF s1(2)] by (simp add: run_once_def)
  qed
qed

section \<open>Properties\<close>


definition demo_run :: user_run where
  "demo_run = \<lparr>totalTicks = 0, idleTicks = 0, systemTicks = 0, userTicks = 0, numDiskReads = 0, numDiskWrites = 0, numConsoleCharsRead = 0,
     numConsoleCharsWritten = 0, numPageFaults = 0, numPacketsSent = 0, numPacketsRecvd = 0, level = IntOn,
     pending = [\<lparr>address = 0, callOnInterrupt = TimerCall, whenDue = 100, itype = TimerInt\<rparr>], inHandler = False, yieldOnReturn = False,
     istatus = UserMode, nextAddress = 1, kmachine = Some demo_machine, randomize = False, disable = False, randomValue = (\<lambda>_. 0), randomCount = 0,
     runUntilTime = 0, cin = \<lparr>input = ''c'', failed = False\<rparr>\<rparr>"

lemma demo_run_ok: "run_ok demo_run"
  using demo_machine_ok by (simp add: demo_run_def run_ok_def intr_ok_def pending_ok_def ticks_ok_def timer_only_def)

lemma demo_yield_ok: "yield_ok Inr"
  by (simp add: yield_ok_def)


text \<open>
  The debugger always gives control back. A line with a number sets the time to run until, a line that starts with \<open>c\<close> ends single stepping, and any other line that is not empty is followed by the next prompt, each
  line being consumed with its newline. After an empty line, which should execute one instruction, the newline stays in the input and the stream has failed, and from then on
  every call returns at once without reading anything: no later command can be given, and single stepping never ends.
\<close>

theorem Debugger_commands:
  assumes "\<not> failed i" and "input i = l @ CHR 0x0A # rest" and "CHR 0x0A \<notin> set l" and "length l \<le> 79"
  shows "debugger_loop i step =
      (case scan_int l of Some n \<Rightarrow> (i\<lparr>input := rest\<rparr>, n, step)
       | None \<Rightarrow> (case l of [] \<Rightarrow> (i\<lparr>failed := True\<rparr>, 0, step)
           | c # _ \<Rightarrow> if c = CHR ''c'' then (i\<lparr>input := rest\<rparr>, 0, False) else debugger_loop (i\<lparr>input := rest\<rparr>) step)) \<and>
    debugger_loop (i\<lparr>failed := True\<rparr>) step = (i\<lparr>failed := True\<rparr>, 0, step)"
proof
  have tw: "takeWhile (\<lambda>c. c \<noteq> CHR 0x0A) (input i) = l" unfolding assms(2) using assms(3) by (subst takeWhile_append2) auto
  then have g: "get_line i = (l, i\<lparr>input := CHR 0x0A # rest, failed := l = []\<rparr>)"
    using assms by (simp add: get_line_def Let_def)
  have c: "get_char (i\<lparr>input := CHR 0x0A # rest, failed := False\<rparr>) = i\<lparr>input := rest\<rparr>"
    "l = [] \<Longrightarrow> get_char (i\<lparr>input := CHR 0x0A # rest, failed := True\<rparr>) = i\<lparr>failed := True\<rparr>"
    using assms(1,2) by (cases i; simp add: get_char_def)+
  have n: "scan_int [] = None" by (simp add: scan_int_def)
  show "debugger_loop i step =
      (case scan_int l of Some n \<Rightarrow> (i\<lparr>input := rest\<rparr>, n, step)
       | None \<Rightarrow> (case l of [] \<Rightarrow> (i\<lparr>failed := True\<rparr>, 0, step)
           | c # _ \<Rightarrow> if c = CHR ''c'' then (i\<lparr>input := rest\<rparr>, 0, False) else debugger_loop (i\<lparr>input := rest\<rparr>) step))"
    by (subst debugger_loop.simps) (auto simp: g c n split: option.splits list.splits)
  show "debugger_loop (i\<lparr>failed := True\<rparr>) step = (i\<lparr>failed := True\<rparr>, 0, step)"
    by (subst debugger_loop.simps) (simp add: get_line_def get_char_def n)
qed

theorem Debugger_commands_witness:
  "debugger_loop \<lparr>input = ''250'' @ CHR 0x0A # ''c'', failed = False\<rparr> True = (\<lparr>input = ''c'', failed = False\<rparr>, 250, True)"
proof -
  have "scan_int ''250'' = Some 250" by code_simp
  then show ?thesis using Debugger_commands [of "\<lparr>input = ''250'' @ CHR 0x0A # ''c'', failed = False\<rparr>" "''250''" "''c''" True] by simp
qed

text \<open>Which messages are printed: all with the flag \<open>+\<close>, those named otherwise, and none without flags.\<close>

lemma IsEnabled_iff: "flag \<noteq> CHR 0x00 \<Longrightarrow> IsEnabled fs flag \<longleftrightarrow> (\<exists>l. fs = Some l \<and> (flag \<in> set l \<or> CHR ''+'' \<in> set l))"
  by (auto simp: IsEnabled_def strchr_found_def split: option.splits)

end
