(* ===== verification/Synch_List.thy ===== *)
theory Synch_List
  imports Main
begin

text \<open>
  The synchronised list of \<^verbatim>\<open>code/threads/synchlist.cc\<close>: a list with a lock and a condition variable, used by the mailboxes of the
  post office. Every thread is somewhere in a call of \<^verbatim>\<open>Append\<close> or \<^verbatim>\<open>RemoveFront\<close>; a step takes one thread from one use of
  the lock, the condition or the list to the next, in any order. The lock and the condition are used through
  what \<^verbatim>\<open>synch.cc\<close> does with them: \<^verbatim>\<open>Acquire\<close> takes a free lock; \<^verbatim>\<open>Wait\<close> puts the thread at the end of the queue and frees the lock; \<^verbatim>\<open>Signal\<close> takes
  the first thread from the queue, which then has to take the lock again (so another thread may come before it). The
  theorems show that the list is a queue, that no wakeup is lost and that no state is stuck.
\<close>

section \<open>Calls in progress\<close>

datatype 'a pc =
    Outside
  | AppendAcquire 'a      \<comment> \<open>\<^verbatim>\<open>Append\<close>: at \<^verbatim>\<open>lock->Acquire()\<close>\<close>
  | AppendItem 'a         \<comment> \<open>at \<^verbatim>\<open>list->Append(item)\<close>\<close>
  | AppendSignal          \<comment> \<open>at \<^verbatim>\<open>listEmpty->Signal(lock)\<close>\<close>
  | AppendRelease         \<comment> \<open>at \<^verbatim>\<open>lock->Release()\<close>\<close>
  | RemoveAcquire         \<comment> \<open>\<^verbatim>\<open>RemoveFront\<close>: at \<^verbatim>\<open>lock->Acquire()\<close>\<close>
  | RemoveTest            \<comment> \<open>at \<^verbatim>\<open>while (list->IsEmpty())\<close>\<close>
  | RemoveWaiting         \<comment> \<open>in \<^verbatim>\<open>listEmpty->Wait(lock)\<close>, in the queue\<close>
  | RemoveWoken           \<comment> \<open>in \<^verbatim>\<open>listEmpty->Wait(lock)\<close>, signalled, taking the lock again\<close>
  | RemoveRelease 'a      \<comment> \<open>at \<^verbatim>\<open>lock->Release()\<close> with the item\<close>
  | ApplyAcquire          \<comment> \<open>\<^verbatim>\<open>Apply\<close>: at \<^verbatim>\<open>lock->Acquire()\<close>\<close>
  | ApplyList             \<comment> \<open>at \<^verbatim>\<open>list->Apply(func)\<close>\<close>
  | ApplyRelease          \<comment> \<open>at \<^verbatim>\<open>lock->Release()\<close>\<close>

record 'a synch_list =
  items :: "'a list"
  lock :: "nat option"
  listEmpty :: "nat list"
  pcs :: "nat \<Rightarrow> 'a pc"

definition SynchList_new :: "'a synch_list" where
  "SynchList_new = \<lparr>items = [], lock = None, listEmpty = [], pcs = (\<lambda>_. Outside)\<rparr>"

definition at :: "nat \<Rightarrow> 'a pc \<Rightarrow> 'a synch_list \<Rightarrow> 'a synch_list" where
  "at t p s = s\<lparr>pcs := (pcs s)(t := p)\<rparr>"

text \<open>One step of thread \<open>t\<close>; the argument of a call and the item it returns are in the step of the call and of the return.\<close>

inductive Append_step :: "nat \<Rightarrow> 'a \<Rightarrow> 'a synch_list \<Rightarrow> 'a synch_list \<Rightarrow> bool" where
  call: "pcs s t = Outside \<Longrightarrow> Append_step t x s (at t (AppendAcquire x) s)"
| acquire: "pcs s t = AppendAcquire x \<Longrightarrow> lock s = None \<Longrightarrow> Append_step t x s (at t (AppendItem x) (s\<lparr>lock := Some t\<rparr>))"
| append: "pcs s t = AppendItem x \<Longrightarrow> Append_step t x s (at t AppendSignal (s\<lparr>items := items s @ [x]\<rparr>))"
| signal: "pcs s t = AppendSignal \<Longrightarrow> listEmpty s = w # ws \<Longrightarrow> Append_step t x s (at t AppendRelease (at w RemoveWoken (s\<lparr>listEmpty := ws\<rparr>)))"
| no_waiter: "pcs s t = AppendSignal \<Longrightarrow> listEmpty s = [] \<Longrightarrow> Append_step t x s (at t AppendRelease s)"
| release: "pcs s t = AppendRelease \<Longrightarrow> Append_step t x s (at t Outside (s\<lparr>lock := None\<rparr>))"

inductive RemoveFront_step :: "nat \<Rightarrow> 'a option \<Rightarrow> 'a synch_list \<Rightarrow> 'a synch_list \<Rightarrow> bool" where
  call: "pcs s t = Outside \<Longrightarrow> RemoveFront_step t None s (at t RemoveAcquire s)"
| acquire: "pcs s t = RemoveAcquire \<Longrightarrow> lock s = None \<Longrightarrow> RemoveFront_step t None s (at t RemoveTest (s\<lparr>lock := Some t\<rparr>))"
| wait: "pcs s t = RemoveTest \<Longrightarrow> items s = [] \<Longrightarrow>
    RemoveFront_step t None s (at t RemoveWaiting (s\<lparr>listEmpty := listEmpty s @ [t], lock := None\<rparr>))"
| reacquire: "pcs s t = RemoveWoken \<Longrightarrow> lock s = None \<Longrightarrow> RemoveFront_step t None s (at t RemoveTest (s\<lparr>lock := Some t\<rparr>))"
| take_item: "pcs s t = RemoveTest \<Longrightarrow> items s = x # xs \<Longrightarrow> RemoveFront_step t (Some x) s (at t (RemoveRelease x) (s\<lparr>items := xs\<rparr>))"
| release: "pcs s t = RemoveRelease x \<Longrightarrow> RemoveFront_step t None s (at t Outside (s\<lparr>lock := None\<rparr>))"

text \<open>\<^verbatim>\<open>Apply\<close> calls \<^verbatim>\<open>func\<close> on the items in the step that has them.\<close>

inductive Apply_step :: "nat \<Rightarrow> 'a list \<Rightarrow> 'a synch_list \<Rightarrow> 'a synch_list \<Rightarrow> bool" where
  call: "pcs s t = Outside \<Longrightarrow> Apply_step t [] s (at t ApplyAcquire s)"
| acquire: "pcs s t = ApplyAcquire \<Longrightarrow> lock s = None \<Longrightarrow> Apply_step t [] s (at t ApplyList (s\<lparr>lock := Some t\<rparr>))"
| apply_list: "pcs s t = ApplyList \<Longrightarrow> Apply_step t (items s) s (at t ApplyRelease s)"
| release: "pcs s t = ApplyRelease \<Longrightarrow> Apply_step t [] s (at t Outside (s\<lparr>lock := None\<rparr>))"

text \<open>\<open>ins\<close> has the items put into the list and \<open>outs\<close> those taken out, with the thread, in order.\<close>

inductive sl_run :: "'a synch_list \<Rightarrow> 'a list \<Rightarrow> (nat \<times> 'a) list \<Rightarrow> bool" where
  start: "sl_run SynchList_new [] []"
| append: "sl_run s ins outs \<Longrightarrow> Append_step t x s s' \<Longrightarrow> sl_run s' (if pcs s t = AppendItem x then ins @ [x] else ins) outs"
| remove: "sl_run s ins outs \<Longrightarrow> RemoveFront_step t r s s' \<Longrightarrow> sl_run s' ins (case r of None \<Rightarrow> outs | Some x \<Rightarrow> outs @ [(t, x)])"
| apply_func: "sl_run s ins outs \<Longrightarrow> Apply_step t xs s s' \<Longrightarrow> sl_run s' ins outs"

section \<open>Invariant\<close>

definition holding :: "'a pc \<Rightarrow> bool" where
  "holding p \<longleftrightarrow> (case p of AppendItem _ \<Rightarrow> True | AppendSignal \<Rightarrow> True | AppendRelease \<Rightarrow> True | RemoveTest \<Rightarrow> True | RemoveRelease _ \<Rightarrow> True
     | ApplyList \<Rightarrow> True | ApplyRelease \<Rightarrow> True | _ \<Rightarrow> False)"

text \<open>Threads that will look at the list, or wake one that will.\<close>

definition will_look :: "'a pc \<Rightarrow> bool" where
  "will_look p \<longleftrightarrow> p = RemoveWoken \<or> p = RemoveTest \<or> p = AppendSignal"

definition lookers :: "(nat \<Rightarrow> 'a pc) \<Rightarrow> nat set" where
  "lookers f = {t. will_look (f t)}"

definition sl_inv :: "'a synch_list \<Rightarrow> bool" where
  "sl_inv s \<longleftrightarrow> (\<forall>t. holding (pcs s t) \<longleftrightarrow> lock s = Some t) \<and> distinct (listEmpty s) \<and> (\<forall>t. t \<in> set (listEmpty s) \<longleftrightarrow> pcs s t = RemoveWaiting) \<and>
     finite {t. pcs s t \<noteq> Outside} \<and> (listEmpty s \<noteq> [] \<longrightarrow> length (items s) \<le> card (lookers (pcs s)))"

lemma pcs_at [simp]: "pcs (at t p s) = (pcs s)(t := p)" "items (at t p s) = items s" "lock (at t p s) = lock s" "listEmpty (at t p s) = listEmpty s"
  by (simp_all add: at_def)

lemma lookers_upd: "lookers (f(t := p)) = (if will_look p then insert t (lookers f) else lookers f - {t})"
  by (auto simp: lookers_def)

lemma finite_lookers: "finite {t. f t \<noteq> Outside} \<Longrightarrow> finite (lookers f)"
  by (rule finite_subset) (auto simp: lookers_def will_look_def)

lemma finite_upd: "finite {t. f t \<noteq> Outside} \<Longrightarrow> finite {t. (f(a := p)) t \<noteq> Outside}"
  by (rule finite_subset [of _ "insert a {t. f t \<noteq> Outside}"]) auto

lemmas pc_simps = holding_def will_look_def lookers_upd

lemma sl_invD:
  assumes "sl_inv s"
  shows "holding (pcs s t) \<longleftrightarrow> lock s = Some t" "distinct (listEmpty s)" "t \<in> set (listEmpty s) \<longleftrightarrow> pcs s t = RemoveWaiting"
    "finite (lookers (pcs s))" "listEmpty s = [] \<or> length (items s) \<le> card (lookers (pcs s))"
  using assms finite_lookers unfolding sl_inv_def by blast+

lemma sl_inv_finite: "sl_inv s \<Longrightarrow> finite {t. pcs s t \<noteq> Outside}"
  by (simp add: sl_inv_def)

text \<open>A step of a thread that keeps the queue of the condition and the list.\<close>

lemma sl_inv_upd:
  assumes s: "sl_inv s" and q: "pcs s' = (pcs s)(t := p)" "listEmpty s' = listEmpty s"
    and l: "lock s' = (if holding p then Some t else if holding (pcs s t) then None else lock s)"
      "holding p \<Longrightarrow> holding (pcs s t) \<or> lock s = None"
    and w: "p \<noteq> RemoveWaiting" "pcs s t \<noteq> RemoveWaiting"
    and n: "listEmpty s = [] \<or> length (items s') \<le> card (lookers ((pcs s)(t := p)))"
  shows "sl_inv s'"
proof -
  have "finite {u. pcs s' u \<noteq> Outside}" using finite_upd [OF sl_inv_finite [OF s]] q(1) by simp
  moreover have "holding (pcs s' u) \<longleftrightarrow> lock s' = Some u" for u
    using sl_invD(1) [OF s, of u] sl_invD(1) [OF s, of t] l q(1) by auto
  moreover have "u \<in> set (listEmpty s') \<longleftrightarrow> pcs s' u = RemoveWaiting" for u
    using sl_invD(3) [OF s, of u] sl_invD(3) [OF s, of t] w q by auto
  ultimately show ?thesis using sl_invD(2) [OF s] n q unfolding sl_inv_def by auto
qed

lemma card_upd:
  assumes "finite (lookers f)"
  shows "will_look (f t) \<longrightarrow> will_look p \<Longrightarrow> card (lookers f) \<le> card (lookers (f(t := p)))"
    and "\<not> will_look (f t) \<Longrightarrow> will_look p \<Longrightarrow> card (lookers (f(t := p))) = Suc (card (lookers f))"
    and "card (lookers f) \<le> Suc (card (lookers (f(t := p))))"
proof -
  have m: "t \<in> lookers f \<longleftrightarrow> will_look (f t)" by (simp add: lookers_def)
  show "will_look (f t) \<longrightarrow> will_look p \<Longrightarrow> card (lookers f) \<le> card (lookers (f(t := p)))"
    and "\<not> will_look (f t) \<Longrightarrow> will_look p \<Longrightarrow> card (lookers (f(t := p))) = Suc (card (lookers f))"
    and "card (lookers f) \<le> Suc (card (lookers (f(t := p))))"
    using assms m by (auto simp: lookers_upd card_insert_if card_Diff_singleton_if)
qed

lemma sl_inv_upd_same:
  assumes "sl_inv s" "pcs s' = (pcs s)(t := p)" "listEmpty s' = listEmpty s" "items s' = items s"
    and "lock s' = (if holding p then Some t else if holding (pcs s t) then None else lock s)"
      "holding p \<Longrightarrow> holding (pcs s t) \<or> lock s = None"
    and "p \<noteq> RemoveWaiting" "pcs s t \<noteq> RemoveWaiting" "will_look (pcs s t) \<longrightarrow> will_look p \<or> listEmpty s = []"
  shows "sl_inv s'"
proof (rule sl_inv_upd [OF assms(1-3,5-8)])
  show "listEmpty s = [] \<or> length (items s') \<le> card (lookers ((pcs s)(t := p)))"
    using card_upd(1) [OF sl_invD(4) [OF assms(1)], of t p] sl_invD(5) [OF assms(1)] assms(4,9) by (cases "listEmpty s = []") auto
qed

lemma holder: "sl_inv s \<Longrightarrow> holding (pcs s t) \<Longrightarrow> lock s = Some t"
  by (simp add: sl_invD(1))

lemma Append_step_inv: "Append_step t x s s' \<Longrightarrow> sl_inv s \<Longrightarrow> sl_inv s'"
proof (induction rule: Append_step.induct)
  case (append s t x)
  show ?case
    using append holder [OF append(2), of t] card_upd(2) [OF sl_invD(4) [OF append(2)], of t AppendSignal] sl_invD(5) [OF append(2)]
    by (intro sl_inv_upd [OF append(2), where t = t and p = AppendSignal]) (auto simp: pc_simps)
next
  case (signal s t w ws x)
  note inv = signal(3)
  have w: "pcs s w = RemoveWaiting" "w \<noteq> t" "w \<notin> set ws" "distinct ws" using sl_invD(2) [OF inv] sl_invD(3) [OF inv, of w] signal by auto
  have c: "card (lookers ((pcs s)(w := RemoveWoken, t := AppendRelease))) = card (lookers (pcs s))"
    using sl_invD(4) [OF inv] w signal by (simp add: lookers_upd will_look_def card_insert_if) (auto simp: lookers_def will_look_def card_gt_0_iff)
  have f: "finite {u. ((pcs s)(w := RemoveWoken, t := AppendRelease)) u \<noteq> Outside}"
    by (rule finite_upd [OF finite_upd [OF sl_inv_finite [OF inv]]])
  have "holding (((pcs s)(w := RemoveWoken, t := AppendRelease)) u) \<longleftrightarrow> lock s = Some u" for u
    using sl_invD(1) [OF inv, of u] w signal by (auto simp: holding_def)
  moreover have "u \<in> set ws \<longleftrightarrow> ((pcs s)(w := RemoveWoken, t := AppendRelease)) u = RemoveWaiting" for u
    using sl_invD(3) [OF inv, of u] w signal by auto
  ultimately show ?case using f c w sl_invD(5) [OF inv] signal(2) unfolding sl_inv_def by simp
qed (rule sl_inv_upd_same, assumption, auto simp: pc_simps holder)+

lemma RemoveFront_step_inv: "RemoveFront_step t r s s' \<Longrightarrow> sl_inv s \<Longrightarrow> sl_inv s'"
proof (induction rule: RemoveFront_step.induct)
  case (wait s t)
  have f: "finite {u. ((pcs s)(t := RemoveWaiting)) u \<noteq> Outside}" by (rule finite_upd [OF sl_inv_finite [OF wait(3)]])
  have "holding (((pcs s)(t := RemoveWaiting)) u) \<longleftrightarrow> None = Some u" for u
    using sl_invD(1) [OF wait(3), of u] sl_invD(1) [OF wait(3), of t] wait(1) by (auto simp: holding_def)
  then show ?case using f sl_invD(2,3) [OF wait(3)] wait(1,2) unfolding sl_inv_def by auto
next
  case (take_item s t x xs)
  show ?case
    using take_item holder [OF take_item(3), of t] card_upd(3) [OF sl_invD(4) [OF take_item(3)], of t "RemoveRelease x"] sl_invD(5) [OF take_item(3)]
    by (intro sl_inv_upd [OF take_item(3), where t = t and p = "RemoveRelease x"]) (auto simp: pc_simps)
qed (rule sl_inv_upd_same, assumption, auto simp: pc_simps holder)+

lemma Apply_step_inv: "Apply_step t xs s s' \<Longrightarrow> sl_inv s \<Longrightarrow> sl_inv s'"
  by (induction rule: Apply_step.induct) (rule sl_inv_upd_same, assumption, auto simp: pc_simps holder)+

lemma sl_run_inv: "sl_run s ins outs \<Longrightarrow> sl_inv s \<and> ins = map snd outs @ items s"
proof (induction rule: sl_run.induct)
  case start
  show ?case by (simp add: sl_inv_def SynchList_new_def holding_def)
next
  case (append s ins outs t x s')
  then show ?case using Append_step_inv by (auto elim: Append_step.cases)
next
  case (remove s ins outs t r s')
  then show ?case using RemoveFront_step_inv by (auto elim: RemoveFront_step.cases)
next
  case (apply_func s ins outs t xs s')
  then show ?case using Apply_step_inv by (auto elim: Apply_step.cases)
qed

section \<open>Progress\<close>

text \<open>A thread in the middle of a call that is not in the queue of the condition.\<close>

definition busy :: "'a pc \<Rightarrow> bool" where
  "busy p \<longleftrightarrow> p \<noteq> Outside \<and> p \<noteq> RemoveWaiting"

definition sl_enabled :: "'a synch_list \<Rightarrow> nat \<Rightarrow> bool" where
  "sl_enabled s t \<longleftrightarrow> busy (pcs s t) \<and> (\<exists>s'. (\<exists>x. Append_step t x s s') \<or> (\<exists>r. RemoveFront_step t r s s') \<or> (\<exists>xs. Apply_step t xs s s'))"

lemma holder_enabled:
  assumes "holding (pcs s t)"
  shows "sl_enabled s t"
proof (cases "pcs s t")
  case (AppendItem x)
  then show ?thesis unfolding sl_enabled_def busy_def using Append_step.append by fastforce
next
  case AppendSignal
  then show ?thesis unfolding sl_enabled_def busy_def using Append_step.signal Append_step.no_waiter
    by (cases "listEmpty s") fastforce+
next
  case AppendRelease
  then show ?thesis unfolding sl_enabled_def busy_def using Append_step.release by fastforce
next
  case RemoveTest
  then show ?thesis unfolding sl_enabled_def busy_def using RemoveFront_step.wait RemoveFront_step.take_item
    by (cases "items s") fastforce+
next
  case (RemoveRelease x)
  then show ?thesis unfolding sl_enabled_def busy_def using RemoveFront_step.release by fastforce
next
  case ApplyList
  then show ?thesis unfolding sl_enabled_def busy_def using Apply_step.apply_list by fastforce
next
  case ApplyRelease
  then show ?thesis unfolding sl_enabled_def busy_def using Apply_step.release by fastforce
qed (use assms in \<open>auto simp: holding_def\<close>)

lemma free_enabled:
  assumes "busy (pcs s t)" "\<not> holding (pcs s t)" "lock s = None"
  shows "sl_enabled s t"
proof (cases "pcs s t")
  case (AppendAcquire x)
  then show ?thesis using assms unfolding sl_enabled_def using Append_step.acquire by fastforce
next
  case RemoveAcquire
  then show ?thesis using assms unfolding sl_enabled_def using RemoveFront_step.acquire by fastforce
next
  case RemoveWoken
  then show ?thesis using assms unfolding sl_enabled_def using RemoveFront_step.reacquire by fastforce
next
  case ApplyAcquire
  then show ?thesis using assms unfolding sl_enabled_def using Apply_step.acquire by fastforce
qed (use assms in \<open>auto simp: holding_def busy_def\<close>)

lemma sl_progress: "sl_inv s \<Longrightarrow> busy (pcs s t) \<Longrightarrow> \<exists>u. sl_enabled s u"
  by (cases "lock s") (use free_enabled holder_enabled sl_invD(1) in \<open>metis option.distinct(1)\<close>)+

lemma idle_lookers:
  assumes "\<And>t. \<not> busy (pcs s t)"
  shows "lookers (pcs s) = {}"
proof -
  have "\<not> will_look (pcs s t)" for t using assms [of t] unfolding will_look_def busy_def by (elim contrapos_nn) auto
  then show ?thesis by (simp add: lookers_def)
qed


text \<open>Thread 1 waits in \<^verbatim>\<open>RemoveFront\<close>, thread 0 appends 7 and wakes it.\<close>

lemma synch_list_example:
  "\<exists>s. sl_run s [7::nat] [] \<and> items s = [7] \<and> pcs s 1 = RemoveWoken \<and> pcs s 0 = AppendRelease"
proof -
  define s1 :: "nat synch_list" where "s1 = at 1 RemoveAcquire SynchList_new"
  define s2 where "s2 = at 1 RemoveTest (s1\<lparr>lock := Some 1\<rparr>)"
  define s3 where "s3 = at 1 RemoveWaiting (s2\<lparr>listEmpty := listEmpty s2 @ [1], lock := None\<rparr>)"
  define s4 where "s4 = at 0 (AppendAcquire 7) s3"
  define s5 where "s5 = at 0 (AppendItem 7) (s4\<lparr>lock := Some 0\<rparr>)"
  define s6 where "s6 = at 0 AppendSignal (s5\<lparr>items := items s5 @ [7]\<rparr>)"
  define s7 where "s7 = at 0 AppendRelease (at 1 RemoveWoken (s6\<lparr>listEmpty := []\<rparr>))"
  note d = s1_def s2_def s3_def s4_def s5_def s6_def s7_def SynchList_new_def at_def
  have "RemoveFront_step 1 None SynchList_new s1" unfolding s1_def by (rule RemoveFront_step.call) (simp add: d)
  from sl_run.remove [OF sl_run.start this] have 1: "sl_run s1 [] []" by simp
  have "RemoveFront_step 1 None s1 s2" unfolding s2_def by (rule RemoveFront_step.acquire) (simp_all add: d)
  from sl_run.remove [OF 1 this] have 2: "sl_run s2 [] []" by simp
  have "RemoveFront_step 1 None s2 s3" unfolding s3_def by (rule RemoveFront_step.wait) (simp_all add: d)
  from sl_run.remove [OF 2 this] have 3: "sl_run s3 [] []" by simp
  have "Append_step 0 7 s3 s4" unfolding s4_def by (rule Append_step.call) (simp add: d)
  from sl_run.append [OF 3 this] have 4: "sl_run s4 [] []" by (simp add: d)
  have "Append_step 0 7 s4 s5" unfolding s5_def by (rule Append_step.acquire) (simp_all add: d)
  from sl_run.append [OF 4 this] have 5: "sl_run s5 [] []" by (simp add: d)
  have "Append_step 0 7 s5 s6" unfolding s6_def by (rule Append_step.append) (simp add: d)
  from sl_run.append [OF 5 this] have 6: "sl_run s6 [7] []" by (simp add: d)
  have "Append_step 0 7 s6 s7" unfolding s7_def by (rule Append_step.signal) (simp_all add: d)
  from sl_run.append [OF 6 this] have "sl_run s7 [7] []" by (simp add: d)
  then show ?thesis by (intro exI [of _ s7]) (simp add: d)
qed


end
