(* ===== verification/Synch_List_Test.thy ===== *)
theory Synch_List_Test
  imports Nachos_Prelude Synch_List
begin

text \<open>
  The self test of \<^verbatim>\<open>code/threads/synchlist.cc\<close>: the tested list and a second one, \<^verbatim>\<open>selfTestPing\<close>, between which two threads bounce a value ten times. \<open>Synch_List\<close>
  shows that \<^verbatim>\<open>Append\<close> and \<^verbatim>\<open>RemoveFront\<close> act on a list as a queue at one point of the call and that a caller waits only while the list is empty, so here each is one
  step on the queue. The order of the two threads' steps is free.
\<close>

section \<open>The two threads\<close>

datatype main_pc = MainAppend | MainRemove | MainDone
datatype 'a helper_pc = HelperRemove | HelperAppend 'a | HelperDone

record 'a ping_pong =
  this_list :: "'a list"
  selfTestPing :: "'a list"
  main_at :: main_pc
  main_i :: nat
  helper_at :: "'a helper_pc"
  helper_i :: nat

text \<open>The state after \<^verbatim>\<open>helper->Fork\<close>; the test asserts that the list is empty at first.\<close>

definition SelfTest_start :: "'a list \<Rightarrow> 'a ping_pong outcome" where
  "SelfTest_start xs = bindR (ASSERT (xs = [])) (\<lambda>_.
     Inr \<lparr>this_list = xs, selfTestPing = [], main_at = MainAppend, main_i = 0, helper_at = HelperRemove, helper_i = 0\<rparr>)"

text \<open>One step of each thread: \<open>None\<close> when it waits or has finished.\<close>

definition SynchList_SelfTest :: "'a \<Rightarrow> 'a ping_pong \<Rightarrow> 'a ping_pong option outcome" where
  "SynchList_SelfTest val s = (case main_at s of
     MainAppend \<Rightarrow> Inr (Some (s\<lparr>selfTestPing := selfTestPing s @ [val], main_at := MainRemove\<rparr>))
   | MainRemove \<Rightarrow> (case this_list s of
       [] \<Rightarrow> Inr None
     | x # xs \<Rightarrow> bindR (ASSERT (val = x)) (\<lambda>_.
         Inr (Some (s\<lparr>this_list := xs, main_i := main_i s + 1, main_at := if main_i s + 1 < 10 then MainAppend else MainDone\<rparr>))))
   | MainDone \<Rightarrow> Inr None)"

definition SelfTestHelper :: "'a ping_pong \<Rightarrow> 'a ping_pong option" where
  "SelfTestHelper s = (case helper_at s of
     HelperRemove \<Rightarrow> (case selfTestPing s of [] \<Rightarrow> None | x # xs \<Rightarrow> Some (s\<lparr>selfTestPing := xs, helper_at := HelperAppend x\<rparr>))
   | HelperAppend x \<Rightarrow> Some (s\<lparr>this_list := this_list s @ [x], helper_i := helper_i s + 1,
       helper_at := if helper_i s + 1 < 10 then HelperRemove else HelperDone\<rparr>)
   | HelperDone \<Rightarrow> None)"

text \<open>Runs of \<open>n\<close> steps.\<close>

inductive test_run :: "'a \<Rightarrow> nat \<Rightarrow> 'a ping_pong \<Rightarrow> bool" for val where
  start: "SelfTest_start [] = Inr s \<Longrightarrow> test_run val 0 s"
| main: "test_run val n s \<Longrightarrow> SynchList_SelfTest val s = Inr (Some s') \<Longrightarrow> test_run val (Suc n) s'"
| helper: "test_run val n s \<Longrightarrow> SelfTestHelper s = Some s' \<Longrightarrow> test_run val (Suc n) s'"

inductive_cases test_run_elim: "test_run val n s"

section \<open>Invariant\<close>

text \<open>The value is in one place: nowhere, on its way to the helper, with it, or on its way back. \<open>k\<close> rounds are complete.\<close>

datatype phase = Idle | There | Held | Back

fun phase_steps :: "phase \<Rightarrow> nat" where
  "phase_steps Idle = 0"
| "phase_steps There = 1"
| "phase_steps Held = 2"
| "phase_steps Back = 3"

fun test_at :: "'a \<Rightarrow> nat \<Rightarrow> phase \<Rightarrow> 'a ping_pong \<Rightarrow> bool" where
  "test_at val k Idle s \<longleftrightarrow> k \<le> 10 \<and> main_i s = k \<and> this_list s = [] \<and> selfTestPing s = [] \<and> main_at s = (if k < 10 then MainAppend else MainDone) \<and>
     helper_at s = (if k < 10 then HelperRemove else HelperDone) \<and> helper_i s = k"
| "test_at val k There s \<longleftrightarrow> k < 10 \<and> main_i s = k \<and> this_list s = [] \<and> selfTestPing s = [val] \<and> main_at s = MainRemove \<and> helper_at s = HelperRemove \<and> helper_i s = k"
| "test_at val k Held s \<longleftrightarrow> k < 10 \<and> main_i s = k \<and> this_list s = [] \<and> selfTestPing s = [] \<and> main_at s = MainRemove \<and> helper_at s = HelperAppend val \<and> helper_i s = k"
| "test_at val k Back s \<longleftrightarrow> k < 10 \<and> main_i s = k \<and> this_list s = [val] \<and> selfTestPing s = [] \<and> main_at s = MainRemove \<and>
     helper_at s = (if k + 1 < 10 then HelperRemove else HelperDone) \<and> helper_i s = k + 1"

text \<open>The phase and round after the next step.\<close>

fun next_at :: "nat \<Rightarrow> phase \<Rightarrow> nat \<times> phase" where
  "next_at k Idle = (k, There)"
| "next_at k There = (k, Held)"
| "next_at k Held = (k, Back)"
| "next_at k Back = (Suc k, Idle)"

text \<open>Exactly one of the two threads can go on, until both are done.\<close>

lemma test_step:
  assumes "test_at val k p s"
  shows "if k = 10 then p = Idle \<and> SynchList_SelfTest val s = Inr None \<and> SelfTestHelper s = None
    else \<exists>s'. (SynchList_SelfTest val s = Inr (Some s') \<and> SelfTestHelper s = None \<or>
        SynchList_SelfTest val s = Inr None \<and> SelfTestHelper s = Some s') \<and> case_prod (test_at val) (next_at k p) s'"
  using assms by (cases p) (auto simp: SynchList_SelfTest_def SelfTestHelper_def)

lemma test_run_at: "test_run val n s \<Longrightarrow> \<exists>k p. test_at val k p s \<and> n = 4 * k + phase_steps p"
proof (induction rule: test_run.induct)
  case (start s)
  then show ?case by (intro exI [of _ 0] exI [of _ Idle]) (auto simp: SelfTest_start_def)
next
  case (main n s s')
  then obtain k p where k: "test_at val k p s" "n = 4 * k + phase_steps p" by blast
  then have "k \<noteq> 10" "case_prod (test_at val) (next_at k p) s'" using test_step [OF k(1)] main.hyps(2) by (auto split: if_splits)
  then show ?case using k(2) by (cases p) fastforce+
next
  case (helper n s s')
  then obtain k p where k: "test_at val k p s" "n = 4 * k + phase_steps p" by blast
  then have "k \<noteq> 10" "case_prod (test_at val) (next_at k p) s'" using test_step [OF k(1)] helper.hyps(2) by (auto split: if_splits)
  then show ?case using k(2) by (cases p) fastforce+
qed

section \<open>Property\<close>

text \<open>
  In every run of the self test the assertion that the value came back holds, and the test ends: as long as fewer than 40 steps have been made exactly one of the two threads
  can go on and the other waits, no run is longer, and after 40 steps both threads have done their ten rounds and both lists are empty.
\<close>

theorem SynchList_SelfTest_passes:
  assumes "test_run val n s"
  shows "n \<le> 40 \<and> (\<exists>r. SynchList_SelfTest val s = Inr r \<and>
    (if n < 40 then (r = None) \<noteq> (SelfTestHelper s = None)
     else r = None \<and> SelfTestHelper s = None \<and> main_i s = 10 \<and> helper_i s = 10 \<and> this_list s = [] \<and> selfTestPing s = []))"
proof -
  obtain k p where k: "test_at val k p s" "n = 4 * k + phase_steps p" using test_run_at [OF assms] by blast
  have le: "k \<le> 10" using k(1) by (cases p) auto
  show ?thesis
  proof (cases "k = 10")
    case True
    then have "p = Idle" using test_step [OF k(1)] by simp
    then show ?thesis using True k test_step [OF k(1)] by auto
  next
    case False
    then have "n < 40" using k(2) le by (cases p) auto
    then show ?thesis using False test_step [OF k(1)] by auto
  qed
qed

theorem SynchList_SelfTest_passes_witness:
  "\<exists>s. test_run (9 :: int) 1 s \<and> SynchList_SelfTest 9 s = Inr None \<and> SelfTestHelper s \<noteq> None"
proof -
  obtain s0 :: "int ping_pong" where s0: "SelfTest_start [] = Inr s0" "main_at s0 = MainAppend" "this_list s0 = []" by (simp add: SelfTest_start_def)
  have r: "test_run 9 (Suc 0) (s0\<lparr>selfTestPing := selfTestPing s0 @ [9], main_at := MainRemove\<rparr>)"
    by (rule test_run.main [OF test_run.start [OF s0(1)]]) (simp add: SynchList_SelfTest_def s0(2))
  show ?thesis using SynchList_SelfTest_passes [OF r] r s0(3)
    by (intro exI [of _ "s0\<lparr>selfTestPing := selfTestPing s0 @ [9], main_at := MainRemove\<rparr>"]) (auto simp: SynchList_SelfTest_def)
qed

end
