(* ===== verification/Thread_Test.thy ===== *)
theory Thread_Test
  imports Threads
begin

text \<open>
  The self tests of \<^verbatim>\<open>code/threads/thread.cc\<close> and \<^verbatim>\<open>synch.cc\<close> that \<^verbatim>\<open>Kernel::ThreadSelfTest\<close> runs and the test of \<^verbatim>\<open>threadtest.cc\<close>, as lists of frames for the threads of \<open>Threads\<close>: two threads that yield to each other,
  and two that wait for each other on two semaphores. The tests are executed step by step by \<open>thread_step\<close>, from any kernel in which the current
  thread runs alone, without preemption. A line of output is a call of the code that prints it.
\<close>

section \<open>The tests\<close>

text \<open>The code that prints the line ``thread \<open>which\<close> looped \<open>num\<close> times'', and what the next step prints.\<close>

definition line_code :: "nat \<Rightarrow> nat \<Rightarrow> nat" where
  "line_code which num = 3 + 2 * num + which"

definition printed :: "kernel \<Rightarrow> (nat \<times> nat) list" where
  "printed k = (case frames k (currentThread k) of CallCode c # _ \<Rightarrow> if c \<ge> 3 then [((c - 3) mod 2, (c - 3) div 2)] else [] | _ \<Rightarrow> [])"

text \<open>\<^verbatim>\<open>SimpleThread\<close>, with its loop from \<open>num\<close> on.\<close>

definition SimpleThread_from :: "nat \<Rightarrow> nat \<Rightarrow> frame list" where
  "SimpleThread_from which num = concat (map (\<lambda>num. [CallCode (line_code which num), CallYield]) [num..<5])"

definition SimpleThread :: "nat \<Rightarrow> frame list" where
  "SimpleThread which = SimpleThread_from which 0"

text \<open>\<^verbatim>\<open>Thread::SelfTest\<close>, and \<^verbatim>\<open>ThreadTest\<close> of \<^verbatim>\<open>threadtest.cc\<close>, which the option \<^verbatim>\<open>-K\<close> runs: the same without the first \<^verbatim>\<open>Yield\<close>.\<close>

definition Thread_SelfTest :: "frame list" where
  "Thread_SelfTest = [CallFork 1, CallYield] @ SimpleThread 0"

definition ThreadTest :: "frame list" where
  "ThreadTest = CallFork 1 # SimpleThread 0"

text \<open>The loops of the semaphore test, with the rounds that are left. \<open>pong\<close> is the tested semaphore.\<close>

definition pong :: semid where "pong = UserSem 0"
definition ping :: semid where "ping = UserSem 1"

definition main_loop :: "nat \<Rightarrow> frame list" where
  "main_loop n = concat (replicate n [CallV ping, CallP pong])"

definition helper_loop :: "nat \<Rightarrow> frame list" where
  "helper_loop n = concat (replicate n [CallP ping, CallV pong])"

definition Semaphore_SelfTestHelper :: "frame list" where
  "Semaphore_SelfTestHelper = helper_loop 10"

definition Semaphore_SelfTest :: "kernel \<Rightarrow> kernel outcome" where
  "Semaphore_SelfTest k =
     bindR (ASSERT (semValue (sems k pong) = 0)) (\<lambda>_.
     Inr (push (CallFork 2 # main_loop 10) (Semaphore_new ping 0 k)))"

text \<open>The forked functions.\<close>

definition test_prog :: "nat \<Rightarrow> kernel \<Rightarrow> frame list" where
  "test_prog n k = (if n = 1 then SimpleThread 1 else if n = 2 then Semaphore_SelfTestHelper else [])"

section \<open>Runs\<close>

fun run_threads :: "nat \<Rightarrow> kernel \<times> (nat \<times> nat) list \<Rightarrow> (kernel \<times> (nat \<times> nat) list) outcome" where
  "run_threads 0 s = Inr s"
| "run_threads (Suc n) (k, out) = bindR (thread_step test_prog id k) (\<lambda>k'. run_threads n (k', out @ printed k))"

lemma run_threads_add: "run_threads (m + n) s = bindR (run_threads m s) (run_threads n)"
  by (induction m s rule: run_threads.induct) (auto simp: bindR_def split: sum.splits)

text \<open>A run from \<open>k\<close> to \<open>k'\<close> that prints \<open>out\<close>.\<close>

definition reaches :: "kernel \<Rightarrow> (nat \<times> nat) list \<Rightarrow> kernel \<Rightarrow> bool" where
  "reaches k out k' \<longleftrightarrow> (\<exists>n. \<forall>o0. run_threads n (k, o0) = Inr (k', o0 @ out))"

lemma reaches_refl: "reaches k [] k"
  unfolding reaches_def by (rule exI [of _ 0]) simp

lemma reaches_trans: "reaches k out k' \<Longrightarrow> reaches k' out' k'' \<Longrightarrow> reaches k (out @ out') k''"
  unfolding reaches_def
proof (elim exE)
  fix m n assume "\<forall>o0. run_threads m (k, o0) = Inr (k', o0 @ out)" "\<forall>o0. run_threads n (k', o0) = Inr (k'', o0 @ out')"
  then have "\<forall>o0. run_threads (m + n) (k, o0) = Inr (k'', o0 @ out @ out')" by (simp add: run_threads_add)
  then show "\<exists>n. \<forall>o0. run_threads n (k, o0) = Inr (k'', o0 @ out @ out')" by blast
qed

lemma reaches_step: "thread_step test_prog id k = Inr k' \<Longrightarrow> reaches k (printed k) k'"
  unfolding reaches_def by (rule exI [of _ 1]) simp

text \<open>After \<open>n\<close> steps that print nothing, \<open>Q\<close> holds.\<close>

fun quiet :: "nat \<Rightarrow> (kernel \<Rightarrow> bool) \<Rightarrow> kernel \<Rightarrow> bool" where
  "quiet 0 Q k = Q k"
| "quiet (Suc n) Q k = (case thread_step test_prog id k of Inl _ \<Rightarrow> False | Inr k' \<Rightarrow> printed k = [] \<and> quiet n Q k')"

lemma quiet_reaches: "quiet n Q k \<Longrightarrow> \<exists>k'. reaches k [] k' \<and> Q k'"
proof (induction n arbitrary: k)
  case 0
  then show ?case using reaches_refl by auto
next
  case (Suc n)
  then obtain k1 where "thread_step test_prog id k = Inr k1" "printed k = []" "quiet n Q k1" by (auto split: sum.splits)
  then show ?case using Suc.IH [of k1] reaches_step [of k k1] reaches_trans [of k "[]" k1 "[]"] by auto
qed

section \<open>Two threads that yield\<close>

definition alive :: "nat \<Rightarrow> kernel \<Rightarrow> bool" where
  "alive t k \<longleftrightarrow> (\<exists>th. threads k t = Some th \<and> space th = None)"

text \<open>What the test does not touch: other threads and semaphores.\<close>

definition same_others :: "nat set \<Rightarrow> kernel \<Rightarrow> kernel \<Rightarrow> bool" where
  "same_others A k0 k \<longleftrightarrow> (\<forall>t. t \<notin> A \<longrightarrow> threads k t = threads k0 t \<and> frames k t = frames k0 t) \<and>
     (\<forall>s. s \<noteq> ping \<longrightarrow> s \<noteq> pong \<longrightarrow> sems k s = sems k0 s)"

text \<open>Numbers that have not been given to a thread.\<close>

definition fresh :: "kernel \<Rightarrow> bool" where
  "fresh k \<longleftrightarrow> (\<forall>t \<ge> nextThread k. threads k t = None \<and> frames k t = [])"

text \<open>Thread \<open>c\<close> runs with the frames \<open>fs\<close>; thread \<open>d\<close> has yielded and goes on with \<open>gs\<close>.\<close>

definition turn :: "kernel \<Rightarrow> nat \<Rightarrow> frame list \<Rightarrow> nat \<Rightarrow> frame list \<Rightarrow> kernel \<Rightarrow> bool" where
  "turn k0 c fs d gs k \<longleftrightarrow> c \<noteq> d \<and> currentThread k = c \<and> frames k c = fs \<and> klevel k = IntOn \<and> readyList k = [d] \<and>
     frames k d = AfterSwitch # SetLevelBack IntOn # gs \<and> alive c k \<and> alive d k \<and> toBeDestroyed k = None \<and> same_others {c, d} k0 k \<and>
     c < nextThread k \<and> d < nextThread k \<and> nextThread k0 \<le> nextThread k"

lemmas step_simps = thread_step_def push_def Yield_def FindNextToRun_def ReadyToRun_def setStatus_def Run_def SaveUserState_def RestoreUserState_def
  run_AfterSwitch_def CheckToBeDestroyed_def list_Append_def list_RemoveFront_def Let_def eval_nat_numeral printed_def

lemma turn_yield: "turn k0 c (CallYield # fs) d gs k \<Longrightarrow> \<exists>k'. reaches k [] k' \<and> turn k0 d gs c fs k'"
  by (rule quiet_reaches [of 3]) (auto simp: turn_def alive_def same_others_def step_simps)

lemma turn_line:
  "turn k0 c (CallCode (line_code which num) # fs) d gs k \<Longrightarrow> which < 2 \<Longrightarrow> \<exists>k'. reaches k [(which, num)] k' \<and> turn k0 c fs d gs k'"
proof -
  assume t: "turn k0 c (CallCode (line_code which num) # fs) d gs k" and w: "which < 2"
  obtain k' where k': "thread_step test_prog id k = Inr k'" "turn k0 c fs d gs k'"
    using t by (auto simp: turn_def alive_def same_others_def thread_step_def push_def test_prog_def line_code_def)
  have "printed k = [(which, num)]" using t w by (simp add: turn_def printed_def line_code_def)
  then show ?thesis using reaches_step [OF k'(1)] k'(2) by auto
qed

lemma SimpleThread_from_Suc: "num < 5 \<Longrightarrow> SimpleThread_from which num = CallCode (line_code which num) # CallYield # SimpleThread_from which (Suc num)"
  by (simp add: SimpleThread_from_def upt_conv_Cons)

lemma turn_half:
  assumes "turn k0 c (SimpleThread_from which num @ fs) d gs k" and "num < 5" and "which < 2"
  shows "\<exists>k'. reaches k [(which, num)] k' \<and> turn k0 d gs c (SimpleThread_from which (Suc num) @ fs) k'"
proof -
  obtain k1 where k1: "reaches k [(which, num)] k1" "turn k0 c (CallYield # SimpleThread_from which (Suc num) @ fs) d gs k1"
    using turn_line [OF _ assms(3)] assms(1) SimpleThread_from_Suc [OF assms(2)] by fastforce
  then show ?thesis using turn_yield [OF k1(2)] reaches_trans [OF k1(1)] by fastforce
qed

text \<open>The two threads in turn, when the second is \<open>j\<close> rounds ahead.\<close>

lemma turn_rounds:
  "turn k0 d (SimpleThread_from 1 0 @ gs) c (SimpleThread_from 0 j @ fs) k \<Longrightarrow> n + j \<le> 5 \<Longrightarrow>
   \<exists>k'. reaches k (concat (map (\<lambda>num. [(1, num), (0, num + j)]) [0..<n])) k' \<and> turn k0 d (SimpleThread_from 1 n @ gs) c (SimpleThread_from 0 (n + j) @ fs) k'"
proof (induction n)
  case 0
  then show ?case using reaches_refl by auto
next
  case (Suc n)
  then obtain k1 where k1: "reaches k (concat (map (\<lambda>num. [(1, num), (0, num + j)]) [0..<n])) k1"
    "turn k0 d (SimpleThread_from 1 n @ gs) c (SimpleThread_from 0 (n + j) @ fs) k1" by auto
  obtain k2 where k2: "reaches k1 [(1, n)] k2" "turn k0 c (SimpleThread_from 0 (n + j) @ fs) d (SimpleThread_from 1 (Suc n) @ gs) k2"
    using turn_half [OF k1(2)] Suc.prems(2) by auto
  obtain k3 where k3: "reaches k2 [(0, n + j)] k3" "turn k0 d (SimpleThread_from 1 (Suc n) @ gs) c (SimpleThread_from 0 (Suc n + j) @ fs) k3"
    using turn_half [OF k2(2)] Suc.prems(2) by auto
  show ?case using reaches_trans [OF k1(1) reaches_trans [OF k2(1) k3(1)]] k3(2) by auto
qed

text \<open>The current thread runs alone, with the frames \<open>fs\<close>.\<close>

definition alone :: "kernel \<Rightarrow> nat \<Rightarrow> frame list \<Rightarrow> kernel \<Rightarrow> bool" where
  "alone k0 c fs k \<longleftrightarrow> currentThread k = c \<and> frames k c = fs \<and> klevel k = IntOn \<and> readyList k = [] \<and> alive c k \<and> toBeDestroyed k = None \<and>
     same_others {c} k0 k \<and>
     c < nextThread k \<and> nextThread k0 \<le> nextThread k"

lemmas state_defs = alone_def turn_def alive_def same_others_def

lemma alone_fork:
  assumes "alone k0 c (CallFork 1 # CallYield # fs) k"
  shows "\<exists>k'. reaches k [] k' \<and> turn k0 (nextThread k) (SimpleThread 1 @ [CallFinish]) c fs k'"
  by (rule quiet_reaches [of 6]) (use assms in \<open>auto simp: state_defs step_simps Fork_def Begin_def test_prog_def\<close>)

lemma turn_finish:
  assumes "turn k0 d [CallFinish] c fs k" and "threads k0 d = None" and "frames k0 d = []"
  shows "\<exists>k'. reaches k [] k' \<and> alone k0 c fs k'"
  by (rule quiet_reaches [of 5]) (use assms in \<open>auto simp: state_defs step_simps Finish_def Sleep_def run_SleepLoop_def\<close>)

lemma Thread_SelfTest_runs:
  assumes "alone k0 c (Thread_SelfTest @ fs) k" and "fresh k0"
  shows "\<exists>k'. reaches k (concat (map (\<lambda>num. [(1, num), (0, num)]) [0..<5])) k' \<and> alone k0 c fs k'"
proof -
  have k0: "threads k0 (nextThread k) = None" "frames k0 (nextThread k) = []"
    using assms by (simp_all add: alone_def fresh_def)
  obtain k1 where k1: "reaches k [] k1" "turn k0 (nextThread k) (SimpleThread_from 1 0 @ [CallFinish]) c (SimpleThread_from 0 0 @ fs) k1"
    using alone_fork [of k0 c "SimpleThread 0 @ fs" k] assms by (auto simp: Thread_SelfTest_def SimpleThread_def)
  have e: "SimpleThread_from w 5 = []" for w by (simp add: SimpleThread_from_def)
  obtain k2 where k2: "reaches k1 (concat (map (\<lambda>num. [(1, num), (0, num)]) [0..<5])) k2" "turn k0 (nextThread k) [CallFinish] c fs k2"
    using turn_rounds [OF k1(2), of 5] by (auto simp: e)
  obtain k3 where k3: "reaches k2 [] k3" "alone k0 c fs k3" using turn_finish [OF k2(2) k0] by blast
  show ?thesis using reaches_trans [OF k1(1) reaches_trans [OF k2(1) k3(1)]] k3(2) by auto
qed

lemma alone_fork_line:
  assumes "alone k0 c (CallFork 1 # CallCode (line_code 0 0) # CallYield # fs) k"
  shows "\<exists>k'. reaches k [(0, 0)] k' \<and> turn k0 (nextThread k) (SimpleThread 1 @ [CallFinish]) c fs k'"
proof -
  define forked where "forked k' \<longleftrightarrow> currentThread k' = c \<and> frames k' c = CallCode 3 # CallYield # fs \<and> klevel k' = IntOn \<and> readyList k' = [nextThread k] \<and>
     frames k' (nextThread k) = [ThreadBegin, CallCode 1, CallFinish] \<and> alive c k' \<and> alive (nextThread k) k' \<and> toBeDestroyed k' = None \<and>
     same_others {c, nextThread k} k0 k' \<and> c < nextThread k \<and> nextThread k' = Suc (nextThread k) \<and> nextThread k0 \<le> nextThread k" for k'
  obtain k1 where k1: "reaches k [] k1" "forked k1"
    using quiet_reaches [of 2 forked k] assms by (auto simp: forked_def line_code_def state_defs step_simps Fork_def)
  obtain k2 where k2: "thread_step test_prog id k1 = Inr k2" "frames k2 = (frames k1)(c := CallYield # fs)" "k2 = k1\<lparr>frames := frames k2\<rparr>"
    using k1(2) by (simp add: forked_def thread_step_def push_def test_prog_def)
  have p: "printed k1 = [(0, 0)]" using k1(2) by (simp add: forked_def printed_def)
  have "quiet 4 (turn k0 (nextThread k) (SimpleThread 1 @ [CallFinish]) c fs) k2"
    by (subst k2(3), subst k2(2)) (use k1(2) in \<open>auto simp: forked_def state_defs step_simps Begin_def test_prog_def\<close>)
  then show ?thesis using quiet_reaches reaches_trans [OF k1(1) reaches_trans [OF reaches_step [OF k2(1)]]] p by fastforce
qed

lemma ThreadTest_runs:
  assumes "alone k0 c (ThreadTest @ fs) k"
  shows "\<exists>k'. reaches k ((0, 0) # concat (map (\<lambda>num. [(1, num), (0, num + 1)]) [0..<4]) @ [(1, 4)]) k' \<and> turn k0 c fs (nextThread k) [CallFinish] k'"
proof -
  have s: "ThreadTest @ fs = CallFork 1 # CallCode (line_code 0 0) # CallYield # SimpleThread_from 0 1 @ fs"
    using SimpleThread_from_Suc [of 0 0] by (simp add: ThreadTest_def SimpleThread_def)
  obtain k1 where k1: "reaches k [(0, 0)] k1" "turn k0 (nextThread k) (SimpleThread_from 1 0 @ [CallFinish]) c (SimpleThread_from 0 1 @ fs) k1"
    using alone_fork_line [OF assms [unfolded s]] by (auto simp: SimpleThread_def)
  obtain k2 where k2: "reaches k1 (concat (map (\<lambda>num. [(1, num), (0, num + 1)]) [0..<4])) k2"
    "turn k0 (nextThread k) (SimpleThread_from 1 4 @ [CallFinish]) c (SimpleThread_from 0 5 @ fs) k2" using turn_rounds [OF k1(2), of 4] by auto
  obtain k3 where k3: "reaches k2 [(1, 4)] k3" "turn k0 c (SimpleThread_from 0 5 @ fs) (nextThread k) (SimpleThread_from 1 5 @ [CallFinish]) k3"
    using turn_half [OF k2(2)] by auto
  have e: "SimpleThread_from w 5 = []" for w by (simp add: SimpleThread_from_def)
  show ?thesis using reaches_trans [OF k1(1) reaches_trans [OF k2(1) k3(1)]] k3(2) by (auto simp: e)
qed

section \<open>Two threads and two semaphores\<close>

text \<open>The helper has signalled \<open>pong\<close> with \<open>n\<close> rounds left; the main thread is ready. In \<open>main_turn\<close> the main thread runs, with \<open>n + 1\<close> rounds left, and the helper waits for \<open>ping\<close>.\<close>

definition helper_turn :: "kernel \<Rightarrow> nat \<Rightarrow> frame list \<Rightarrow> nat \<Rightarrow> nat \<Rightarrow> kernel \<Rightarrow> bool" where
  "helper_turn k0 c fs d n k \<longleftrightarrow> c \<noteq> d \<and> currentThread k = d \<and> frames k d = helper_loop n @ [CallFinish] \<and> klevel k = IntOn \<and> readyList k = [c] \<and>
     frames k c = AfterSwitch # P_loop pong # SetLevelBack IntOn # main_loop n @ fs \<and>
     sems k pong = \<lparr>semValue = 1, semQueue = []\<rparr> \<and> sems k ping = \<lparr>semValue = 0, semQueue = []\<rparr> \<and>
     alive c k \<and> alive d k \<and> toBeDestroyed k = None \<and> same_others {c, d} k0 k \<and>
     c < nextThread k \<and> d < nextThread k \<and> nextThread k0 \<le> nextThread k"

definition main_turn :: "kernel \<Rightarrow> nat \<Rightarrow> frame list \<Rightarrow> nat \<Rightarrow> nat \<Rightarrow> kernel \<Rightarrow> bool" where
  "main_turn k0 c fs d n k \<longleftrightarrow> c \<noteq> d \<and> currentThread k = c \<and> frames k c = main_loop (Suc n) @ fs \<and> klevel k = IntOn \<and> readyList k = [] \<and>
     frames k d = AfterSwitch # P_loop ping # SetLevelBack IntOn # CallV pong # helper_loop n @ [CallFinish] \<and>
     sems k pong = \<lparr>semValue = 0, semQueue = []\<rparr> \<and> sems k ping = \<lparr>semValue = 0, semQueue = [d]\<rparr> \<and>
     alive c k \<and> alive d k \<and> toBeDestroyed k = None \<and> same_others {c, d} k0 k \<and>
     c < nextThread k \<and> d < nextThread k \<and> nextThread k0 \<le> nextThread k"

lemma loops_Suc: "main_loop (Suc n) = CallV ping # CallP pong # main_loop n" "helper_loop (Suc n) = CallP ping # CallV pong # helper_loop n"
    "main_loop 0 = []" "helper_loop 0 = []"
  by (simp_all add: main_loop_def helper_loop_def)

lemma ping_pong_neq [simp]: "ping \<noteq> pong" "pong \<noteq> ping"
  by (simp_all add: ping_def pong_def)

lemmas sem_simps = Semaphore_P_def Semaphore_V_def run_P_loop_def V_body_def Sleep_def run_SleepLoop_def Finish_def Fork_def Begin_def

lemma helper_to_main: "helper_turn k0 c fs d (Suc n) k \<Longrightarrow> \<exists>k'. reaches k [] k' \<and> main_turn k0 c fs d n k'"
  by (rule quiet_reaches [of 7]) (auto simp: helper_turn_def main_turn_def loops_Suc(2) state_defs step_simps sem_simps)

lemma main_to_helper: "main_turn k0 c fs d n k \<Longrightarrow> \<exists>k'. reaches k [] k' \<and> helper_turn k0 c fs d n k'"
  by (rule quiet_reaches [of 11]) (auto simp: helper_turn_def main_turn_def loops_Suc(1) state_defs step_simps sem_simps)

lemma helper_finish:
  assumes "helper_turn k0 c fs d 0 k" and "threads k0 d = None" and "frames k0 d = []"
  shows "\<exists>k'. reaches k [] k' \<and> alone k0 c fs k' \<and> sems k' pong = \<lparr>semValue = 0, semQueue = []\<rparr> \<and> sems k' ping = \<lparr>semValue = 0, semQueue = []\<rparr>"
  by (rule quiet_reaches [of 6]) (use assms in \<open>auto simp: helper_turn_def loops_Suc(3,4) state_defs step_simps sem_simps\<close>)

lemma helper_rounds: "helper_turn k0 c fs d n k \<Longrightarrow> \<exists>k'. reaches k [] k' \<and> helper_turn k0 c fs d 0 k'"
proof (induction n arbitrary: k)
  case 0
  then show ?case using reaches_refl by blast
next
  case (Suc n)
  obtain k1 where k1: "reaches k [] k1" "main_turn k0 c fs d n k1" using helper_to_main [OF Suc.prems] by blast
  obtain k2 where k2: "reaches k1 [] k2" "helper_turn k0 c fs d n k2" using main_to_helper [OF k1(2)] by blast
  obtain k3 where "reaches k2 [] k3" "helper_turn k0 c fs d 0 k3" using Suc.IH [OF k2(2)] by blast
  then show ?case using reaches_trans [OF k1(1) reaches_trans [OF k2(1)]] by fastforce
qed

lemma semaphore_start:
  assumes "alone k0 c (CallFork 2 # main_loop (Suc n) @ fs) k" and "sems k pong = \<lparr>semValue = 0, semQueue = []\<rparr>" and "sems k ping = \<lparr>semValue = 0, semQueue = []\<rparr>"
    and "Semaphore_SelfTestHelper = helper_loop (Suc n)"
  shows "\<exists>k'. reaches k [] k' \<and> helper_turn k0 c fs (nextThread k) n k'"
  by (rule quiet_reaches [of 16]) (use assms(1-3) in \<open>auto simp: helper_turn_def loops_Suc(1,2) state_defs step_simps sem_simps test_prog_def assms(4)\<close>)

lemma Semaphore_SelfTest_runs:
  assumes "alone k0 c fs k" and "fresh k0" and "sems k pong = \<lparr>semValue = 0, semQueue = []\<rparr>"
  shows "\<exists>k1 k2. Semaphore_SelfTest k = Inr k1 \<and> reaches k1 [] k2 \<and> alone k0 c fs k2 \<and>
    sems k2 pong = \<lparr>semValue = 0, semQueue = []\<rparr> \<and> sems k2 ping = \<lparr>semValue = 0, semQueue = []\<rparr>"
proof -
  have k0: "threads k0 (nextThread k) = None" "frames k0 (nextThread k) = []" using assms by (simp_all add: alone_def fresh_def)
  define k1 where "k1 = push (CallFork 2 # main_loop 10) (Semaphore_new ping 0 k)"
  have k1: "Semaphore_SelfTest k = Inr k1" "nextThread k1 = nextThread k" "alone k0 c (CallFork 2 # main_loop (Suc 9) @ fs) k1"
      "sems k1 pong = \<lparr>semValue = 0, semQueue = []\<rparr>" "sems k1 ping = \<lparr>semValue = 0, semQueue = []\<rparr>"
    using assms by (auto simp: k1_def Semaphore_SelfTest_def Semaphore_new_def push_def state_defs)
  obtain k2 where k2: "reaches k1 [] k2" "helper_turn k0 c fs (nextThread k) 9 k2"
    using semaphore_start [OF k1(3-5)] k1(2) by (auto simp: Semaphore_SelfTestHelper_def)
  obtain k3 where k3: "reaches k2 [] k3" "helper_turn k0 c fs (nextThread k) 0 k3" using helper_rounds [OF k2(2)] by blast
  obtain k4 where k4: "reaches k3 [] k4" "alone k0 c fs k4" "sems k4 pong = \<lparr>semValue = 0, semQueue = []\<rparr>" "sems k4 ping = \<lparr>semValue = 0, semQueue = []\<rparr>"
    using helper_finish [OF k3(2) k0] by blast
  show ?thesis using k1(1) k4 reaches_trans [OF k2(1) reaches_trans [OF k3(1) k4(1)]] by auto
qed

section \<open>Property\<close>

text \<open>
  C35: The self tests of threads and semaphores run to their end from any kernel in which the current thread runs alone. The test of threads prints the ten lines of the two threads, one after
  the other in turn, the forked thread first; \<^verbatim>\<open>ThreadTest\<close> the same lines with the current thread first, and leaves the forked thread ready to finish. The test of a semaphore made with value 0 gets through its ten rounds and leaves both semaphores at 0 with nobody waiting; with any other value it fails its
  assertion. After each self test the forked thread has been destroyed, the current thread goes on alone, and no other thread or semaphore has changed.
\<close>

theorem thread_self_tests:
  assumes "alone k c fs k" and "fresh k"
  shows "(\<exists>k'. reaches (push Thread_SelfTest k) [(1, 0), (0, 0), (1, 1), (0, 1), (1, 2), (0, 2), (1, 3), (0, 3), (1, 4), (0, 4)] k' \<and> alone k c fs k') \<and>
    (\<exists>k'. reaches (push ThreadTest k) [(0, 0), (1, 0), (0, 1), (1, 1), (0, 2), (1, 2), (0, 3), (1, 3), (0, 4), (1, 4)] k' \<and>
       turn k c fs (nextThread k) [CallFinish] k') \<and>
    (\<exists>k1 k2. Semaphore_SelfTest (Semaphore_new pong 0 k) = Inr k1 \<and> reaches k1 [] k2 \<and> alone k c fs k2 \<and>
       sems k2 pong = \<lparr>semValue = 0, semQueue = []\<rparr> \<and> sems k2 ping = \<lparr>semValue = 0, semQueue = []\<rparr>) \<and>
    (v \<noteq> 0 \<longrightarrow> Semaphore_SelfTest (Semaphore_new pong v k) = Inl AssertFailed)"
proof (intro conjI impI)
  have "alone k c (Thread_SelfTest @ fs) (push Thread_SelfTest k)" using assms(1) by (simp add: state_defs push_def)
  from Thread_SelfTest_runs [OF this assms(2)]
  show "\<exists>k'. reaches (push Thread_SelfTest k) [(1, 0), (0, 0), (1, 1), (0, 1), (1, 2), (0, 2), (1, 3), (0, 3), (1, 4), (0, 4)] k' \<and> alone k c fs k'"
    by (simp add: upt_rec eval_nat_numeral)
  have "alone k c (ThreadTest @ fs) (push ThreadTest k)" "nextThread (push ThreadTest k) = nextThread k" using assms(1) by (simp_all add: state_defs push_def)
  from ThreadTest_runs [OF this(1)] this(2)
  show "\<exists>k'. reaches (push ThreadTest k) [(0, 0), (1, 0), (0, 1), (1, 1), (0, 2), (1, 2), (0, 3), (1, 3), (0, 4), (1, 4)] k' \<and>
       turn k c fs (nextThread k) [CallFinish] k'"
    by (simp add: upt_rec eval_nat_numeral)
  have "alone k c fs (Semaphore_new pong 0 k)" using assms(1) by (simp add: state_defs Semaphore_new_def)
  from Semaphore_SelfTest_runs [OF this assms(2)]
  show "\<exists>k1 k2. Semaphore_SelfTest (Semaphore_new pong 0 k) = Inr k1 \<and> reaches k1 [] k2 \<and> alone k c fs k2 \<and>
       sems k2 pong = \<lparr>semValue = 0, semQueue = []\<rparr> \<and> sems k2 ping = \<lparr>semValue = 0, semQueue = []\<rparr>"
    by (simp add: Semaphore_new_def)
  show "v \<noteq> 0 \<Longrightarrow> Semaphore_SelfTest (Semaphore_new pong v k) = Inl AssertFailed" by (simp add: Semaphore_SelfTest_def Semaphore_new_def)
qed

theorem thread_self_tests_witness:
  "\<exists>k'. reaches (push Thread_SelfTest (Initialize 0 (\<lambda>_. 0) []))
      [(1, 0), (0, 0), (1, 1), (0, 1), (1, 2), (0, 2), (1, 3), (0, 3), (1, 4), (0, 4)] k' \<and> frames k' 0 = [CallCode 0, CallFinish] \<and> threads k' 1 = None"
proof -
  have a: "alone (Initialize 0 (\<lambda>_. 0) []) 0 [CallCode 0, CallFinish] (Initialize 0 (\<lambda>_. 0) [])" "fresh (Initialize 0 (\<lambda>_. 0) [])"
    by (simp_all add: state_defs fresh_def Initialize_def)
  have t: "threads (Initialize 0 (\<lambda>_. 0) []) 1 = None" by (simp add: Initialize_def)
  show ?thesis using thread_self_tests [OF a, of 0] t by (auto simp: alone_def same_others_def)
qed

end
